(* ===== verification/JsPrelude.thy ===== *)
theory JsPrelude
  imports Main "HOL-Library.Word" "HOL-Library.Sublist"
begin

text \<open>
  The JavaScript values the pages of \<open>src/html\<close> compute with, and the few operations of the
  language and of its standard library they use.

  A string is a list of UTF-16 code units (\<open>16 word\<close>), so \<open>length\<close>, indexing and
  \<open>charCodeAt\<close> count what JavaScript counts and \<open>String.fromCharCode\<close> wraps at 16 bits.
  A handler that may throw is a function from the state to a result and a state: a thrown error
  keeps the writes made before it, as in JavaScript.
\<close>

named_theorems js_simps \<open>equations that evaluate handlers and string operations\<close>

type_synonym jschar = "16 word"
type_synonym jstr = "jschar list"

definition js :: "string \<Rightarrow> jstr" where
  "js s = map of_char s"

abbreviation cu :: "char \<Rightarrow> jschar" where
  "cu c \<equiv> of_char c"

lemma js_Nil [simp]: "js [] = []"
  by (simp add: js_def)

lemma length_js [simp]: "length (js s) = length s"
  by (simp add: js_def)

lemma js_append: "js (s @ t) = js s @ js t"
  by (simp add: js_def)

lemma js_eq_Nil_iff [simp]: "js s = [] \<longleftrightarrow> s = []" "[] = js s \<longleftrightarrow> s = []"
  by (auto simp: js_def)

lemma unat_cu: "unat (cu c) = of_char c"
proof -
  have "(of_char c :: nat) mod 65536 = of_char c"
    by (rule mod_less, rule less_trans [of _ 256]) simp_all
  then have "unat (of_nat (of_char c) :: jschar) = of_char c" by (simp add: unat_of_nat)
  then show ?thesis by (simp add: of_nat_of_char)
qed

lemma cu_inject: "cu c = cu d \<longleftrightarrow> c = d"
  by (metis unat_cu of_char_eq_iff)

lemma js_inject [simp]: "js a = js b \<longleftrightarrow> a = b"
proof -
  have "inj (of_char :: char \<Rightarrow> jschar)"
    by (rule injI) (simp add: cu_inject)
  then show ?thesis by (simp add: js_def inj_map_eq_map)
qed

section \<open>Errors and handlers\<close>

datatype js_error =
    TypeError
  | ReferenceError jstr
  | SyntaxError
  | InvalidCharacterError
  | URIError
  | Thrown jstr

type_synonym ('s, 'a) handler = "'s \<Rightarrow> (js_error + 'a) \<times> 's"

definition ret :: "'a \<Rightarrow> ('s, 'a) handler" where
  "ret x s = (Inr x, s)"

definition throw :: "js_error \<Rightarrow> ('s, 'a) handler" where
  "throw e s = (Inl e, s)"

definition bnd :: "('s, 'a) handler \<Rightarrow> ('a \<Rightarrow> ('s, 'b) handler) \<Rightarrow> ('s, 'b) handler" where
  "bnd m f s = (case m s of (Inl e, s') \<Rightarrow> (Inl e, s') | (Inr x, s') \<Rightarrow> f x s')"

abbreviation seq :: "('s, unit) handler \<Rightarrow> ('s, 'b) handler \<Rightarrow> ('s, 'b) handler" where
  "seq m n \<equiv> bnd m (\<lambda>_. n)"

definition gets :: "('s \<Rightarrow> 'a) \<Rightarrow> ('s, 'a) handler" where
  "gets f s = (Inr (f s), s)"

definition modify :: "('s \<Rightarrow> 's) \<Rightarrow> ('s, unit) handler" where
  "modify f s = (Inr (), f s)"

definition lift :: "js_error + 'a \<Rightarrow> ('s, 'a) handler" where
  "lift r s = (r, s)"

fun each :: "('a \<Rightarrow> ('s, 'b) handler) \<Rightarrow> 'a list \<Rightarrow> ('s, 'b list) handler" where
  "each f [] = ret []"
| "each f (x # xs) = bnd (f x) (\<lambda>y. bnd (each f xs) (\<lambda>ys. ret (y # ys)))"

lemma ret_run [simp]: "ret x s = (Inr x, s)"
  by (simp add: ret_def)

lemma throw_run [simp]: "throw e s = (Inl e, s)"
  by (simp add: throw_def)

lemma gets_run [simp]: "gets f s = (Inr (f s), s)"
  by (simp add: gets_def)

lemma modify_run [simp]: "modify f s = (Inr (), f s)"
  by (simp add: modify_def)

lemma lift_run [simp]: "lift r s = (r, s)"
  by (simp add: lift_def)

lemma bnd_Inr [simp]: "m s = (Inr x, s') \<Longrightarrow> bnd m f s = f x s'"
  by (simp add: bnd_def)

lemma bnd_Inl [simp]: "m s = (Inl e, s') \<Longrightarrow> bnd m f s = (Inl e, s')"
  by (simp add: bnd_def)

lemma bnd_ret_left: "bnd (ret x) f = f x"
  by (simp add: fun_eq_iff)

lemma bnd_Inr_iff:
  "bnd m f s = (Inr y, t) \<longleftrightarrow> (\<exists>x u. m s = (Inr x, u) \<and> f x u = (Inr y, t))"
  by (auto simp: bnd_def split: prod.splits sum.splits)

lemma bnd_assoc: "bnd (bnd m f) g = bnd m (\<lambda>x. bnd (f x) g)"
  by (auto simp: bnd_def fun_eq_iff split: prod.splits sum.splits)

text \<open>
  A handler keeps a property of the state when it holds after every run that started with it,
  whether the run threw or not.
\<close>

definition keeps :: "('s \<Rightarrow> bool) \<Rightarrow> ('s, 'a) handler \<Rightarrow> bool" where
  "keeps P m \<longleftrightarrow> (\<forall>s. P s \<longrightarrow> P (snd (m s)))"

lemma keepsD: "keeps P m \<Longrightarrow> P s \<Longrightarrow> P (snd (m s))"
  by (simp add: keeps_def)

named_theorems keeps_intros \<open>rules that show a handler keeps a property of the state\<close>

lemma keeps_ret [keeps_intros]: "keeps P (ret x)"
  and keeps_throw [keeps_intros]: "keeps P (throw e)"
  and keeps_gets [keeps_intros]: "keeps P (gets f)"
  and keeps_lift [keeps_intros]: "keeps P (lift r)"
  by (simp_all add: keeps_def)

lemma keeps_modify [keeps_intros]: "(\<And>s. P s \<Longrightarrow> P (f s)) \<Longrightarrow> keeps P (modify f)"
  by (simp add: keeps_def)

lemma keeps_bnd [keeps_intros]:
  assumes "keeps P m" and "\<And>x. keeps P (f x)"
  shows "keeps P (bnd m f)"
  unfolding keeps_def
proof (intro allI impI)
  fix s assume "P s"
  with assms(1) have "P (snd (m s))" by (rule keepsD)
  with assms(2) show "P (snd (bnd m f s))"
    by (auto simp: bnd_def keeps_def split: prod.splits sum.splits)
qed

lemma keeps_each [keeps_intros]: "(\<And>x. keeps P (f x)) \<Longrightarrow> keeps P (each f xs)"
  by (induction xs) (auto intro!: keeps_intros)

section \<open>Numbers as text\<close>

fun show_nat :: "nat \<Rightarrow> jstr" where
  "show_nat n = (if n < 10 then [48 + of_nat n] else show_nat (n div 10) @ [48 + of_nat (n mod 10)])"

declare show_nat.simps [simp del]

lemma show_nat_nonempty [simp]: "show_nat n \<noteq> []"
  by (subst show_nat.simps) simp

definition is_digit :: "jschar \<Rightarrow> bool" where
  "is_digit c \<longleftrightarrow> 48 \<le> c \<and> c \<le> 57"

definition digit_val :: "jschar \<Rightarrow> nat" where
  "digit_val c = unat c - 48"

lemma digit_of_nat:
  assumes "d < 10"
  shows "is_digit (48 + of_nat d)" and "digit_val (48 + of_nat d) = d"
proof -
  have "unat (of_nat d :: jschar) = d"
    using assms by (simp add: unat_of_nat)
  then have u: "unat (48 + of_nat d :: jschar) = 48 + d"
    using assms by (simp add: unat_word_ariths)
  then show "is_digit (48 + of_nat d)"
    using assms by (simp add: is_digit_def word_le_nat_alt)
  from u show "digit_val (48 + of_nat d) = d"
    by (simp add: digit_val_def)
qed

lemma show_nat_digits: "\<forall>c \<in> set (show_nat n). is_digit c"
proof (induction n rule: show_nat.induct)
  case (1 n)
  then show ?case
    by (subst show_nat.simps) (auto simp: digit_of_nat)
qed

definition read_nat :: "jstr \<Rightarrow> nat" where
  "read_nat ds = foldl (\<lambda>n c. 10 * n + digit_val c) 0 ds"

lemma read_nat_snoc: "read_nat (ds @ [c]) = 10 * read_nat ds + digit_val c"
  by (simp add: read_nat_def)

lemma read_show_nat [simp]: "read_nat (show_nat n) = n"
proof (induction n rule: show_nat.induct)
  case (1 n)
  show ?case
  proof (cases "n < 10")
    case True
    then show ?thesis
      by (subst show_nat.simps) (simp add: read_nat_def digit_of_nat)
  next
    case False
    with 1 show ?thesis
      by (subst show_nat.simps) (simp add: read_nat_snoc digit_of_nat)
  qed
qed

lemma show_nat_inject [simp]: "show_nat m = show_nat n \<longleftrightarrow> m = n"
  by (metis read_show_nat)

definition show_int :: "int \<Rightarrow> jstr" where
  "show_int i = (if i < 0 then cu CHR ''-'' # show_nat (nat (- i)) else show_nat (nat i))"

section \<open>Runs over lines\<close>

text \<open>
  A loop over lines, or over other items, that only ever appends to its output: the contract the
  tables of the log viewers share.
\<close>

locale line_table =
  fixes step :: "'l \<Rightarrow> 's \<Rightarrow> 's"
    and loop :: "'l list \<Rightarrow> 's \<Rightarrow> 's"
    and out :: "'s \<Rightarrow> jstr"
  assumes loop_Nil: "loop [] s = s"
    and loop_Cons: "loop (l # ls) s = loop ls (step l s)"
    and appends: "\<exists>r. out (step l s) = out s @ r"
begin

lemma loop_append: "loop (xs @ ys) s = loop ys (loop xs s)"
  by (induction xs arbitrary: s) (simp_all add: loop_Nil loop_Cons)

lemma loop_prefix: "prefix (out s) (out (loop ls s))"
proof (induction ls arbitrary: s)
  case (Cons l ls)
  have "prefix (out s) (out (step l s))" using appends by (auto simp: prefix_def)
  also have "prefix \<dots> (out (loop ls (step l s)))" by (rule Cons.IH)
  finally show ?case by (simp add: loop_Cons)
qed (simp add: loop_Nil)

lemma loop_rows:
  "(\<And>l s. l \<in> set ls \<Longrightarrow> out (step l s) = out s @ row l) \<Longrightarrow>
    out (loop ls s) = out s @ concat (map row ls)"
  by (induction ls arbitrary: s) (simp_all add: loop_Nil loop_Cons)

end

section \<open>Invariants of step systems\<close>

text \<open>
  A page is a machine: it starts in one of its initial states and each event takes it from a
  state to a next one.
\<close>

inductive reachable :: "('s \<Rightarrow> bool) \<Rightarrow> ('s \<Rightarrow> 's \<Rightarrow> bool) \<Rightarrow> 's \<Rightarrow> bool"
  for init :: "'s \<Rightarrow> bool" and step :: "'s \<Rightarrow> 's \<Rightarrow> bool" where
  start: "init s \<Longrightarrow> reachable init step s"
| event: "reachable init step s \<Longrightarrow> step s t \<Longrightarrow> reachable init step t"

locale machine =
  fixes init :: "'s \<Rightarrow> bool"
    and step :: "'s \<Rightarrow> 's \<Rightarrow> bool"
    and inv :: "'s \<Rightarrow> bool"
  assumes inv_init: "init s \<Longrightarrow> inv s"
    and inv_step: "inv s \<Longrightarrow> step s t \<Longrightarrow> inv t"
begin

lemma always: "reachable init step s \<Longrightarrow> inv s"
  by (induction rule: reachable.induct) (auto intro: inv_init inv_step)

end

section \<open>Tables\<close>

text \<open>
  A table with a default: what the scripts ask of a dictionary keyed by an element id and of an
  array indexed by a parameter number.
\<close>

locale table =
  fixes look :: "'t \<Rightarrow> 'k \<Rightarrow> 'v option"
    and put :: "'t \<Rightarrow> 'k \<Rightarrow> 'v \<Rightarrow> 't"
  assumes look_put: "look (put t k v) k' = (if k' = k then Some v else look t k')"
begin

lemma look_puts:
  "look (foldl (\<lambda>t (k, v). put t k v) t kvs) k =
    (case map_of (rev kvs) k of None \<Rightarrow> look t k | Some v \<Rightarrow> Some v)"
  by (induction kvs arbitrary: t) (auto simp: look_put map_add_def split: option.splits)

end

text \<open>A table of lists to whose entries items are pushed.\<close>

locale list_table = table look put
  for look :: "'t \<Rightarrow> 'k \<Rightarrow> 'x list option" and put :: "'t \<Rightarrow> 'k \<Rightarrow> 'x list \<Rightarrow> 't" +
  fixes push :: "'t \<Rightarrow> 'k \<Rightarrow> 'x \<Rightarrow> 't"
  assumes push_there: "look t k = Some xs \<Longrightarrow> push t k x = put t k (xs @ [x])"
begin

lemma look_pushes:
  assumes "\<forall>(k, y) \<in> set kxs. look t k \<noteq> None"
  shows "look (foldl (\<lambda>t (k, x). push t k x) t kxs) k =
    map_option (\<lambda>xs. xs @ map snd (filter (\<lambda>(k', x). k' = k) kxs)) (look t k)"
  using assms
proof (induction kxs arbitrary: t)
  case Nil
  then show ?case by (simp add: option.map_ident)
next
  case (Cons p kxs)
  obtain k' x where p: "p = (k', x)" by (cases p)
  then obtain xs where xs: "look t k' = Some xs" using Cons.prems by auto
  have "\<forall>(k, y) \<in> set kxs. look (push t k' x) k \<noteq> None"
    using Cons.prems xs by (auto simp: push_there look_put)
  from Cons.IH [OF this] xs show ?case
    by (auto simp: p push_there look_put option.map_comp comp_def)
qed

end

section \<open>Readers\<close>

text \<open>A family of handlers that, where its parameters are there, return a value and change nothing.\<close>

locale reader =
  fixes read :: "'p \<Rightarrow> ('s, 'v) handler"
    and ok :: "'s \<Rightarrow> 'p \<Rightarrow> bool"
  assumes reads: "ok s p \<Longrightarrow> \<exists>v. read p s = (Inr v, s)"
begin

lemma reads_all:
  "\<forall>p \<in> set ps. ok s p \<Longrightarrow> \<exists>vs. each read ps s = (Inr vs, s) \<and> length vs = length ps
    \<and> (\<forall>n < length ps. read (ps ! n) s = (Inr (vs ! n), s))"
proof (induction ps)
  case (Cons p ps)
  then obtain v vs where "read p s = (Inr v, s)" and "each read ps s = (Inr vs, s)"
    "length vs = length ps" "\<forall>n < length ps. read (ps ! n) s = (Inr (vs ! n), s)"
    using reads [of s p] by auto
  then show ?case by (auto simp: nth_Cons' less_Suc_eq_0_disj intro!: exI [of _ "v # vs"])
qed simp

end

lemma each_map: "each (\<lambda>x. f (g x)) xs = each f (map g xs)"
  by (induction xs) simp_all

section \<open>Triples\<close>

text \<open>
  \<open>triple P m Q E\<close>: from a state with \<open>P\<close>, a run of \<open>m\<close> that returns \<open>x\<close> ends in \<open>Q x\<close> and a run
  that throws ends in \<open>E\<close>.
\<close>

definition triple :: "('s \<Rightarrow> bool) \<Rightarrow> ('s, 'a) handler \<Rightarrow> ('a \<Rightarrow> 's \<Rightarrow> bool) \<Rightarrow> ('s \<Rightarrow> bool) \<Rightarrow> bool" where
  "triple P m Q E \<longleftrightarrow> (\<forall>s. P s \<longrightarrow> (case m s of (Inl e, t) \<Rightarrow> E t | (Inr x, t) \<Rightarrow> Q x t))"

lemma tripleD:
  assumes "triple P m Q E" and "P s"
  shows "m s = (Inl e, t) \<Longrightarrow> E t" and "m s = (Inr x, t) \<Longrightarrow> Q x t"
  using assms unfolding triple_def by force+

lemma triple_bnd:
  assumes "triple P m R E" and "\<And>x. triple (R x) (f x) Q E"
  shows "triple P (bnd m f) Q E"
  unfolding triple_def
proof (intro allI impI)
  fix s assume P: "P s"
  obtain r t where m: "m s = (r, t)" by (cases "m s")
  show "case bnd m f s of (Inl e, t) \<Rightarrow> E t | (Inr x, t) \<Rightarrow> Q x t"
  proof (cases r)
    case (Inl e)
    with m tripleD(1) [OF assms(1) P] show ?thesis by simp
  next
    case (Inr x)
    with m tripleD(2) [OF assms(1) P] have "R x t" by blast
    with assms(2) m Inr show ?thesis by (simp add: triple_def)
  qed
qed

lemma triple_keeps: "keeps P m \<Longrightarrow> (\<And>s. P s \<Longrightarrow> E s) \<Longrightarrow> triple P m (\<lambda>_. P) E"
  unfolding triple_def keeps_def by (fastforce split: prod.splits sum.splits)

lemma triple_modify: "(\<And>s. P s \<Longrightarrow> Q () (f s)) \<Longrightarrow> triple P (modify f) Q E"
  by (simp add: triple_def)

lemma triple_gets: "triple P (gets f) (\<lambda>x s. P s \<and> x = f s) E"
  by (simp add: triple_def)

lemma triple_weaken:
  "triple P m Q E \<Longrightarrow> (\<And>x s. Q x s \<Longrightarrow> Q' x s) \<Longrightarrow> (\<And>s. E s \<Longrightarrow> E' s) \<Longrightarrow> triple P m Q' E'"
  by (fastforce simp: triple_def split: prod.splits sum.splits)

end
