(* ===== verification/JsValue.thy ===== *)
theory JsValue
  imports JsPrelude
begin

text \<open>
  JavaScript values as the pages use them, with the conversions of the language (\<open>ToString\<close>,
  \<open>ToBoolean\<close>, comparison with a string by \<open>==\<close>, property reads) and the library functions
  \<open>JSON.stringify\<close>, \<open>parseInt\<close>, \<open>String.prototype.split\<close> and \<open>Array.prototype.join\<close>.

  Numbers are the integers the pages compute with, and NaN; fractions, infinities and the
  rounding of integers beyond 2 to the power 53 do not occur in what is modelled.  An object is
  the list of its own properties in insertion order.
\<close>

datatype jnum = NaN | Fin int

datatype jsval =
    JUndef
  | JNull
  | JBool bool
  | JNum jnum
  | JStr jstr
  | JArr "jsval list"
  | JObj "(jstr \<times> jsval) list"

abbreviation JInt :: "int \<Rightarrow> jsval" where
  "JInt i \<equiv> JNum (Fin i)"

definition show_num :: "jnum \<Rightarrow> jstr" where
  "show_num n = (case n of NaN \<Rightarrow> js ''NaN'' | Fin i \<Rightarrow> show_int i)"

definition join :: "jstr \<Rightarrow> jstr list \<Rightarrow> jstr" where
  "join sep xs = (case xs of [] \<Rightarrow> [] | x # xs' \<Rightarrow> x @ concat (map (\<lambda>y. sep @ y) xs'))"

lemma join_simps [simp]:
  "join sep [] = []"
  "join sep [x] = x"
  "join sep (x # y # xs) = x @ sep @ join sep (y # xs)"
  by (simp_all add: join_def)

fun to_string :: "jsval \<Rightarrow> jstr" where
  "to_string JUndef = js ''undefined''"
| "to_string JNull = js ''null''"
| "to_string (JBool b) = js (if b then ''true'' else ''false'')"
| "to_string (JNum n) = show_num n"
| "to_string (JStr s) = s"
| "to_string (JArr vs) =
     join (js '','') (map (\<lambda>v. if v = JUndef \<or> v = JNull then [] else to_string v) vs)"
| "to_string (JObj kvs) = js ''[object Object]''"

definition truthy :: "jsval \<Rightarrow> bool" where
  "truthy v = (case v of JUndef \<Rightarrow> False | JNull \<Rightarrow> False | JBool b \<Rightarrow> b
     | JNum n \<Rightarrow> n \<noteq> NaN \<and> n \<noteq> Fin 0 | JStr s \<Rightarrow> s \<noteq> [] | JArr _ \<Rightarrow> True | JObj _ \<Rightarrow> True)"

text \<open>
  \<open>v == s\<close> where the string \<open>s\<close> is no numeral: a number or a boolean is then compared with
  NaN and differs.
\<close>

definition loose_eq_str :: "jsval \<Rightarrow> jstr \<Rightarrow> bool" where
  "loose_eq_str v s = (case v of JStr t \<Rightarrow> t = s | JArr _ \<Rightarrow> to_string v = s
     | JObj _ \<Rightarrow> to_string v = s | _ \<Rightarrow> False)"

definition get_prop :: "jsval \<Rightarrow> jstr \<Rightarrow> js_error + jsval" where
  "get_prop v k = (case v of JUndef \<Rightarrow> Inl TypeError | JNull \<Rightarrow> Inl TypeError
     | JObj kvs \<Rightarrow> (case map_of kvs k of None \<Rightarrow> Inr JUndef | Some x \<Rightarrow> Inr x)
     | _ \<Rightarrow> Inr JUndef)"

lemma get_prop_undef [simp]: "get_prop JUndef k = Inl TypeError"
  by (simp add: get_prop_def)

lemma get_prop_null [simp]: "get_prop JNull k = Inl TypeError"
  by (simp add: get_prop_def)

lemma get_prop_str [simp]: "get_prop (JStr s) k = Inr JUndef"
  by (simp add: get_prop_def)

lemma get_prop_obj [simp]:
  "get_prop (JObj kvs) k = (case map_of kvs k of None \<Rightarrow> Inr JUndef | Some x \<Rightarrow> Inr x)"
  by (simp add: get_prop_def)

text \<open>Storing a property keeps its place in the order if it is there, and appends it otherwise.\<close>

fun set_prop :: "('k \<times> 'v) list \<Rightarrow> 'k \<Rightarrow> 'v \<Rightarrow> ('k \<times> 'v) list" where
  "set_prop [] k v = [(k, v)]"
| "set_prop ((k', v') # kvs) k v =
     (if k' = k then (k, v) # kvs else (k', v') # set_prop kvs k v)"

lemma map_of_set_prop [simp]: "map_of (set_prop kvs k v) = (map_of kvs)(k \<mapsto> v)"
  by (induction kvs k v rule: set_prop.induct) auto

lemma keys_set_prop:
  "map fst (set_prop kvs k v) = (if k \<in> fst ` set kvs then map fst kvs else map fst kvs @ [k])"
  by (induction kvs k v rule: set_prop.induct) auto

lemma distinct_set_prop: "distinct (map fst kvs) \<Longrightarrow> distinct (map fst (set_prop kvs k v))"
  by (auto simp: keys_set_prop)

section \<open>JSON.stringify\<close>

definition hex_digit :: "nat \<Rightarrow> jschar" where
  "hex_digit n = (if n < 10 then 48 + of_nat n else 87 + of_nat n)"

definition hex4 :: "jschar \<Rightarrow> jstr" where
  "hex4 c = (let n = unat c in
     [hex_digit (n div 4096 mod 16), hex_digit (n div 256 mod 16),
      hex_digit (n div 16 mod 16), hex_digit (n mod 16)])"

definition high_surrogate :: "jschar \<Rightarrow> bool" where
  "high_surrogate c \<longleftrightarrow> 0xD800 \<le> c \<and> c \<le> 0xDBFF"

definition low_surrogate :: "jschar \<Rightarrow> bool" where
  "low_surrogate c \<longleftrightarrow> 0xDC00 \<le> c \<and> c \<le> 0xDFFF"

definition quote_unit :: "jschar \<Rightarrow> jstr" where
  "quote_unit c = (if c = 8 then [92, cu CHR ''b''] else if c = 9 then [92, cu CHR ''t'']
     else if c = 10 then [92, cu CHR ''n''] else if c = 12 then [92, cu CHR ''f'']
     else if c = 13 then [92, cu CHR ''r''] else if c = 34 then [92, 34]
     else if c = 92 then [92, 92]
     else if c < 32 \<or> high_surrogate c \<or> low_surrogate c then [92, cu CHR ''u''] @ hex4 c
     else [c])"

fun quote_units :: "jstr \<Rightarrow> jstr" where
  "quote_units (c # d # cs) =
     (if high_surrogate c \<and> low_surrogate d then c # d # quote_units cs
      else quote_unit c @ quote_units (d # cs))"
| "quote_units [c] = quote_unit c"
| "quote_units [] = []"

definition quote_json :: "jstr \<Rightarrow> jstr" where
  "quote_json s = [34] @ quote_units s @ [34]"

definition wrap_list :: "jschar \<Rightarrow> jschar \<Rightarrow> jstr \<Rightarrow> jstr \<Rightarrow> jstr list \<Rightarrow> jstr" where
  "wrap_list l r gap ind xs =
     (if xs = [] then [l, r]
      else if gap = [] then [l] @ join (js '','') xs @ [r]
      else [l, 10] @ ind @ gap @ join (js '','' @ [10] @ ind @ gap) xs @ [10] @ ind @ [r])"

text \<open>
  \<open>SerializeJSONProperty\<close> with a gap and the current indentation; None is the result
  \<open>undefined\<close>.
\<close>

fun ser :: "jstr \<Rightarrow> jstr \<Rightarrow> jsval \<Rightarrow> jstr option" where
  "ser gap ind JUndef = None"
| "ser gap ind JNull = Some (js ''null'')"
| "ser gap ind (JBool b) = Some (js (if b then ''true'' else ''false''))"
| "ser gap ind (JNum n) = Some (case n of NaN \<Rightarrow> js ''null'' | Fin i \<Rightarrow> show_int i)"
| "ser gap ind (JStr s) = Some (quote_json s)"
| "ser gap ind (JArr vs) = Some (wrap_list 91 93 gap ind
     (map (\<lambda>v. case ser gap (ind @ gap) v of None \<Rightarrow> js ''null'' | Some t \<Rightarrow> t) vs))"
| "ser gap ind (JObj kvs) = Some (wrap_list 123 125 gap ind
     (concat (map (\<lambda>(k, v). case ser gap (ind @ gap) v of None \<Rightarrow> []
        | Some t \<Rightarrow> [quote_json k @ js '':'' @ (if gap = [] then [] else js '' '') @ t]) kvs)))"

definition stringify :: "jsval \<Rightarrow> jsval" where
  "stringify v = (case ser [] [] v of None \<Rightarrow> JUndef | Some t \<Rightarrow> JStr t)"

definition stringify_gap :: "jstr \<Rightarrow> jsval \<Rightarrow> jsval" where
  "stringify_gap gap v = (case ser gap [] v of None \<Rightarrow> JUndef | Some t \<Rightarrow> JStr t)"

section \<open>parseInt\<close>

definition js_space :: "jschar \<Rightarrow> bool" where
  "js_space c \<longleftrightarrow> c \<in> {9, 10, 11, 12, 13, 32, 0xA0, 0x1680, 0x2028, 0x2029, 0x202F, 0x205F, 0x3000, 0xFEFF}
     \<or> 0x2000 \<le> c \<and> c \<le> 0x200A"

definition digit36 :: "jschar \<Rightarrow> nat" where
  "digit36 c = (let n = unat c in
     if 48 \<le> n \<and> n \<le> 57 then n - 48 else if 65 \<le> n \<and> n \<le> 90 then n - 55
     else if 97 \<le> n \<and> n \<le> 122 then n - 87 else 36)"

definition parse_digits :: "nat \<Rightarrow> jstr \<Rightarrow> jnum" where
  "parse_digits r s = (let ds = takeWhile (\<lambda>c. digit36 c < r) s in
     if ds = [] then NaN else Fin (int (foldl (\<lambda>n c. r * n + digit36 c) 0 ds)))"

definition parseInt :: "jstr \<Rightarrow> jnum" where
  "parseInt s0 =
     (let s1 = dropWhile js_space s0;
          neg = (take 1 s1 = js ''-'');
          s2 = (if take 1 s1 = js ''-'' \<or> take 1 s1 = js ''+'' then drop 1 s1 else s1);
          n = (if take 2 s2 = js ''0x'' \<or> take 2 s2 = js ''0X'' then parse_digits 16 (drop 2 s2)
               else parse_digits 10 s2)
      in case n of NaN \<Rightarrow> NaN | Fin i \<Rightarrow> Fin (if neg then - i else i))"

section \<open>Splitting\<close>

fun split_char :: "jschar \<Rightarrow> jstr \<Rightarrow> jstr list" where
  "split_char c [] = [[]]"
| "split_char c (x # xs) =
     (if x = c then [] # split_char c xs
      else case split_char c xs of [] \<Rightarrow> [[x]] | l # ls \<Rightarrow> (x # l) # ls)"

lemma split_char_nonempty [simp]: "split_char c s \<noteq> []"
  by (induction s) (auto split: list.splits)

lemma join_split: "join [c] (split_char c s) = s"
proof (induction s)
  case (Cons x xs)
  then show ?case
    by (cases "split_char c xs"; cases "tl (split_char c xs)") auto
qed simp

lemma split_char_free: "l \<in> set (split_char c s) \<Longrightarrow> c \<notin> set l"
  by (induction s arbitrary: l) (auto split: list.splits if_splits)

lemma split_char_lone: "c \<notin> set s \<Longrightarrow> split_char c s = [s]"
  by (induction s) auto

section \<open>Enumeration\<close>

text \<open>
  The order of \<open>for (t in threads)\<close>: array indices first, ascending, then the other keys in
  insertion order.
\<close>

definition is_index :: "jstr \<Rightarrow> bool" where
  "is_index t \<longleftrightarrow> show_nat (read_nat t) = t \<and> read_nat t < 2 ^ 32 - 1"

definition for_in_order :: "jstr list \<Rightarrow> jstr list" where
  "for_in_order ts = map show_nat (sort (map read_nat (filter is_index ts)))
     @ filter (\<lambda>t. \<not> is_index t) ts"

lemma set_for_in_order [simp]: "set (for_in_order ts) = set ts"
proof -
  have "show_nat ` read_nat ` {t \<in> set ts. is_index t} = {t \<in> set ts. is_index t}"
    by (force simp: is_index_def image_image)
  then show ?thesis by (auto simp: for_in_order_def)
qed

end
