(* ===== verification/JsRegExp.thy ===== *)
theory JsRegExp
  imports JsValue
begin

text \<open>
  The regular expressions of the language as far as the sources use them: classes, sequence,
  ordered alternative, greedy iteration, capture groups and the two anchors.  A matcher returns
  every way to match at a position, in the order in which the backtracking matcher of the
  language tries them, so the first one is the match the language reports.
\<close>

datatype re =
    Eps
  | Cls "jschar \<Rightarrow> bool"
  | Cat re re
  | Alt re re
  | Star re
  | Grp nat re
  | Bol
  | Eol

type_synonym caps = "nat \<Rightarrow> jstr option"

primrec groups :: "re \<Rightarrow> nat list" where
  "groups Eps = []"
| "groups (Cls p) = []"
| "groups (Cat r q) = groups r @ groups q"
| "groups (Alt r q) = groups r @ groups q"
| "groups (Star r) = groups r"
| "groups (Grp n r) = n # groups r"
| "groups Bol = []"
| "groups Eol = []"

definition clear_caps :: "nat list \<Rightarrow> caps \<Rightarrow> caps" where
  "clear_caps ns c = (\<lambda>n. if n \<in> set ns then None else c n)"

text \<open>
  Iteration: an empty round is not tried, so every round shortens the rest and the length of the
  rest is enough fuel.
\<close>

fun star_ways ::
  "(jstr \<times> caps \<Rightarrow> (jstr \<times> caps) list) \<Rightarrow> nat list \<Rightarrow> nat \<Rightarrow> jstr \<times> caps \<Rightarrow> (jstr \<times> caps) list" where
  "star_ways f ns 0 (s, c) = [(s, c)]"
| "star_ways f ns (Suc k) (s, c) =
     concat (map (\<lambda>(s', c'). if length s' < length s then star_ways f ns k (s', c') else [])
                 (f (s, clear_caps ns c))) @ [(s, c)]"

primrec ways :: "nat \<Rightarrow> re \<Rightarrow> jstr \<times> caps \<Rightarrow> (jstr \<times> caps) list" where
  "ways n0 Eps x = [x]"
| "ways n0 (Cls p) x = (case fst x of [] \<Rightarrow> [] | d # ds \<Rightarrow> if p d then [(ds, snd x)] else [])"
| "ways n0 (Cat r q) x = concat (map (ways n0 q) (ways n0 r x))"
| "ways n0 (Alt r q) x = ways n0 r x @ ways n0 q x"
| "ways n0 (Star r) x = star_ways (ways n0 r) (groups r) (length (fst x)) x"
| "ways n0 (Grp n r) x =
     map (\<lambda>(s', c'). (s', c'(n \<mapsto> take (length (fst x) - length s') (fst x)))) (ways n0 r x)"
| "ways n0 Bol x = (if length (fst x) = n0 then [x] else [])"
| "ways n0 Eol x = (if fst x = [] then [x] else [])"

lemma star_ways_suffix:
  assumes "y \<in> set (star_ways f ns k x)" and "\<And>x y. y \<in> set (f x) \<Longrightarrow> suffix (fst y) (fst x)"
  shows "suffix (fst y) (fst x)"
  using assms
proof (induction f ns k x rule: star_ways.induct)
  case (2 f ns k s c)
  from "2.prems"(1) consider "y = (s, c)"
    | s' c' where "(s', c') \<in> set (f (s, clear_caps ns c))" "length s' < length s"
        "y \<in> set (star_ways f ns k (s', c'))"
    by (auto split: if_splits)
  then show ?case
  proof cases
    case 2
    then have "suffix (fst y) s'" using "2.IH" "2.prems"(2) by fastforce
    moreover have "suffix s' s" using "2.prems"(2) 2(1) by fastforce
    ultimately show ?thesis by (auto intro: suffix_order.trans)
  qed simp
qed simp

lemma ways_suffix: "y \<in> set (ways n0 r x) \<Longrightarrow> suffix (fst y) (fst x)"
proof (induction r arbitrary: x y)
  case (Cat r q)
  from Cat.prems obtain z where "z \<in> set (ways n0 r x)" "y \<in> set (ways n0 q z)" by auto
  then show ?case using Cat.IH suffix_order.trans by blast
next
  case (Star r)
  then show ?case using star_ways_suffix [of y "ways n0 r"] by simp
next
  case (Grp n r)
  from Grp.prems obtain s' c' where "(s', c') \<in> set (ways n0 r x)" "fst y = s'" by auto
  then show ?case using Grp.IH by fastforce
qed (auto split: list.splits if_splits simp: suffix_Cons)

section \<open>Searching and replacing\<close>

text \<open>
  \<open>search\<close> finds the leftmost match: the text before it, the matched text, the text after it
  and the captures.
\<close>

fun search_from :: "nat \<Rightarrow> re \<Rightarrow> jstr \<Rightarrow> (jstr \<times> jstr \<times> jstr \<times> caps) option" where
  "search_from n0 r s =
     (case ways n0 r (s, \<lambda>_. None) of
        (t, c) # _ \<Rightarrow> Some ([], take (length s - length t) s, t, c)
      | [] \<Rightarrow> (case s of [] \<Rightarrow> None
          | d # ds \<Rightarrow> (case search_from n0 r ds of None \<Rightarrow> None
              | Some (pre, m, t, c) \<Rightarrow> Some (d # pre, m, t, c))))"

declare search_from.simps [simp del]

definition search :: "re \<Rightarrow> jstr \<Rightarrow> (jstr \<times> jstr \<times> jstr \<times> caps) option" where
  "search r s = search_from (length s) r s"

lemma take_suffix_append: "suffix t s \<Longrightarrow> take (length s - length t) s @ t = s"
  by (auto simp: suffix_def)

lemma search_from_split:
  "search_from n0 r s = Some (pre, m, t, c) \<Longrightarrow> s = pre @ m @ t"
proof (induction n0 r s arbitrary: pre rule: search_from.induct)
  case (1 n0 r s)
  show ?case
  proof (cases "ways n0 r (s, \<lambda>_. None)")
    case Nil
    with "1.prems" show ?thesis
      by (subst (asm) search_from.simps) (auto split: list.splits option.splits dest!: "1.IH" [OF Nil])
  next
    case (Cons y ys)
    then have "suffix (fst y) s" using ways_suffix [of y n0 r "(s, \<lambda>_. None)"] by simp
    with Cons "1.prems" show ?thesis
      by (subst (asm) search_from.simps) (auto simp: take_suffix_append split: prod.splits)
  qed
qed

lemma search_split: "search r s = Some (pre, m, t, c) \<Longrightarrow> s = pre @ m @ t"
  by (simp add: search_def search_from_split)

text \<open>\<open>String.prototype.match\<close> without the global flag: the whole match and the groups.\<close>

definition match_groups :: "re \<Rightarrow> jstr \<Rightarrow> jstr option list option" where
  "match_groups r s = (case search r s of None \<Rightarrow> None
     | Some (pre, m, t, c) \<Rightarrow> Some (Some m # map c (sort (groups r))))"

text \<open>
  \<open>String.prototype.replace\<close> with the global flag and a replacement function.  After an empty
  match the search goes on one unit further.
\<close>

function replace_from :: "nat \<Rightarrow> re \<Rightarrow> (jstr \<Rightarrow> caps \<Rightarrow> jstr) \<Rightarrow> jstr \<Rightarrow> jstr" where
  "replace_from n0 r f s =
     (case search_from n0 r s of None \<Rightarrow> s
      | Some (pre, m, t, c) \<Rightarrow> pre @ f m c @
          (if m \<noteq> [] then replace_from n0 r f t
           else case t of [] \<Rightarrow> [] | d # ds \<Rightarrow> d # replace_from n0 r f ds))"
  by pat_completeness auto
termination
  by (relation "measure (\<lambda>(n0, r, f, s). length s)")
     (auto dest!: search_from_split)

declare replace_from.simps [simp del]

definition replace_g :: "re \<Rightarrow> (jstr \<Rightarrow> caps \<Rightarrow> jstr) \<Rightarrow> jstr \<Rightarrow> jstr" where
  "replace_g r f s = replace_from (length s) r f s"

section \<open>Classes and literals\<close>

definition chr_re :: "char \<Rightarrow> re" where
  "chr_re d = Cls (\<lambda>c. c = cu d)"

fun lit :: "string \<Rightarrow> re" where
  "lit [] = Eps"
| "lit [d] = chr_re d"
| "lit (d # ds) = Cat (chr_re d) (lit ds)"

definition Plus :: "re \<Rightarrow> re" where
  "Plus r = Cat r (Star r)"

definition line_end :: "jschar \<Rightarrow> bool" where
  "line_end c \<longleftrightarrow> c \<in> {10, 13, 0x2028, 0x2029}"

definition dot :: re where
  "dot = Cls (\<lambda>c. \<not> line_end c)"

definition digit_re :: re where
  "digit_re = Cls is_digit"

definition nonspace_re :: re where
  "nonspace_re = Cls (\<lambda>c. \<not> js_space c)"

definition space_re :: re where
  "space_re = Cls js_space"

lemma groups_lit [simp]: "groups (lit ds) = []"
  by (induction ds rule: lit.induct) (auto simp: chr_re_def)

text \<open>A global replacement of one class of units is a unit-wise translation.\<close>

lemma search_from_Cls:
  "search_from n0 (Cls p) s =
     (if \<exists>c \<in> set s. p c then
        Some (takeWhile (\<lambda>c. \<not> p c) s, [hd (dropWhile (\<lambda>c. \<not> p c) s)],
              tl (dropWhile (\<lambda>c. \<not> p c) s), \<lambda>_. None)
      else None)"
  by (induction s) (subst search_from.simps; auto)+

lemma replace_from_Cls:
  "replace_from n0 (Cls p) f s = concat (map (\<lambda>c. if p c then f [c] (\<lambda>_. None) else [c]) s)"
proof (induction s)
  case Nil
  then show ?case
    by (subst replace_from.simps) (simp add: search_from_Cls)
next
  case (Cons d ds)
  show ?case
  proof (cases "p d")
    case True
    with Cons show ?thesis
      by (subst replace_from.simps) (simp add: search_from_Cls)
  next
    case False
    then have "replace_from n0 (Cls p) f (d # ds) = d # replace_from n0 (Cls p) f ds"
      by (subst (1 2) replace_from.simps) (simp add: search_from_Cls)
    with False Cons show ?thesis by simp
  qed
qed

lemma replace_g_Cls:
  "replace_g (Cls p) f s = concat (map (\<lambda>c. if p c then f [c] (\<lambda>_. None) else [c]) s)"
  by (simp add: replace_g_def replace_from_Cls)

section \<open>Runs of a class\<close>

text \<open>
  Greedy runs of one class, followed by something that cannot start inside the run, match in one
  way only.  The patterns of the log viewers are chains of such runs.
\<close>

lemma clear_caps_Nil [simp]: "clear_caps [] c = c"
  by (simp add: clear_caps_def)

lemma star_ways_Cls:
  "length s \<le> k \<Longrightarrow> star_ways (ways n0 (Cls p)) [] k (s, c) =
     map (\<lambda>i. (drop i s, c)) (rev [0..<Suc (length (takeWhile p s))])"
proof (induction k arbitrary: s)
  case 0
  then show ?case by simp
next
  case (Suc k)
  show ?case
  proof (cases s)
    case Nil
    then show ?thesis by simp
  next
    case (Cons d ds)
    show ?thesis
    proof (cases "p d")
      case True
      have "rev [0..<Suc (Suc (length (takeWhile p ds)))]
          = map Suc (rev [0..<Suc (length (takeWhile p ds))]) @ [0]"
        by (simp add: upt_conv_Cons map_Suc_upt [symmetric] rev_map del: upt_Suc)
      with True Cons Suc show ?thesis by (simp add: comp_def del: upt_Suc)
    next
      case False
      with Cons show ?thesis by simp
    qed
  qed
qed

lemma ways_Star_Cls:
  "ways n0 (Star (Cls p)) (s, c) =
     map (\<lambda>i. (drop i s, c)) (rev [0..<Suc (length (takeWhile p s))])"
  by (simp add: star_ways_Cls del: upt_Suc)

lemma ways_Plus_Cls:
  "ways n0 (Plus (Cls p)) (s, c) =
     map (\<lambda>i. (drop i s, c)) (rev [1..<Suc (length (takeWhile p s))])"
proof (cases s)
  case Nil
  then show ?thesis by (simp add: Plus_def)
next
  case (Cons d ds)
  have "rev [Suc 0..<Suc (Suc (length (takeWhile p ds)))]
      = map Suc (rev [0..<Suc (length (takeWhile p ds))])"
    by (simp add: map_Suc_upt [symmetric] rev_map del: upt_Suc)
  then show ?thesis
    unfolding Plus_def using Cons by (auto simp: star_ways_Cls comp_def simp del: upt_Suc)
qed

definition rejects :: "(jschar \<Rightarrow> bool) \<Rightarrow> re \<Rightarrow> bool" where
  "rejects p r \<longleftrightarrow> (\<forall>n0 d ds c. p d \<longrightarrow> ways n0 r (d # ds, c) = [])"

lemma rejects_Cls: "(\<And>d. p d \<Longrightarrow> \<not> q d) \<Longrightarrow> rejects p (Cls q)"
  by (simp add: rejects_def)

lemma rejects_Cat: "rejects p r \<Longrightarrow> rejects p (Cat r q)"
  by (simp add: rejects_def)

lemma rejects_Plus: "(\<And>d. p d \<Longrightarrow> \<not> q d) \<Longrightarrow> rejects p (Plus (Cls q))"
  unfolding Plus_def by (intro rejects_Cat rejects_Cls)

lemma rejects_Grp: "rejects p r \<Longrightarrow> rejects p (Grp n r)"
  by (simp add: rejects_def)

lemma drop_in_run:
  assumes "i < length (takeWhile p s)"
  obtains d ds where "drop i s = d # ds" and "p d"
proof
  have "i < length s" using assms length_takeWhile_le [of p s] by linarith
  then show "drop i s = s ! i # drop (Suc i) s" by (simp add: Cons_nth_drop_Suc)
  show "p (s ! i)" using assms by (metis nth_mem set_takeWhileD takeWhile_nth)
qed

lemma run_then:
  assumes "rejects p r"
  shows "concat (map (\<lambda>i. ways n0 r (drop i s, f i)) (rev [k..<Suc (length (takeWhile p s))]))
    = (if k \<le> length (takeWhile p s)
       then ways n0 r (dropWhile p s, f (length (takeWhile p s))) else [])"
proof -
  have "concat (map (\<lambda>i. ways n0 r (drop i s, f i)) (rev [k..<length (takeWhile p s)])) = []"
    using assms by (auto simp: rejects_def elim!: drop_in_run)
  then show ?thesis
    by (simp add: dropWhile_eq_drop)
qed

lemma ways_run:
  assumes "rejects p r"
  shows "ways n0 (Cat (Plus (Cls p)) r) (s, c) =
    (if takeWhile p s = [] then [] else ways n0 r (dropWhile p s, c))"
  using run_then [OF assms, of n0 s "\<lambda>_. c" 1]
  by (simp add: ways_Plus_Cls comp_def rev_map [symmetric] Suc_le_eq del: upt_Suc)

lemma ways_run_Grp:
  assumes "rejects p r"
  shows "ways n0 (Cat (Grp n (Plus (Cls p))) r) (s, c) =
    (if takeWhile p s = [] then []
     else ways n0 r (dropWhile p s, c(n \<mapsto> takeWhile p s)))"
proof -
  let ?f = "\<lambda>i. c(n \<mapsto> take (length s - length (drop i s)) s)"
  have "take (length s - length (dropWhile p s)) s = takeWhile p s"
    by (metis append_eq_conv_conj length_append takeWhile_dropWhile_id add_diff_cancel_right')
  then have "?f (length (takeWhile p s)) = c(n \<mapsto> takeWhile p s)"
    by (simp add: dropWhile_eq_drop)
  with run_then [OF assms, of n0 s ?f 1] show ?thesis
    by (simp add: ways_Plus_Cls comp_def Suc_le_eq del: upt_Suc)
qed

lemma ways_prefix_run_Grp:
  assumes "ways n0 r0 (p @ s, c) = [(s, c)]" and "rejects q r"
  shows "ways n0 (Cat (Grp n (Cat r0 (Plus (Cls q)))) r) (p @ s, c) =
    (if takeWhile q s = [] then []
     else ways n0 r (dropWhile q s, c(n \<mapsto> p @ takeWhile q s)))"
proof -
  let ?f = "\<lambda>i. c(n \<mapsto> take (length (p @ s) - length (drop i s)) (p @ s))"
  have "take (length s - length (dropWhile q s)) s = takeWhile q s"
    by (metis append_eq_conv_conj length_append takeWhile_dropWhile_id add_diff_cancel_right')
  then have "?f (length (takeWhile q s)) = c(n \<mapsto> p @ takeWhile q s)"
    using length_dropWhile_le [of q s] by (simp add: dropWhile_eq_drop)
  with run_then [OF assms(2), of n0 s ?f 1] show ?thesis
    by (simp add: assms(1) ways_Plus_Cls comp_def Suc_le_eq del: upt_Suc)
qed

lemma ways_rest_Grp:
  "ways n0 (Grp n (Star (Cls q))) (s, c) = (dropWhile q s, c(n \<mapsto> takeWhile q s))
     # map (\<lambda>i. (drop i s, c(n \<mapsto> take i s))) (rev [0..<length (takeWhile q s)])"
proof -
  have len: "length (takeWhile q s) \<le> length s" by (rule length_takeWhile_le)
  have t: "take (length (takeWhile q s)) s = takeWhile q s" by (metis takeWhile_eq_take)
  have "map (\<lambda>i. (drop i s, c(n \<mapsto> take (length s - length (drop i s)) s))) (rev [0..<length (takeWhile q s)])
     = map (\<lambda>i. (drop i s, c(n \<mapsto> take i s))) (rev [0..<length (takeWhile q s)])"
    using len by (intro map_cong) auto
  then show ?thesis
    using len t by (simp add: star_ways_Cls dropWhile_eq_drop comp_def)
qed

lemma ways_chr_then:
  "ways n0 (Cat (chr_re d) r) (s, c) =
     (case s of [] \<Rightarrow> [] | e # es \<Rightarrow> if e = cu d then ways n0 r (es, c) else [])"
  by (simp add: chr_re_def split: list.split)

lemma ways_chr:
  "ways n0 (chr_re d) (s, c) = (case s of [] \<Rightarrow> [] | e # es \<Rightarrow> if e = cu d then [(es, c)] else [])"
  by (simp add: chr_re_def split: list.split)

text \<open>A match at the start of the text is the match found.\<close>

lemma search_at_start:
  "ways n0 r (s, \<lambda>_. None) = (t, c) # ys \<Longrightarrow>
    search_from n0 r s = Some ([], take (length s - length t) s, t, c)"
  by (subst search_from.simps) simp

text \<open>A prefix in which the pattern cannot start is skipped.\<close>

lemma search_skip:
  assumes "rejects q r" and "\<forall>d \<in> set p. q d"
  shows "search_from n0 r (p @ s) =
    map_option (\<lambda>(pre, m, t, c). (p @ pre, m, t, c)) (search_from n0 r s)"
  using assms(2)
proof (induction p)
  case Nil
  then show ?case by (auto simp: option.map_ident_strong)
next
  case (Cons d p)
  then have "ways n0 r (d # p @ s, \<lambda>_. None) = []"
    using assms(1) by (simp add: rejects_def)
  with Cons show ?case
    by (simp add: search_from.simps [of n0 r "d # p @ s"] split: option.splits)
qed

text \<open>A pattern without anchors does not depend on where the text starts.\<close>

primrec anchor_free :: "re \<Rightarrow> bool" where
  "anchor_free Eps = True"
| "anchor_free (Cls p) = True"
| "anchor_free (Cat r q) = (anchor_free r \<and> anchor_free q)"
| "anchor_free (Alt r q) = (anchor_free r \<and> anchor_free q)"
| "anchor_free (Star r) = anchor_free r"
| "anchor_free (Grp n r) = anchor_free r"
| "anchor_free Bol = False"
| "anchor_free Eol = False"

lemma ways_anchor_free: "anchor_free r \<Longrightarrow> ways n r = ways m r"
  by (induction r) (auto intro!: ext)

lemma search_anchor_free: "anchor_free r \<Longrightarrow> search_from n r s = search_from m r s"
proof (induction s)
  case Nil
  then show ?case
    by (simp add: search_from.simps ways_anchor_free [of r n m] split: list.split)
next
  case (Cons d s)
  then show ?case
    by (simp add: search_from.simps [of _ r "d # s"] ways_anchor_free [of r n m] split: list.split)
qed

lemma replace_anchor_free: "anchor_free r \<Longrightarrow> replace_from n r f s = replace_from m r f s"
proof (induction "length s" arbitrary: s rule: less_induct)
  case less
  have *: "search_from n r s = search_from m r s" using less.prems by (rule search_anchor_free)
  show ?case
  proof (cases "search_from m r s")
    case None
    with * show ?thesis by (simp add: replace_from.simps [of _ r f s])
  next
    case (Some x)
    then obtain pre mt t c where x: "search_from m r s = Some (pre, mt, t, c)"
      by (cases x) auto
    then have s: "s = pre @ mt @ t" by (rule search_from_split)
    show ?thesis
      unfolding replace_from.simps [of _ r f s] * x
      using less s by (auto split: list.splits)
  qed
qed

lemma replace_skip:
  assumes "rejects q r" and "anchor_free r" and "\<forall>d \<in> set p. q d"
  shows "replace_from n0 r f (p @ s) = p @ replace_from n0 r f s"
  unfolding replace_from.simps [of n0 r f "p @ s"] replace_from.simps [of n0 r f s]
  by (auto simp: search_skip [OF assms(1,3)] split: option.splits)

end
