(* ===== verification/Escapes.thy ===== *)
theory Escapes
  imports JsRegExp
begin

text \<open>
  The string helpers of \<open>html/interactive.js\<close>: \<open>fromHex\<close>, \<open>de_backslash\<close>,
  \<open>arrayToBase64\<close>, \<open>sprintf\<close> and \<open>pc\<close>.
\<close>

section \<open>Code units\<close>

definition charCodeAt :: "jstr \<Rightarrow> nat \<Rightarrow> jnum" where
  "charCodeAt s i = (if i < length s then Fin (uint (s ! i)) else NaN)"

definition fromCharCode :: "jnum \<Rightarrow> jschar" where
  "fromCharCode n = (case n of NaN \<Rightarrow> 0 | Fin i \<Rightarrow> word_of_int i)"

definition num_add :: "jnum \<Rightarrow> jnum \<Rightarrow> jnum" where
  "num_add a b = (case (a, b) of (Fin i, Fin j) \<Rightarrow> Fin (i + j) | _ \<Rightarrow> NaN)"

definition num_scale :: "jnum \<Rightarrow> int \<Rightarrow> jnum" where
  "num_scale a k = (case a of Fin i \<Rightarrow> Fin (i * k) | NaN \<Rightarrow> NaN)"

section \<open>fromHex\<close>

definition fromHex :: "int \<Rightarrow> int" where
  "fromHex charCode =
     (if charCode \<ge> 48 \<and> charCode \<le> 57 then charCode - 48
      else if charCode \<ge> 65 \<and> charCode \<le> 70 then charCode - 65 + 10
      else if charCode \<ge> 97 \<and> charCode \<le> 102 then charCode - 97 + 10
      else 0)"

lemma fromHex_bounds: "0 \<le> fromHex c \<and> fromHex c < 16"
  by (simp add: fromHex_def)

lemma fromHex_hex_digit_aux: "\<forall>n \<in> {0..<16}. fromHex (uint (hex_digit n)) = int n"
  by (simp add: atLeastLessThan_nat_numeral fromHex_def hex_digit_def)

section \<open>de_backslash\<close>

text \<open>The case analysis on the character after the backslash, but for \<open>u\<close>.\<close>

definition simple_escape :: "jschar \<Rightarrow> jstr" where
  "simple_escape e =
     (if e = cu CHR ''0'' then [0]
      else if e = cu CHR ''a'' then [cu CHR ''a'']
      else if e = cu CHR ''b'' then [8]
      else if e = cu CHR ''f'' then [12]
      else if e = cu CHR ''n'' then [10]
      else if e = cu CHR ''r'' then [13]
      else if e = cu CHR ''t'' then [9]
      else if e = cu CHR ''v'' then [11]
      else if e = 92 then [92]
      else if e = 34 then [34]
      else if e = cu CHR ''?'' then [0x7F]
      else [])"

text \<open>
  The value computed for a backslash and \<open>u\<close>: four consecutive code units as the digits of a number in base
  256.
\<close>

definition u_code :: "jstr \<Rightarrow> nat \<Rightarrow> jnum" where
  "u_code input i =
     num_add (num_add (num_add
       (num_scale (charCodeAt input i) (256 * 256 * 256))
       (num_scale (charCodeAt input (i + 1)) (256 * 256)))
       (num_scale (charCodeAt input (i + 2)) 256))
       (charCodeAt input (i + 3))"

text \<open>
  The loop from index \<open>i\<close>.  After a backslash at \<open>i\<close> the escape letter is at \<open>i + 1\<close> and the
  loop goes on at \<open>i + 2\<close>; the branch for \<open>u\<close> increments once more, adds four, and the loop
  header increments again.
\<close>

function de_backslash_at :: "jstr \<Rightarrow> nat \<Rightarrow> jstr" where
  "de_backslash_at input i =
     (if i < length input then
        let c = input ! i in
        if c = 92 then
          if i + 1 < length input then
            let e = input ! (i + 1) in
            if e = cu CHR ''u'' then
              let i2 = i + 1 + 1 in
              fromCharCode (u_code input i2) # de_backslash_at input (i2 + 4 + 1)
            else simple_escape e @ de_backslash_at input (i + 1 + 1)
          else de_backslash_at input (i + 1 + 1)
        else c # de_backslash_at input (i + 1)
      else [])"
  by pat_completeness auto
termination
  by (relation "measure (\<lambda>(input, i). length input - i)") auto

declare de_backslash_at.simps [simp del]

definition de_backslash :: "jstr \<Rightarrow> jstr" where
  "de_backslash input = de_backslash_at input 0"

text \<open>The same on the rest of the input instead of an index.\<close>

function unescape :: "jstr \<Rightarrow> jstr" where
  "unescape [] = []"
| "unescape [c] = (if c = 92 then [] else [c])"
| "unescape (c # e # s) =
     (if c = 92 then
        if e = cu CHR ''u'' then fromCharCode (u_code s 0) # unescape (drop 5 s)
        else simple_escape e @ unescape s
      else c # unescape (e # s))"
  by pat_completeness auto
termination
  by (relation "measure length") auto

lemma charCodeAt_drop: "charCodeAt (drop i s) k = charCodeAt s (i + k)"
  by (cases "i \<le> length s") (auto simp: charCodeAt_def)

lemma u_code_drop: "u_code (drop i input) 0 = u_code input i"
  by (simp add: u_code_def charCodeAt_drop del: drop_drop)

lemma de_backslash_at_unescape: "de_backslash_at input i = unescape (drop i input)"
proof (induction "length input - i" arbitrary: i rule: less_induct)
  case less
  consider (out) "i \<ge> length input" | (last) "Suc i = length input" | (more) "Suc i < length input"
    by linarith
  then show ?case
  proof cases
    case out
    then show ?thesis by (simp add: de_backslash_at.simps)
  next
    case last
    then have d: "drop i input = [input ! i]"
      by (metis Cons_nth_drop_Suc drop_all le_refl lessI)
    have "de_backslash_at input (Suc i) = []" "de_backslash_at input (Suc (Suc i)) = []"
      using last by (simp_all add: de_backslash_at.simps)
    with last d show ?thesis
      by (subst de_backslash_at.simps) (auto simp: Let_def)
  next
    case more
    have ih: "de_backslash_at input (k + i) = unescape (drop (k + i) input)" if "0 < k" for k
      using that more less.hyps by simp
    have d1: "drop (Suc i) input = input ! Suc i # drop (Suc (Suc i)) input"
      using more by (simp add: Cons_nth_drop_Suc)
    have d: "drop i input = input ! i # input ! Suc i # drop (Suc (Suc i)) input"
      using more d1 by (metis Cons_nth_drop_Suc Suc_lessD)
    have u: "u_code (drop (Suc (Suc i)) input) 0 = u_code input (Suc (Suc i))"
      by (rule u_code_drop)
    have "de_backslash_at input (Suc i) = unescape (input ! Suc i # drop (Suc (Suc i)) input)"
      using ih [of 1] d1 by simp
    moreover have "de_backslash_at input (Suc (Suc i)) = unescape (drop (Suc (Suc i)) input)"
      using ih [of 2] by simp
    moreover have "de_backslash_at input (7 + i) = unescape (drop 5 (drop (Suc (Suc i)) input))"
      using ih [of 7] by simp
    ultimately show ?thesis
      unfolding d using more
      by (subst de_backslash_at.simps) (auto simp: Let_def u simp del: drop_drop)
  qed
qed

lemma de_backslash_unescape: "de_backslash s = unescape s"
  by (simp add: de_backslash_def de_backslash_at_unescape)

lemma unescape_plain: "92 \<notin> set p \<Longrightarrow> unescape (p @ t) = p @ unescape t"
proof (induction p)
  case (Cons c p)
  then show ?case by (cases "p @ t") auto
qed simp

lemma unescape_length: "length (unescape s) \<le> length s"
proof (induction s rule: unescape.induct)
  case (3 c e s)
  have "length (simple_escape e) \<le> 1" by (simp add: simple_escape_def)
  with 3 show ?case by (auto simp: le_diff_conv)
qed auto

text \<open>
  Only the last two of the four units survive \<open>String.fromCharCode\<close>, which keeps 16 bits.
\<close>

lemma fromCharCode_u:
  "fromCharCode (u_code (a # b # c # d # s) 0) = c * 256 + d"
proof -
  have zero: "(16777216 :: jschar) = 0" "(65536 :: jschar) = 0" by simp_all
  have "(of_int (uint a * 16777216 + uint b * 65536 + uint c * 256 + uint d) :: jschar)
      = a * 16777216 + b * 65536 + c * 256 + d"
    by simp
  then have "(of_int (uint a * 16777216 + uint b * 65536 + uint c * 256 + uint d) :: jschar)
      = c * 256 + d"
    unfolding zero by simp
  then show ?thesis
    by (simp add: fromCharCode_def u_code_def charCodeAt_def num_add_def num_scale_def)
qed

lemma unescape_u:
  "unescape (92 # cu CHR ''u'' # a # b # c # d # e # s) = (c * 256 + d) # unescape s"
  by (simp add: fromCharCode_u)

text \<open>An escaper for \<open>de_backslash\<close>: every unit with a letter of its own is written with it.\<close>

definition escape_unit :: "jschar \<Rightarrow> jstr" where
  "escape_unit c =
     (if c = 0 then [92, cu CHR ''0''] else if c = 8 then [92, cu CHR ''b'']
      else if c = 12 then [92, cu CHR ''f''] else if c = 10 then [92, cu CHR ''n'']
      else if c = 13 then [92, cu CHR ''r''] else if c = 9 then [92, cu CHR ''t'']
      else if c = 11 then [92, cu CHR ''v''] else if c = 92 then [92, 92]
      else if c = 34 then [92, 34] else if c = 0x7F then [92, cu CHR ''?''] else [c])"

lemma unescape_escape_unit: "unescape (escape_unit c @ s) = c # unescape s"
proof (cases "escape_unit c = [c]")
  case True
  then have "c \<noteq> 92" by (auto simp: escape_unit_def split: if_splits)
  with True show ?thesis using unescape_plain [of "[c]" s] by simp
next
  case False
  then show ?thesis
    by (simp add: escape_unit_def simple_escape_def split: if_splits)
qed

lemma unescape_escape: "unescape (concat (map escape_unit s)) = s"
  by (induction s) (simp_all add: unescape_escape_unit)

section \<open>arrayToBase64\<close>

definition b64_alphabet :: jstr where
  "b64_alphabet = js ''ABCDEFGHIJKLMNOPQRSTUVWXYZabcdefghijklmnopqrstuvwxyz0123456789+/''"

definition b64_char :: "nat \<Rightarrow> jschar" where
  "b64_char i = b64_alphabet ! i"

text \<open>The standard's \<open>btoa\<close>: units above 255 are refused, the others are bytes.\<close>

fun b64_enc :: "nat list \<Rightarrow> jstr" where
  "b64_enc [] = []"
| "b64_enc [a] = [b64_char (a div 4), b64_char (a mod 4 * 16), 61, 61]"
| "b64_enc [a, b] =
     [b64_char (a div 4), b64_char (a mod 4 * 16 + b div 16), b64_char (b mod 16 * 4), 61]"
| "b64_enc (a # b # c # bs) =
     [b64_char (a div 4), b64_char (a mod 4 * 16 + b div 16),
      b64_char (b mod 16 * 4 + c div 64), b64_char (c mod 64)] @ b64_enc bs"

definition btoa :: "jstr \<Rightarrow> js_error + jstr" where
  "btoa s = (if \<exists>c \<in> set s. 255 < c then Inl InvalidCharacterError
     else Inr (b64_enc (map unat s)))"

definition arrayToBase64 :: "8 word list \<Rightarrow> js_error + jstr" where
  "arrayToBase64 arr =
     (let bins = concat (map (\<lambda>ch. [fromCharCode (Fin (uint ch))]) arr) in btoa bins)"

text \<open>A decoder, for the round trip.\<close>

definition b64_val :: "jschar \<Rightarrow> nat" where
  "b64_val c = length (takeWhile (\<lambda>d. d \<noteq> c) b64_alphabet)"

fun b64_dec :: "jstr \<Rightarrow> nat list" where
  "b64_dec (p # q # r # s # cs) =
     (let a = b64_val p * 4 + b64_val q div 16;
          b = b64_val q mod 16 * 16 + b64_val r div 4;
          c = b64_val r mod 4 * 64 + b64_val s
      in if r = 61 then [a] else if s = 61 then [a, b] else a # b # c # b64_dec cs)"
| "b64_dec _ = []"

lemma b64_alphabet_facts:
  "distinct b64_alphabet" "length b64_alphabet = 64" "61 \<notin> set b64_alphabet"
  by (simp_all add: b64_alphabet_def js_def)

lemma takeWhile_distinct_nth:
  "distinct xs \<Longrightarrow> i < length xs \<Longrightarrow> length (takeWhile (\<lambda>d. d \<noteq> xs ! i) xs) = i"
proof (induction xs arbitrary: i)
  case (Cons x xs)
  then show ?case by (cases i) (auto simp: in_set_conv_nth)
qed simp

lemma b64_val_char [simp]: "i < 64 \<Longrightarrow> b64_val (b64_char i) = i"
  by (simp add: b64_val_def b64_char_def takeWhile_distinct_nth b64_alphabet_facts)

lemma b64_char_pad [simp]: "i < 64 \<Longrightarrow> b64_char i \<noteq> 61"
  using b64_alphabet_facts nth_mem [of i b64_alphabet] unfolding b64_char_def by metis

lemma digit_pair:
  fixes x y k :: nat
  assumes "y < k"
  shows "(x * k + y) div k = x" and "(x * k + y) mod k = y"
  using assms by simp_all

lemma b64_first_byte: "(b::nat) < 256 \<Longrightarrow> a div 4 * 4 + (a mod 4 * 16 + b div 16) div 16 = a"
  using digit_pair(1) [of "b div 16" 16 "a mod 4"] by (simp add: less_mult_imp_div_less)

lemma b64_second_byte: "(b::nat) < 256 \<Longrightarrow> c < 256 \<Longrightarrow>
    (a mod 4 * 16 + b div 16) mod 16 * 16 + (b mod 16 * 4 + c div 64) div 4 = b"
  using digit_pair(2) [of "b div 16" 16 "a mod 4"] digit_pair(1) [of "c div 64" 4 "b mod 16"]
  by (simp add: less_mult_imp_div_less)

lemma b64_third_byte: "(c::nat) < 256 \<Longrightarrow> (b mod 16 * 4 + c div 64) mod 4 * 64 + c mod 64 = c"
  using digit_pair(2) [of "c div 64" 4 "b mod 16"] by (simp add: less_mult_imp_div_less)

lemma b64_dec_enc: "\<forall>b \<in> set bs. b < 256 \<Longrightarrow> b64_dec (b64_enc bs) = bs"
proof (induction bs rule: b64_enc.induct)
  case (2 a)
  then have "a div 4 < 64" "a mod 4 * 16 < 64" by auto
  then show ?case by (simp add: Let_def)
next
  case (3 a b)
  then have "a div 4 < 64" "a mod 4 * 16 + b div 16 < 64" "b mod 16 * 4 < 64" "b < 256" by auto
  then show ?case
    using b64_first_byte [of b a] b64_second_byte [of b 0 a] by (simp add: Let_def)
next
  case (4 a b c bs)
  then have "a div 4 < 64" "a mod 4 * 16 + b div 16 < 64" "b mod 16 * 4 + c div 64 < 64"
    "c mod 64 < 64" "b < 256" "c < 256" by auto
  with 4 show ?case
    using b64_first_byte [of b a] b64_second_byte [of b c a] b64_third_byte [of c b]
    by (simp add: Let_def)
qed simp

lemma b64_enc_length: "length (b64_enc bs) = 4 * ((length bs + 2) div 3)"
proof (induction bs rule: b64_enc.induct)
  case (4 a b c bs)
  have "(Suc (Suc (Suc (length bs))) + 2) div 3 = (length bs + 2) div 3 + 1" by presburger
  with 4 show ?case by simp
qed auto

lemma byte_unit:
  fixes ch :: "8 word"
  shows "unat (word_of_int (uint ch) :: jschar) = unat ch"
    and "\<not> 255 < (word_of_int (uint ch) :: jschar)"
proof -
  have "uint ch < 65536" using uint_lt2p [of ch] by simp
  then show u: "unat (word_of_int (uint ch) :: jschar) = unat ch"
    unfolding unat_eq_nat_uint uint_word_of_int by (simp add: mod_pos_pos_trivial)
  have b: "unat ch < 256" using unsigned_less [of ch] by simp
  have k: "unat (255 :: jschar) = 255" by simp
  show "\<not> 255 < (word_of_int (uint ch) :: jschar)"
    unfolding word_less_nat_alt u k using b by linarith
qed

lemma arrayToBase64_value: "arrayToBase64 arr = Inr (b64_enc (map unat arr))"
proof -
  have bins: "concat (map (\<lambda>ch. [fromCharCode (Fin (uint ch))]) arr)
      = map (\<lambda>ch. word_of_int (uint ch)) arr"
    by (induction arr) (simp_all add: fromCharCode_def)
  show ?thesis
    unfolding arrayToBase64_def btoa_def Let_def bins
    using byte_unit by (auto simp: comp_def)
qed

section \<open>sprintf and pc\<close>

text \<open>The pattern \<open>{(\d+)}\<close>.\<close>

definition placeholder_re :: re where
  "placeholder_re = Cat (chr_re CHR ''{'') (Cat (Grp 1 (Plus digit_re)) (chr_re CHR ''}''))"

text \<open>
  \<open>args[number]\<close> for a string \<open>number\<close> of digits: only the canonical numeral of an index names an
  element.
\<close>

definition arg_at :: "jsval list \<Rightarrow> jstr \<Rightarrow> jsval" where
  "arg_at args number =
     (let k = read_nat number in
      if show_nat k = number \<and> k < length args then args ! k else JUndef)"

definition sprintf :: "jstr \<Rightarrow> jsval list \<Rightarrow> jstr" where
  "sprintf format args =
     replace_g placeholder_re
       (\<lambda>match c. case c 1 of None \<Rightarrow> match
          | Some number \<Rightarrow> (case arg_at args number of JUndef \<Rightarrow> match | v \<Rightarrow> to_string v)) format"

lemma cu_braces: "cu CHR ''{'' = 123" "cu CHR ''}'' = 125"
  by simp_all

lemma digits_not_brace: "is_digit c \<Longrightarrow> c \<noteq> 125"
  by (auto simp: is_digit_def)

lemma placeholder_anchor_free: "anchor_free placeholder_re"
  by (simp add: placeholder_re_def chr_re_def Plus_def digit_re_def)

lemma placeholder_rejects: "rejects (\<lambda>c. c \<noteq> 123) placeholder_re"
  unfolding placeholder_re_def chr_re_def by (intro rejects_Cat rejects_Cls) simp

lemma placeholder_ways:
  "ways n0 placeholder_re (s, c) =
     (case s of [] \<Rightarrow> []
      | d # ds \<Rightarrow> if d = 123 \<and> takeWhile is_digit ds \<noteq> []
          then (case dropWhile is_digit ds of
                  e # t \<Rightarrow> if e = 125 then [(t, c(1 \<mapsto> takeWhile is_digit ds))] else []
                | [] \<Rightarrow> [])
          else [])"
proof -
  have "rejects is_digit (chr_re CHR ''}'')"
    unfolding chr_re_def cu_braces by (rule rejects_Cls) (simp add: digits_not_brace)
  then have run: "ways n0 (Cat (Grp 1 (Plus digit_re)) (chr_re CHR ''}'')) (ds, c)
      = (if takeWhile is_digit ds = [] then []
         else ways n0 (chr_re CHR ''}'') (dropWhile is_digit ds, c(1 \<mapsto> takeWhile is_digit ds)))" for ds
    unfolding digit_re_def by (rule ways_run_Grp)
  show ?thesis
    unfolding placeholder_re_def ways_chr_then run ways_chr cu_braces by (simp split: list.split)
qed

text \<open>The text of the placeholder for index \<open>k\<close>.\<close>

definition placeholder :: "nat \<Rightarrow> jstr" where
  "placeholder k = [123] @ show_nat k @ [125]"

lemma takeWhile_digits_show:
  "takeWhile is_digit (show_nat k @ 125 # s) = show_nat k"
  "dropWhile is_digit (show_nat k @ 125 # s) = 125 # s"
  using show_nat_digits [of k] by (simp_all add: takeWhile_append2 dropWhile_append2 is_digit_def)

lemma search_placeholder:
  "search_from n0 placeholder_re (placeholder k @ s)
     = Some ([], placeholder k, s, (\<lambda>_. None)(1 \<mapsto> show_nat k))"
proof -
  have "ways n0 placeholder_re (placeholder k @ s, \<lambda>_. None) = [(s, (\<lambda>_. None)(1 \<mapsto> show_nat k))]"
    by (simp add: placeholder_ways placeholder_def takeWhile_digits_show)
  from search_at_start [OF this] show ?thesis by simp
qed

lemma arg_at_show: "arg_at args (show_nat k) = (if k < length args then args ! k else JUndef)"
  by (simp add: arg_at_def)

definition sprintf_arg :: "jsval list \<Rightarrow> nat \<Rightarrow> jstr" where
  "sprintf_arg args k =
     (if k < length args \<and> args ! k \<noteq> JUndef then to_string (args ! k) else placeholder k)"

lemma sprintf_from_n: "sprintf s args = replace_from n0 placeholder_re
       (\<lambda>match c. case c 1 of None \<Rightarrow> match
          | Some number \<Rightarrow> (case arg_at args number of JUndef \<Rightarrow> match | v \<Rightarrow> to_string v)) s"
  unfolding sprintf_def replace_g_def
  by (rule replace_anchor_free [OF placeholder_anchor_free])

lemma sprintf_skip: "123 \<notin> set p \<Longrightarrow> sprintf (p @ s) args = p @ sprintf s args"
  unfolding sprintf_from_n [where ?n0.0 = 0]
  by (rule replace_skip [OF placeholder_rejects placeholder_anchor_free]) auto

lemma sprintf_Nil [simp]: "sprintf [] args = []"
  unfolding sprintf_from_n [where ?n0.0 = 0]
  by (simp add: replace_from.simps search_from.simps placeholder_ways)

lemma placeholder_nonempty [simp]: "placeholder k \<noteq> []"
  by (simp add: placeholder_def)

lemma sprintf_placeholder: "sprintf (placeholder k @ s) args = sprintf_arg args k @ sprintf s args"
  unfolding sprintf_from_n [where ?n0.0 = 0]
  by (subst replace_from.simps)
     (auto simp: search_placeholder arg_at_show sprintf_arg_def split: jsval.splits)

definition pc :: "jnum \<Rightarrow> jstr" where
  "pc c = (case c of
       Fin i \<Rightarrow>
         (if 32 < i \<and> i < 127
          then [0x201C, word_of_int i] @ js ''|'' @ show_int i @ [0x201D]
          else js ''('' @ show_int i @ js '')'')
     | NaN \<Rightarrow> js ''(NaN)'')"

section \<open>Properties\<close>

text \<open>
  C27. Text written with the escapes of \<open>de_backslash\<close> is read back unit by unit, after any
  text without a backslash.
\<close>

theorem de_backslash_round_trip:
  assumes "92 \<notin> set p"
  shows "de_backslash (p @ concat (map escape_unit s)) = p @ s"
  using assms by (simp add: de_backslash_unescape unescape_plain unescape_escape)

theorem de_backslash_round_trip_witness:
  "de_backslash (js ''ab'' @ concat (map escape_unit [10, 92, 34, 0])) = js ''ab'' @ [10, 92, 34, 0]"
  by (rule de_backslash_round_trip) (simp add: js_def)

text \<open>
  A backslash and \<open>u\<close> take the code units of the next four characters as base-256 digits, of which 16 bits
  survive (the third and the fourth), and swallow a fifth character: the digits are not read as hexadecimal.
\<close>

theorem de_backslash_u:
  assumes "92 \<notin> set p"
  shows "de_backslash (p @ [92, cu CHR ''u'', a, b, c, d, e] @ s)
    = p @ [c * 256 + d] @ de_backslash s"
  unfolding de_backslash_unescape unescape_plain [OF assms] append_Cons append_Nil unescape_u
  by (rule refl)

theorem de_backslash_u_witness:
  "de_backslash (js ''x'' @ [92, cu CHR ''u''] @ js ''0041y'' @ js ''z'')
     = js ''x'' @ [0x3431] @ js ''z''"
  using de_backslash_u [of "js ''x''" 48 48 52 49 121 "js ''z''"]
  by (simp add: js_def de_backslash_unescape)

text \<open>
  C28. \<open>arrayToBase64\<close> never throws; its result decodes to the bytes of the array and has four
  characters for every three bytes begun.
\<close>

theorem arrayToBase64_round_trip:
  "\<exists>t. arrayToBase64 arr = Inr t \<and> b64_dec t = map unat arr \<and> length t = 4 * ((length arr + 2) div 3)"
proof -
  have byte: "unat ch < 256" for ch :: "8 word"
    using unsigned_less [of ch] by simp
  then have "\<forall>b \<in> set (map unat arr). b < 256" by auto
  then show ?thesis by (simp add: arrayToBase64_value b64_dec_enc b64_enc_length)
qed

text \<open>A format as the list of its pieces: literal text without an opening brace, and placeholders.\<close>

datatype piece = Text jstr | Arg nat

fun piece_text :: "piece \<Rightarrow> jstr" where
  "piece_text (Text t) = t"
| "piece_text (Arg k) = placeholder k"

fun piece_value :: "jsval list \<Rightarrow> piece \<Rightarrow> jstr" where
  "piece_value args (Text t) = t"
| "piece_value args (Arg k) = sprintf_arg args k"

fun plain_piece :: "piece \<Rightarrow> bool" where
  "plain_piece (Text t) = (123 \<notin> set t)"
| "plain_piece (Arg k) = True"

text \<open>
  \<open>sprintf\<close> copies the literal pieces of a format and puts for each placeholder the argument
  of its index, or the placeholder itself when there is no such argument or it is undefined.
\<close>

theorem sprintf_pieces:
  assumes "\<forall>p \<in> set ps. plain_piece p"
  shows "sprintf (concat (map piece_text ps)) args = concat (map (piece_value args) ps)"
  using assms
proof (induction ps)
  case (Cons p ps)
  then show ?case by (cases p) (simp_all add: sprintf_skip sprintf_placeholder)
qed simp

theorem sprintf_pieces_witness:
  "sprintf (js ''n={0} m={1} {7}'') [JInt 5, JStr (js ''x'')] = js ''n=5 m=x {7}''"
proof -
  let ?ps = "[Text (js ''n=''), Arg 0, Text (js '' m=''), Arg 1, Text (js '' ''), Arg 7]"
  have "\<forall>p \<in> set ?ps. plain_piece p" by (simp add: js_def)
  from sprintf_pieces [OF this, of "[JInt 5, JStr (js ''x'')]"] show ?thesis
    by (simp add: js_def placeholder_def sprintf_arg_def show_num_def show_int_def show_nat.simps)
qed

end
