(* ===== verification/Page.thy ===== *)
theory Page
  imports Escapes
begin

text \<open>
  The state of the test client (\<open>html/interactive.js\<close> in \<open>html/index.html\<close>): the script's
  global variables, the document, and what it handed to the browser (posted requests, alerts,
  file reads under way).

  The document is a map from element ids to the properties the script reads and writes.  Markup
  assigned to an element's \<open>innerHTML\<close> is kept as assigned; the elements it creates are given by
  the parameter \<open>render\<close>, the browser's HTML parser, which is not code of the repository.  An
  element remembers (\<open>owner\<close>) the elements it lies in, those inside the markup (as \<open>render\<close>
  gives them) and the one the markup was assigned to, so that a later assignment removes it.  Where an id occurs twice in the document, an element of the static page is the one
  found, otherwise the one inside the earlier static element.  The checked radio button of a group is found by a selector; it is kept under the selector's text.
\<close>

record elem =
  innerHTML :: jstr
  className :: jstr
  evalue :: jstr
  checked :: bool
  disabled :: bool
  owner :: "jstr list"

text \<open>A function of the generated file \<open>pEp_functions.js\<close>; a separator has no \<open>params\<close>.\<close>

record fparam =
  ptype :: jstr
  direction :: jstr

record fn_desc =
  fname :: jstr
  separator :: bool
  freturn :: jsval
  fparams :: "fparam list option"

record blob =
  mime_type :: jstr
  filename :: jstr
  bvalue :: jstr

record file_desc =
  ftype :: jstr
  file_name :: jstr
  fbytes :: "8 word list"

text \<open>A file read under way: the input element's id, the parameter and the file.\<close>

record file_reader =
  r_inp :: jstr
  r_nr :: jstr
  r_file :: file_desc

text \<open>The image \<open>init_pEp_functions\<close> may put before the heading (its data is left out).\<close>

record image =
  alt :: jstr
  width :: nat
  height :: nat

record app =
  call_ID :: int
  func :: "fn_desc option"
  func_params :: "jsval list option list"
  fileInputs :: "(jstr \<times> blob list) list"
  dom :: "jstr \<Rightarrow> elem option"
  readers :: "file_reader list"
  posts :: "(jstr \<times> jstr) list"
  alerts :: "jstr list"
  heading :: "image list"

type_synonym 'a page = "(app, 'a) handler"
type_synonym render = "jstr \<Rightarrow> jstr \<Rightarrow> elem option"

definition NL :: jstr where
  "NL = [10]"

section \<open>Document access\<close>

text \<open>
  Every \<open>document.getElementById\<close> of the script is followed by a property access, which throws
  on null.
\<close>

definition getElem :: "jstr \<Rightarrow> elem page" where
  "getElem i = bnd (gets (\<lambda>s. dom s i)) (\<lambda>r. case r of None \<Rightarrow> throw TypeError | Some e \<Rightarrow> ret e)"

text \<open>The elements of \<open>html/index.html\<close> the scripts refer to, in document order.\<close>

definition static_ids :: "jstr list" where
  "static_ids = [js ''spn_version'', js ''server'', js ''security_token'', js ''fn_name'',
     js ''td_param'', js ''debug'', js ''resultpre'', js ''unittest_div'', js ''unittest_out'',
     js ''doc_format'', js ''doc_out'']"

definition doc_rank :: "jstr \<Rightarrow> nat" where
  "doc_rank i = length (takeWhile (\<lambda>j. j \<noteq> i) static_ids)"

text \<open>The static element an element lies in comes last among its owners.\<close>

definition root_rank :: "elem \<Rightarrow> nat" where
  "root_rank e = doc_rank (last (owner e))"

text \<open>
  Assigning the markup \<open>h\<close> to the element \<open>e\<close> with id \<open>i\<close>: what \<open>e\<close> held is gone, what \<open>render\<close>
  finds in \<open>h\<close> is there, unless an element with its id comes earlier in the document.
\<close>

definition put_html :: "render \<Rightarrow> jstr \<Rightarrow> jstr \<Rightarrow> elem \<Rightarrow> app \<Rightarrow> app" where
  "put_html render i h e s = s\<lparr>dom :=
     (\<lambda>j. if j = i then Some (e\<lparr>innerHTML := h\<rparr>)
          else let new = map_option (\<lambda>n. n\<lparr>owner := owner n @ i # owner e\<rparr>) (render h j) in
            case dom s j of
              None \<Rightarrow> new
            | Some e' \<Rightarrow>
                if owner e' = [] then Some e'
                else if suffix (i # owner e) (owner e') then new
                else if new \<noteq> None \<and> doc_rank (last (i # owner e)) \<le> root_rank e' then new
                else Some e')\<rparr>"

definition set_html :: "render \<Rightarrow> jstr \<Rightarrow> jstr \<Rightarrow> unit page" where
  "set_html render i h = bnd (getElem i) (\<lambda>e. modify (put_html render i h e))"

definition add_html :: "render \<Rightarrow> jstr \<Rightarrow> jstr \<Rightarrow> unit page" where
  "add_html render i h = bnd (getElem i) (\<lambda>e. modify (put_html render i (innerHTML e @ h) e))"

definition upd_elem :: "jstr \<Rightarrow> (elem \<Rightarrow> elem) \<Rightarrow> unit page" where
  "upd_elem i f = bnd (getElem i) (\<lambda>e. modify (\<lambda>s. s\<lparr>dom := (dom s)(i \<mapsto> f e)\<rparr>))"

definition set_class :: "jstr \<Rightarrow> jstr \<Rightarrow> unit page" where
  "set_class i c = upd_elem i (\<lambda>e. e\<lparr>className := c\<rparr>)"

definition set_disabled :: "jstr \<Rightarrow> bool \<Rightarrow> unit page" where
  "set_disabled i b = upd_elem i (\<lambda>e. e\<lparr>disabled := b\<rparr>)"

lemma getElem_run:
  "getElem i s = (case dom s i of None \<Rightarrow> (Inl TypeError, s) | Some e \<Rightarrow> (Inr e, s))"
  by (simp add: getElem_def bnd_def split: option.splits)

lemma set_html_run:
  "set_html render i h s = (case dom s i of None \<Rightarrow> (Inl TypeError, s)
     | Some e \<Rightarrow> (Inr (), put_html render i h e s))"
  by (simp add: set_html_def bnd_def getElem_run split: option.splits)

lemma add_html_run:
  "add_html render i h s = (case dom s i of None \<Rightarrow> (Inl TypeError, s)
     | Some e \<Rightarrow> (Inr (), put_html render i (innerHTML e @ h) e s))"
  by (simp add: add_html_def bnd_def getElem_run split: option.splits)

lemma upd_elem_run:
  "upd_elem i f s = (case dom s i of None \<Rightarrow> (Inl TypeError, s)
     | Some e \<Rightarrow> (Inr (), s\<lparr>dom := (dom s)(i \<mapsto> f e)\<rparr>))"
  by (simp add: upd_elem_def bnd_def getElem_run split: option.splits)

lemma put_html_other [simp]:
  "call_ID (put_html render i h e s) = call_ID s"
  "func (put_html render i h e s) = func s"
  "func_params (put_html render i h e s) = func_params s"
  "fileInputs (put_html render i h e s) = fileInputs s"
  "readers (put_html render i h e s) = readers s"
  "posts (put_html render i h e s) = posts s"
  "alerts (put_html render i h e s) = alerts s"
  "heading (put_html render i h e s) = heading s"
  by (simp_all add: put_html_def)

section \<open>The static page\<close>

definition page_ok :: "app \<Rightarrow> bool" where
  "page_ok s \<longleftrightarrow> (\<forall>i \<in> set static_ids. \<exists>e. dom s i = Some e \<and> owner e = [])"

lemma page_okD: "page_ok s \<Longrightarrow> i \<in> set static_ids \<Longrightarrow> \<exists>e. dom s i = Some e \<and> owner e = []"
  by (auto simp: page_ok_def)

lemma page_ok_put_html: "page_ok s \<Longrightarrow> dom s i = Some e \<Longrightarrow> page_ok (put_html render i h e s)"
  by (fastforce simp: page_ok_def put_html_def Let_def)

lemma keeps_getElem [keeps_intros]: "keeps P (getElem i)"
  by (simp add: keeps_def getElem_run split: option.splits)

lemma keeps_upd_elem:
  assumes "\<And>s e. P s \<Longrightarrow> dom s i = Some e \<Longrightarrow> P (s\<lparr>dom := (dom s)(i \<mapsto> f e)\<rparr>)"
  shows "keeps P (upd_elem i f)"
  using assms by (simp add: keeps_def upd_elem_run split: option.splits)

lemma keeps_set_html_gen:
  assumes "\<And>s e. P s \<Longrightarrow> dom s i = Some e \<Longrightarrow> P (put_html render i h e s)"
  shows "keeps P (set_html render i h)"
  using assms by (simp add: keeps_def set_html_run split: option.splits)

lemma keeps_add_html_gen:
  assumes "\<And>s e h'. P s \<Longrightarrow> dom s i = Some e \<Longrightarrow> P (put_html render i h' e s)"
  shows "keeps P (add_html render i h)"
  using assms by (simp add: keeps_def add_html_run split: option.splits)

lemma page_ok_upd:
  "page_ok s \<Longrightarrow> dom s i = Some e \<Longrightarrow> owner (f e) = owner e \<Longrightarrow>
    page_ok (s\<lparr>dom := (dom s)(i \<mapsto> f e)\<rparr>)"
  by (auto simp: page_ok_def)

lemma page_ok_keeps [keeps_intros]:
  "keeps page_ok (set_html render i h)"
  "keeps page_ok (add_html render i h)"
  "keeps page_ok (set_class i c)"
  "keeps page_ok (set_disabled i b)"
  unfolding set_class_def set_disabled_def
  by (intro keeps_set_html_gen keeps_add_html_gen keeps_upd_elem;
      simp add: page_ok_put_html page_ok_upd)+

section \<open>The page as loaded\<close>

definition blank_elem :: elem where
  "blank_elem = \<lparr>innerHTML = [], className = [], evalue = [], checked = False, disabled = False, owner = []\<rparr>"

text \<open>The script's globals at their initial values, over a document \<open>d\<close>.\<close>

definition start_page :: "(jstr \<Rightarrow> elem option) \<Rightarrow> app" where
  "start_page d = \<lparr>call_ID = 1000, func = None, func_params = [], fileInputs = [], dom = d,
     readers = [], posts = [], alerts = [], heading = []\<rparr>"

text \<open>A document with the static elements only.\<close>

definition blank_dom :: "jstr \<Rightarrow> elem option" where
  "blank_dom i = (if i \<in> set static_ids then Some blank_elem else None)"

lemma page_ok_start [simp]: "page_ok (start_page blank_dom)"
  by (simp add: page_ok_def start_page_def blank_dom_def blank_elem_def)

section \<open>Function parameters\<close>

definition fp_val :: "jsval list option \<Rightarrow> jsval" where
  "fp_val p = (case p of None \<Rightarrow> JUndef | Some vs \<Rightarrow> JArr vs)"

definition fp_at :: "app \<Rightarrow> nat \<Rightarrow> jsval list option" where
  "fp_at s nr = (if nr < length (func_params s) then func_params s ! nr else None)"

text \<open>Storing beyond the end of an array leaves undefined elements between.\<close>

definition arr_set :: "'a \<Rightarrow> 'a list \<Rightarrow> nat \<Rightarrow> 'a \<Rightarrow> 'a list" where
  "arr_set hole xs i v =
     (if i < length xs then xs[i := v] else xs @ replicate (i - length xs) hole @ [v])"

lemma length_arr_set: "length (arr_set hole xs i v) = max (length xs) (Suc i)"
  by (auto simp: arr_set_def)

lemma nth_arr_set:
  "j < length (arr_set hole xs i v) \<Longrightarrow>
    arr_set hole xs i v ! j = (if j = i then v else if j < length xs then xs ! j else hole)"
  by (auto simp: arr_set_def nth_append)

definition fp_set :: "nat \<Rightarrow> jsval list \<Rightarrow> app \<Rightarrow> app" where
  "fp_set nr vs s = s\<lparr>func_params := arr_set None (func_params s) nr (Some vs)\<rparr>"

lemma fp_at_set: "fp_at (fp_set nr vs s) m = (if m = nr then Some vs else fp_at s m)"
  by (auto simp: fp_at_def fp_set_def nth_arr_set length_arr_set)

interpretation param_table: table fp_at "\<lambda>s nr vs. fp_set nr vs s"
  by unfold_locales (simp add: fp_at_set)

lemma fp_set_other [simp]:
  "call_ID (fp_set nr vs s) = call_ID s" "func (fp_set nr vs s) = func s"
  "fileInputs (fp_set nr vs s) = fileInputs s" "dom (fp_set nr vs s) = dom s"
  "readers (fp_set nr vs s) = readers s"
  "posts (fp_set nr vs s) = posts s" "alerts (fp_set nr vs s) = alerts s"
  "heading (fp_set nr vs s) = heading s"
  by (simp_all add: fp_set_def)

lemma page_ok_fp_set [simp]: "page_ok (fp_set nr vs s) = page_ok s"
  by (simp add: page_ok_def)

definition params_json :: "app \<Rightarrow> jsval" where
  "params_json s = JArr (map fp_val (func_params s))"

end
