(* ===== verification/FormWriter.thy ===== *)
theory FormWriter
  imports Page
begin

text \<open>
  \<open>html/interactive.js\<close>, from parameter descriptions to markup: \<open>genInput\<close>, the string-list
  editor (\<open>addString\<close>, \<open>removeString\<close>, \<open>genStringList\<close> and the inline change handler it
  emits) and the table \<open>Param2Form\<close>, one definition per entry.
\<close>

section \<open>genInput\<close>

definition read_prop :: "jsval \<Rightarrow> string \<Rightarrow> jsval page" where
  "read_prop v k = lift (get_prop v (js k))"

definition is_Out :: "jsval \<Rightarrow> bool" where
  "is_Out d = loose_eq_str d (js ''Out'')"

text \<open>
  The size chosen by the code does not reach the markup, so only the text input's extra check
  box remains of the case analysis.
\<close>

definition genInput :: "jstr \<Rightarrow> jsval \<Rightarrow> jsval \<Rightarrow> jsval \<Rightarrow> jsval \<Rightarrow> jstr" where
  "genInput iid ty dir value onchange =
     (let aux = (if ty = JStr (js ''text'')
                 then js ''<input type=\"checkbox\" id=\"'' @ iid @ js ''_chk\" name=\"'' @ iid
                      @ js ''_chk\"> <small>parse esc seq.</small>''
                 else [])
      in js ''<input type=\"text\" type=\"'' @ to_string ty @ js ''\" id=\"'' @ iid @ js ''\"''
         @ (if is_Out dir then js '' readonly'' else [])
         @ js '' value=\"'' @ to_string value @ js ''\"''
         @ (if onchange \<noteq> JUndef \<and> onchange \<noteq> JNull
            then js '' onChange=\"'' @ to_string onchange @ js ''\"'' else [])
         @ js '' >'' @ aux)"

section \<open>String lists\<close>

definition inp_id :: "jstr \<Rightarrow> jstr" where
  "inp_id nr = js ''inp_param_'' @ nr"

definition string_input_id :: "nat \<Rightarrow> nat \<Rightarrow> jstr" where
  "string_input_id nr i = inp_id (show_nat nr) @ js ''_'' @ show_nat i"

text \<open>One row of the editor: the input with its inline change handler, and the remove button.\<close>

definition string_row :: "nat \<Rightarrow> jsval \<Rightarrow> nat \<Rightarrow> jsval \<Rightarrow> jstr" where
  "string_row nr pp i v =
     js ''#'' @ show_nat i @ js '': ''
     @ genInput (string_input_id nr i) (JInt 25) pp v
         (JStr (js ''func_params['' @ show_nat nr @ js ''][''
            @ show_nat i @ js ''] = this.value;''))
     @ js ''<input type=\"button\" value=\"Remove!\" onClick=\"removeString(''
     @ show_nat nr @ js '','' @ show_nat i @ js '');\" >''
     @ js ''<br>''"

definition genStringList :: "render \<Rightarrow> nat \<Rightarrow> jsval \<Rightarrow> jstr page" where
  "genStringList render nr pp =
     seq (modify (\<lambda>s. if fp_at s nr = None then fp_set nr [] s else s))
     (bnd (gets (\<lambda>s. case fp_at s nr of None \<Rightarrow> [] | Some vs \<Rightarrow> vs)) (\<lambda>value.
      let rows = concat (map (\<lambda>i. string_row nr pp i (value ! i)) [0..<length value]) in
      bnd (gets params_json) (\<lambda>ps.
      seq (add_html render (js ''debug'')
             (NL @ js ''func_params = '' @ to_string (stringify ps) @ NL))
      (ret (js ''StringList:<br>'' @ rows
            @ js ''<input type=\"button\" value=\"Add String!\" onClick=\"addString(''
            @ show_nat nr @ js '')\">'')))))"

definition string_list_pp :: jsval where
  "string_list_pp = JObj [(js ''direction'', JStr (js ''In'')), (js ''type'', JStr (js ''StringList''))]"

text \<open>\<open>func_params[nr]\<close> used as an array: undefined throws.\<close>

definition fp_array :: "nat \<Rightarrow> jsval list page" where
  "fp_array nr = bnd (gets (\<lambda>s. fp_at s nr))
     (\<lambda>p. case p of None \<Rightarrow> throw TypeError | Some vs \<Rightarrow> ret vs)"

definition li_id :: "nat \<Rightarrow> jstr" where
  "li_id nr = js ''li_'' @ show_nat nr"

definition P2F_StringList :: "render \<Rightarrow> nat \<Rightarrow> jsval \<Rightarrow> jstr page" where
  "P2F_StringList render nr pp =
     bnd (read_prop pp ''direction'') (\<lambda>d.
       if is_Out d then ret (js ''StringList (output)'') else genStringList render nr pp)"

definition addString :: "render \<Rightarrow> nat \<Rightarrow> unit page" where
  "addString render nr =
     bnd (gets params_json) (\<lambda>ps.
     seq (add_html render (js ''debug'')
            (js '' *  addString('' @ show_nat nr @ js '')<'' @ NL @ js ''func_params = ''
             @ to_string (stringify ps) @ NL))
     (bnd (fp_array nr) (\<lambda>vs.
      seq (modify (fp_set nr (vs @ [JStr []])))
      (bnd (genStringList render nr string_list_pp) (\<lambda>_.
       bnd (P2F_StringList render nr string_list_pp) (\<lambda>h.
       set_html render (li_id nr) h))))))"

definition splice1 :: "nat \<Rightarrow> 'a list \<Rightarrow> 'a list" where
  "splice1 i xs = take i xs @ drop (Suc i) xs"

definition removeString :: "render \<Rightarrow> nat \<Rightarrow> nat \<Rightarrow> unit page" where
  "removeString render nr idx =
     bnd (fp_array nr) (\<lambda>vs.
     seq (modify (fp_set nr (splice1 idx vs)))
     (bnd (genStringList render nr string_list_pp) (\<lambda>_.
      bnd (P2F_StringList render nr string_list_pp) (\<lambda>h.
      set_html render (li_id nr) h))))"

text \<open>The inline handler \<open>func_params[nr][i] = this.value;\<close>.\<close>

definition change_string :: "nat \<Rightarrow> nat \<Rightarrow> jstr \<Rightarrow> unit page" where
  "change_string nr i v =
     bnd (fp_array nr) (\<lambda>vs. modify (fp_set nr (arr_set JUndef vs i (JStr v))))"

section \<open>Param2Form\<close>

definition P2F_Session :: "jstr \<Rightarrow> jsval \<Rightarrow> jsval \<Rightarrow> jstr page" where
  "P2F_Session nr pp value =
     ret (js ''<small><i>'' @ [0x2013] @ js '' Sessions are handled internally '' @ [0x2013]
          @ js ''</i></small>'')"

definition P2F_String :: "jstr \<Rightarrow> jsval \<Rightarrow> jsval \<Rightarrow> jstr page" where
  "P2F_String nr pp value = bnd (read_prop pp ''direction'') (\<lambda>d.
     ret (if is_Out d then js ''String output''
          else genInput (inp_id nr) (JStr (js ''text'')) d value JUndef))"

definition P2F_Integer :: "jstr \<Rightarrow> jsval \<Rightarrow> jsval \<Rightarrow> jstr page" where
  "P2F_Integer nr pp value = bnd (read_prop pp ''direction'') (\<lambda>d.
     ret (if is_Out d then js ''Integer output''
          else genInput (inp_id nr) (JStr (js ''number'')) d (JInt 0) JUndef))"

definition P2F_Bool :: "jstr \<Rightarrow> jsval \<Rightarrow> jsval \<Rightarrow> jstr page" where
  "P2F_Bool nr pp value = bnd (read_prop pp ''direction'') (\<lambda>d.
     ret (if is_Out d then js ''Bool output''
          else js ''Bool: <input type=\"checkbox\" id=\"inp_param_'' @ nr @ js ''\" value=\"''
               @ to_string value @ js ''\" >''))"

definition language_options :: "(string \<times> jstr) list" where
  "language_options =
     [(''ca'', js ''Catal'' @ [0xE0]),
      (''de'', js ''Deutsch''),
      (''en'', js ''English''),
      (''es'', js ''Espa'' @ [0xF1] @ js ''ol''),
      (''fr'', js ''Fran'' @ [0xE7] @ js ''ais''),
      (''tr'', js ''T'' @ [0xFC] @ js ''rk'' @ [0xE7] @ js ''e''),
      (''ru'', [0x420, 0x443, 0x441, 0x441, 0x43A, 0x438, 0x439]),
      (''zh'', [0x4E2D, 0x6587])]"

definition P2F_Language :: "jstr \<Rightarrow> jsval \<Rightarrow> jsval \<Rightarrow> jstr page" where
  "P2F_Language nr pp value = bnd (read_prop pp ''direction'') (\<lambda>d.
     ret (if is_Out d then js ''Language output''
          else js ''<label>Language: <select id=\"inp_param_'' @ nr @ js ''\" size=\"1\">''
               @ concat (map (\<lambda>(v, n). js ''<option value=\"'' @ js v @ js ''\">'' @ n
                                       @ js ''</option>'') language_options)
               @ js ''</select></label>''))"

definition table_row :: "string \<Rightarrow> jstr \<Rightarrow> jstr" where
  "table_row label field = js ''<tr><td>'' @ js label @ js ''</td><td>'' @ field @ js ''</td></tr>''"

definition default_fpr :: jsval where
  "default_fpr = JStr (js ''4ABE3AAF59AC32CFE4F86500A9411D176FF00E97'')"

text \<open>The four rows \<open>Identity\<close> and \<open>IdentityList\<close> have in common.\<close>

definition identity_rows :: "jstr \<Rightarrow> jsval \<Rightarrow> jstr" where
  "identity_rows nr d =
     table_row ''user_id: '' (genInput (inp_id (nr @ js ''_id'')) (JInt 16) d (JStr []) JUndef)
     @ table_row ''username: ''
         (genInput (inp_id (nr @ js ''_name'')) (JInt 16) d (JStr (js ''name'')) JUndef)
     @ table_row ''address: ''
         (genInput (inp_id (nr @ js ''_addr'')) (JInt 25) d (JStr (js ''address'')) JUndef)
     @ table_row ''fingerprint: '' (genInput (inp_id (nr @ js ''_fpr'')) (JInt 25) d default_fpr JUndef)
     @ js ''</table>''"

definition P2F_Identity :: "jstr \<Rightarrow> jsval \<Rightarrow> jsval \<Rightarrow> jstr page" where
  "P2F_Identity nr pp value = bnd (read_prop pp ''direction'') (\<lambda>d.
     ret (js ''Identity:<table class=\"smalltable\">'' @ identity_rows nr d))"

definition P2F_IdentityList :: "jstr \<Rightarrow> jsval \<Rightarrow> jsval \<Rightarrow> jstr page" where
  "P2F_IdentityList nr pp value = bnd (read_prop pp ''direction'') (\<lambda>d.
     ret (js ''IdentityList (only 1 entry supported here):<table class=\"smalltable\">''
          @ identity_rows nr d))"

definition P2F_BlobList :: "jstr \<Rightarrow> jsval \<Rightarrow> jsval \<Rightarrow> jstr page" where
  "P2F_BlobList nr pp value = bnd (read_prop pp ''direction'') (\<lambda>d.
     ret (if is_Out d then js ''BlobList (output)''
          else let blob_id = js ''inp_blob_'' @ nr in
               js ''<input type=\"file\" multiple id=\"'' @ blob_id @ js ''\" name=\"'' @ blob_id
               @ js ''\" onchange=\"changeBlob(this, event, '' @ [39] @ nr @ [39] @ js '')\" >''
               @ js ''<span id=\"span_blob_'' @ nr @ js ''\">('' @ [0x2026] @ js '')</span>''))"

definition radio :: "jstr \<Rightarrow> nat \<Rightarrow> jstr \<Rightarrow> string \<Rightarrow> jstr" where
  "radio nr v dis rest =
     js ''<input type=\"radio\" name=\"inp_rad_'' @ nr @ js ''\" value=\"'' @ show_nat v @ js ''\"''
     @ dis @ js rest"

definition P2F_PEP_enc_format :: "jstr \<Rightarrow> jsval \<Rightarrow> jsval \<Rightarrow> jstr page" where
  "P2F_PEP_enc_format nr pp value = bnd (read_prop pp ''direction'') (\<lambda>d.
     let dis = (if is_Out d then js '' disabled'' else []) in
     ret (js ''Encoding format: ''
          @ radio nr 0 dis ''>None,&nbsp;&nbsp;''
          @ radio nr 1 dis ''>Pieces,&nbsp;&nbsp;''
          @ radio nr 2 dis ''>S/MIME,&nbsp;&nbsp;''
          @ radio nr 3 dis ''>PGP/MIME,&nbsp;&nbsp;''
          @ radio nr 4 dis '' checked>p'' @ [0x2261] @ js ''p''))"

definition P2F_PEP_msg_direction :: "jstr \<Rightarrow> jsval \<Rightarrow> jsval \<Rightarrow> jstr page" where
  "P2F_PEP_msg_direction nr pp value = bnd (read_prop pp ''direction'') (\<lambda>d.
     let dis = (if is_Out d then js '' disabled'' else []) in
     ret (js ''Message direction: ''
          @ radio nr 0 dis ''>Incoming,&nbsp;&nbsp;''
          @ radio nr 1 dis '' checked>Outgoing''))"

definition P2F_PEP_rating :: "jstr \<Rightarrow> jsval \<Rightarrow> jsval \<Rightarrow> jstr page" where
  "P2F_PEP_rating nr pp value = bnd (read_prop pp ''direction'') (\<lambda>d.
     ret (if is_Out d then js ''PEP Rating output''
          else js ''PEP Rating: '' @ genInput (inp_id nr) (JStr (js ''number'')) d (JInt 0) JUndef))"

text \<open>
  The rows of a message.  The nested entries are called with \<open>pp.direction\<close>, a string, in the
  place of \<open>pp\<close>.
\<close>

definition P2F_Message :: "jstr \<Rightarrow> jsval \<Rightarrow> jsval \<Rightarrow> jstr page" where
  "P2F_Message nr pp value = bnd (read_prop pp ''direction'') (\<lambda>d.
     if is_Out d then ret (js ''Message (output)'')
     else
       bnd (P2F_PEP_msg_direction (nr @ js ''_dir'') d (JStr (js ''(dir)''))) (\<lambda>h_dir.
       bnd (P2F_Identity (nr @ js ''_from'') d (JStr (js ''(from)''))) (\<lambda>h_from.
       bnd (P2F_IdentityList (nr @ js ''_to'') d (JStr (js ''(to)''))) (\<lambda>h_to.
       bnd (P2F_IdentityList (nr @ js ''_cc'') d (JStr (js ''(cc)''))) (\<lambda>h_cc.
       bnd (P2F_IdentityList (nr @ js ''_bcc'') d (JStr (js ''(bcc)''))) (\<lambda>h_bcc.
       bnd (P2F_BlobList (nr @ js ''_att'') d (JStr (js ''(att)''))) (\<lambda>h_att.
       ret (js ''Message:<table class=\"smalltable\">''
            @ table_row ''dir: '' h_dir
            @ table_row ''id: ''
                (genInput (inp_id (nr @ js ''_id'')) (JInt 16) d (JStr (js ''id'')) JUndef)
            @ table_row ''shortmsg: ''
                (genInput (inp_id (nr @ js ''_smsg'')) (JInt 25) d (JStr (js ''shortmsg'')) JUndef)
            @ table_row ''longmsg: ''
                (genInput (inp_id (nr @ js ''_lmsg'')) (JInt 25) d (JStr (js ''longmsg'')) JUndef)
            @ table_row ''from: '' h_from
            @ table_row ''to: '' h_to
            @ table_row ''cc: '' h_cc
            @ table_row ''bcc: '' h_bcc
            @ table_row ''attachments:'' h_att
            @ js ''</table>''))))))))"

text \<open>The entry for a parameter's type; None where the table has none.\<close>

definition Param2Form :: "render \<Rightarrow> jstr \<Rightarrow> (nat \<Rightarrow> jsval \<Rightarrow> jsval \<Rightarrow> jstr page) option" where
  "Param2Form render = map_of
     [(js ''Session'', \<lambda>nr. P2F_Session (show_nat nr)),
      (js ''String'', \<lambda>nr. P2F_String (show_nat nr)),
      (js ''Integer'', \<lambda>nr. P2F_Integer (show_nat nr)),
      (js ''Bool'', \<lambda>nr. P2F_Bool (show_nat nr)),
      (js ''Language'', \<lambda>nr. P2F_Language (show_nat nr)),
      (js ''StringList'', \<lambda>nr pp v. P2F_StringList render nr pp),
      (js ''Message'', \<lambda>nr. P2F_Message (show_nat nr)),
      (js ''BlobList'', \<lambda>nr. P2F_BlobList (show_nat nr)),
      (js ''Identity'', \<lambda>nr. P2F_Identity (show_nat nr)),
      (js ''IdentityList'', \<lambda>nr. P2F_IdentityList (show_nat nr)),
      (js ''PEP_enc_format'', \<lambda>nr. P2F_PEP_enc_format (show_nat nr)),
      (js ''PEP_msg_direction'', \<lambda>nr. P2F_PEP_msg_direction (show_nat nr)),
      (js ''PEP_rating'', \<lambda>nr. P2F_PEP_rating (show_nat nr))]"

end
