(* ===== verification/FormReader.thy ===== *)
theory FormReader
  imports FormWriter
begin

text \<open>
  \<open>html/interactive.js\<close>, from the form back to JSON: the table \<open>Form2Param\<close>, one definition
  per entry.  The entries read the document and \<open>fileInputs\<close> and change nothing.
\<close>

definition elem_value :: "jstr \<Rightarrow> jstr page" where
  "elem_value i = bnd (getElem i) (\<lambda>e. ret (evalue e))"

lemma elem_value_run:
  "elem_value i s = (case dom s i of None \<Rightarrow> (Inl TypeError, s) | Some e \<Rightarrow> (Inr (evalue e), s))"
  by (simp add: elem_value_def bnd_def getElem_run split: option.splits)

lemma keeps_elem_value [keeps_intros]: "keeps P (elem_value i)"
  by (simp add: keeps_def elem_value_run split: option.splits)

definition radio_key :: "jstr \<Rightarrow> jstr" where
  "radio_key nr = js ''input[name=inp_rad_'' @ nr @ js '']:checked''"

text \<open>\<open>$(\<dots>).val()\<close>: undefined when nothing matches.\<close>

definition jq_val :: "jstr \<Rightarrow> jsval page" where
  "jq_val k = gets (\<lambda>s. case dom s k of None \<Rightarrow> JUndef | Some e \<Rightarrow> JStr (evalue e))"

definition F2P_Session :: "jstr \<Rightarrow> jsval \<Rightarrow> jsval page" where
  "F2P_Session nr value = ret JNull"

definition F2P_String :: "jstr \<Rightarrow> jsval \<Rightarrow> jsval page" where
  "F2P_String nr value =
     bnd (elem_value (inp_id nr)) (\<lambda>s.
     bnd (getElem (inp_id nr @ js ''_chk'')) (\<lambda>chk.
     ret (JStr (if checked chk then de_backslash s else s))))"

definition F2P_Integer :: "jstr \<Rightarrow> jsval \<Rightarrow> jsval page" where
  "F2P_Integer nr value = bnd (elem_value (inp_id nr)) (\<lambda>v. ret (JNum (parseInt v)))"

definition F2P_Bool :: "jstr \<Rightarrow> jsval \<Rightarrow> jsval page" where
  "F2P_Bool nr value = bnd (getElem (inp_id nr)) (\<lambda>e. ret (JBool (checked e)))"

definition F2P_Language :: "jstr \<Rightarrow> jsval \<Rightarrow> jsval page" where
  "F2P_Language nr value = bnd (elem_value (inp_id nr)) (\<lambda>v. ret (JStr v))"

definition F2P_StringList :: "jstr \<Rightarrow> jsval \<Rightarrow> jsval page" where
  "F2P_StringList nr value =
     (case value of
        JArr vs \<Rightarrow> bnd (each (\<lambda>i. elem_value (inp_id nr @ js ''_'' @ show_nat i)) [0..<length vs])
                       (\<lambda>xs. ret (JArr (map JStr xs)))
      | _ \<Rightarrow> throw TypeError)"

definition F2P_PEP_enc_format :: "jstr \<Rightarrow> jsval \<Rightarrow> jsval page" where
  "F2P_PEP_enc_format nr value =
     bnd (jq_val (radio_key nr)) (\<lambda>v. ret (JNum (parseInt (to_string v))))"

definition F2P_PEP_msg_direction :: "jstr \<Rightarrow> jsval \<Rightarrow> jsval page" where
  "F2P_PEP_msg_direction nr value =
     bnd (jq_val (radio_key nr)) (\<lambda>v. ret (JNum (parseInt (to_string v))))"

definition F2P_PEP_rating :: "jstr \<Rightarrow> jsval \<Rightarrow> jsval page" where
  "F2P_PEP_rating nr value = bnd (elem_value (inp_id nr)) (\<lambda>v.
     ret (JObj [(js ''rating'', JNum (parseInt v))]))"

definition blob_json :: "blob \<Rightarrow> jsval" where
  "blob_json b = JObj [(js ''mime_type'', JStr (mime_type b)), (js ''filename'', JStr (filename b)),
     (js ''value'', JStr (bvalue b))]"

definition blob_id :: "jstr \<Rightarrow> jstr" where
  "blob_id nr = js ''inp_blob_'' @ nr"

definition F2P_BlobList :: "jstr \<Rightarrow> jsval \<Rightarrow> jsval page" where
  "F2P_BlobList nr value = gets (\<lambda>s. case map_of (fileInputs s) (blob_id nr) of
     None \<Rightarrow> JUndef | Some bs \<Rightarrow> JArr (map blob_json bs))"

definition identity_json :: "jstr \<Rightarrow> jstr \<Rightarrow> jstr \<Rightarrow> jstr \<Rightarrow> jsval" where
  "identity_json user_id username address fpr =
     JObj [(js ''user_id'', JStr user_id), (js ''username'', JStr username),
           (js ''address'', JStr address), (js ''fpr'', JStr fpr)]"

definition F2P_Identity :: "jstr \<Rightarrow> jsval \<Rightarrow> jsval page" where
  "F2P_Identity nr value =
     bnd (elem_value (inp_id (nr @ js ''_id''))) (\<lambda>user_id.
     bnd (elem_value (inp_id (nr @ js ''_name''))) (\<lambda>username.
     bnd (elem_value (inp_id (nr @ js ''_addr''))) (\<lambda>address.
     bnd (elem_value (inp_id (nr @ js ''_fpr''))) (\<lambda>fpr.
     ret (identity_json user_id username address fpr)))))"

definition F2P_IdentityList :: "jstr \<Rightarrow> jsval \<Rightarrow> jsval page" where
  "F2P_IdentityList nr value =
     bnd (elem_value (inp_id (nr @ js ''_id''))) (\<lambda>user_id.
     bnd (elem_value (inp_id (nr @ js ''_name''))) (\<lambda>username.
     bnd (elem_value (inp_id (nr @ js ''_addr''))) (\<lambda>address.
     bnd (elem_value (inp_id (nr @ js ''_fpr''))) (\<lambda>fpr.
     ret (JArr [identity_json user_id username address fpr])))))"

definition F2P_Message :: "jstr \<Rightarrow> jsval \<Rightarrow> jsval page" where
  "F2P_Message nr value =
     bnd (F2P_PEP_msg_direction (nr @ js ''_dir'') JUndef) (\<lambda>dir.
     bnd (elem_value (inp_id (nr @ js ''_id''))) (\<lambda>mid.
     bnd (elem_value (inp_id (nr @ js ''_smsg''))) (\<lambda>shortmsg.
     bnd (elem_value (inp_id (nr @ js ''_lmsg''))) (\<lambda>longmsg.
     bnd (F2P_Identity (nr @ js ''_from'') JUndef) (\<lambda>from_id.
     bnd (F2P_IdentityList (nr @ js ''_to'') JUndef) (\<lambda>to_ids.
     bnd (F2P_BlobList (nr @ js ''_att'') JUndef) (\<lambda>atts.
     ret (JObj [(js ''dir'', dir), (js ''id'', JStr mid), (js ''shortmsg'', JStr shortmsg),
                (js ''longmsg'', JStr longmsg), (js ''from'', from_id), (js ''to'', to_ids),
                (js ''attachments'', atts)]))))))))"

definition Form2Param :: "jstr \<Rightarrow> (nat \<Rightarrow> jsval \<Rightarrow> jsval page) option" where
  "Form2Param = map_of
     [(js ''Session'', \<lambda>nr. F2P_Session (show_nat nr)),
      (js ''String'', \<lambda>nr. F2P_String (show_nat nr)),
      (js ''Integer'', \<lambda>nr. F2P_Integer (show_nat nr)),
      (js ''Bool'', \<lambda>nr. F2P_Bool (show_nat nr)),
      (js ''Language'', \<lambda>nr. F2P_Language (show_nat nr)),
      (js ''StringList'', \<lambda>nr. F2P_StringList (show_nat nr)),
      (js ''Message'', \<lambda>nr. F2P_Message (show_nat nr)),
      (js ''BlobList'', \<lambda>nr. F2P_BlobList (show_nat nr)),
      (js ''Identity'', \<lambda>nr. F2P_Identity (show_nat nr)),
      (js ''IdentityList'', \<lambda>nr. F2P_IdentityList (show_nat nr)),
      (js ''PEP_enc_format'', \<lambda>nr. F2P_PEP_enc_format (show_nat nr)),
      (js ''PEP_msg_direction'', \<lambda>nr. F2P_PEP_msg_direction (show_nat nr)),
      (js ''PEP_rating'', \<lambda>nr. F2P_PEP_rating (show_nat nr))]"

text \<open>The readers change no state.\<close>

definition pure_handler :: "('s, 'a) handler \<Rightarrow> bool" where
  "pure_handler m \<longleftrightarrow> (\<forall>s. snd (m s) = s)"

named_theorems pure_intros

lemma pure_basic [pure_intros]:
  "pure_handler (ret x)" "pure_handler (throw e)" "pure_handler (gets f)" "pure_handler (lift r)"
  by (simp_all add: pure_handler_def)

lemma pure_handlerD: "pure_handler m \<Longrightarrow> m s = (r, s') \<Longrightarrow> s' = s"
  by (metis pure_handler_def snd_conv)

lemma pure_bnd [pure_intros]:
  assumes "pure_handler m" and "\<And>x. pure_handler (f x)"
  shows "pure_handler (bnd m f)"
  unfolding pure_handler_def
proof
  fix s
  obtain r s' where r: "m s = (r, s')" by (cases "m s")
  with assms(1) have "s' = s" by (rule pure_handlerD)
  with r assms(2) show "snd (bnd m f s) = s"
    by (auto simp: bnd_def pure_handler_def split: sum.splits)
qed

lemma pure_each [pure_intros]: "(\<And>x. pure_handler (f x)) \<Longrightarrow> pure_handler (each f xs)"
  by (induction xs) (auto intro!: pure_intros)

lemma pure_elem [pure_intros]: "pure_handler (getElem i)" "pure_handler (elem_value i)"
  "pure_handler (jq_val k)"
  by (auto simp: pure_handler_def getElem_run elem_value_run jq_val_def split: option.splits)

lemmas F2P_defs = F2P_Session_def F2P_String_def F2P_Integer_def F2P_Bool_def F2P_Language_def
  F2P_StringList_def F2P_Message_def F2P_BlobList_def F2P_Identity_def F2P_IdentityList_def
  F2P_PEP_enc_format_def F2P_PEP_msg_direction_def F2P_PEP_rating_def

lemma F2P_pure: "Form2Param t = Some f \<Longrightarrow> pure_handler (f nr value)"
  unfolding Form2Param_def F2P_defs
  by (drule map_of_SomeD) (auto split: jsval.splits intro!: pure_intros)

end
