(* ===== verification/TestClient.thy ===== *)
theory TestClient
  imports FormReader
begin

text \<open>
  \<open>html/interactive.js\<close>, the handlers of the test client: \<open>changeBlob\<close> and the load events of
  its file readers, \<open>prepare_call\<close>, \<open>on_select_change\<close>, \<open>displayResult\<close>, \<open>button_click\<close> with
  the two callbacks of its request, and \<open>init_pEp_functions\<close>.

  The globals of the generated file \<open>pEp_functions.js\<close> are the parameter \<open>cfg\<close>.
\<close>

record server_js =
  pEp_functions :: "fn_desc list"
  server_version :: jstr
  server_version_name :: jstr
  add_sharks :: bool

section \<open>Attachments\<close>

definition span_id :: "jstr \<Rightarrow> jstr" where
  "span_id nr = js ''span_blob_'' @ nr"

definition put_inputs :: "jstr \<Rightarrow> blob list \<Rightarrow> app \<Rightarrow> app" where
  "put_inputs i bs s = s\<lparr>fileInputs := set_prop (fileInputs s) i bs\<rparr>"

definition changeBlob :: "render \<Rightarrow> jstr \<Rightarrow> file_desc list \<Rightarrow> jstr \<Rightarrow> unit page" where
  "changeBlob render inp files nr =
     seq (modify (put_inputs inp []))
     (seq (modify (\<lambda>s. s\<lparr>readers := readers s
              @ map (\<lambda>f. \<lparr>r_inp = inp, r_nr = nr, r_file = f\<rparr>) files\<rparr>))
     (bnd (gets (\<lambda>s. length (fileInputs s))) (\<lambda>n.
      set_html render (span_id nr) (show_nat n @ js '' files processed.''))))"

definition blob_of_file :: "file_desc \<Rightarrow> js_error + blob" where
  "blob_of_file f = (case arrayToBase64 (fbytes f) of Inl e \<Rightarrow> Inl e
     | Inr content \<Rightarrow> Inr \<lparr>mime_type = ftype f, filename = file_name f, bvalue = content\<rparr>)"

text \<open>The \<open>onload\<close> callback of a file reader.\<close>

definition reader_onload :: "render \<Rightarrow> file_reader \<Rightarrow> unit page" where
  "reader_onload render r =
     bnd (lift (blob_of_file (r_file r))) (\<lambda>blob.
     bnd (gets (\<lambda>s. map_of (fileInputs s) (r_inp r))) (\<lambda>old.
     case old of None \<Rightarrow> throw TypeError
     | Some bs \<Rightarrow>
         seq (modify (put_inputs (r_inp r) (bs @ [blob])))
         (add_html render (span_id (r_nr r))
            (show_nat (length (bs @ [blob])) @ js '' Files processed. <br>''))))"

section \<open>Preparing a call\<close>

definition pp_json :: "fparam \<Rightarrow> jsval" where
  "pp_json p = JObj [(js ''type'', JStr (ptype p)), (js ''direction'', JStr (direction p))]"

text \<open>The form of a parameter whose type is not in the table.\<close>

definition unknown_form :: "fparam \<Rightarrow> nat \<Rightarrow> jsval \<Rightarrow> jstr" where
  "unknown_form p nr value =
     (if direction p = js ''Out''
      then js ''<i>Output parameter of type \"'' @ ptype p @ js ''\"</i>''
      else js ''Unknown('' @ ptype p @ js '', direction='' @ direction p @ js '') nr=''
           @ show_nat nr @ js '', value='' @ to_string value)"

definition param_form :: "render \<Rightarrow> fparam \<Rightarrow> nat \<Rightarrow> jstr page" where
  "param_form render p nr =
     bnd (gets (\<lambda>s. fp_val (fp_at s nr))) (\<lambda>value.
     case Param2Form render (ptype p) of
       Some f \<Rightarrow> f nr (pp_json p) value
     | None \<Rightarrow> ret (unknown_form p nr value))"

definition param_item :: "render \<Rightarrow> fparam \<times> nat \<Rightarrow> jstr page" where
  "param_item render pn = (case pn of (p, nr) \<Rightarrow>
     bnd (param_form render p nr) (\<lambda>h.
     ret (js ''<li id=\"li_'' @ show_nat nr @ js ''\">'' @ h @ js ''</li>'')))"

definition prepare_call :: "render \<Rightarrow> fn_desc \<Rightarrow> unit page" where
  "prepare_call render f =
     seq (modify (\<lambda>s. s\<lparr>fileInputs := [], func := Some f\<rparr>))
     (if separator f then
        seq (set_html render (js ''td_param'') [0x2014, 0x2014])
            (set_disabled (js ''td_param'') True)
      else
        seq (set_disabled (js ''td_param'') False)
        (case fparams f of None \<Rightarrow> throw TypeError
         | Some ps \<Rightarrow>
           seq (modify (\<lambda>s. s\<lparr>func_params := replicate (length ps) None\<rparr>))
           (if ps = [] then set_html render (js ''td_param'') (js ''<i>(no parameters at all)</i>'')
            else
              bnd (each (param_item render) (zip ps [0..<length ps])) (\<lambda>items.
              set_html render (js ''td_param'')
                (js ''<ol>'' @ concat items @ js ''</ol>'' @ NL)))))"

definition on_select_change :: "server_js \<Rightarrow> render \<Rightarrow> unit page" where
  "on_select_change cfg render =
     bnd (jq_val (js ''fn_name'')) (\<lambda>fn.
     bnd (each (\<lambda>f. if JStr (fname f) = fn then prepare_call render f else ret ())
               (pEp_functions cfg)) (\<lambda>_. ret ()))"

section \<open>Results\<close>

definition displayResult :: "server_js \<Rightarrow> render \<Rightarrow> jsval \<Rightarrow> unit page" where
  "displayResult cfg render response =
     seq (set_html render (js ''resultpre'')
            (js ''cklickiii ['' @ to_string (stringify_gap [9] response) @ js '']''))
     (bnd (lift (get_prop response (js ''result''))) (\<lambda>result.
      seq (if truthy result then
             seq (set_html render (js ''resultpre'') (to_string (stringify_gap (js ''  '') result)))
                 (set_class (js ''resultpre'') (js ''green''))
           else
             bnd (lift (get_prop response (js ''error''))) (\<lambda>err.
             if truthy err then
               seq (set_html render (js ''resultpre'') (to_string (stringify_gap (js ''  '') err)))
                   (set_class (js ''resultpre'') (js ''red''))
             else ret ()))
      (on_select_change cfg render)))"

section \<open>The call\<close>

definition OutputParam :: jsval where
  "OutputParam = JArr [JStr (js ''OP'')]"

definition unknown_param :: "fparam \<Rightarrow> nat \<Rightarrow> jsval \<Rightarrow> jsval" where
  "unknown_param p nr value =
     JStr (js ''Unknown('' @ ptype p @ js '') nr='' @ show_nat nr @ js '', value='' @ to_string value)"

definition request_param :: "fparam \<times> nat \<Rightarrow> jsval page" where
  "request_param pn = (case pn of (p, nr) \<Rightarrow>
     if direction p = js ''Out'' then ret OutputParam
     else bnd (gets (\<lambda>s. fp_val (fp_at s nr))) (\<lambda>value.
       case Form2Param (ptype p) of
         Some f \<Rightarrow> f nr value
       | None \<Rightarrow> ret (unknown_param p nr value)))"

definition request_json :: "int \<Rightarrow> jstr \<Rightarrow> jstr \<Rightarrow> jsval list \<Rightarrow> jsval" where
  "request_json rid token method params =
     JObj [(js ''id'', JInt rid), (js ''jsonrpc'', JStr (js ''2.0'')),
           (js ''security_token'', JStr token), (js ''method'', JStr method),
           (js ''params'', JArr params)]"

definition called_params :: "fparam list page" where
  "called_params = bnd (gets func) (\<lambda>fo. case fo of None \<Rightarrow> throw TypeError
     | Some f \<Rightarrow> (case fparams f of None \<Rightarrow> throw TypeError | Some ps \<Rightarrow> ret ps))"

definition button_click :: "render \<Rightarrow> unit page" where
  "button_click render =
     seq (set_html render (js ''resultpre'') (js ''momentele'' @ [0x2026]))
     (seq (set_class (js ''resultpre'') (js ''red''))
     (bnd (elem_value (js ''server'')) (\<lambda>srv.
      let url = srv @ js ''callFunction'' in
      seq (modify (\<lambda>s. s\<lparr>call_ID := call_ID s + 1\<rparr>))
      (bnd (gets call_ID) (\<lambda>rid.
       bnd (elem_value (js ''security_token'')) (\<lambda>token.
       bnd (elem_value (js ''fn_name'')) (\<lambda>method.
       bnd called_params (\<lambda>ps.
       bnd (each request_param (zip ps [0..<length ps])) (\<lambda>params.
       let request = request_json rid token method params in
       seq (modify (\<lambda>s. s\<lparr>posts := posts s @ [(url, to_string (stringify request))]\<rparr>))
       (seq (set_html render (js ''resultpre'')
              (js ''post request sent. request='' @ to_string (stringify_gap (js ''  '') request)))
       (bnd (elem_value (js ''fn_name'')) (\<lambda>fn.
        set_html render (js ''debug'')
          (js ''url='' @ [0xAB] @ url @ [0xBB] @ js '','' @ NL
           @ js ''fn_name='' @ [0x201C] @ fn @ [0x201D] @ NL
           @ js ''request='' @ to_string (stringify_gap (js ''  '') request))))))))))))))"

text \<open>
  The \<open>fail\<close> callback.  \<open>JSON.parse\<close> is the argument \<open>parse\<close>: its left results carry the text
  of the exception.
\<close>

definition char_dump :: "jstr \<Rightarrow> jstr" where
  "char_dump rt = concat (map (\<lambda>i. show_nat i @ js '':'' @ pc (charCodeAt rt i) @ js '', '') [0..<200])"

definition fail_message :: "(jstr \<Rightarrow> jstr + jsval) \<Rightarrow> jsval \<Rightarrow> jsval \<Rightarrow> jsval \<Rightarrow> js_error + jstr" where
  "fail_message parse hdr txt err =
     (case get_prop hdr (js ''responseText'') of Inl e \<Rightarrow> Inl e
      | Inr rt \<Rightarrow> Inr
         (NL @ js ''Ajax POST request failed: '' @ NL
          @ js ''Header: '' @ to_string (stringify_gap (js ''  '') hdr) @ NL
          @ js ''Text: '' @ to_string (stringify_gap (js ''  '') txt) @ NL
          @ js ''Error:'' @ to_string (stringify_gap (js ''  '') err) @ NL
          @ (case rt of JStr t \<Rightarrow>
               (case parse t of
                  Inr j \<Rightarrow> js ''Header.responseText: '' @ to_string (stringify_gap (js ''  '') j) @ NL
                | Inl e \<Rightarrow> js ''Header.responseText cannot be parsed: '' @ e @ NL @ char_dump t @ NL)
             | _ \<Rightarrow> [])))"

definition ajax_fail :: "render \<Rightarrow> (jstr \<Rightarrow> jstr + jsval) \<Rightarrow> jsval \<Rightarrow> jsval \<Rightarrow> jsval \<Rightarrow> unit page" where
  "ajax_fail render parse hdr txt err =
     bnd (lift (fail_message parse hdr txt err)) (\<lambda>emsg.
     seq (add_html render (js ''resultpre'') emsg)
     (seq (set_class (js ''resultpre'') (js ''red''))
     (modify (\<lambda>s. s\<lparr>alerts := alerts s @ [emsg]\<rparr>))))"

section \<open>Initialisation\<close>

definition option_html :: "fn_desc \<Rightarrow> jstr" where
  "option_html f = js ''<option''
     @ (if separator f then js '' disabled> '' @ [0x2014, 0x2014] @ js '' '' else js ''>'')
     @ fname f @ js ''</option>'' @ NL"

definition shark :: image where
  "shark = \<lparr>alt = js ''Shark. CC_BY Rachel Haley (AU).'', width = 98, height = 44\<rparr>"

definition init_pEp_functions :: "server_js \<Rightarrow> render \<Rightarrow> unit page" where
  "init_pEp_functions cfg render =
     seq (set_html render (js ''fn_name'') (concat (map option_html (pEp_functions cfg))))
     (seq (set_html render (js ''spn_version'')
            (js ''version: '' @ server_version cfg @ js '' '' @ [0x201C] @ server_version_name cfg
             @ [0x201D]))
     (if add_sharks cfg then modify (\<lambda>s. s\<lparr>heading := shark # heading s\<rparr>) else ret ()))"

end
