(* ===== verification/FormLaws.thy ===== *)
theory FormLaws
  imports TestClient
begin

text \<open>
  The contract between the two tables: the form \<open>Param2Form\<close> writes offers every element
  \<open>Form2Param\<close> reads, so a prepared call can be read back without a null dereference.
\<close>

section \<open>Ids in markup\<close>

definition offers :: "jstr \<Rightarrow> jstr \<Rightarrow> bool" where
  "offers h i \<longleftrightarrow> sublist (js '' id=\"'' @ i @ js ''\"'') h"

lemma offers_iff: "offers h i \<longleftrightarrow> (\<exists>a b. h = a @ js '' id=\"'' @ i @ js ''\"'' @ b)"
  by (simp add: offers_def sublist_def)

named_theorems offers_intros \<open>markup that offers an id\<close>

lemma offers_left [offers_intros]: "offers a i \<Longrightarrow> offers (a @ b) i"
  unfolding offers_iff by (metis append.assoc)

lemma offers_right [offers_intros]: "offers b i \<Longrightarrow> offers (a @ b) i"
  unfolding offers_iff by (metis append.assoc)

lemma offers_concat: "h \<in> set hs \<Longrightarrow> offers h i \<Longrightarrow> offers (concat hs) i"
  by (induction hs) (auto intro: offers_intros)

lemma offers_eqI: "h = a @ js '' id=\"'' @ i @ js ''\"'' @ b \<Longrightarrow> offers h i"
  unfolding offers_iff by blast

lemma genInput_offers: "offers (genInput i ty d v oc) i"
proof -
  have "js ''\" id=\"'' = [34] @ js '' id=\"''" by (simp add: js_def)
  then show ?thesis
    unfolding genInput_def Let_def
    by (intro offers_eqI [where a = "js ''<input type=\"text\" type=\"'' @ to_string ty @ [34]"])
       (simp only: append_assoc)
qed

lemma genInput_offers_chk:
  "offers (genInput i (JStr (js ''text'')) d v oc) (i @ js ''_chk'')"
proof -
  have "js ''<input type=\"checkbox\" id=\"'' = js ''<input type=\"checkbox\"'' @ js '' id=\"''"
    and "js ''_chk\" name=\"'' = js ''_chk'' @ js ''\"'' @ js '' name=\"''"
    by (simp_all add: js_def)
  then have "offers (js ''<input type=\"checkbox\" id=\"'' @ i @ js ''_chk\" name=\"'' @ i
      @ js ''_chk\"> <small>parse esc seq.</small>'') (i @ js ''_chk'')"
    by (intro offers_eqI [where a = "js ''<input type=\"checkbox\"''"]) (simp only: append_assoc)
  then show ?thesis
    unfolding genInput_def Let_def by (simp only: refl if_True) (blast intro: offers_right)
qed

section \<open>The elements a parameter is read from\<close>

definition identity_needs :: "jstr \<Rightarrow> jstr list" where
  "identity_needs nr = [inp_id (nr @ js ''_id''), inp_id (nr @ js ''_name''),
     inp_id (nr @ js ''_addr''), inp_id (nr @ js ''_fpr'')]"

definition needs :: "jstr \<Rightarrow> nat \<Rightarrow> nat \<Rightarrow> jstr list" where
  "needs t n rows = (let nr = show_nat n in
     if t = js ''String'' then [inp_id nr, inp_id nr @ js ''_chk'']
     else if t = js ''Integer'' \<or> t = js ''Bool'' \<or> t = js ''Language'' \<or> t = js ''PEP_rating''
       then [inp_id nr]
     else if t = js ''StringList'' then map (string_input_id n) [0..<rows]
     else if t = js ''Message'' then
       [inp_id (nr @ js ''_id''), inp_id (nr @ js ''_smsg''), inp_id (nr @ js ''_lmsg'')]
       @ identity_needs (nr @ js ''_from'') @ identity_needs (nr @ js ''_to'')
     else if t = js ''Identity'' \<or> t = js ''IdentityList'' then identity_needs nr
     else [])"

lemma elem_value_ok: "dom s i \<noteq> None \<Longrightarrow> \<exists>v. elem_value i s = (Inr v, s)"
  by (auto simp: elem_value_run)

lemma getElem_ok: "dom s i \<noteq> None \<Longrightarrow> \<exists>e. getElem i s = (Inr e, s)"
  by (auto simp: getElem_run)

interpretation fields: reader elem_value "\<lambda>s i. dom s i \<noteq> None"
  by unfold_locales (rule elem_value_ok)

lemma identity_ok:
  assumes "\<forall>i \<in> set (identity_needs nr). dom s i \<noteq> None"
  shows "\<exists>v. F2P_Identity nr value s = (Inr v, s)" "\<exists>v. F2P_IdentityList nr value s = (Inr v, s)"
proof -
  obtain a b c d where
    "elem_value (inp_id (nr @ js ''_id'')) s = (Inr a, s)"
    "elem_value (inp_id (nr @ js ''_name'')) s = (Inr b, s)"
    "elem_value (inp_id (nr @ js ''_addr'')) s = (Inr c, s)"
    "elem_value (inp_id (nr @ js ''_fpr'')) s = (Inr d, s)"
    using assms unfolding identity_needs_def by (metis elem_value_ok list.set_intros)
  then show "\<exists>v. F2P_Identity nr value s = (Inr v, s)" "\<exists>v. F2P_IdentityList nr value s = (Inr v, s)"
    by (simp_all add: F2P_Identity_def F2P_IdentityList_def)
qed

lemma message_ok:
  assumes "\<forall>i \<in> set ([inp_id (nr @ js ''_id''), inp_id (nr @ js ''_smsg''), inp_id (nr @ js ''_lmsg'')]
       @ identity_needs (nr @ js ''_from'') @ identity_needs (nr @ js ''_to'')). dom s i \<noteq> None"
  shows "\<exists>v. F2P_Message nr value s = (Inr v, s)"
proof -
  obtain a b c where
    "elem_value (inp_id (nr @ js ''_id'')) s = (Inr a, s)"
    "elem_value (inp_id (nr @ js ''_smsg'')) s = (Inr b, s)"
    "elem_value (inp_id (nr @ js ''_lmsg'')) s = (Inr c, s)"
    using assms elem_value_ok [of s] by (metis Un_iff list.set_intros set_append)
  moreover obtain v where "F2P_Identity (nr @ js ''_from'') JUndef s = (Inr v, s)"
    using assms identity_ok(1) [of "nr @ js ''_from''" s JUndef] by auto
  moreover obtain w where "F2P_IdentityList (nr @ js ''_to'') JUndef s = (Inr w, s)"
    using assms identity_ok(2) [of "nr @ js ''_to''" s JUndef] by auto
  ultimately show ?thesis
    by (simp add: F2P_Message_def F2P_PEP_msg_direction_def F2P_BlobList_def jq_val_def)
qed

lemma string_list_ok:
  assumes "\<forall>i \<in> set (map (string_input_id n) [0..<length vs]). dom s i \<noteq> None"
  shows "\<exists>v. F2P_StringList (show_nat n) (JArr vs) s = (Inr v, s)"
proof -
  have "each (\<lambda>i. elem_value (inp_id (show_nat n) @ js ''_'' @ show_nat i)) [0..<length vs]
      = each elem_value (map (string_input_id n) [0..<length vs])"
    by (simp only: each_map [symmetric] string_input_id_def)
  with fields.reads_all [OF assms] show ?thesis by (auto simp: F2P_StringList_def)
qed

lemma Form2Param_cases:
  assumes "Form2Param t = Some f"
  obtains
  (Session) "t = js ''Session''" "f = (\<lambda>nr. F2P_Session (show_nat nr))"
  | (String) "t = js ''String''" "f = (\<lambda>nr. F2P_String (show_nat nr))"
  | (Integer) "t = js ''Integer''" "f = (\<lambda>nr. F2P_Integer (show_nat nr))"
  | (Bool) "t = js ''Bool''" "f = (\<lambda>nr. F2P_Bool (show_nat nr))"
  | (Language) "t = js ''Language''" "f = (\<lambda>nr. F2P_Language (show_nat nr))"
  | (StringList) "t = js ''StringList''" "f = (\<lambda>nr. F2P_StringList (show_nat nr))"
  | (Message) "t = js ''Message''" "f = (\<lambda>nr. F2P_Message (show_nat nr))"
  | (BlobList) "t = js ''BlobList''" "f = (\<lambda>nr. F2P_BlobList (show_nat nr))"
  | (Identity) "t = js ''Identity''" "f = (\<lambda>nr. F2P_Identity (show_nat nr))"
  | (IdentityList) "t = js ''IdentityList''" "f = (\<lambda>nr. F2P_IdentityList (show_nat nr))"
  | (PEP_enc_format) "t = js ''PEP_enc_format''" "f = (\<lambda>nr. F2P_PEP_enc_format (show_nat nr))"
  | (PEP_msg_direction) "t = js ''PEP_msg_direction''" "f = (\<lambda>nr. F2P_PEP_msg_direction (show_nat nr))"
  | (PEP_rating) "t = js ''PEP_rating''" "f = (\<lambda>nr. F2P_PEP_rating (show_nat nr))"
  using map_of_SomeD [OF assms [unfolded Form2Param_def]]
  by (simp only: list.set insert_iff empty_iff prod.inject simp_thms)
     (elim disjE conjE; rule that, assumption, assumption)

lemma single_ok:
  assumes "dom s (inp_id nr) \<noteq> None"
  shows "\<exists>v. F2P_Integer nr x s = (Inr v, s)" "\<exists>v. F2P_Bool nr x s = (Inr v, s)"
    "\<exists>v. F2P_Language nr x s = (Inr v, s)" "\<exists>v. F2P_PEP_rating nr x s = (Inr v, s)"
    "dom s (inp_id nr @ js ''_chk'') \<noteq> None \<Longrightarrow> \<exists>v. F2P_String nr x s = (Inr v, s)"
  using assms
  by (auto simp: F2P_Integer_def F2P_Bool_def F2P_Language_def F2P_PEP_rating_def F2P_String_def
      bnd_def elem_value_run getElem_run)

lemma free_ok:
  "\<exists>v. F2P_Session nr x s = (Inr v, s)" "\<exists>v. F2P_BlobList nr x s = (Inr v, s)"
  "\<exists>v. F2P_PEP_enc_format nr x s = (Inr v, s)" "\<exists>v. F2P_PEP_msg_direction nr x s = (Inr v, s)"
  by (simp_all add: F2P_Session_def F2P_BlobList_def F2P_PEP_enc_format_def
      F2P_PEP_msg_direction_def bnd_def jq_val_def)

text \<open>A parameter whose elements are all there is read without an error.\<close>

lemma reads_ok:
  assumes f: "Form2Param t = Some f"
    and there: "\<forall>i \<in> set (needs t n rows). dom s i \<noteq> None"
    and arr: "t = js ''StringList'' \<Longrightarrow> \<exists>vs. x = JArr vs \<and> length vs = rows"
  shows "\<exists>v. f n x s = (Inr v, s)"
  using f
proof (cases rule: Form2Param_cases)
  case StringList
  with there arr string_list_ok [of n _ s] show ?thesis by (auto simp: needs_def Let_def)
next
  case Message
  with there message_ok [of "show_nat n" s x] show ?thesis by (simp add: needs_def Let_def)
next
  case Identity
  with there identity_ok(1) [of "show_nat n" s x] show ?thesis by (simp add: needs_def Let_def)
next
  case IdentityList
  with there identity_ok(2) [of "show_nat n" s x] show ?thesis by (simp add: needs_def Let_def)
qed (use there in \<open>simp_all add: needs_def Let_def single_ok free_ok\<close>)

section \<open>What the form offers\<close>

lemma table_row_offers [offers_intros]: "offers field i \<Longrightarrow> offers (table_row label field) i"
  unfolding table_row_def by (intro offers_right offers_left)

lemma identity_rows_offers: "i \<in> set (identity_needs nr) \<Longrightarrow> offers (identity_rows nr d) i"
  unfolding identity_needs_def identity_rows_def
  by (auto intro!: genInput_offers) (blast intro: offers_intros genInput_offers)+

lemma read_prop_run [simp]:
  "read_prop (pp_json p) ''direction'' s = (Inr (JStr (direction p)), s)"
  "read_prop (JStr d) k s = (Inr JUndef, s)"
  by (simp_all add: read_prop_def pp_json_def)

lemma is_Out_simps [simp]: "is_Out (JStr d) \<longleftrightarrow> d = js ''Out''" "\<not> is_Out JUndef"
  by (simp_all add: is_Out_def loose_eq_str_def)

lemma Param2Form_cases:
  assumes "Param2Form render t = Some f"
  obtains
  (Session) "t = js ''Session''" "f = (\<lambda>nr. P2F_Session (show_nat nr))"
  | (String) "t = js ''String''" "f = (\<lambda>nr. P2F_String (show_nat nr))"
  | (Integer) "t = js ''Integer''" "f = (\<lambda>nr. P2F_Integer (show_nat nr))"
  | (Bool) "t = js ''Bool''" "f = (\<lambda>nr. P2F_Bool (show_nat nr))"
  | (Language) "t = js ''Language''" "f = (\<lambda>nr. P2F_Language (show_nat nr))"
  | (StringList) "t = js ''StringList''" "f = (\<lambda>nr pp v. P2F_StringList render nr pp)"
  | (Message) "t = js ''Message''" "f = (\<lambda>nr. P2F_Message (show_nat nr))"
  | (BlobList) "t = js ''BlobList''" "f = (\<lambda>nr. P2F_BlobList (show_nat nr))"
  | (Identity) "t = js ''Identity''" "f = (\<lambda>nr. P2F_Identity (show_nat nr))"
  | (IdentityList) "t = js ''IdentityList''" "f = (\<lambda>nr. P2F_IdentityList (show_nat nr))"
  | (PEP_enc_format) "t = js ''PEP_enc_format''" "f = (\<lambda>nr. P2F_PEP_enc_format (show_nat nr))"
  | (PEP_msg_direction) "t = js ''PEP_msg_direction''" "f = (\<lambda>nr. P2F_PEP_msg_direction (show_nat nr))"
  | (PEP_rating) "t = js ''PEP_rating''" "f = (\<lambda>nr. P2F_PEP_rating (show_nat nr))"
  using map_of_SomeD [OF assms [unfolded Param2Form_def]]
  by (simp only: list.set insert_iff empty_iff prod.inject simp_thms)
     (elim disjE conjE; rule that, assumption, assumption)

text \<open>The inputs whose id is written out in the markup.\<close>

lemma literal_offers:
  "offers (js ''Bool: <input type=\"checkbox\" id=\"inp_param_'' @ nr @ js ''\" value=\"'' @ b) (inp_id nr)"
  "offers (js ''<label>Language: <select id=\"inp_param_'' @ nr @ js ''\" size=\"1\">'' @ b) (inp_id nr)"
proof -
  have "js ''Bool: <input type=\"checkbox\" id=\"inp_param_''
      = js ''Bool: <input type=\"checkbox\"'' @ js '' id=\"'' @ js ''inp_param_''"
    and "js ''\" value=\"'' = js ''\"'' @ js '' value=\"''"
    by (simp_all add: js_def)
  then show "offers (js ''Bool: <input type=\"checkbox\" id=\"inp_param_'' @ nr @ js ''\" value=\"'' @ b) (inp_id nr)"
    by (intro offers_eqI [where a = "js ''Bool: <input type=\"checkbox\"''"])
       (simp only: append_assoc inp_id_def)
  have "js ''<label>Language: <select id=\"inp_param_''
      = js ''<label>Language: <select'' @ js '' id=\"'' @ js ''inp_param_''"
    and "js ''\" size=\"1\">'' = js ''\"'' @ js '' size=\"1\">''"
    by (simp_all add: js_def)
  then show "offers (js ''<label>Language: <select id=\"inp_param_'' @ nr @ js ''\" size=\"1\">'' @ b) (inp_id nr)"
    by (intro offers_eqI [where a = "js ''<label>Language: <select''"])
       (simp only: append_assoc inp_id_def)
qed

definition writes :: "jstr page \<Rightarrow> app \<Rightarrow> jstr list \<Rightarrow> bool" where
  "writes m s ids \<longleftrightarrow> (\<exists>h. m s = (Inr h, s) \<and> (\<forall>i \<in> set ids. offers h i))"

lemma writesI: "m s = (Inr h, s) \<Longrightarrow> (\<And>i. i \<in> set ids \<Longrightarrow> offers h i) \<Longrightarrow> writes m s ids"
  by (auto simp: writes_def)

lemma identity_writes:
  "writes (P2F_Identity nr (JStr d) v) s (identity_needs nr)"
  "writes (P2F_IdentityList nr (JStr d) v) s (identity_needs nr)"
  "writes (P2F_Identity nr (pp_json p) v) s (identity_needs nr)"
  "writes (P2F_IdentityList nr (pp_json p) v) s (identity_needs nr)"
  unfolding P2F_Identity_def P2F_IdentityList_def
  by (rule writesI, simp, blast intro: offers_right identity_rows_offers)+

lemma writes_subset: "writes m s ids \<Longrightarrow> set ids' \<subseteq> set ids \<Longrightarrow> writes m s ids'"
  by (auto simp: writes_def)

lemma message_writes_all:
  assumes "direction p \<noteq> js ''Out''"
  shows "writes (P2F_Message nr (pp_json p) v) s
    ([inp_id (nr @ js ''_id''), inp_id (nr @ js ''_smsg''), inp_id (nr @ js ''_lmsg'')]
     @ identity_needs (nr @ js ''_from'') @ identity_needs (nr @ js ''_to'')
     @ identity_needs (nr @ js ''_cc'') @ identity_needs (nr @ js ''_bcc''))"
proof -
  let ?d = "JStr (direction p)"
  obtain hd' where "P2F_PEP_msg_direction (nr @ js ''_dir'') ?d (JStr (js ''(dir)'')) s = (Inr hd', s)"
    by (simp add: P2F_PEP_msg_direction_def)
  moreover obtain hf where hf: "P2F_Identity (nr @ js ''_from'') ?d (JStr (js ''(from)'')) s = (Inr hf, s)"
    "\<forall>i \<in> set (identity_needs (nr @ js ''_from'')). offers hf i"
    using identity_writes(1) unfolding writes_def by blast
  moreover obtain ht where ht: "P2F_IdentityList (nr @ js ''_to'') ?d (JStr (js ''(to)'')) s = (Inr ht, s)"
    "\<forall>i \<in> set (identity_needs (nr @ js ''_to'')). offers ht i"
    using identity_writes(2) unfolding writes_def by blast
  moreover obtain hc where hc: "P2F_IdentityList (nr @ js ''_cc'') ?d (JStr (js ''(cc)'')) s = (Inr hc, s)"
    "\<forall>i \<in> set (identity_needs (nr @ js ''_cc'')). offers hc i"
    using identity_writes(2) unfolding writes_def by blast
  moreover obtain hb where hb: "P2F_IdentityList (nr @ js ''_bcc'') ?d (JStr (js ''(bcc)'')) s = (Inr hb, s)"
    "\<forall>i \<in> set (identity_needs (nr @ js ''_bcc'')). offers hb i"
    using identity_writes(2) unfolding writes_def by blast
  moreover obtain ha where "P2F_BlobList (nr @ js ''_att'') ?d (JStr (js ''(att)'')) s = (Inr ha, s)"
    by (simp add: P2F_BlobList_def)
  ultimately have run: "P2F_Message nr (pp_json p) v s = (Inr (js ''Message:<table class=\"smalltable\">''
            @ table_row ''dir: '' hd'
            @ table_row ''id: ''
                (genInput (inp_id (nr @ js ''_id'')) (JInt 16) ?d (JStr (js ''id'')) JUndef)
            @ table_row ''shortmsg: ''
                (genInput (inp_id (nr @ js ''_smsg'')) (JInt 25) ?d (JStr (js ''shortmsg'')) JUndef)
            @ table_row ''longmsg: ''
                (genInput (inp_id (nr @ js ''_lmsg'')) (JInt 25) ?d (JStr (js ''longmsg'')) JUndef)
            @ table_row ''from: '' hf @ table_row ''to: '' ht @ table_row ''cc: '' hc
            @ table_row ''bcc: '' hb @ table_row ''attachments:'' ha @ js ''</table>''), s)"
    using assms by (simp add: P2F_Message_def)
  show ?thesis
  proof (rule writesI, rule run)
    fix i
    assume "i \<in> set ([inp_id (nr @ js ''_id''), inp_id (nr @ js ''_smsg''), inp_id (nr @ js ''_lmsg'')]
       @ identity_needs (nr @ js ''_from'') @ identity_needs (nr @ js ''_to'')
       @ identity_needs (nr @ js ''_cc'') @ identity_needs (nr @ js ''_bcc''))"
    then consider "i = inp_id (nr @ js ''_id'')" | "i = inp_id (nr @ js ''_smsg'')"
      | "i = inp_id (nr @ js ''_lmsg'')" | "offers hf i" | "offers ht i"
      | "offers hc i" | "offers hb i"
      using hf ht hc hb by auto
    then show "offers (js ''Message:<table class=\"smalltable\">''
            @ table_row ''dir: '' hd'
            @ table_row ''id: ''
                (genInput (inp_id (nr @ js ''_id'')) (JInt 16) ?d (JStr (js ''id'')) JUndef)
            @ table_row ''shortmsg: ''
                (genInput (inp_id (nr @ js ''_smsg'')) (JInt 25) ?d (JStr (js ''shortmsg'')) JUndef)
            @ table_row ''longmsg: ''
                (genInput (inp_id (nr @ js ''_lmsg'')) (JInt 25) ?d (JStr (js ''longmsg'')) JUndef)
            @ table_row ''from: '' hf @ table_row ''to: '' ht @ table_row ''cc: '' hc
            @ table_row ''bcc: '' hb @ table_row ''attachments:'' ha @ js ''</table>'') i"
      by cases (hypsubst?, blast intro: offers_intros genInput_offers)+
  qed
qed

lemma message_writes:
  assumes "direction p \<noteq> js ''Out''"
  shows "writes (P2F_Message nr (pp_json p) v) s
    ([inp_id (nr @ js ''_id''), inp_id (nr @ js ''_smsg''), inp_id (nr @ js ''_lmsg'')]
     @ identity_needs (nr @ js ''_from'') @ identity_needs (nr @ js ''_to''))"
  by (rule writes_subset [OF message_writes_all [OF assms]]) auto

lemma writes_dir:
  assumes "direction p \<noteq> js ''Out''"
    and "\<And>i. i \<in> set ids \<Longrightarrow> offers (H (JStr (direction p))) i"
  shows "writes (bnd (read_prop (pp_json p) ''direction'')
    (\<lambda>d. ret (if is_Out d then o' else H d))) s ids"
  using assms by (intro writesI [where h = "H (JStr (direction p))"]) simp_all

lemma single_writes:
  assumes "direction p \<noteq> js ''Out''"
  shows "writes (P2F_String nr (pp_json p) v) s [inp_id nr, inp_id nr @ js ''_chk'']"
    "writes (P2F_Integer nr (pp_json p) v) s [inp_id nr]"
    "writes (P2F_Bool nr (pp_json p) v) s [inp_id nr]"
    "writes (P2F_Language nr (pp_json p) v) s [inp_id nr]"
    "writes (P2F_PEP_rating nr (pp_json p) v) s [inp_id nr]"
  unfolding P2F_String_def P2F_Integer_def P2F_Bool_def P2F_Language_def P2F_PEP_rating_def
  by (rule writes_dir [OF assms];
      auto simp: genInput_offers genInput_offers_chk literal_offers intro: offers_right genInput_offers)+

lemma free_writes: "writes (P2F_Session nr (pp_json p) v) s []" "writes (P2F_BlobList nr (pp_json p) v) s []"
  "writes (P2F_PEP_enc_format nr (pp_json p) v) s []"
  "writes (P2F_PEP_msg_direction nr (pp_json p) v) s []"
  unfolding P2F_Session_def P2F_BlobList_def P2F_PEP_enc_format_def P2F_PEP_msg_direction_def
  by (rule writesI, simp add: Let_def, simp)+

lemma out_writes:
  assumes "direction p = js ''Out''"
  shows "writes (P2F_String nr (pp_json p) v) s []" "writes (P2F_Integer nr (pp_json p) v) s []"
    "writes (P2F_Bool nr (pp_json p) v) s []" "writes (P2F_Language nr (pp_json p) v) s []"
    "writes (P2F_PEP_rating nr (pp_json p) v) s []" "writes (P2F_Message nr (pp_json p) v) s []"
    "writes (P2F_Identity nr (pp_json p) v) s []" "writes (P2F_IdentityList nr (pp_json p) v) s []"
  unfolding P2F_String_def P2F_Integer_def P2F_Bool_def P2F_Language_def P2F_PEP_rating_def
    P2F_Message_def P2F_Identity_def P2F_IdentityList_def
  by (rule writesI, simp add: assms, simp)+

text \<open>Every entry but the one for string lists leaves the state alone and offers what is read.\<close>

definition shown_needs :: "fparam \<Rightarrow> nat \<Rightarrow> jstr list" where
  "shown_needs p n = (if direction p = js ''Out'' then [] else needs (ptype p) n 0)"

lemma entry_writes:
  assumes "Param2Form render (ptype p) = Some f" and "ptype p \<noteq> js ''StringList''"
  shows "writes (f n (pp_json p) v) s (shown_needs p n)"
  using assms(1)
proof (cases rule: Param2Form_cases)
  case Message
  with message_writes [of p "show_nat n" v s] out_writes(6) [of p "show_nat n" v s] show ?thesis
    by (simp add: shown_needs_def needs_def Let_def)
qed (use assms(2) in \<open>simp_all add: shown_needs_def needs_def Let_def single_writes free_writes
      out_writes identity_writes\<close>)

lemma string_row_offers: "offers (string_row n pp i v) (string_input_id n i)"
  unfolding string_row_def by (blast intro: offers_intros genInput_offers)

lemma genStringList_run:
  assumes "dom s (js ''debug'') = Some e"
    and t_def: "t = (if fp_at s n = None then fp_set n [] s else s)"
  shows "\<exists>h g. genStringList render n pp s = (Inr h, put_html render (js ''debug'') g e t)
     \<and> (\<forall>vs. fp_at t n = Some vs \<longrightarrow> (\<forall>i < length vs. offers h (string_input_id n i)))"
proof -
  have d: "dom t (js ''debug'') = Some e" using assms(1) by (simp add: t_def)
  obtain vs where vs: "fp_at t n = Some vs"
    by (cases "fp_at s n") (auto simp: t_def fp_at_set)
  let ?rows = "map (\<lambda>i. string_row n pp i (vs ! i)) [0..<length vs]"
  let ?h = "js ''StringList:<br>'' @ concat ?rows
            @ js ''<input type=\"button\" value=\"Add String!\" onClick=\"addString(''
            @ show_nat n @ js '')\">''"
  have rows: "offers ?h (string_input_id n i)" if "i < length vs" for i
    using that by (intro offers_right offers_left offers_concat [OF _ string_row_offers]) auto
  have "genStringList render n pp s = (Inr ?h, put_html render (js ''debug'')
      (innerHTML e @ NL @ js ''func_params = '' @ to_string (stringify (params_json t)) @ NL) e t)"
    using d vs unfolding genStringList_def t_def
    by (simp add: bnd_def add_html_run Let_def split: option.splits)
  with rows vs show ?thesis by - (intro exI conjI allI impI, assumption, simp)
qed

section \<open>A prepared call is ready\<close>

text \<open>
  The part of the state that writing a form does not touch.
\<close>

definition same_call :: "app \<Rightarrow> app \<Rightarrow> bool" where
  "same_call s t \<longleftrightarrow> call_ID t = call_ID s \<and> func t = func s \<and> fileInputs t = fileInputs s
     \<and> readers t = readers s \<and> posts t = posts s \<and> alerts t = alerts s"

lemma same_call_refl [simp]: "same_call s s"
  by (simp add: same_call_def)

lemma same_call_trans: "same_call s t \<Longrightarrow> same_call t u \<Longrightarrow> same_call s u"
  by (simp add: same_call_def)

lemma same_call_put_html [simp]: "same_call s (put_html render i h e t) = same_call s t"
  by (simp add: same_call_def)

lemma same_call_fp_set [simp]: "same_call s (fp_set n vs t) = same_call s t"
  by (simp add: same_call_def)

lemma fp_at_put_html [simp]: "fp_at (put_html render i h e t) n = fp_at t n"
  by (simp add: fp_at_def)

definition gets_list :: "fparam \<Rightarrow> bool" where
  "gets_list p \<longleftrightarrow> ptype p = js ''StringList'' \<and> direction p \<noteq> js ''Out''"

lemma page_ok_debug: "page_ok s \<Longrightarrow> \<exists>e. dom s (js ''debug'') = Some e"
  using page_okD [of s "js ''debug''"] by (auto simp: static_ids_def)

lemma param_form_run:
  assumes "page_ok s" and "fp_at s n = None"
  shows "\<exists>h t. param_form render p n s = (Inr h, t) \<and> (\<forall>i \<in> set (shown_needs p n). offers h i)
    \<and> page_ok t \<and> same_call s t
    \<and> (\<forall>m. fp_at t m = (if m = n \<and> gets_list p then Some [] else fp_at s m))"
proof (cases "Param2Form render (ptype p)")
  case None
  then have "ptype p \<noteq> js ''StringList''" "needs (ptype p) n 0 = []"
    by (auto simp: Param2Form_def needs_def Let_def)
  with None assms show ?thesis
    by (simp add: param_form_def shown_needs_def gets_list_def)
next
  case (Some f)
  show ?thesis
  proof (cases "ptype p = js ''StringList''")
    case False
    from entry_writes [OF Some False, of n "fp_val (fp_at s n)" s] obtain h
      where "f n (pp_json p) (fp_val (fp_at s n)) s = (Inr h, s)"
        and "\<forall>i \<in> set (shown_needs p n). offers h i"
      by (auto simp: writes_def)
    with Some False assms(1) show ?thesis
      by (simp add: param_form_def gets_list_def)
  next
    case True
    with Some have f: "f = (\<lambda>nr pp v. P2F_StringList render nr pp)"
      by (simp add: Param2Form_def)
    have none: "shown_needs p n = []"
      using True by (simp add: shown_needs_def needs_def)
    show ?thesis
    proof (cases "direction p = js ''Out''")
      case out: True
      with Some True f none assms(1) show ?thesis
        by (simp add: param_form_def P2F_StringList_def gets_list_def)
    next
      case False
      obtain e where e: "dom s (js ''debug'') = Some e" using assms(1) page_ok_debug by blast
      from genStringList_run [OF e refl, of render n "pp_json p"] obtain h g
        where g: "genStringList render n (pp_json p) s
          = (Inr h, put_html render (js ''debug'') g e (fp_set n [] s))"
        using assms(2) by auto
      have "page_ok (put_html render (js ''debug'') g e (fp_set n [] s))"
        using assms(1) e by (intro page_ok_put_html) simp_all
      with g Some True False f none show ?thesis
        by (simp add: param_form_def P2F_StringList_def gets_list_def fp_at_set)
    qed
  qed
qed

lemma param_items_run:
  assumes "page_ok s" and "\<forall>n \<ge> k. fp_at s n = None"
  shows "\<exists>hs t. each (param_item render) (zip ps [k..<k + length ps]) s = (Inr hs, t)
    \<and> length hs = length ps \<and> page_ok t \<and> same_call s t
    \<and> (\<forall>n < length ps. \<forall>i \<in> set (shown_needs (ps ! n) (k + n)). offers (hs ! n) i)
    \<and> (\<forall>m. fp_at t m = (if k \<le> m \<and> m < k + length ps \<and> gets_list (ps ! (m - k)) then Some [] else fp_at s m))"
  using assms
proof (induction ps arbitrary: k s)
  case Nil
  then show ?case by simp
next
  case (Cons p ps)
  obtain h t where h: "param_form render p k s = (Inr h, t)" "page_ok t" "same_call s t"
      "\<forall>i \<in> set (shown_needs p k). offers h i"
      "\<forall>m. fp_at t m = (if m = k \<and> gets_list p then Some [] else fp_at s m)"
    using param_form_run [of s k render p] Cons.prems by auto
  let ?h = "js ''<li id=\"li_'' @ show_nat k @ js ''\">'' @ h @ js ''</li>''"
  from Cons.IH [of t "Suc k"] h Cons.prems obtain hs u where
    u: "each (param_item render) (zip ps [Suc k..<Suc k + length ps]) t = (Inr hs, u)"
      "length hs = length ps" "page_ok u" "same_call t u"
      "\<forall>n < length ps. \<forall>i \<in> set (shown_needs (ps ! n) (Suc k + n)). offers (hs ! n) i"
      "\<forall>m. fp_at u m = (if Suc k \<le> m \<and> m < Suc k + length ps \<and> gets_list (ps ! (m - Suc k)) then Some [] else fp_at t m)"
    by auto
  have first: "offers ?h i" if "i \<in> set (shown_needs p k)" for i
    using that h(4) by (blast intro: offers_right offers_left)
  have "each (param_item render) (zip (p # ps) [k..<k + length (p # ps)]) s = (Inr (?h # hs), u)"
    using h(1) u(1) by (simp add: param_item_def upt_conv_Cons del: upt_Suc)
  moreover have "\<forall>i \<in> set (shown_needs ((p # ps) ! n) (k + n)). offers ((?h # hs) ! n) i"
    if "n < length (p # ps)" for n
    using that first u(5) by (cases n) auto
  moreover have "fp_at u m = (if k \<le> m \<and> m < k + length (p # ps) \<and> gets_list ((p # ps) ! (m - k))
      then Some [] else fp_at s m)" for m
    using h(5) u(6) by (auto simp: nth_Cons' Suc_diff_le)
  ultimately show ?case
    using u same_call_trans [OF h(3) u(4)] by (intro exI conjI) (assumption | simp)+
qed

text \<open>What is asked of the HTML parser: it makes an element for every id attribute.\<close>

definition honest :: "render \<Rightarrow> bool" where
  "honest render \<longleftrightarrow> (\<forall>h i. offers h i \<longrightarrow> render h i \<noteq> None)"

text \<open>An element that no markup put into the result box can replace.\<close>

definition field_at :: "app \<Rightarrow> jstr \<Rightarrow> bool" where
  "field_at s i \<longleftrightarrow> (\<exists>e. dom s i = Some e \<and> (owner e = [] \<or> root_rank e < doc_rank (js ''resultpre'')))"

lemma doc_ranks:
  "doc_rank (js ''td_param'') = 4" "doc_rank (js ''debug'') = 5" "doc_rank (js ''resultpre'') = 6"
  by (simp_all add: doc_rank_def static_ids_def)

text \<open>Every input parameter of the call finds the elements it is read from.\<close>

definition param_ready :: "app \<Rightarrow> fparam \<Rightarrow> nat \<Rightarrow> bool" where
  "param_ready s p n \<longleftrightarrow> direction p = js ''Out'' \<or>
     (\<exists>rows. (\<forall>i \<in> set (needs (ptype p) n rows). field_at s i)
       \<and> (ptype p = js ''StringList'' \<longrightarrow> (\<exists>vs. fp_at s n = Some vs \<and> length vs = rows)))"

definition ready :: "app \<Rightarrow> fparam list \<Rightarrow> bool" where
  "ready s ps \<longleftrightarrow> (\<forall>n < length ps. param_ready s (ps ! n) n)"

lemma field_at_put_html:
  assumes "page_ok s" and "dom s (js ''td_param'') = Some e" and "render h j \<noteq> None"
  shows "field_at (put_html render (js ''td_param'') h e s) j"
proof -
  have o: "owner e = []" using page_okD [OF assms(1), of "js ''td_param''"] assms(2)
    by (auto simp: static_ids_def)
  obtain n where n: "render h j = Some n" using assms(3) by blast
  show ?thesis
  proof (cases "j = js ''td_param'' \<or> dom s j = None")
    case True
    with o n show ?thesis by (auto simp: field_at_def put_html_def Let_def root_rank_def doc_ranks)
  next
    case False
    then obtain e' where e': "dom s j = Some e'" by blast
    with False o n show ?thesis
      by (auto simp: field_at_def put_html_def Let_def root_rank_def doc_ranks)
  qed
qed

lemma fp_at_replicate: "fp_at (s\<lparr>func_params := replicate k None\<rparr>) n = None"
  by (simp add: fp_at_def)

lemma page_ok_upds [simp]:
  "page_ok (s\<lparr>fileInputs := x\<rparr>) = page_ok s" "page_ok (s\<lparr>func := y\<rparr>) = page_ok s"
  "page_ok (s\<lparr>func_params := z\<rparr>) = page_ok s" "page_ok (s\<lparr>call_ID := c\<rparr>) = page_ok s"
  "page_ok (s\<lparr>posts := q\<rparr>) = page_ok s" "page_ok (s\<lparr>readers := r\<rparr>) = page_ok s"
  "page_ok (s\<lparr>alerts := a\<rparr>) = page_ok s" "page_ok (s\<lparr>heading := hd'\<rparr>) = page_ok s"
  by (simp_all add: page_ok_def)

lemma page_ok_at: "page_ok s \<Longrightarrow> i \<in> set static_ids \<Longrightarrow> \<exists>e. dom s i = Some e"
  using page_okD by blast

lemma static_simps [simp]:
  "js ''td_param'' \<in> set static_ids" "js ''debug'' \<in> set static_ids"
  "js ''resultpre'' \<in> set static_ids" "js ''server'' \<in> set static_ids"
  "js ''security_token'' \<in> set static_ids" "js ''fn_name'' \<in> set static_ids"
  "js ''spn_version'' \<in> set static_ids" "js ''doc_format'' \<in> set static_ids"
  "js ''doc_out'' \<in> set static_ids"
  by (simp_all add: static_ids_def)

lemma prepare_ready:
  assumes "page_ok s" and "\<not> separator f" and "fparams f = Some ps" and "honest render"
  shows "\<exists>t. prepare_call render f s = (Inr (), t) \<and> page_ok t \<and> func t = Some f
    \<and> fileInputs t = [] \<and> call_ID t = call_ID s \<and> posts t = posts s \<and> ready t ps"
proof -
  obtain e where e: "dom s (js ''td_param'') = Some e" using assms(1) page_ok_at by force
  let ?s1 = "s\<lparr>fileInputs := [], func := Some f\<rparr>"
  let ?s2 = "?s1\<lparr>dom := (dom s)(js ''td_param'' \<mapsto> e\<lparr>disabled := False\<rparr>)\<rparr>"
  let ?s3 = "?s2\<lparr>func_params := replicate (length ps) None\<rparr>"
  have ok2: "page_ok ?s2"
    using page_ok_upd [of ?s1 "js ''td_param''" e "\<lambda>e. e\<lparr>disabled := False\<rparr>"] assms(1) e by simp
  then have ok3: "page_ok ?s3" by simp
  have dis: "set_disabled (js ''td_param'') False ?s1 = (Inr (), ?s2)"
    using e by (simp add: set_disabled_def upd_elem_run)
  show ?thesis
  proof (cases "ps = []")
    case True
    let ?t = "put_html render (js ''td_param'') (js ''<i>(no parameters at all)</i>'') (e\<lparr>disabled := False\<rparr>) ?s3"
    have "page_ok ?t" using ok3 by (intro page_ok_put_html) simp_all
    moreover have "prepare_call render f s = (Inr (), ?t)"
      using assms(2,3) True dis e by (simp add: prepare_call_def set_html_run)
    ultimately show ?thesis using True by (simp add: ready_def)
  next
    case False
    obtain hs t where t: "each (param_item render) (zip ps [0..<length ps]) ?s3 = (Inr hs, t)"
      "length hs = length ps" "page_ok t" "same_call ?s3 t"
      "\<forall>n < length ps. \<forall>i \<in> set (shown_needs (ps ! n) n). offers (hs ! n) i"
      "\<forall>m. fp_at t m = (if m < length ps \<and> gets_list (ps ! m) then Some [] else fp_at ?s3 m)"
      using param_items_run [OF ok3, of 0 render ps] fp_at_replicate by auto
    obtain e' where e': "dom t (js ''td_param'') = Some e'" using t(3) page_ok_at by force
    let ?h = "js ''<ol>'' @ concat hs @ js ''</ol>'' @ NL"
    let ?t = "put_html render (js ''td_param'') ?h e' t"
    have run: "prepare_call render f s = (Inr (), ?t)"
      using assms(2,3) False dis t(1) e' by (simp add: prepare_call_def set_html_run)
    have there: "field_at ?t i" if "n < length ps" "i \<in> set (shown_needs (ps ! n) n)" for n i
    proof -
      have "offers (hs ! n) i" using t(5) that by blast
      moreover have "hs ! n \<in> set hs" using that t(2) by simp
      ultimately have "offers ?h i" by (blast intro: offers_right offers_left offers_concat)
      with assms(4) have "render ?h i \<noteq> None" by (simp add: honest_def)
      with t(3) e' show ?thesis by (intro field_at_put_html)
    qed
    have "ready ?t ps"
      unfolding ready_def param_ready_def
    proof (intro allI impI)
      fix n assume n: "n < length ps"
      show "direction (ps ! n) = js ''Out'' \<or> (\<exists>rows. (\<forall>i \<in> set (needs (ptype (ps ! n)) n rows). field_at ?t i)
         \<and> (ptype (ps ! n) = js ''StringList'' \<longrightarrow> (\<exists>vs. fp_at ?t n = Some vs \<and> length vs = rows)))"
        using there [OF n] t(6) n by (auto simp: shown_needs_def gets_list_def intro!: exI [of _ "0::nat"])
    qed
    moreover have "page_ok ?t" using t(3) e' by (rule page_ok_put_html)
    ultimately show ?thesis
      using run t(4) by (intro exI [of _ ?t]) (simp add: same_call_def)
  qed
qed

text \<open>What the user may do to the page between two handlers: change the fields.\<close>

definition user_edit :: "app \<Rightarrow> app \<Rightarrow> bool" where
  "user_edit s t \<longleftrightarrow> (\<exists>d. t = s\<lparr>dom := d\<rparr>
     \<and> (\<forall>i e. dom s i = Some e \<longrightarrow> (\<exists>e'. d i = Some e' \<and> owner e' = owner e)))"

lemma user_edit_page_ok: "user_edit s t \<Longrightarrow> page_ok s \<Longrightarrow> page_ok t"
  unfolding user_edit_def page_ok_def by fastforce

lemma user_edit_ready:
  assumes "user_edit s t" and "ready s ps"
  shows "ready t ps"
proof -
  obtain d where t: "t = s\<lparr>dom := d\<rparr>"
    and d: "\<And>i e. dom s i = Some e \<Longrightarrow> \<exists>e'. d i = Some e' \<and> owner e' = owner e"
    using assms(1) unfolding user_edit_def by blast
  have "fp_at t n = fp_at s n" for n by (simp add: t fp_at_def)
  moreover have "field_at s i \<Longrightarrow> field_at t i" for i
    using d unfolding field_at_def root_rank_def t by fastforce
  ultimately show ?thesis using assms(2) unfolding ready_def param_ready_def by metis
qed

section \<open>A ready call is posted\<close>

lemma field_at_result:
  assumes "field_at s i" and "owner e = []" and "i \<noteq> js ''resultpre''"
  shows "dom (put_html render (js ''resultpre'') h e s) i = dom s i"
  using assms
  by (auto simp: field_at_def put_html_def Let_def suffix_def root_rank_def doc_ranks)

lemma request_param_ok:
  assumes "direction p = js ''Out'' \<or> (\<exists>rows. (\<forall>i \<in> set (needs (ptype p) n rows). dom s i \<noteq> None)
       \<and> (ptype p = js ''StringList'' \<longrightarrow> (\<exists>vs. fp_at s n = Some vs \<and> length vs = rows)))"
  shows "\<exists>v. request_param (p, n) s = (Inr v, s)"
proof (cases "direction p = js ''Out'' \<or> Form2Param (ptype p) = None")
  case True
  then show ?thesis by (auto simp: request_param_def)
next
  case False
  then obtain f where f: "Form2Param (ptype p) = Some f" by auto
  from False assms obtain rows where "\<forall>i \<in> set (needs (ptype p) n rows). dom s i \<noteq> None"
    and "ptype p = js ''StringList'' \<longrightarrow> (\<exists>vs. fp_at s n = Some vs \<and> length vs = rows)" by blast
  with reads_ok [OF f, of n rows s "fp_val (fp_at s n)"] False f show ?thesis
    by (auto simp: request_param_def fp_val_def)
qed

definition readable :: "app \<Rightarrow> fparam \<times> nat \<Rightarrow> bool" where
  "readable s pn \<longleftrightarrow> (case pn of (p, n) \<Rightarrow> direction p = js ''Out'' \<or>
     (\<exists>rows. (\<forall>i \<in> set (needs (ptype p) n rows). dom s i \<noteq> None)
       \<and> (ptype p = js ''StringList'' \<longrightarrow> (\<exists>vs. fp_at s n = Some vs \<and> length vs = rows))))"

interpretation params: reader request_param readable
  by unfold_locales (auto simp: readable_def intro!: request_param_ok)

lemma request_params_ok:
  assumes "\<forall>n < length ps. readable s (ps ! n, n)"
  shows "\<exists>vs. each request_param (zip ps [0..<length ps]) s = (Inr vs, s) \<and> length vs = length ps
    \<and> (\<forall>n < length ps. request_param (ps ! n, n) s = (Inr (vs ! n), s))"
proof -
  have "\<forall>x \<in> set (zip ps [0..<length ps]). readable s x"
    using assms by (auto simp: set_zip)
  then show ?thesis using params.reads_all [of "zip ps [0..<length ps]" s] by auto
qed

text \<open>The state in which the parameters are read: the result box and the counter are updated.\<close>

definition clicked :: "render \<Rightarrow> app \<Rightarrow> elem \<Rightarrow> app" where
  "clicked render s e =
     (let t = put_html render (js ''resultpre'') (js ''momentele'' @ [0x2026]) e s in
      t\<lparr>dom := (dom t)(js ''resultpre'' \<mapsto> e\<lparr>innerHTML := js ''momentele'' @ [0x2026], className := js ''red''\<rparr>),
        call_ID := call_ID s + 1\<rparr>)"

lemma put_html_static:
  "page_ok s \<Longrightarrow> i \<noteq> j \<Longrightarrow> i \<in> set static_ids \<Longrightarrow> dom (put_html render j h e s) i = dom s i"
  by (frule (1) page_okD) (auto simp: put_html_def Let_def)

lemma clicked_facts:
  assumes "page_ok s" and "dom s (js ''resultpre'') = Some e"
  shows "page_ok (clicked render s e)" "func (clicked render s e) = func s"
    "posts (clicked render s e) = posts s" "call_ID (clicked render s e) = call_ID s + 1"
    "fp_at (clicked render s e) n = fp_at s n"
    "i \<in> set static_ids \<Longrightarrow> i \<noteq> js ''resultpre'' \<Longrightarrow> dom (clicked render s e) i = dom s i"
    "field_at s j \<Longrightarrow> j \<noteq> js ''resultpre'' \<Longrightarrow> dom (clicked render s e) j = dom s j"
    "field_at s j \<Longrightarrow> dom (clicked render s e) j \<noteq> None"
proof -
  let ?t = "put_html render (js ''resultpre'') (js ''momentele'' @ [0x2026]) e s"
  have "page_ok ?t" using assms by (rule page_ok_put_html)
  moreover have "dom ?t (js ''resultpre'') = Some (e\<lparr>innerHTML := js ''momentele'' @ [0x2026]\<rparr>)"
    by (simp add: put_html_def)
  ultimately show "page_ok (clicked render s e)"
    using page_ok_upd [of ?t "js ''resultpre''" _ "\<lambda>e'. e'\<lparr>className := js ''red''\<rparr>"]
    by (simp add: clicked_def Let_def)
  show "func (clicked render s e) = func s" "posts (clicked render s e) = posts s"
    "call_ID (clicked render s e) = call_ID s + 1" "fp_at (clicked render s e) n = fp_at s n"
    by (simp_all add: clicked_def Let_def fp_at_def)
  show "dom (clicked render s e) i = dom s i" if "i \<in> set static_ids" "i \<noteq> js ''resultpre''"
    using put_html_static [OF assms(1) that(2,1)] that by (simp add: clicked_def Let_def)
  have same: "dom (clicked render s e) j = dom s j" if "field_at s j" "j \<noteq> js ''resultpre''"
    using field_at_result [OF that(1) _ that(2)] page_okD [OF assms(1), of "js ''resultpre''"] assms(2) that(2)
    by (simp add: clicked_def Let_def)
  then show "field_at s j \<Longrightarrow> j \<noteq> js ''resultpre'' \<Longrightarrow> dom (clicked render s e) j = dom s j" .
  show "dom (clicked render s e) j \<noteq> None" if "field_at s j"
    using same that by (cases "j = js ''resultpre''") (auto simp: clicked_def Let_def field_at_def)
qed

lemma click_run:
  assumes ok: "page_ok s" and f: "func s = Some f" and ps: "fparams f = Some ps" and "ready s ps"
    and srv: "dom s (js ''server'') = Some srv" and tok: "dom s (js ''security_token'') = Some tok"
    and fn: "dom s (js ''fn_name'') = Some fn" and pre: "dom s (js ''resultpre'') = Some pre"
  shows "\<exists>t params. button_click render s = (Inr (), t)
    \<and> posts t = posts s @ [(evalue srv @ js ''callFunction'',
        to_string (stringify (request_json (call_ID s + 1) (evalue tok) (evalue fn) params)))]
    \<and> call_ID t = call_ID s + 1 \<and> length params = length ps
    \<and> (\<forall>n < length ps. request_param (ps ! n, n) (clicked render s pre)
          = (Inr (params ! n), clicked render s pre))"
proof -
  let ?c = "clicked render s pre"
  let ?m = "js ''momentele'' @ [0x2026]"
  note cf = clicked_facts [OF ok pre, where render = render]
  have "\<forall>n < length ps. readable ?c (ps ! n, n)"
    using assms(4) unfolding ready_def param_ready_def readable_def prod.case by (metis cf(5,8))
  from request_params_ok [OF this] obtain params
    where params: "each request_param (zip ps [0..<length ps]) ?c = (Inr params, ?c)"
      "length params = length ps"
      "\<forall>n < length ps. request_param (ps ! n, n) ?c = (Inr (params ! n), ?c)" by blast
  let ?req = "request_json (call_ID s + 1) (evalue tok) (evalue fn) params"
  let ?url = "evalue srv @ js ''callFunction''"
  let ?p = "?c\<lparr>posts := posts s @ [(?url, to_string (stringify ?req))]\<rparr>"
  have okp: "page_ok ?p" using cf(1) by simp
  obtain e1 where e1: "dom ?p (js ''resultpre'') = Some e1" using okp page_ok_at by force
  let ?q = "put_html render (js ''resultpre'')
     (js ''post request sent. request='' @ to_string (stringify_gap (js ''  '') ?req)) e1 ?p"
  have okq: "page_ok ?q" using okp e1 by (rule page_ok_put_html)
  obtain e2 where e2: "dom ?q (js ''debug'') = Some e2" using okq page_ok_at by force
  have fnq: "dom ?q (js ''fn_name'') = Some fn"
    using put_html_static [OF okp] cf(6) fn by simp
  have s1: "set_html render (js ''resultpre'') ?m s = (Inr (), put_html render (js ''resultpre'') ?m pre s)"
    using pre by (simp add: set_html_run)
  have s2: "set_class (js ''resultpre'') (js ''red'') (put_html render (js ''resultpre'') ?m pre s)
      = (Inr (), ?c\<lparr>call_ID := call_ID s\<rparr>)"
    by (simp add: set_class_def upd_elem_run put_html_def clicked_def Let_def)
  have srv': "dom (?c\<lparr>call_ID := call_ID s\<rparr>) (js ''server'') = Some srv"
    using cf(6) srv by simp
  have c: "?c\<lparr>call_ID := call_ID s + 1\<rparr> = ?c" using cf(4) by simp
  have tok': "dom ?c (js ''security_token'') = Some tok" and fn': "dom ?c (js ''fn_name'') = Some fn"
    using cf(6) tok fn by simp_all
  have cp: "called_params ?c = (Inr ps, ?c)" using cf(2) f ps by (simp add: called_params_def)
  let ?g = "js ''url='' @ [0xAB] @ ?url @ [0xBB] @ js '','' @ NL
     @ js ''fn_name='' @ [0x201C] @ evalue fn @ [0x201D] @ NL
     @ js ''request='' @ to_string (stringify_gap (js ''  '') ?req)"
  have run: "button_click render s = (Inr (), put_html render (js ''debug'') ?g e2 ?q)"
    using s1 s2 srv' tok' fn' cp params(1) e1 e2 fnq
    unfolding button_click_def by (simp add: Let_def elem_value_run set_html_run c cf(3,4))
  show ?thesis
    by (rule exI [of _ "put_html render (js ''debug'') ?g e2 ?q"], rule exI [of _ params])
       (use run params cf(3,4) in simp)
qed

section \<open>Editing a string list\<close>

text \<open>The list item of a parameter lies in the parameter cell.\<close>

definition item_at :: "app \<Rightarrow> nat \<Rightarrow> bool" where
  "item_at s nr \<longleftrightarrow> (\<exists>e. dom s (li_id nr) = Some e \<and> owner e \<noteq> []
     \<and> last (owner e) = js ''td_param'')"

lemma li_not_debug: "li_id nr \<noteq> js ''debug''"
proof
  assume "li_id nr = js ''debug''"
  then have "take 1 (li_id nr) = take 1 (js ''debug'')" by simp
  then show False by (simp add: li_id_def js_def)
qed

lemma item_at_debug:
  assumes "page_ok s" and "item_at s nr" and "dom s (js ''debug'') = Some d"
  shows "item_at (put_html render (js ''debug'') g d s) nr"
proof -
  have "owner d = []" using page_okD [OF assms(1), of "js ''debug''"] assms(3) by simp
  then show ?thesis
    using assms(2) li_not_debug
    by (auto simp: item_at_def put_html_def Let_def root_rank_def doc_ranks suffix_def)
qed

text \<open>
  Regenerating the editor of parameter \<open>nr\<close>: the list is kept, and the item's markup offers one
  input per string.
\<close>

definition shows_list :: "app \<Rightarrow> nat \<Rightarrow> nat \<Rightarrow> bool" where
  "shows_list t nr k \<longleftrightarrow> (\<exists>e. dom t (li_id nr) = Some e \<and>
     (\<forall>i < k. offers (innerHTML e) (string_input_id nr i)))"

lemma string_pp_dir [simp]: "read_prop string_list_pp ''direction'' s = (Inr (JStr (js ''In'')), s)"
  by (simp add: read_prop_def string_list_pp_def)

lemma genStringList_some:
  assumes "page_ok s" and "fp_at s nr = Some vs" and "item_at s nr"
  shows "\<exists>h t. genStringList render nr pp s = (Inr h, t) \<and> page_ok t \<and> item_at t nr
    \<and> same_call s t \<and> (\<forall>m. fp_at t m = fp_at s m)
    \<and> (\<forall>i < length vs. offers h (string_input_id nr i))"
proof -
  obtain d where d: "dom s (js ''debug'') = Some d" using assms(1) page_ok_at by force
  from genStringList_run [OF d refl, of render nr pp] assms(2) obtain h g where
    "genStringList render nr pp s = (Inr h, put_html render (js ''debug'') g d s)"
    "\<forall>i < length vs. offers h (string_input_id nr i)" by auto
  with page_ok_put_html [OF assms(1) d] item_at_debug [OF assms(1,3) d] show ?thesis by auto
qed

lemma regen_run:
  assumes "page_ok s" and "fp_at s nr = Some vs" and "item_at s nr"
  shows "\<exists>t. bnd (genStringList render nr string_list_pp) (\<lambda>_.
      bnd (P2F_StringList render nr string_list_pp) (\<lambda>h. set_html render (li_id nr) h)) s = (Inr (), t)
    \<and> page_ok t \<and> same_call s t \<and> (\<forall>m. fp_at t m = fp_at s m) \<and> shows_list t nr (length vs)
    \<and> item_at t nr"
proof -
  from genStringList_some [OF assms, of render string_list_pp] obtain h1 t1 where
    1: "genStringList render nr string_list_pp s = (Inr h1, t1)" "page_ok t1" "item_at t1 nr"
      "same_call s t1" "\<forall>m. fp_at t1 m = fp_at s m" by blast
  then have "fp_at t1 nr = Some vs" using assms(2) by simp
  from genStringList_some [OF 1(2) this 1(3), of render string_list_pp] obtain h2 t2 where
    2: "genStringList render nr string_list_pp t1 = (Inr h2, t2)" "page_ok t2" "item_at t2 nr"
      "same_call t1 t2" "\<forall>m. fp_at t2 m = fp_at t1 m"
      "\<forall>i < length vs. offers h2 (string_input_id nr i)" by blast
  from 2(3) obtain e where e: "dom t2 (li_id nr) = Some e" by (auto simp: item_at_def)
  let ?t = "put_html render (li_id nr) h2 e t2"
  have "shows_list ?t nr (length vs)" using 2(6) by (simp add: shows_list_def put_html_def)
  moreover have "page_ok ?t" using 2(2) e by (rule page_ok_put_html)
  moreover have "item_at ?t nr" using 2(3) e by (simp add: item_at_def put_html_def)
  ultimately show ?thesis
    using 1 2 e same_call_trans [OF 1(4) 2(4)] by (simp add: P2F_StringList_def set_html_run)
qed

lemma item_at_fp_set [simp]: "item_at (fp_set nr vs s) m = item_at s m"
  by (simp add: item_at_def)

lemma removeString_run:
  assumes "page_ok s" and "fp_at s nr = Some vs" and "item_at s nr"
  shows "\<exists>t. removeString render nr idx s = (Inr (), t) \<and> page_ok t \<and> same_call s t
    \<and> (\<forall>m. fp_at t m = (if m = nr then Some (splice1 idx vs) else fp_at s m))
    \<and> shows_list t nr (length (splice1 idx vs)) \<and> item_at t nr"
proof -
  have "page_ok (fp_set nr (splice1 idx vs) s)" "item_at (fp_set nr (splice1 idx vs) s) nr"
    "fp_at (fp_set nr (splice1 idx vs) s) nr = Some (splice1 idx vs)"
    using assms by (simp_all add: fp_at_set)
  from regen_run [OF this(1,3,2), of render] show ?thesis
    using assms(2) by (auto simp: removeString_def fp_array_def fp_at_set same_call_def)
qed

lemma addString_run:
  assumes "page_ok s" and "fp_at s nr = Some vs" and "item_at s nr"
  shows "\<exists>t. addString render nr s = (Inr (), t) \<and> page_ok t \<and> same_call s t
    \<and> (\<forall>m. fp_at t m = (if m = nr then Some (vs @ [JStr []]) else fp_at s m))
    \<and> shows_list t nr (Suc (length vs)) \<and> item_at t nr"
proof -
  obtain d where d: "dom s (js ''debug'') = Some d" using assms(1) page_ok_at by force
  let ?g = "innerHTML d @ js '' *  addString('' @ show_nat nr @ js '')<'' @ NL @ js ''func_params = ''
             @ to_string (stringify (params_json s)) @ NL"
  let ?s = "put_html render (js ''debug'') ?g d s"
  let ?u = "fp_set nr (vs @ [JStr []]) ?s"
  have "page_ok ?s" using assms(1) d by (rule page_ok_put_html)
  moreover have "item_at ?s nr" using assms(1,3) d by (rule item_at_debug)
  ultimately have "page_ok ?u" "item_at ?u nr" "fp_at ?u nr = Some (vs @ [JStr []])"
    by (simp_all add: fp_at_set)
  from regen_run [OF this(1,3,2), of render] show ?thesis
    using assms(2) d
    by (auto simp: addString_def fp_array_def fp_at_set same_call_def add_html_run)
qed

end
