(* ===== verification/CallCycle.thy ===== *)
theory CallCycle
  imports FormLaws
begin

text \<open>
  The cycle of a call on the test client page: a function is selected (\<open>prepare_call\<close>), the user
  edits the form, \<open>button_click\<close> posts the request.  The properties here are about one pass; the
  theory of the page's events has those about every history.
\<close>

section \<open>From the selection to the request\<close>

text \<open>The elements a string parameter is read from, and what is read there.\<close>

definition typed_string :: "app \<Rightarrow> nat \<Rightarrow> jsval \<Rightarrow> bool" where
  "typed_string s n v \<longleftrightarrow> (\<exists>e chk. dom s (inp_id (show_nat n)) = Some e
     \<and> dom s (inp_id (show_nat n) @ js ''_chk'') = Some chk
     \<and> v = JStr (if checked chk then de_backslash (evalue e) else evalue e))"

lemma inp_not_result: "inp_id x \<noteq> js ''resultpre''"
proof
  assume "inp_id x = js ''resultpre''"
  then have "take 1 (inp_id x) = take 1 (js ''resultpre'')" by simp
  then show False by (simp add: inp_id_def js_def)
qed

lemma String_entry: "Form2Param (js ''String'') = Some (\<lambda>n. F2P_String (show_nat n))"
  by (simp add: Form2Param_def)

lemma F2P_String_run:
  assumes "F2P_String (show_nat n) x s = (Inr v, s)"
  shows "typed_string s n v"
  using assms
  by (auto simp: F2P_String_def typed_string_def bnd_Inr_iff elem_value_run getElem_run split: option.splits)

lemma string_posted:
  assumes ok: "page_ok u" and pre: "dom u (js ''resultpre'') = Some pre"
    and rd: "param_ready u p n" and p: "ptype p = js ''String''" "direction p \<noteq> js ''Out''"
    and r: "request_param (p, n) (clicked render u pre) = (Inr v, clicked render u pre)"
  shows "typed_string u n v"
proof -
  have "F2P_String (show_nat n) (fp_val (fp_at (clicked render u pre) n)) (clicked render u pre)
      = (Inr v, clicked render u pre)"
    using r p by (simp add: request_param_def String_entry)
  then have t: "typed_string (clicked render u pre) n v" by (rule F2P_String_run)
  have "field_at u (inp_id (show_nat n))" "field_at u (inp_id (show_nat n) @ js ''_chk'')"
    using rd p by (auto simp: param_ready_def needs_def Let_def)
  then have "dom (clicked render u pre) (inp_id (show_nat n)) = dom u (inp_id (show_nat n))"
    "dom (clicked render u pre) (inp_id (show_nat n) @ js ''_chk'') = dom u (inp_id (show_nat n) @ js ''_chk'')"
    using clicked_facts(7) [OF ok pre] inp_not_result
    by (metis, metis append.assoc inp_id_def)
  with t show ?thesis by (simp add: typed_string_def)
qed


text \<open>A parser that makes a plain element for every id attribute.\<close>

definition plain_render :: render where
  "plain_render h i = (if offers h i then Some blank_elem else None)"

lemma honest_plain: "honest plain_render"
  by (simp add: honest_def plain_render_def)

definition log_in :: fn_desc where
  "log_in = \<lparr>fname = js ''login'', separator = False, freturn = JStr (js ''PEP_STATUS''),
     fparams = Some [\<lparr>ptype = js ''String'', direction = js ''In''\<rparr>,
                     \<lparr>ptype = js ''StringList'', direction = js ''InOut''\<rparr>,
                     \<lparr>ptype = js ''Identity'', direction = js ''Out''\<rparr>]\<rparr>"

text \<open>A user who enters the same text everywhere and ticks every box.\<close>

definition fill :: "jstr \<Rightarrow> app \<Rightarrow> app" where
  "fill x s = s\<lparr>dom := \<lambda>i. map_option (\<lambda>e. e\<lparr>evalue := x, checked := True\<rparr>) (dom s i)\<rparr>"

lemma fill_edit: "user_edit s (fill x s)"
  by (auto simp: user_edit_def fill_def)


section \<open>A click without a call\<close>

text \<open>
  C39. A click while no function is selected, or after a separator was, throws after it has used
  up a call id and before anything is posted.
\<close>

theorem click_without_call:
  assumes "page_ok s" and "case func s of None \<Rightarrow> True | Some f \<Rightarrow> fparams f = None"
  shows "\<exists>t. button_click render s = (Inl TypeError, t) \<and> page_ok t \<and> posts t = posts s
    \<and> call_ID t = call_ID s + 1"
proof -
  obtain srv tok fn pre where e: "dom s (js ''server'') = Some srv"
    "dom s (js ''security_token'') = Some tok" "dom s (js ''fn_name'') = Some fn"
    "dom s (js ''resultpre'') = Some pre"
    using page_ok_at [OF assms(1)] static_simps(3-6) by metis
  let ?c = "clicked render s pre"
  let ?m = "js ''momentele'' @ [0x2026]"
  note cf = clicked_facts [OF assms(1) e(4), where render = render]
  have s1: "set_html render (js ''resultpre'') ?m s = (Inr (), put_html render (js ''resultpre'') ?m pre s)"
    using e(4) by (simp add: set_html_run)
  have s2: "set_class (js ''resultpre'') (js ''red'') (put_html render (js ''resultpre'') ?m pre s)
      = (Inr (), ?c\<lparr>call_ID := call_ID s\<rparr>)"
    by (simp add: set_class_def upd_elem_run put_html_def clicked_def Let_def)
  have srv': "dom (?c\<lparr>call_ID := call_ID s\<rparr>) (js ''server'') = Some srv"
    using cf(6) e(1) by simp
  have c: "?c\<lparr>call_ID := call_ID s + 1\<rparr> = ?c" using cf(4) by simp
  have tok': "dom ?c (js ''security_token'') = Some tok" and fn': "dom ?c (js ''fn_name'') = Some fn"
    using cf(6) e by simp_all
  have "called_params ?c = (Inl TypeError, ?c)"
    using cf(2) assms(2) by (cases "func s") (simp_all add: called_params_def)
  with s1 s2 srv' tok' fn' have "button_click render s = (Inl TypeError, ?c)"
    unfolding button_click_def by (simp add: Let_def elem_value_run c cf(4))
  with cf(1,3,4) show ?thesis by blast
qed

theorem click_without_call_witness:
  "\<exists>t. button_click plain_render (start_page blank_dom) = (Inl TypeError, t) \<and> posts t = [] \<and> call_ID t = 1001"
  using click_without_call [of "start_page blank_dom" plain_render]
  by (auto simp: start_page_def page_ok_start [unfolded start_page_def])

section \<open>What a message leaves out\<close>

text \<open>Two states a reader cannot tell apart.\<close>

definition agree :: "('s, 'a) handler \<Rightarrow> 's \<Rightarrow> 's \<Rightarrow> bool" where
  "agree m s t \<longleftrightarrow> pure_handler m \<and> fst (m s) = fst (m t)"

lemma agree_bnd:
  assumes "agree m s t" and "\<And>x. agree (f x) s t" shows "agree (bnd m f) s t"
proof -
  have p: "pure_handler m" "\<And>x. pure_handler (f x)" using assms by (auto simp: agree_def)
  have "m s = (fst (m s), s)" "m t = (fst (m s), t)"
    using p(1) assms(1) by (simp_all add: pure_handler_def agree_def prod_eq_iff)
  moreover have "fst (f x s) = fst (f x t)" for x using assms(2) by (simp add: agree_def)
  ultimately have "fst (bnd m f s) = fst (bnd m f t)"
    unfolding bnd_def by (auto split: sum.split)
  with p show ?thesis by (simp add: agree_def pure_bnd)
qed

lemma agree_ret: "agree (ret x) s t"
  by (simp add: agree_def pure_basic)

lemma agree_elem_value: "dom s i = dom t i \<Longrightarrow> agree (elem_value i) s t"
  by (simp add: agree_def pure_elem elem_value_run split: option.split)

lemma agree_jq_val: "dom s k = dom t k \<Longrightarrow> agree (jq_val k) s t"
  using pure_elem(3) [of k] by (simp add: agree_def) (simp add: jq_val_def)

lemma radio_not_inp: "radio_key x \<noteq> js ''inp_param_'' @ y"
proof
  assume "radio_key x = js ''inp_param_'' @ y"
  then have "take 4 (radio_key x) = take 4 (js ''inp_param_'' @ y)" by simp
  then show False by (simp add: radio_key_def js_def)
qed

lemma agree_blobs: "fileInputs s = fileInputs t \<Longrightarrow> agree (F2P_BlobList nr v) s t"
  by (simp add: agree_def F2P_BlobList_def pure_basic)

lemma message_offers_copies:
  assumes "direction p \<noteq> js ''Out''" and "i \<in> set (identity_needs (nr @ js ''_cc'') @ identity_needs (nr @ js ''_bcc''))"
  shows "\<exists>h. P2F_Message nr (pp_json p) v s = (Inr h, s) \<and> offers h i"
  using message_writes_all [OF assms(1), of nr v s] assms(2) by (auto simp: writes_def)

text \<open>
  The form of a message offers inputs for copies and blind copies, but what is entered there
  never reaches the request: the message read back is the same whatever these inputs hold.
\<close>

theorem copies_never_sent:
  assumes "i \<in> set (identity_needs (show_nat n @ js ''_cc'') @ identity_needs (show_nat n @ js ''_bcc''))"
    and "direction p \<noteq> js ''Out''"
  shows "(\<exists>h. P2F_Message (show_nat n) (pp_json p) v s = (Inr h, s) \<and> offers h i)
    \<and> fst (F2P_Message (show_nat n) w (t\<lparr>dom := (dom t)(i \<mapsto> e)\<rparr>)) = fst (F2P_Message (show_nat n) w t)"
proof -
  have "agree (F2P_Message (show_nat n) w) (t\<lparr>dom := (dom t)(i \<mapsto> e)\<rparr>) t"
    unfolding F2P_Message_def F2P_PEP_msg_direction_def F2P_Identity_def F2P_IdentityList_def
    using assms(1)
    by (intro agree_bnd agree_ret agree_elem_value agree_jq_val agree_blobs)
       (auto simp: identity_needs_def inp_id_def radio_not_inp radio_not_inp [symmetric] js_append [symmetric])
  then show ?thesis
    using message_offers_copies [OF assms(2,1)] by (simp add: agree_def)
qed

theorem copies_never_sent_witness:
  "fst (F2P_Message (js ''0'') JUndef ((start_page blank_dom)
      \<lparr>dom := blank_dom(js ''inp_param_0_cc_addr'' \<mapsto> blank_elem\<lparr>evalue := js ''bob@example.org''\<rparr>)\<rparr>))
    = fst (F2P_Message (js ''0'') JUndef (start_page blank_dom))"
proof -
  have "show_nat 0 = js ''0''" by (simp add: show_nat.simps js_def)
  then have "js ''inp_param_0_cc_addr'' \<in> set (identity_needs (show_nat 0 @ js ''_cc'') @ identity_needs (show_nat 0 @ js ''_bcc''))"
    by (simp add: identity_needs_def inp_id_def js_append [symmetric])
  from copies_never_sent [OF this, of "\<lparr>ptype = js ''Message'', direction = js ''In''\<rparr>" JUndef
      "start_page blank_dom" JUndef "start_page blank_dom" "blank_elem\<lparr>evalue := js ''bob@example.org''\<rparr>"]
    \<open>show_nat 0 = js ''0''\<close>
  show ?thesis by (simp add: start_page_def)
qed

section \<open>The string-list editor\<close>

text \<open>What the user does with the rows of one parameter's editor, and what it means for the list.\<close>

datatype list_edit = Add | Remove nat | Change nat jstr

fun do_edit :: "render \<Rightarrow> nat \<Rightarrow> list_edit \<Rightarrow> unit page" where
  "do_edit render nr Add = addString render nr"
| "do_edit render nr (Remove i) = removeString render nr i"
| "do_edit render nr (Change i v) = change_string nr i v"

fun list_after :: "list_edit \<Rightarrow> jsval list \<Rightarrow> jsval list" where
  "list_after Add vs = vs @ [JStr []]"
| "list_after (Remove i) vs = take i vs @ drop (Suc i) vs"
| "list_after (Change i v) vs = vs[i := JStr v]"

text \<open>An edit of a row the editor shows.\<close>

fun on_row :: "list_edit \<Rightarrow> nat \<Rightarrow> bool" where
  "on_row Add k = True"
| "on_row (Remove i) k = (i < k)"
| "on_row (Change i v) k = (i < k)"

fun on_rows :: "list_edit list \<Rightarrow> jsval list \<Rightarrow> bool" where
  "on_rows [] vs = True"
| "on_rows (e # es) vs = (on_row e (length vs) \<and> on_rows es (list_after e vs))"

text \<open>The editor of a parameter stands in the page and shows one row per string.\<close>

definition editing :: "app \<Rightarrow> nat \<Rightarrow> jsval list \<Rightarrow> bool" where
  "editing s nr vs \<longleftrightarrow> page_ok s \<and> fp_at s nr = Some vs \<and> item_at s nr \<and> shows_list s nr (length vs)"

lemma edit_step:
  assumes "editing s nr vs" and "on_row e (length vs)"
  shows "\<exists>t. do_edit render nr e s = (Inr (), t) \<and> editing t nr (list_after e vs)
    \<and> same_call s t \<and> (\<forall>m. m \<noteq> nr \<longrightarrow> fp_at t m = fp_at s m)"
proof (cases e)
  case Add
  with assms addString_run [of s nr vs render] show ?thesis by (auto simp: editing_def)
next
  case (Remove i)
  with assms removeString_run [of s nr vs render i] show ?thesis
    by (auto simp: editing_def splice1_def)
next
  case (Change i v)
  have "change_string nr i v s = (Inr (), fp_set nr (vs[i := JStr v]) s)"
    using assms Change by (simp add: change_string_def fp_array_def arr_set_def editing_def)
  with assms Change show ?thesis
    by (simp add: editing_def fp_at_set shows_list_def)
qed


definition list_page :: app where
  "list_page = (start_page (blank_dom(li_id 0 \<mapsto> blank_elem\<lparr>owner := [js ''td_param'']\<rparr>)))
     \<lparr>func_params := [Some []]\<rparr>"

lemma li_not_static: "li_id 0 \<notin> set static_ids"
  by (simp add: li_id_def static_ids_def show_nat.simps js_def)


section \<open>What an untouched form holds\<close>

text \<open>
  The input of a string parameter of a freshly prepared call is prefilled with the word
  \<open>undefined\<close>, the text of the value no one has set yet.
\<close>

theorem string_prefilled_undefined:
  assumes "ptype p = js ''String''" and "direction p \<noteq> js ''Out''" and "fp_at s n = None"
  shows "param_form render p n s = (Inr (genInput (inp_id (show_nat n)) (JStr (js ''text'')) (JStr (direction p))
      (JStr (js ''undefined'')) JUndef), s)"
proof -
  have "Param2Form render (js ''String'') = Some (\<lambda>nr. P2F_String (show_nat nr))"
    by (simp add: Param2Form_def)
  then show ?thesis
    using assms by (simp add: param_form_def fp_val_def P2F_String_def genInput_def Let_def)
qed

theorem string_prefilled_undefined_witness:
  "param_form plain_render \<lparr>ptype = js ''String'', direction = js ''In''\<rparr> 0 (start_page blank_dom)
    = (Inr (js ''<input type=\"text\" type=\"text\" id=\"inp_param_0\" value=\"undefined\" >'' @
        js ''<input type=\"checkbox\" id=\"inp_param_0_chk\" name=\"inp_param_0_chk\"> <small>parse esc seq.</small>''),
       start_page blank_dom)"
proof -
  have "show_nat 0 = js ''0''" by (simp add: show_nat.simps js_def)
  then show ?thesis
    using string_prefilled_undefined [of "\<lparr>ptype = js ''String'', direction = js ''In''\<rparr>" "start_page blank_dom" 0 plain_render]
    by (simp add: start_page_def fp_at_def genInput_def inp_id_def Let_def js_append [symmetric])
qed

end
