(* ===== verification/DocGen.thy ===== *)
theory DocGen
  imports TestClient
begin

text \<open>
  \<open>html/interactive.js\<close>, \<open>create_doc\<close>: the function reference in one of three formats.
\<close>

record doc_format =
  section_start :: jstr
  section_end :: jstr
  subsection_start :: jstr
  subsection_end :: jstr
  b_start :: jstr
  b_end :: jstr
  table_start :: jstr
  table_end :: jstr
  table_header :: jstr
  line_start :: jstr
  line_end :: jstr
  cell_start :: jstr
  cell_end :: jstr

definition fmt_html :: doc_format where
  "fmt_html = \<lparr>section_start = js ''<h3>'', section_end = js ''</h3>'' @ NL,
     subsection_start = js ''<h4>'', subsection_end = js ''</h4>'' @ NL,
     b_start = js ''<b>'', b_end = js ''</b>'',
     table_start = js ''<table class=\"dtable\">'', table_end = js ''</table>'' @ NL,
     table_header = js ''<tr><th>Function name</th><th>Return Type</th><th>Parameters</th></tr>'' @ NL,
     line_start = js ''<tr>'', line_end = js ''</tr>'' @ NL,
     cell_start = js ''<td>'', cell_end = js ''</td>''\<rparr>"

definition fmt_md :: doc_format where
  "fmt_md = \<lparr>section_start = js ''### '', section_end = js '' ###'' @ NL,
     subsection_start = js ''#### '', subsection_end = js '' ####'' @ NL,
     b_start = js '' **'', b_end = js ''** '',
     table_start = [], table_end = NL,
     table_header = js ''| Function name | Return Type | Parameters |'' @ NL
                  @ js ''|---------------|-------------|------------|'' @ NL,
     line_start = [], line_end = js ''|'' @ NL,
     cell_start = js ''| '', cell_end = js '' ''\<rparr>"

definition fmt_trac :: doc_format where
  "fmt_trac = \<lparr>section_start = js ''=== '', section_end = js '' ==='' @ NL,
     subsection_start = js ''==== '', subsection_end = js '' ===='' @ NL,
     b_start = js '' **'', b_end = js ''** '',
     table_start = [], table_end = NL,
     table_header = js ''||= Function name =||= Return Type =||= Parameters =||'' @ NL,
     line_start = js ''|'', line_end = js ''|'' @ NL,
     cell_start = js ''| '', cell_end = js '' |''\<rparr>"

definition format_def :: "jstr \<Rightarrow> doc_format option" where
  "format_def name = (if name = js ''html'' then Some fmt_html
     else if name = js ''md'' then Some fmt_md
     else if name = js ''trac'' then Some fmt_trac else None)"

definition direction_mark :: "jstr \<Rightarrow> jstr" where
  "direction_mark d = (if d = js ''In'' then [] else if d = js ''Out'' then [0x21D1]
     else if d = js ''InOut'' then [0x21D5] else [])"

text \<open>The loop over the parameters of a function, from index \<open>p\<close>.\<close>

fun doc_params :: "nat \<Rightarrow> fparam list \<Rightarrow> jstr" where
  "doc_params p [] = []"
| "doc_params p (q # ps) =
     (if p > 0 then js '', '' else []) @ ptype q @ direction_mark (direction q)
     @ doc_params (Suc p) ps"

definition doc_line :: "doc_format \<Rightarrow> fn_desc \<Rightarrow> fparam list \<Rightarrow> jstr" where
  "doc_line fd f ps =
     line_start fd
     @ cell_start fd @ fname f @ cell_end fd
     @ cell_start fd @ to_string (freturn f) @ cell_end fd
     @ cell_start fd @ doc_params 0 ps @ cell_end fd @ line_end fd"

definition doc_head :: "doc_format \<Rightarrow> fn_desc \<Rightarrow> jstr" where
  "doc_head fd f =
     subsection_start fd @ fname f @ subsection_end fd @ table_start fd @ table_header fd"

text \<open>The loop over the functions; \<open>out\<close> is the output so far.\<close>

fun doc_loop :: "doc_format \<Rightarrow> jstr \<Rightarrow> fn_desc list \<Rightarrow> js_error + jstr" where
  "doc_loop fd out [] = Inr out"
| "doc_loop fd out (f # fs) =
     (if separator f then
        doc_loop fd (out @ (if length out > 0 then table_end fd @ NL else []) @ doc_head fd f) fs
      else case fparams f of None \<Rightarrow> Inl TypeError
         | Some ps \<Rightarrow> doc_loop fd (out @ doc_line fd f ps) fs)"

definition doc_text :: "server_js \<Rightarrow> jstr \<Rightarrow> js_error + jstr" where
  "doc_text cfg format_name =
     (case format_def format_name of None \<Rightarrow> Inl TypeError
      | Some fd \<Rightarrow>
         (case doc_loop fd [] (pEp_functions cfg) of Inl e \<Rightarrow> Inl e
          | Inr out \<Rightarrow>
             (let out' = section_start fd @ js ''Function reference for the p'' @ [0x2261]
                    @ js ''p JSON Server Adapter. Version '' @ [0x201C] @ server_version_name cfg
                    @ [0x201D] @ js '', API version '' @ server_version cfg @ section_end fd
                    @ js ''Output parameters are denoted by a '' @ b_start fd @ [0x21D1] @ b_end fd
                    @ js '', '' @ js ''InOut parameters are denoted by a '' @ b_start fd @ [0x21D5]
                    @ b_end fd @ js '' after the parameter type.'' @ NL @ NL
                    @ out @ table_end fd
              in Inr (if format_name \<noteq> js ''html''
                      then js ''<pre>'' @ out' @ NL @ js ''</pre>'' else out'))))"

definition create_doc :: "server_js \<Rightarrow> render \<Rightarrow> unit page" where
  "create_doc cfg render =
     bnd (elem_value (js ''doc_format'')) (\<lambda>format_name.
     bnd (lift (doc_text cfg format_name)) (\<lambda>output.
     set_html render (js ''doc_out'') output))"

section \<open>The document by sections\<close>

text \<open>
  What the document should be: one block per separator, each with its head, the lines of the
  functions up to the next separator and the end of the table, and a line break between blocks.
\<close>

function doc_sections :: "fn_desc list \<Rightarrow> (fn_desc \<times> fn_desc list) list" where
  "doc_sections [] = []"
| "doc_sections (f # fs) =
     (f, takeWhile (\<lambda>g. \<not> separator g) fs) # doc_sections (dropWhile (\<lambda>g. \<not> separator g) fs)"
  by pat_completeness auto
termination
  by (relation "measure length") (auto simp: le_imp_less_Suc length_dropWhile_le)

definition section_text :: "doc_format \<Rightarrow> fn_desc \<times> fn_desc list \<Rightarrow> jstr" where
  "section_text fd s = (case s of (h, ls) \<Rightarrow>
     doc_head fd h @ concat (map (\<lambda>f. doc_line fd f (the (fparams f))) ls))"

definition complete :: "fn_desc list \<Rightarrow> bool" where
  "complete fs \<longleftrightarrow> (\<forall>f \<in> set fs. separator f \<or> fparams f \<noteq> None)"

lemma doc_loop_incomplete: "\<not> complete fs \<Longrightarrow> doc_loop fd out fs = Inl TypeError"
  by (induction fs arbitrary: out) (auto simp: complete_def split: option.splits)

lemma doc_loop_err: "doc_loop fd out fs = Inl err \<Longrightarrow> err = TypeError"
  by (induction fs arbitrary: out) (auto split: if_splits option.splits)

lemma doc_loop_from:
  assumes "complete fs" and "\<And>f. doc_head fd f \<noteq> []" and "out \<noteq> []"
  shows "doc_loop fd out fs = Inr (out
    @ concat (map (\<lambda>f. doc_line fd f (the (fparams f))) (takeWhile (\<lambda>g. \<not> separator g) fs))
    @ concat (map (\<lambda>s. table_end fd @ NL @ section_text fd s)
        (doc_sections (dropWhile (\<lambda>g. \<not> separator g) fs))))"
  using assms(1,3)
proof (induction fs arbitrary: out)
  case (Cons f fs)
  have rest: "complete fs" using Cons.prems by (simp add: complete_def)
  show ?case
  proof (cases "separator f")
    case True
    with Cons.prems Cons.IH [OF rest] assms(2) show ?thesis by (simp add: section_text_def)
  next
    case False
    with Cons.prems obtain ps where "fparams f = Some ps" by (auto simp: complete_def)
    with False Cons.prems Cons.IH [OF rest] show ?thesis by simp
  qed
qed simp

lemma join_cons: "join sep (x # xs) = x @ concat (map (\<lambda>y. sep @ y) xs)"
  by (simp add: join_def)

lemma format_heads: "format_def name = Some fd \<Longrightarrow> doc_head fd f \<noteq> []"
  by (auto simp: format_def_def doc_head_def fmt_html_def fmt_md_def fmt_trac_def split: if_splits)

text \<open>
  C31. In each of the three formats the body of the function reference is one block per separator (its heading, the table's
  head, one line per function up to the next separator), the blocks divided by the end of the
  table; a function without parameter list makes the whole loop throw.
\<close>

theorem doc_by_sections:
  assumes "format_def name = Some fd" and "fs = [] \<or> separator (hd fs)"
  shows "doc_loop fd [] fs =
    (if \<exists>f \<in> set fs. \<not> separator f \<and> fparams f = None then Inl TypeError
     else Inr (join (table_end fd @ NL) (map (section_text fd) (doc_sections fs))))"
proof (cases "complete fs")
  case True
  note heads = format_heads [OF assms(1)]
  have "doc_loop fd [] fs = Inr (join (table_end fd @ NL) (map (section_text fd) (doc_sections fs)))"
  proof (cases fs)
    case (Cons f gs)
    then have "separator f" "complete gs" using assms(2) True by (auto simp: complete_def)
    with Cons show ?thesis
      using doc_loop_from [of gs fd "doc_head fd f"] heads
      by (simp add: join_cons section_text_def comp_def)
  qed simp
  with True show ?thesis by (auto simp: complete_def)
next
  case False
  then show ?thesis
    using doc_loop_incomplete [OF False] by (auto simp: complete_def)
qed

definition doc_sep :: fn_desc where
  "doc_sep = \<lparr>fname = js ''Messages'', separator = True, freturn = JUndef, fparams = None\<rparr>"

definition doc_fn :: fn_desc where
  "doc_fn = \<lparr>fname = js ''send'', separator = False, freturn = JStr (js ''PEP_STATUS''),
     fparams = Some [\<lparr>ptype = js ''Message'', direction = js ''InOut''\<rparr>]\<rparr>"

theorem doc_by_sections_witness:
  "doc_loop fmt_md [] [doc_sep, doc_fn, doc_fn, doc_sep] = Inr (
     doc_head fmt_md doc_sep @ doc_line fmt_md doc_fn [\<lparr>ptype = js ''Message'', direction = js ''InOut''\<rparr>]
     @ doc_line fmt_md doc_fn [\<lparr>ptype = js ''Message'', direction = js ''InOut''\<rparr>]
     @ NL @ NL @ doc_head fmt_md doc_sep)"
proof -
  have "format_def (js ''md'') = Some fmt_md" by (simp add: format_def_def)
  from doc_by_sections [OF this, of "[doc_sep, doc_fn, doc_fn, doc_sep]"] show ?thesis
    by (simp add: doc_sep_def doc_fn_def section_text_def fmt_md_def)
qed

text \<open>
  \<open>create_doc\<close> either shows the whole document in the page's output element, or, for an unknown format or a function
  without a parameter list, throws before it wrote anything.
\<close>

theorem create_doc_all_or_nothing:
  assumes "page_ok s" and "dom s (js ''doc_format'') = Some e"
  shows "case doc_text cfg (evalue e) of
      Inl err \<Rightarrow> create_doc cfg render s = (Inl err, s) \<and> err = TypeError
    | Inr res \<Rightarrow> \<exists>t d. create_doc cfg render s = (Inr (), t) \<and> page_ok t \<and> posts t = posts s
        \<and> dom t (js ''doc_out'') = Some d \<and> innerHTML d = res"
proof (cases "doc_text cfg (evalue e)")
  case (Inl err)
  then have "err = TypeError"
    by (auto simp: doc_text_def Let_def dest: doc_loop_err split: option.splits sum.splits)
  with Inl assms(2) show ?thesis by (simp add: create_doc_def elem_value_run)
next
  case (Inr res)
  obtain d where d: "dom s (js ''doc_out'') = Some d"
    using page_okD [OF assms(1), of "js ''doc_out''"] by (auto simp: static_ids_def)
  let ?t = "put_html render (js ''doc_out'') res d s"
  have "create_doc cfg render s = (Inr (), ?t)"
    using Inr assms(2) d by (simp add: create_doc_def elem_value_run set_html_run)
  moreover have "page_ok ?t" using assms(1) d by (rule page_ok_put_html)
  moreover have "dom ?t (js ''doc_out'') = Some (d\<lparr>innerHTML := res\<rparr>)" by (simp add: put_html_def)
  ultimately show ?thesis using Inr by auto
qed

theorem create_doc_all_or_nothing_witness:
  "\<exists>t d. create_doc \<lparr>pEp_functions = [doc_sep, doc_fn], server_version = [], server_version_name = [], add_sharks = False\<rparr>
      (\<lambda>h i. None) (start_page (blank_dom(js ''doc_format'' \<mapsto> blank_elem\<lparr>evalue := js ''html''\<rparr>))) = (Inr (), t)
    \<and> dom t (js ''doc_out'') = Some d"
proof -
  let ?cfg = "\<lparr>pEp_functions = [doc_sep, doc_fn], server_version = [], server_version_name = [], add_sharks = False\<rparr>"
  let ?s = "start_page (blank_dom(js ''doc_format'' \<mapsto> blank_elem\<lparr>evalue := js ''html''\<rparr>))"
  have "page_ok ?s" by (simp add: page_ok_def start_page_def blank_dom_def blank_elem_def)
  moreover have "dom ?s (js ''doc_format'') = Some (blank_elem\<lparr>evalue := js ''html''\<rparr>)"
    by (simp add: start_page_def)
  ultimately show ?thesis
    using create_doc_all_or_nothing [of ?s "blank_elem\<lparr>evalue := js ''html''\<rparr>" ?cfg "\<lambda>h i. None"]
    by (auto simp: doc_text_def format_def_def doc_sep_def doc_fn_def Let_def)
qed

end
