(* ===== verification/ClientEvents.thy ===== *)
theory ClientEvents
  imports CallCycle DocGen "HOL-Library.Multiset"
begin

text \<open>
  The test client as a machine: every handler of the page, every callback of a request or of a file
  reader and every entry of the user is an event, in any order.  What holds in all histories:
  the static page stays, and the requests carry strictly increasing ids.  The callbacks: what a result
  or a failure shows, and which attachments the load events of files leave.
\<close>

section \<open>The events\<close>

inductive client_event ::
  "server_js \<Rightarrow> render \<Rightarrow> (jstr \<Rightarrow> jstr + jsval) \<Rightarrow> app \<Rightarrow> app \<Rightarrow> bool" for cfg render parse where
  initialise: "init_pEp_functions cfg render s = (r, t) \<Longrightarrow> client_event cfg render parse s t"
| select: "on_select_change cfg render s = (r, t) \<Longrightarrow> client_event cfg render parse s t"
| click: "button_click render s = (r, t) \<Longrightarrow> client_event cfg render parse s t"
| succeed: "displayResult cfg render response s = (r, t) \<Longrightarrow> client_event cfg render parse s t"
| fail: "ajax_fail render parse hdr txt err s = (r, t) \<Longrightarrow> client_event cfg render parse s t"
| choose: "changeBlob render inp files nr s = (r, t) \<Longrightarrow> client_event cfg render parse s t"
| load: "rd \<in> set (readers s) \<Longrightarrow>
    reader_onload render rd (s\<lparr>readers := remove1 rd (readers s)\<rparr>) = (r, t) \<Longrightarrow>
    client_event cfg render parse s t"
| edit: "do_edit render nr e s = (r, t) \<Longrightarrow> client_event cfg render parse s t"
| document: "create_doc cfg render s = (r, t) \<Longrightarrow> client_event cfg render parse s t"
| user: "user_edit s t \<Longrightarrow> client_event cfg render parse s t"

inductive_cases client_eventE: "client_event cfg render parse s t"

definition loaded :: "app \<Rightarrow> bool" where
  "loaded s \<longleftrightarrow> (\<exists>d. s = start_page d) \<and> page_ok s"

section \<open>Handlers that post nothing\<close>

definition steady :: "(jstr \<times> jstr) list \<Rightarrow> int \<Rightarrow> app \<Rightarrow> bool" where
  "steady p c s \<longleftrightarrow> page_ok s \<and> posts s = p \<and> call_ID s = c"

lemma steady_html [keeps_intros]:
  "keeps (steady p c) (set_html render i h)"
  "keeps (steady p c) (add_html render i h)"
  "keeps (steady p c) (set_class i k)"
  "keeps (steady p c) (set_disabled i b)"
  unfolding set_class_def set_disabled_def steady_def
  by (intro keeps_set_html_gen keeps_add_html_gen keeps_upd_elem;
      simp add: page_ok_put_html page_ok_upd)+

lemma pure_keeps: "pure_handler m \<Longrightarrow> keeps P m"
  by (simp add: keeps_def pure_handler_def)

lemma keeps_jq_val [keeps_intros]: "keeps P (jq_val k)"
  by (rule pure_keeps) (rule pure_elem)

lemma keeps_read_prop [keeps_intros]: "keeps P (read_prop v k)"
  unfolding read_prop_def by (rule keeps_lift)

lemma keeps_fp_array [keeps_intros]: "keeps P (fp_array nr)"
  unfolding fp_array_def by (auto intro!: keeps_intros split: option.split)

lemma steady_upds [simp]:
  "steady p c (fp_set nr vs s) = steady p c s"
  "steady p c (put_inputs i bs s) = steady p c s"
  "steady p c (s\<lparr>readers := rs\<rparr>) = steady p c s"
  "steady p c (s\<lparr>fileInputs := fi\<rparr>) = steady p c s"
  "steady p c (s\<lparr>func := f\<rparr>) = steady p c s"
  "steady p c (s\<lparr>func_params := ps\<rparr>) = steady p c s"
  "steady p c (s\<lparr>alerts := a\<rparr>) = steady p c s"
  "steady p c (s\<lparr>heading := h\<rparr>) = steady p c s"
  by (simp_all add: steady_def put_inputs_def)

lemma keeps_modify_steady [keeps_intros]:
  "(\<And>s. steady p c (f s) = steady p c s) \<Longrightarrow> keeps (steady p c) (modify f)"
  by (rule keeps_modify) simp

lemma steady_genStringList [keeps_intros]: "keeps (steady p c) (genStringList render nr pp)"
  unfolding genStringList_def Let_def by (intro keeps_intros) simp_all

lemma steady_P2F_StringList [keeps_intros]: "keeps (steady p c) (P2F_StringList render nr pp)"
  unfolding P2F_StringList_def by (auto intro!: keeps_intros)

lemma steady_edit: "keeps (steady p c) (do_edit render nr e)"
  by (cases e) (auto simp: addString_def removeString_def change_string_def intro!: keeps_intros)

lemmas P2F_defs = P2F_Session_def P2F_String_def P2F_Integer_def P2F_Bool_def P2F_Language_def
  P2F_Message_def P2F_BlobList_def P2F_Identity_def P2F_IdentityList_def
  P2F_PEP_enc_format_def P2F_PEP_msg_direction_def P2F_PEP_rating_def

lemma keeps_Param2Form: "Param2Form render t = Some f \<Longrightarrow> keeps (steady p c) (f nr pp v)"
  by (erule Param2Form_cases) (auto simp: P2F_defs Let_def intro!: keeps_intros)

lemma steady_param_form [keeps_intros]: "keeps (steady p c) (param_form render q nr)"
  unfolding param_form_def
  by (rule keeps_bnd, rule keeps_gets, cases "Param2Form render (ptype q)")
     (simp_all add: keeps_ret keeps_Param2Form)

lemma steady_param_item [keeps_intros]: "keeps (steady p c) (param_item render pn)"
  unfolding param_item_def by (auto intro!: keeps_intros split: prod.split)

lemma steady_prepare_call [keeps_intros]: "keeps (steady p c) (prepare_call render f)"
  unfolding prepare_call_def
  by (auto intro!: keeps_intros split: option.split)

lemma steady_select [keeps_intros]: "keeps (steady p c) (on_select_change cfg render)"
  unfolding on_select_change_def by (auto intro!: keeps_intros)

lemma steady_displayResult: "keeps (steady p c) (displayResult cfg render response)"
  unfolding displayResult_def by (auto intro!: keeps_intros)

lemma steady_ajax_fail: "keeps (steady p c) (ajax_fail render parse hdr txt err)"
  unfolding ajax_fail_def by (auto intro!: keeps_intros)

lemma steady_changeBlob: "keeps (steady p c) (changeBlob render inp files nr)"
  unfolding changeBlob_def by (auto intro!: keeps_intros)

lemma steady_reader_onload: "keeps (steady p c) (reader_onload render rd)"
  unfolding reader_onload_def by (auto intro!: keeps_intros split: option.split)

lemma steady_init: "keeps (steady p c) (init_pEp_functions cfg render)"
  unfolding init_pEp_functions_def by (auto intro!: keeps_intros)

lemma steady_create_doc: "keeps (steady p c) (create_doc cfg render)"
  unfolding create_doc_def by (auto intro!: keeps_intros)

section \<open>The request ids\<close>

type_synonym request = "jstr \<times> int \<times> jstr \<times> jstr \<times> jsval list"

fun sent :: "request \<Rightarrow> jstr \<times> jstr" where
  "sent (url, rid, token, meth, ps) = (url, to_string (stringify (request_json rid token meth ps)))"

definition rid_of :: "request \<Rightarrow> int" where
  "rid_of q = fst (snd q)"

definition numbered :: "request list \<Rightarrow> int \<Rightarrow> bool" where
  "numbered reqs c \<longleftrightarrow> 1000 \<le> c \<and> sorted_wrt (<) (map rid_of reqs) \<and> (\<forall>q \<in> set reqs. 1000 < rid_of q \<and> rid_of q \<le> c)"

definition calls_ok :: "app \<Rightarrow> bool" where
  "calls_ok s \<longleftrightarrow> page_ok s \<and> (\<exists>reqs. posts s = map sent reqs \<and> numbered reqs (call_ID s))"

lemma calls_ok_steady: "calls_ok s \<longleftrightarrow> (\<exists>reqs c. steady (map sent reqs) c s \<and> numbered reqs c)"
  by (auto simp: calls_ok_def steady_def)

lemma numbered_Suc: "numbered reqs c \<Longrightarrow> numbered reqs (c + 1)"
  by (fastforce simp: numbered_def)

lemma numbered_snoc:
  "numbered reqs c \<Longrightarrow> rid_of q = c + 1 \<Longrightarrow> numbered (reqs @ [q]) (c + 1)"
  by (fastforce simp: numbered_def sorted_wrt_append)

lemma steady_keeps_calls:
  assumes "\<And>p c. keeps (steady p c) m"
  shows "keeps calls_ok m"
  using assms unfolding keeps_def calls_ok_steady by blast

lemma request_param_pure: "pure_handler (request_param pn)"
proof (cases pn)
  case (Pair p nr)
  show ?thesis
    unfolding request_param_def Pair prod.case
    by (cases "Form2Param (ptype p)"; cases "direction p = js ''Out''")
       (simp_all add: pure_basic pure_bnd F2P_pure)
qed

lemma called_params_pure: "pure_handler called_params"
  unfolding called_params_def by (auto intro!: pure_intros split: option.split)

lemma triple_steady_id:
  "triple (steady p c) (f c) Q E \<Longrightarrow> triple (\<lambda>s. steady p c s \<and> x = call_ID s) (f x) Q E"
  by (auto simp: triple_def steady_def)

text \<open>A click posts at most one request, under a fresh id.\<close>

lemma click_keeps_calls: "keeps calls_ok (button_click render)"
  unfolding keeps_def
proof (intro allI impI)
  fix s assume "calls_ok s"
  then obtain reqs c where s: "steady (map sent reqs) c s" and n: "numbered reqs c"
    unfolding calls_ok_steady by blast
  let ?S = "steady (map sent reqs)"
  have E: "calls_ok t" if "?S c t \<or> ?S (c + 1) t" for t
    using that n numbered_Suc unfolding calls_ok_steady by blast
  have E2: "calls_ok t" if "steady (map sent (reqs @ [(url, c + 1, tok, meth, ps)])) (c + 1) t" for t url tok meth ps
    using that numbered_snoc [OF n, of "(url, c + 1, tok, meth, ps)"]
    unfolding calls_ok_steady rid_of_def fst_conv snd_conv by blast
  have k: "triple P m (\<lambda>_. P) calls_ok" if "keeps P m" "\<And>t. P t \<Longrightarrow> calls_ok t"
    for P and m :: "'x page" using that by (rule triple_keeps)
  have post: "triple (?S (c + 1)) (seq (modify (\<lambda>s. s\<lparr>posts := posts s @
      [(url, to_string (stringify (request_json (c + 1) tok meth ps)))]\<rparr>)) m) (\<lambda>_. calls_ok) calls_ok"
    if "keeps (steady (map sent (reqs @ [(url, c + 1, tok, meth, ps)])) (c + 1)) m"
    for url tok meth ps and m :: "unit page"
  proof (rule triple_bnd [where R = "\<lambda>_. steady (map sent (reqs @ [(url, c + 1, tok, meth, ps)])) (c + 1)"])
    show "triple (steady (map sent (reqs @ [(url, c + 1, tok, meth, ps)])) (c + 1)) m (\<lambda>_. calls_ok) calls_ok"
      by (rule triple_weaken [OF k [OF that E2] E2])
  qed (rule triple_modify, simp add: steady_def)
  have "triple (?S c) (button_click render) (\<lambda>_. calls_ok) calls_ok"
    unfolding button_click_def Let_def
    apply (rule triple_bnd, rule k, rule keeps_intros, simp add: E)
    apply (rule triple_bnd, rule k, rule keeps_intros, simp add: E)
    apply (rule triple_bnd, rule k, rule keeps_elem_value, simp add: E)
    apply (rule triple_bnd [where R = "\<lambda>_. ?S (c + 1)"], rule triple_modify, simp add: steady_def)
    apply (rule triple_bnd [OF triple_gets], rule triple_steady_id)
    apply (rule triple_bnd, rule k, rule keeps_elem_value, simp add: E)
    apply (rule triple_bnd, rule k, rule keeps_elem_value, simp add: E)
    apply (rule triple_bnd, rule k, rule pure_keeps, rule called_params_pure, simp add: E)
    apply (rule triple_bnd, rule k, rule pure_keeps, rule pure_each, rule request_param_pure, simp add: E)
    apply (rule post)
    apply (intro keeps_intros keeps_elem_value)
    done
  with s tripleD [OF this s] show "calls_ok (snd (button_click render s))"
    by (cases "button_click render s"; cases "fst (button_click render s)") auto
qed

lemma calls_ok_upds [simp]: "calls_ok (s\<lparr>readers := rs\<rparr>) = calls_ok s"
  by (simp add: calls_ok_def)

lemma user_edit_calls: "user_edit s t \<Longrightarrow> calls_ok s \<Longrightarrow> calls_ok t"
  using user_edit_page_ok [of s t] by (auto simp: calls_ok_def user_edit_def)

lemmas event_keeps = click_keeps_calls steady_init [THEN steady_keeps_calls]
  steady_select [THEN steady_keeps_calls] steady_displayResult [THEN steady_keeps_calls]
  steady_ajax_fail [THEN steady_keeps_calls] steady_changeBlob [THEN steady_keeps_calls]
  steady_reader_onload [THEN steady_keeps_calls] steady_edit [THEN steady_keeps_calls]
  steady_create_doc [THEN steady_keeps_calls]

interpretation client: machine loaded "client_event cfg render parse" calls_ok
proof
  fix s assume "loaded s"
  then show "calls_ok s"
    by (auto simp: loaded_def calls_ok_def start_page_def numbered_def intro!: exI [of _ "[]"])
next
  fix s t assume ok: "calls_ok s" and ev: "client_event cfg render parse s t"
  have k: "calls_ok t" if "keeps calls_ok m" "m s = (r, t)" for m :: "'x page" and r
    using keepsD [OF that(1) ok] that(2) by simp
  from ev show "calls_ok t"
  proof (cases rule: client_event.cases)
    case (load rd r)
    have "keeps calls_ok (reader_onload render rd)" by (rule event_keeps)
    from keepsD [OF this, of "s\<lparr>readers := remove1 rd (readers s)\<rparr>"] ok load show ?thesis by simp
  next
    case user
    then show ?thesis using ok by (rule user_edit_calls)
  qed (rule k [rotated], assumption, rule event_keeps)+
qed

text \<open>The text of a request determines its id.\<close>

lemma request_text:
  "\<exists>rest. to_string (stringify (request_json rid tok meth ps)) =
     [123] @ quote_json (js ''id'') @ js '':'' @ show_int rid @ js '','' @ rest"
  by (simp add: stringify_def request_json_def wrap_list_def)

lemma digits_then_comma:
  assumes "show_nat m @ js '','' @ a = show_nat n @ js '','' @ b"
  shows "m = n"
proof -
  have "takeWhile is_digit (show_nat k @ js '','' @ x) = show_nat k" for k x
    using show_nat_digits [of k] by (simp add: takeWhile_append2 is_digit_def js_def)
  with assms have "show_nat m = show_nat n" by metis
  then show ?thesis by simp
qed

lemma request_text_id:
  assumes "to_string (stringify (request_json r1 t1 m1 p1)) = to_string (stringify (request_json r2 t2 m2 p2))"
    and "0 < r1" "0 < r2"
  shows "r1 = r2"
proof -
  obtain a where a: "to_string (stringify (request_json r1 t1 m1 p1)) =
     [123] @ quote_json (js ''id'') @ js '':'' @ show_int r1 @ js '','' @ a" using request_text by blast
  obtain b where b: "to_string (stringify (request_json r2 t2 m2 p2)) =
     [123] @ quote_json (js ''id'') @ js '':'' @ show_int r2 @ js '','' @ b" using request_text by blast
  have "show_nat (nat r1) @ js '','' @ a = show_nat (nat r2) @ js '','' @ b"
    using assms a b by (simp add: show_int_def)
  then have "nat r1 = nat r2" by (rule digits_then_comma)
  then show ?thesis using assms(2,3) by simp
qed

lemma sent_distinct:
  assumes "numbered reqs c" shows "distinct (map (snd \<circ> sent) reqs)"
proof -
  have "snd (sent q) \<noteq> snd (sent q')" if "rid_of q < rid_of q'" "q \<in> set reqs" "q' \<in> set reqs" for q q'
  proof (cases q; cases q')
    fix u r t m p u' r' t' m' p'
    assume q: "q = (u, r, t, m, p)" "q' = (u', r', t', m', p')"
    have "0 < r" "0 < r'" using assms that(2,3) q by (fastforce simp: numbered_def rid_of_def)+
    with request_text_id [of r t m p r' t' m' p'] that(1) q show ?thesis by (auto simp: rid_of_def)
  qed
  then have "sorted_wrt (\<lambda>q q'. snd (sent q) \<noteq> snd (sent q')) reqs"
    using assms unfolding numbered_def sorted_wrt_map by (auto intro: sorted_wrt_mono_rel [rotated])
  then show ?thesis by (induction reqs) auto
qed

text \<open>
  C2. In every history of the page, whatever the order of clicks, callbacks, file loads and entries, and whatever
  threw, the static page is intact and the posted requests carry strictly increasing
  ids above 1000 and at most the counter; so no two requests are the same text.
\<close>

theorem request_ids_increase:
  assumes "reachable loaded (client_event cfg render parse) s"
  shows "page_ok s \<and> (\<exists>reqs. posts s = map sent reqs \<and> sorted_wrt (<) (map rid_of reqs)
      \<and> (\<forall>q \<in> set reqs. 1000 < rid_of q \<and> rid_of q \<le> call_ID s))
    \<and> distinct (map snd (posts s))"
proof -
  have "calls_ok s" using assms by (rule client.always)
  then obtain reqs where "page_ok s" "posts s = map sent reqs" "numbered reqs (call_ID s)"
    by (auto simp: calls_ok_def)
  with sent_distinct [of reqs "call_ID s"] show ?thesis
    by (auto simp: numbered_def intro!: exI [of _ reqs])
qed

definition login_cfg :: server_js where
  "login_cfg = \<lparr>pEp_functions = [log_in], server_version = [], server_version_name = [], add_sharks = False\<rparr>"

text \<open>A history that posts one call.\<close>

lemma login_posted: "\<exists>s. reachable loaded (client_event login_cfg plain_render Inl) s \<and> length (posts s) = 1"
proof -
  let ?R = "reachable loaded (client_event login_cfg plain_render Inl)"
  let ?s = "fill (js ''login'') (start_page blank_dom)"
  have "?R (start_page blank_dom)" by (rule reachable.start) (auto simp: loaded_def)
  then have r: "?R ?s" by (rule reachable.event) (rule client_event.user [OF fill_edit])
  have ok: "page_ok ?s" using user_edit_page_ok [OF fill_edit page_ok_start] .
  have f: "\<not> separator log_in" "fparams log_in = Some (the (fparams log_in))" by (simp_all add: log_in_def)
  from prepare_ready [OF ok f honest_plain] obtain t where t: "prepare_call plain_render log_in ?s = (Inr (), t)"
    "page_ok t" "func t = Some log_in" "posts t = posts ?s" "ready t (the (fparams log_in))" by blast
  have "jq_val (js ''fn_name'') ?s = (Inr (JStr (fname log_in)), ?s)"
    by (simp add: jq_val_def fill_def start_page_def blank_dom_def log_in_def)
  then have "on_select_change login_cfg plain_render ?s = (Inr (), t)"
    using t(1) by (simp add: on_select_change_def login_cfg_def)
  then have rt: "?R t" using r by (blast intro: reachable.event client_event.select)
  obtain srv tok fn pre where e: "dom t (js ''server'') = Some srv"
      "dom t (js ''security_token'') = Some tok" "dom t (js ''fn_name'') = Some fn"
      "dom t (js ''resultpre'') = Some pre"
    using page_ok_at [OF t(2)] static_simps(3-6) by metis
  from click_run [OF t(2,3) f(2) t(5) e, of plain_render] obtain v where
    v: "button_click plain_render t = (Inr (), v)" "length (posts v) = Suc (length (posts t))" by auto
  have rv: "?R v" using rt v(1) by (blast intro: reachable.event client_event.click)
  have "length (posts v) = 1" using v(2) t(4) by (simp add: fill_def start_page_def)
  with rv show ?thesis by blast
qed

theorem request_ids_increase_witness:
  "\<exists>s. reachable loaded (client_event login_cfg plain_render Inl) s \<and> length (posts s) = 1
    \<and> page_ok s \<and> distinct (map snd (posts s))"
proof -
  obtain s where s: "reachable loaded (client_event login_cfg plain_render Inl) s" "length (posts s) = 1"
    using login_posted by blast
  with request_ids_increase [OF s(1)] show ?thesis by (intro exI [of _ s]) (elim conjE, simp)
qed

section \<open>Attachments\<close>

definition file_blob :: "file_desc \<Rightarrow> blob" where
  "file_blob f = \<lparr>mime_type = ftype f, filename = file_name f, bvalue = b64_enc (map unat (fbytes f))\<rparr>"

lemma blob_of_file_run: "blob_of_file f = Inr (file_blob f)"
  by (simp add: blob_of_file_def arrayToBase64_value file_blob_def)

definition push_blob :: "(jstr \<times> blob list) list \<Rightarrow> jstr \<Rightarrow> blob \<Rightarrow> (jstr \<times> blob list) list" where
  "push_blob fi i b = (case map_of fi i of None \<Rightarrow> fi | Some bs \<Rightarrow> set_prop fi i (bs @ [b]))"

interpretation attachments: list_table map_of set_prop push_blob
  by unfold_locales (simp_all add: push_blob_def)

text \<open>The load events of readers that belong to one input.\<close>

definition readers_of :: "jstr \<Rightarrow> jstr \<Rightarrow> file_desc list \<Rightarrow> file_reader list" where
  "readers_of inp nr files = map (\<lambda>f. \<lparr>r_inp = inp, r_nr = nr, r_file = f\<rparr>) files"

lemma load_run:
  assumes "dom s (span_id (r_nr r)) = Some e" and "map_of (fileInputs s) (r_inp r) \<noteq> None"
  shows "\<exists>u e'. reader_onload render r s = (Inr (), u) \<and> dom u (span_id (r_nr r)) = Some e'
    \<and> fileInputs u = push_blob (fileInputs s) (r_inp r) (file_blob (r_file r)) \<and> readers u = readers s"
proof -
  obtain bs where bs: "map_of (fileInputs s) (r_inp r) = Some bs" using assms(2) by blast
  let ?s = "put_inputs (r_inp r) (bs @ [file_blob (r_file r)]) s"
  let ?u = "put_html render (span_id (r_nr r)) (innerHTML e @ show_nat (length (bs @ [file_blob (r_file r)]))
      @ js '' Files processed. <br>'') e ?s"
  have "reader_onload render r s = (Inr (), ?u)"
    using assms(1) bs by (simp add: reader_onload_def blob_of_file_run add_html_run put_inputs_def)
  moreover have "dom ?u (span_id (r_nr r)) \<noteq> None" by (simp add: put_html_def)
  moreover have "fileInputs ?u = push_blob (fileInputs s) (r_inp r) (file_blob (r_file r))"
    using bs by (simp add: push_blob_def put_inputs_def)
  moreover have "readers ?u = readers s" by (simp add: put_inputs_def)
  ultimately show ?thesis by blast
qed

lemma loads_run:
  assumes "dom s (span_id nr) \<noteq> None" and "map_of (fileInputs s) inp \<noteq> None"
    and "\<forall>r \<in> set rs. r_inp r = inp \<and> r_nr r = nr"
  shows "\<exists>u. each (reader_onload render) rs s = (Inr (replicate (length rs) ()), u)
    \<and> fileInputs u = foldl (\<lambda>t (k, x). push_blob t k x) (fileInputs s)
        (map (\<lambda>r. (inp, file_blob (r_file r))) rs)"
  using assms
proof (induction rs arbitrary: s)
  case (Cons r rs)
  have r: "r_inp r = inp" "r_nr r = nr" using Cons.prems(3) by simp_all
  have "dom s (span_id (r_nr r)) \<noteq> None" unfolding r by (rule Cons.prems(1))
  then obtain e where "dom s (span_id (r_nr r)) = Some e" by blast
  from load_run [OF this, of render] Cons.prems(2) obtain v where
    v: "reader_onload render r s = (Inr (), v)" "dom v (span_id nr) \<noteq> None"
      "fileInputs v = push_blob (fileInputs s) inp (file_blob (r_file r))"
    unfolding r by blast
  have "map_of (fileInputs v) inp \<noteq> None"
    using v(3) Cons.prems(2) by (auto simp: push_blob_def)
  moreover have "\<forall>x \<in> set rs. r_inp x = inp \<and> r_nr x = nr" using Cons.prems(3) by simp
  ultimately obtain u where
    "each (reader_onload render) rs v = (Inr (replicate (length rs) ()), u)"
    "fileInputs u = foldl (\<lambda>t (k, x). push_blob t k x) (fileInputs v) (map (\<lambda>r. (inp, file_blob (r_file r))) rs)"
    using Cons.IH [OF v(2)] by blast
  with v(1,3) show ?case by simp
qed simp

lemma loads_attach:
  assumes "dom s (span_id nr) \<noteq> None" and "map_of (fileInputs s) inp = Some bs"
    and "\<forall>r \<in> set rs. r_inp r = inp \<and> r_nr r = nr"
  shows "\<exists>u. each (reader_onload render) rs s = (Inr (replicate (length rs) ()), u)
    \<and> map_of (fileInputs u) inp = Some (bs @ map (\<lambda>r. file_blob (r_file r)) rs)"
proof -
  from loads_run [OF assms(1) _ assms(3)] assms(2) obtain u where
    u: "each (reader_onload render) rs s = (Inr (replicate (length rs) ()), u)"
      "fileInputs u = foldl (\<lambda>t (k, x). push_blob t k x) (fileInputs s) (map (\<lambda>r. (inp, file_blob (r_file r))) rs)"
    by blast
  have "map_of (fileInputs u) inp = map_option (\<lambda>xs. xs @ map (\<lambda>r. file_blob (r_file r)) rs) (map_of (fileInputs s) inp)"
    unfolding u(2) using assms(2) by (subst attachments.look_pushes) (auto simp: filter_map comp_def)
  with u(1) assms(2) show ?thesis by simp
qed

lemma changeBlob_run:
  assumes "dom s (span_id nr) = Some e"
  shows "\<exists>t. changeBlob render inp files nr s = (Inr (), t) \<and> dom t (span_id nr) \<noteq> None
    \<and> map_of (fileInputs t) inp = Some [] \<and> readers t = readers s @ readers_of inp nr files"
  using assms
  by (auto simp: changeBlob_def set_html_run put_inputs_def readers_of_def put_html_def)

text \<open>
  C23. Once every file chosen for an attachment has loaded, in whatever order the browser finishes
  them, the parameter reads back as one entry per file, with its type, name and content encoded in base 64, in the
  order of loading.
\<close>

theorem attachments_any_order:
  assumes "dom s (span_id nr) \<noteq> None" and "mset rs = mset (readers_of (blob_id nr) nr files)"
  shows "\<exists>t u bs. changeBlob render (blob_id nr) files nr s = (Inr (), t)
    \<and> readers t = readers s @ readers_of (blob_id nr) nr files
    \<and> each (reader_onload render) rs t = (Inr (replicate (length rs) ()), u)
    \<and> F2P_BlobList nr v u = (Inr (JArr (map blob_json bs)), u)
    \<and> bs = map (\<lambda>r. file_blob (r_file r)) rs \<and> mset bs = mset (map file_blob files)"
proof -
  obtain e where "dom s (span_id nr) = Some e" using assms(1) by blast
  from changeBlob_run [OF this, of render "blob_id nr" files] obtain t where
    t: "changeBlob render (blob_id nr) files nr s = (Inr (), t)" "dom t (span_id nr) \<noteq> None"
      "map_of (fileInputs t) (blob_id nr) = Some []" "readers t = readers s @ readers_of (blob_id nr) nr files"
    by blast
  have "set rs = set (readers_of (blob_id nr) nr files)" using assms(2) by (metis set_mset_mset)
  then have "\<forall>r \<in> set rs. r_inp r = blob_id nr \<and> r_nr r = nr" by (auto simp: readers_of_def)
  from loads_attach [OF t(2,3) this, of render] obtain u where
    u: "each (reader_onload render) rs t = (Inr (replicate (length rs) ()), u)"
      "map_of (fileInputs u) (blob_id nr) = Some (map (\<lambda>r. file_blob (r_file r)) rs)" by auto
  have "mset (map (\<lambda>r. file_blob (r_file r)) rs) = image_mset (\<lambda>r. file_blob (r_file r)) (mset rs)" by simp
  also have "\<dots> = mset (map file_blob files)"
    unfolding assms(2) by (simp add: readers_of_def image_mset.compositionality comp_def)
  finally show ?thesis
    using t u by (auto simp: F2P_BlobList_def)
qed

definition file_a :: file_desc where
  "file_a = \<lparr>ftype = js ''text/plain'', file_name = js ''a'', fbytes = [104, 105]\<rparr>"

definition file_b :: file_desc where
  "file_b = \<lparr>ftype = js ''text/plain'', file_name = js ''b'', fbytes = []\<rparr>"

definition attach_page :: app where
  "attach_page = start_page (blank_dom(span_id (js ''0'') \<mapsto> blank_elem))"

theorem attachments_any_order_witness:
  "\<exists>t u. changeBlob plain_render (blob_id (js ''0'')) [file_a, file_b] (js ''0'') attach_page = (Inr (), t)
    \<and> each (reader_onload plain_render) (rev (readers t)) t = (Inr [(), ()], u)
    \<and> F2P_BlobList (js ''0'') JUndef u = (Inr (JArr [blob_json (file_blob file_b), blob_json (file_blob file_a)]), u)"
  using attachments_any_order [of attach_page "js ''0''"
      "rev (readers_of (blob_id (js ''0'')) (js ''0'') [file_a, file_b])" "[file_a, file_b]" plain_render JUndef]
  by (auto simp: attach_page_def start_page_def readers_of_def)

text \<open>
  C38. When the user replaces the files of an attachment before the first choice has loaded, the files no longer
  chosen are attached all the same: the load events of both choices push to the same list.
\<close>

theorem replaced_files_attached:
  assumes "dom s (span_id nr) \<noteq> None"
    and "mset rs = mset (readers_of (blob_id nr) nr old @ readers_of (blob_id nr) nr new)"
  shows "\<exists>t u bs. seq (changeBlob render (blob_id nr) old nr) (changeBlob render (blob_id nr) new nr) s = (Inr (), t)
    \<and> each (reader_onload render) rs t = (Inr (replicate (length rs) ()), u)
    \<and> F2P_BlobList nr v u = (Inr (JArr (map blob_json bs)), u)
    \<and> mset bs = mset (map file_blob (old @ new))"
proof -
  obtain e where "dom s (span_id nr) = Some e" using assms(1) by blast
  from changeBlob_run [OF this, of render "blob_id nr" old] obtain w where
    w: "changeBlob render (blob_id nr) old nr s = (Inr (), w)" "dom w (span_id nr) \<noteq> None" by blast
  have "set rs = set (readers_of (blob_id nr) nr old @ readers_of (blob_id nr) nr new)"
    using assms(2) by (metis set_mset_mset)
  then have all: "\<forall>r \<in> set rs. r_inp r = blob_id nr \<and> r_nr r = nr"
    by (simp only:) (simp add: readers_of_def ball_Un)
  from w(2) obtain e2 where "dom w (span_id nr) = Some e2" by blast
  from changeBlob_run [OF this, of render "blob_id nr" new] obtain t where
    t: "changeBlob render (blob_id nr) new nr w = (Inr (), t)" "dom t (span_id nr) \<noteq> None"
      "map_of (fileInputs t) (blob_id nr) = Some []" by blast
  from loads_attach [OF t(2,3) all, of render] obtain u where
    u: "each (reader_onload render) rs t = (Inr (replicate (length rs) ()), u)"
      "map_of (fileInputs u) (blob_id nr) = Some (map (\<lambda>r. file_blob (r_file r)) rs)" by auto
  have "mset (map (\<lambda>r. file_blob (r_file r)) rs) = image_mset (\<lambda>r. file_blob (r_file r)) (mset rs)" by simp
  also have "\<dots> = mset (map file_blob (old @ new))"
    unfolding assms(2) by (simp add: readers_of_def image_mset.compositionality comp_def)
  finally have "mset (map (\<lambda>r. file_blob (r_file r)) rs) = mset (map file_blob (old @ new))" .
  moreover have "F2P_BlobList nr v u = (Inr (JArr (map blob_json (map (\<lambda>r. file_blob (r_file r)) rs))), u)"
    using u(2) by (simp add: F2P_BlobList_def)
  moreover have "seq (changeBlob render (blob_id nr) old nr) (changeBlob render (blob_id nr) new nr) s = (Inr (), t)"
    using w(1) t(1) by simp
  ultimately show ?thesis using u(1) by (intro exI conjI)
qed

theorem replaced_files_attached_witness:
  "\<exists>t u bs. seq (changeBlob plain_render (blob_id (js ''0'')) [file_a] (js ''0''))
      (changeBlob plain_render (blob_id (js ''0'')) [file_b] (js ''0'')) attach_page = (Inr (), t)
    \<and> F2P_BlobList (js ''0'') JUndef u = (Inr (JArr (map blob_json bs)), u)
    \<and> mset bs = {#file_blob file_a, file_blob file_b#}"
  using replaced_files_attached [of attach_page "js ''0''"
      "readers_of (blob_id (js ''0'')) (js ''0'') [file_a] @ readers_of (blob_id (js ''0'')) (js ''0'') [file_b]"
      "[file_a]" "[file_b]" plain_render JUndef]
  by (auto simp: attach_page_def start_page_def)

section \<open>Results and failures\<close>

text \<open>The result box keeps an element while the form is rebuilt.\<close>

definition box_is :: "elem \<Rightarrow> app \<Rightarrow> bool" where
  "box_is e s \<longleftrightarrow> page_ok s \<and> dom s (js ''resultpre'') = Some e"

lemma box_html [keeps_intros]:
  assumes "i \<noteq> js ''resultpre''"
  shows "keeps (box_is e) (set_html render i h)" "keeps (box_is e) (add_html render i h)"
    "keeps (box_is e) (set_disabled i b)"
  unfolding set_disabled_def box_is_def
  by (intro keeps_set_html_gen keeps_add_html_gen keeps_upd_elem;
      use assms in \<open>simp add: page_ok_put_html page_ok_upd put_html_static\<close>)+

lemma box_modify [keeps_intros]:
  "(\<And>s. dom (f s) = dom s) \<Longrightarrow> keeps (box_is e) (modify f)"
  by (rule keeps_modify) (simp add: box_is_def page_ok_def)

lemma box_other: "js ''td_param'' \<noteq> js ''resultpre''" "js ''debug'' \<noteq> js ''resultpre''"
  by simp_all

lemma box_genStringList: "keeps (box_is e) (genStringList render nr pp)"
  unfolding genStringList_def Let_def by (intro keeps_intros box_other) simp

lemma box_Param2Form: "Param2Form render t = Some f \<Longrightarrow> keeps (box_is e) (f nr pp v)"
  by (erule Param2Form_cases)
     (auto simp: P2F_defs P2F_StringList_def Let_def intro!: keeps_intros box_genStringList)

lemma box_param_item [keeps_intros]: "keeps (box_is e) (param_item render pn)"
proof -
  have "keeps (box_is e) (param_form render q nr)" for q nr
    unfolding param_form_def
    by (rule keeps_bnd, rule keeps_gets, cases "Param2Form render (ptype q)")
       (simp_all add: keeps_ret box_Param2Form)
  then show ?thesis
    unfolding param_item_def by (auto intro!: keeps_intros split: prod.split)
qed

lemma box_select [keeps_intros]: "keeps (box_is e) (on_select_change cfg render)"
  unfolding on_select_change_def prepare_call_def
  by (auto intro!: keeps_intros box_other split: option.split)

text \<open>What the box shows for a response.\<close>

definition shown :: "elem \<Rightarrow> jsval \<Rightarrow> jsval \<Rightarrow> jsval \<Rightarrow> elem" where
  "shown pre response result err =
     (if truthy result then
        pre\<lparr>innerHTML := to_string (stringify_gap (js ''  '') result), className := js ''green''\<rparr>
      else if truthy err then
        pre\<lparr>innerHTML := to_string (stringify_gap (js ''  '') err), className := js ''red''\<rparr>
      else pre\<lparr>innerHTML := js ''cklickiii ['' @ to_string (stringify_gap [9] response) @ js '']''\<rparr>)"

lemma box_after_html:
  "box_is e s \<Longrightarrow> set_html render (js ''resultpre'') h s = (Inr (), put_html render (js ''resultpre'') h e s)
    \<and> box_is (e\<lparr>innerHTML := h\<rparr>) (put_html render (js ''resultpre'') h e s)"
  by (auto simp: box_is_def set_html_run page_ok_put_html) (simp add: put_html_def)

lemma box_after_class:
  "box_is e s \<Longrightarrow> \<exists>t. set_class (js ''resultpre'') k s = (Inr (), t) \<and> box_is (e\<lparr>className := k\<rparr>) t"
  by (auto simp: box_is_def set_class_def upd_elem_run page_ok_upd)

lemma show_in_box:
  assumes "box_is e s"
  shows "\<exists>t. seq (set_html render (js ''resultpre'') h) (set_class (js ''resultpre'') k) s = (Inr (), t)
    \<and> box_is (e\<lparr>innerHTML := h, className := k\<rparr>) t"
proof -
  note h = box_after_html [OF assms, of render h]
  from box_after_class [OF conjunct2 [OF h], of k] h show ?thesis by auto
qed

text \<open>
  C26. A response with a truthy result is shown green, whatever its error; otherwise a truthy error is shown red;
  otherwise the whole response is shown in the class the box had.  Rebuilding the form afterwards, even when it
  throws, leaves the box alone.
\<close>

theorem response_shown:
  assumes "page_ok s" and "dom s (js ''resultpre'') = Some pre"
    and "get_prop response (js ''result'') = Inr result" and "get_prop response (js ''error'') = Inr err"
  shows "dom (snd (displayResult cfg render response s)) (js ''resultpre'') = Some (shown pre response result err)
    \<and> page_ok (snd (displayResult cfg render response s))"
proof -
  let ?raw = "js ''cklickiii ['' @ to_string (stringify_gap [9] response) @ js '']''"
  let ?sel = "on_select_change cfg render"
  have box: "box_is pre s" using assms(1,2) by (simp add: box_is_def)
  note raw = box_after_html [OF box, of render ?raw]
  let ?s = "put_html render (js ''resultpre'') ?raw pre s"
  have fin: "box_is e (snd (?sel t))" if "box_is e t" for e t
    using keepsD [OF box_select that] .
  have "box_is (shown pre response result err) (snd (displayResult cfg render response s))"
  proof (cases "truthy result \<or> truthy err")
    case True
    define v where "v = (if truthy result then result else err)"
    define k where "k = (if truthy result then js ''green'' else js ''red'')"
    have e: "shown pre response result err =
        pre\<lparr>innerHTML := to_string (stringify_gap (js ''  '') v), className := k\<rparr>"
      using True by (auto simp: shown_def v_def k_def)
    obtain t where t: "seq (set_html render (js ''resultpre'') (to_string (stringify_gap (js ''  '') v)))
        (set_class (js ''resultpre'') k) ?s = (Inr (), t)"
      "box_is (shown pre response result err) t"
      using show_in_box [OF conjunct2 [OF raw], of render "to_string (stringify_gap (js ''  '') v)" k]
      unfolding e by auto
    have "displayResult cfg render response s = ?sel t"
      using raw t(1) assms(3,4) True
      by (cases "truthy result") (simp_all add: displayResult_def v_def k_def)
    with fin [OF t(2)] show ?thesis by simp
  next
    case False
    then have "displayResult cfg render response s = ?sel ?s"
      using raw assms(3,4) by (simp add: displayResult_def)
    with fin [OF conjunct2 [OF raw]] False show ?thesis by (simp add: shown_def)
  qed
  then show ?thesis by (simp add: box_is_def)
qed

theorem response_shown_witness:
  "\<exists>e. dom (snd (displayResult login_cfg plain_render (JObj [(js ''error'', JStr (js ''no'')), (js ''result'', JInt 7)])
      (start_page blank_dom))) (js ''resultpre'') = Some e
    \<and> className e = js ''green'' \<and> innerHTML e = js ''7''"
proof -
  let ?r = "JObj [(js ''error'', JStr (js ''no'')), (js ''result'', JInt 7)]"
  have "dom (start_page blank_dom) (js ''resultpre'') = Some blank_elem"
    by (simp add: start_page_def blank_dom_def)
  moreover have "show_nat 7 = js ''7''" by (simp add: show_nat.simps js_def)
  ultimately show ?thesis
    using response_shown [of "start_page blank_dom" blank_elem ?r "JInt 7" "JStr (js ''no'')" login_cfg plain_render]
    by (simp add: shown_def truthy_def stringify_gap_def show_int_def)
qed

text \<open>
  A failed request is reported once, in an alert and at the end of the red result box in the same words; a failure
  without a header object throws before it changed anything.
\<close>

theorem failure_reported:
  assumes "page_ok s" and "dom s (js ''resultpre'') = Some pre"
  shows "case fail_message parse hdr txt err of
      Inl e \<Rightarrow> ajax_fail render parse hdr txt err s = (Inl e, s) \<and> (hdr = JUndef \<or> hdr = JNull)
    | Inr msg \<Rightarrow> \<exists>t. ajax_fail render parse hdr txt err s = (Inr (), t) \<and> alerts t = alerts s @ [msg]
        \<and> dom t (js ''resultpre'') = Some (pre\<lparr>innerHTML := innerHTML pre @ msg, className := js ''red''\<rparr>)
        \<and> posts t = posts s"
proof (cases "fail_message parse hdr txt err")
  case (Inl e)
  then have "hdr = JUndef \<or> hdr = JNull"
    by (auto simp: fail_message_def get_prop_def split: sum.splits jsval.splits option.splits)
  with Inl show ?thesis by (simp add: ajax_fail_def)
next
  case (Inr msg)
  let ?u = "put_html render (js ''resultpre'') (innerHTML pre @ msg) pre s"
  let ?t = "?u\<lparr>dom := (dom ?u)(js ''resultpre'' \<mapsto> pre\<lparr>innerHTML := innerHTML pre @ msg, className := js ''red''\<rparr>),
      alerts := alerts s @ [msg]\<rparr>"
  have "dom ?u (js ''resultpre'') = Some (pre\<lparr>innerHTML := innerHTML pre @ msg\<rparr>)"
    by (simp add: put_html_def)
  then have "ajax_fail render parse hdr txt err s = (Inr (), ?t)"
    using Inr assms(2) by (simp add: ajax_fail_def add_html_run set_class_def upd_elem_run)
  then show ?thesis using Inr by simp
qed

theorem failure_reported_witness:
  "\<exists>t msg. ajax_fail plain_render Inl (JObj [(js ''status'', JInt 404)]) (JStr (js ''error'')) (JStr []) (start_page blank_dom)
      = (Inr (), t) \<and> alerts t = [msg]"
proof -
  have "dom (start_page blank_dom) (js ''resultpre'') = Some blank_elem"
    by (simp add: start_page_def blank_dom_def)
  from failure_reported [OF page_ok_start this, of plain_render Inl "JObj [(js ''status'', JInt 404)]"
      "JStr (js ''error'')" "JStr []"]
  show ?thesis by (auto simp: fail_message_def start_page_def split: sum.splits)
qed

end
