(* ===== verification/ClientTypes.thy ===== *)
theory ClientTypes
  imports ClientEvents
begin

text \<open>
  The types of the parameters: what the readers of \<open>Form2Param\<close> return has the shape that the API declares for the
  type of the parameter, and so has everything the test client posts in any history of the page.
\<close>

section \<open>The shapes of values\<close>

text \<open>A list of attachments is undefined until files were chosen.\<close>

inductive of_type :: "jstr \<Rightarrow> jsval \<Rightarrow> bool" where
  Session: "of_type (js ''Session'') JNull"
| String: "of_type (js ''String'') (JStr s)"
| Integer: "of_type (js ''Integer'') (JNum n)"
| Bool: "of_type (js ''Bool'') (JBool b)"
| Language: "of_type (js ''Language'') (JStr s)"
| StringList: "(\<And>v. v \<in> set vs \<Longrightarrow> of_type (js ''String'') v) \<Longrightarrow> of_type (js ''StringList'') (JArr vs)"
| Blob: "of_type (js ''Blob'') (JObj [(js ''mime_type'', JStr m), (js ''filename'', JStr f), (js ''value'', JStr c)])"
| BlobList: "(\<And>v. v \<in> set vs \<Longrightarrow> of_type (js ''Blob'') v) \<Longrightarrow> of_type (js ''BlobList'') (JArr vs)"
| No_files: "of_type (js ''BlobList'') JUndef"
| Identity: "of_type (js ''Identity'') (JObj [(js ''user_id'', JStr i), (js ''username'', JStr n),
    (js ''address'', JStr a), (js ''fpr'', JStr k)])"
| IdentityList: "(\<And>v. v \<in> set vs \<Longrightarrow> of_type (js ''Identity'') v) \<Longrightarrow> of_type (js ''IdentityList'') (JArr vs)"
| PEP_enc_format: "of_type (js ''PEP_enc_format'') (JNum n)"
| PEP_msg_direction: "of_type (js ''PEP_msg_direction'') (JNum n)"
| PEP_rating: "of_type (js ''PEP_rating'') (JObj [(js ''rating'', JNum n)])"
| Message: "of_type (js ''PEP_msg_direction'') d \<Longrightarrow> of_type (js ''Identity'') sender \<Longrightarrow>
    of_type (js ''IdentityList'') to_ids \<Longrightarrow> of_type (js ''BlobList'') atts \<Longrightarrow>
    of_type (js ''Message'') (JObj [(js ''dir'', d), (js ''id'', JStr i), (js ''shortmsg'', JStr sm),
      (js ''longmsg'', JStr lm), (js ''from'', sender), (js ''to'', to_ids), (js ''attachments'', atts)])"

text \<open>A value fits a parameter of a function; unknown types are sent as a text that says so.\<close>

definition fits :: "fparam \<Rightarrow> jsval \<Rightarrow> bool" where
  "fits p v \<longleftrightarrow>
     (if direction p = js ''Out'' then v = OutputParam
      else if Form2Param (ptype p) = None then (\<exists>s. v = JStr s)
      else of_type (ptype p) v)"

section \<open>What handlers return\<close>

definition returns :: "('a \<Rightarrow> bool) \<Rightarrow> ('s, 'a) handler \<Rightarrow> bool" where
  "returns Q m \<longleftrightarrow> (\<forall>s x t. m s = (Inr x, t) \<longrightarrow> Q x)"

named_theorems returns_intros \<open>rules on what a handler returns\<close>

lemma returns_ret [returns_intros]: "Q x \<Longrightarrow> returns Q (ret x)"
  and returns_throw [returns_intros]: "returns Q (throw e)"
  and returns_gets [returns_intros]: "(\<And>s. Q (f s)) \<Longrightarrow> returns Q (gets f)"
  by (simp_all add: returns_def ret_def throw_def gets_def)

lemma returns_bnd:
  assumes "returns R m" and "\<And>x. R x \<Longrightarrow> returns Q (f x)"
  shows "returns Q (bnd m f)"
  using assms unfolding returns_def bnd_def by (fastforce split: prod.splits sum.splits)

lemma returns_any: "returns (\<lambda>_. True) m"
  by (simp add: returns_def)

lemma returns_read [returns_intros]: "(\<And>x. returns Q (f x)) \<Longrightarrow> returns Q (bnd m f)"
  by (rule returns_bnd [OF returns_any])

lemma returns_each: "(\<And>x. returns (R x) (f x)) \<Longrightarrow> returns (list_all2 R xs) (each f xs)"
proof (induction xs)
  case (Cons x xs)
  show ?case
    unfolding each.simps
    by (rule returns_bnd [OF Cons.prems], rule returns_bnd [OF Cons.IH [OF Cons.prems]], rule returns_ret) simp
qed (simp add: returns_ret)

lemma triple_returns: "keeps P m \<Longrightarrow> returns Q m \<Longrightarrow> triple P m (\<lambda>x s. P s \<and> Q x) P"
  unfolding triple_def keeps_def returns_def by (fastforce split: prod.splits sum.splits)

lemma keeps_triple: "triple P m (\<lambda>_. P) P \<Longrightarrow> keeps P m"
  unfolding keeps_def
proof (intro allI impI)
  fix s assume t: "triple P m (\<lambda>_. P) P" and "P s"
  obtain r u where "m s = (r, u)" by (cases "m s")
  with tripleD [OF t \<open>P s\<close>] show "P (snd (m s))" by (cases r) auto
qed

section \<open>The readers\<close>

lemma F2P_direction: "returns (of_type (js ''PEP_msg_direction'')) (F2P_PEP_msg_direction nr v)"
  unfolding F2P_PEP_msg_direction_def by (intro returns_intros of_type.intros)

lemma F2P_identity: "returns (of_type (js ''Identity'')) (F2P_Identity nr v)"
  unfolding F2P_Identity_def identity_json_def by (intro returns_intros of_type.intros)

lemma F2P_identities: "returns (of_type (js ''IdentityList'')) (F2P_IdentityList nr v)"
  unfolding F2P_IdentityList_def identity_json_def by (intro returns_intros of_type.intros) (auto intro: of_type.intros)

lemma F2P_blobs: "returns (of_type (js ''BlobList'')) (F2P_BlobList nr v)"
  unfolding F2P_BlobList_def
  by (intro returns_intros) (auto simp: blob_json_def split: option.split intro!: of_type.intros)

lemma F2P_strings: "returns (of_type (js ''StringList'')) (F2P_StringList nr v)"
  unfolding F2P_StringList_def by (cases v) (auto intro!: returns_intros of_type.intros)

lemma F2P_message: "returns (of_type (js ''Message'')) (F2P_Message nr v)"
  unfolding F2P_Message_def
  apply (rule returns_bnd [OF F2P_direction])
  apply (rule returns_read, rule returns_read, rule returns_read)
  apply (rule returns_bnd [OF F2P_identity], rule returns_bnd [OF F2P_identities], rule returns_bnd [OF F2P_blobs])
  apply (intro returns_ret of_type.Message; assumption)
  done

lemma F2P_typed: "Form2Param t = Some f \<Longrightarrow> returns (of_type t) (f nr v)"
  unfolding Form2Param_def
  by (drule map_of_SomeD)
     (auto simp: F2P_Session_def F2P_String_def F2P_Integer_def F2P_Bool_def F2P_Language_def F2P_PEP_enc_format_def
        F2P_PEP_rating_def intro!: returns_intros of_type.intros F2P_direction F2P_identity F2P_identities F2P_blobs
        F2P_strings F2P_message)

lemma request_param_fits: "returns (fits (fst pn)) (request_param pn)"
proof (cases pn)
  case (Pair p nr)
  show ?thesis
  proof (cases "Form2Param (ptype p)")
    case None
    then show ?thesis
      unfolding Pair request_param_def by (auto simp: fits_def unknown_param_def intro!: returns_intros)
  next
    case (Some f)
    have "fits p = of_type (ptype p)" if "direction p \<noteq> js ''Out''"
      using that Some by (simp add: fits_def fun_eq_iff)
    with F2P_typed [OF Some] Some show ?thesis
      unfolding Pair request_param_def by (auto simp: fits_def intro!: returns_intros)
  qed
qed

lemma params_fit: "returns (list_all2 fits ps) (each request_param (zip ps [0..<length ps]))"
proof -
  have "list_all2 fits ps vs" if "list_all2 (\<lambda>pn. fits (fst pn)) (zip ps [0..<length ps]) vs" for vs
    using that by (auto simp: list_all2_conv_all_nth)
  with returns_each [where R = "\<lambda>pn. fits (fst pn)", OF request_param_fits] show ?thesis
    unfolding returns_def by blast
qed

section \<open>Histories\<close>

definition typed_post :: "server_js \<Rightarrow> jstr \<times> jstr \<Rightarrow> bool" where
  "typed_post cfg q \<longleftrightarrow> (\<exists>f \<in> set (pEp_functions cfg). \<exists>ps rid tok meth vs. fparams f = Some ps \<and>
     list_all2 fits ps vs \<and> snd q = to_string (stringify (request_json rid tok meth vs)))"

lemma typed_postI: "f \<in> set (pEp_functions cfg) \<Longrightarrow> fparams f = Some ps \<Longrightarrow> list_all2 fits ps vs \<Longrightarrow>
    typed_post cfg (url, to_string (stringify (request_json rid tok meth vs)))"
  unfolding typed_post_def snd_conv by blast

definition typed_calls :: "server_js \<Rightarrow> app \<Rightarrow> bool" where
  "typed_calls cfg s \<longleftrightarrow> (\<forall>f. func s = Some f \<longrightarrow> f \<in> set (pEp_functions cfg)) \<and> (\<forall>q \<in> set (posts s). typed_post cfg q)"

lemma typed_html [keeps_intros]:
  "keeps (typed_calls cfg) (set_html render i h)"
  "keeps (typed_calls cfg) (add_html render i h)"
  "keeps (typed_calls cfg) (set_class i k)"
  "keeps (typed_calls cfg) (set_disabled i b)"
  unfolding set_class_def set_disabled_def typed_calls_def
  by (intro keeps_set_html_gen keeps_add_html_gen keeps_upd_elem; simp)+

lemma typed_upds [simp]:
  "typed_calls cfg (fp_set nr vs s) = typed_calls cfg s"
  "typed_calls cfg (put_inputs i bs s) = typed_calls cfg s"
  "typed_calls cfg (s\<lparr>readers := rs\<rparr>) = typed_calls cfg s"
  "typed_calls cfg (s\<lparr>fileInputs := fi\<rparr>) = typed_calls cfg s"
  "typed_calls cfg (s\<lparr>func_params := ps\<rparr>) = typed_calls cfg s"
  "typed_calls cfg (s\<lparr>alerts := a\<rparr>) = typed_calls cfg s"
  "typed_calls cfg (s\<lparr>heading := h\<rparr>) = typed_calls cfg s"
  "typed_calls cfg (s\<lparr>call_ID := c\<rparr>) = typed_calls cfg s"
  "typed_calls cfg (s\<lparr>dom := d\<rparr>) = typed_calls cfg s"
  by (simp_all add: typed_calls_def put_inputs_def fp_set_def)

lemma keeps_modify_typed [keeps_intros]:
  "(\<And>s. typed_calls cfg (f s) = typed_calls cfg s) \<Longrightarrow> keeps (typed_calls cfg) (modify f)"
  by (rule keeps_modify) simp

lemma typed_genStringList [keeps_intros]: "keeps (typed_calls cfg) (genStringList render nr pp)"
  unfolding genStringList_def Let_def by (intro keeps_intros) simp_all

lemma typed_P2F_StringList [keeps_intros]: "keeps (typed_calls cfg) (P2F_StringList render nr pp)"
  unfolding P2F_StringList_def by (auto intro!: keeps_intros)

lemma typed_edit: "keeps (typed_calls cfg) (do_edit render nr e)"
  by (cases e) (auto simp: addString_def removeString_def change_string_def intro!: keeps_intros)

lemma typed_Param2Form: "Param2Form render t = Some f \<Longrightarrow> keeps (typed_calls cfg) (f nr pp v)"
  by (erule Param2Form_cases) (auto simp: P2F_defs Let_def intro!: keeps_intros)

lemma typed_param_form [keeps_intros]: "keeps (typed_calls cfg) (param_form render q nr)"
  unfolding param_form_def
  by (rule keeps_bnd, rule keeps_gets, cases "Param2Form render (ptype q)")
     (simp_all add: keeps_ret typed_Param2Form)

lemma typed_param_item [keeps_intros]: "keeps (typed_calls cfg) (param_item render pn)"
  unfolding param_item_def by (auto intro!: keeps_intros split: prod.split)

lemma typed_prepare_call: "f \<in> set (pEp_functions cfg) \<Longrightarrow> keeps (typed_calls cfg) (prepare_call render f)"
  unfolding prepare_call_def
  by (rule keeps_bnd, rule keeps_modify, simp add: typed_calls_def) (auto intro!: keeps_intros split: option.split)

lemma keeps_each_in: "(\<And>x. x \<in> set xs \<Longrightarrow> keeps P (f x)) \<Longrightarrow> keeps P (each f xs)"
  by (induction xs) (auto intro!: keeps_intros)

lemma typed_select [keeps_intros]: "keeps (typed_calls cfg) (on_select_change cfg render)"
  unfolding on_select_change_def
  by (intro keeps_bnd keeps_jq_val keeps_each_in keeps_ret) (auto intro: typed_prepare_call keeps_ret)

lemma typed_displayResult: "keeps (typed_calls cfg) (displayResult cfg render response)"
  unfolding displayResult_def by (auto intro!: keeps_intros)

lemma typed_ajax_fail: "keeps (typed_calls cfg) (ajax_fail render parse hdr txt err)"
  unfolding ajax_fail_def by (auto intro!: keeps_intros)

lemma typed_changeBlob: "keeps (typed_calls cfg) (changeBlob render inp files nr)"
  unfolding changeBlob_def by (auto intro!: keeps_intros)

lemma typed_reader_onload: "keeps (typed_calls cfg) (reader_onload render rd)"
  unfolding reader_onload_def by (auto intro!: keeps_intros split: option.split)

lemma typed_init: "keeps (typed_calls cfg) (init_pEp_functions cfg render)"
  unfolding init_pEp_functions_def by (auto intro!: keeps_intros)

lemma typed_create_doc: "keeps (typed_calls cfg) (create_doc cfg render)"
  unfolding create_doc_def by (auto intro!: keeps_intros)

text \<open>The click: the parameters are those of the function that is set.\<close>

lemma called_params_set:
  "triple (typed_calls cfg) called_params
     (\<lambda>ps s. typed_calls cfg s \<and> (\<exists>f \<in> set (pEp_functions cfg). fparams f = Some ps)) (typed_calls cfg)"
  by (auto simp: triple_def called_params_def bnd_def gets_def typed_calls_def throw_def ret_def split: option.splits)

lemma click_typed: "keeps (typed_calls cfg) (button_click render)"
proof -
  let ?P = "typed_calls cfg"
  have k: "triple ?P m (\<lambda>_. ?P) ?P" if "keeps ?P m" for m :: "'x page"
    using that by (rule triple_keeps)
  have each_params: "triple (\<lambda>s. ?P s \<and> (\<exists>f \<in> set (pEp_functions cfg). fparams f = Some ps))
      (each request_param (zip ps [0..<length ps]))
      (\<lambda>vs s. ?P s \<and> (\<exists>f \<in> set (pEp_functions cfg). fparams f = Some ps) \<and> list_all2 fits ps vs) ?P" for ps
    using triple_returns [OF pure_keeps [OF pure_each [OF request_param_pure]] params_fit, of ?P ps]
    by (fastforce simp: triple_def split: prod.splits sum.splits)
  have post: "triple (\<lambda>s. ?P s \<and> (\<exists>f \<in> set (pEp_functions cfg). fparams f = Some ps) \<and> list_all2 fits ps vs)
      (modify (\<lambda>s. s\<lparr>posts := posts s @ [(url, to_string (stringify (request_json rid tok meth vs)))]\<rparr>)) (\<lambda>_. ?P) ?P"
    for ps vs url rid tok meth
    by (rule triple_modify) (auto simp: typed_calls_def intro: typed_postI)
  have "triple ?P (button_click render) (\<lambda>_. ?P) ?P"
    unfolding button_click_def Let_def
    apply (rule triple_bnd, rule k, rule keeps_intros)
    apply (rule triple_bnd, rule k, rule keeps_intros)
    apply (rule triple_bnd, rule k, rule keeps_elem_value)
    apply (rule triple_bnd, rule k, rule keeps_modify_typed, simp)
    apply (rule triple_bnd, rule k, rule keeps_gets)
    apply (rule triple_bnd, rule k, rule keeps_elem_value)
    apply (rule triple_bnd, rule k, rule keeps_elem_value)
    apply (rule triple_bnd [OF called_params_set])
    apply (rule triple_bnd [OF each_params])
    apply (rule triple_bnd [OF post])
    apply (rule k, intro keeps_intros keeps_elem_value)
    done
  then show ?thesis by (rule keeps_triple)
qed

lemmas typed_keeps = click_typed typed_init typed_select typed_displayResult typed_ajax_fail typed_changeBlob
  typed_reader_onload typed_edit typed_create_doc

interpretation typed_client: machine loaded "client_event cfg render parse" "typed_calls cfg"
proof
  fix s assume "loaded s"
  then show "typed_calls cfg s"
    by (auto simp: loaded_def typed_calls_def start_page_def)
next
  fix s t assume ok: "typed_calls cfg s" and ev: "client_event cfg render parse s t"
  have k: "typed_calls cfg t" if "keeps (typed_calls cfg) m" "m s = (r, t)" for m :: "'x page" and r
    using keepsD [OF that(1) ok] that(2) by simp
  from ev show "typed_calls cfg t"
  proof (cases rule: client_event.cases)
    case (load rd r)
    have "keeps (typed_calls cfg) (reader_onload render rd)" by (rule typed_reader_onload)
    from keepsD [OF this, of "s\<lparr>readers := remove1 rd (readers s)\<rparr>"] ok load show ?thesis by simp
  next
    case user
    then show ?thesis using ok by (auto simp: user_edit_def)
  qed (rule k [rotated], assumption, rule typed_keeps)+
qed



end
