(* ===== verification/LogView.thy ===== *)
theory LogView
  imports Escapes
begin

text \<open>
  \<open>html/logview.js\<close>: the log file viewer.  A log file is split into lines; a line of the logger's
  format becomes a table row of its thread's class, runs of lines bracketed by the logger's
  multi-line marks become one row, any other line becomes a row of the class \<open>th0\<close>.  The threads
  seen get a colour rule and a button that hides their rows.
\<close>

section \<open>Reading a line\<close>

definition digits :: "nat \<Rightarrow> re" where
  "digits n = ((Cat digit_re) ^^ (n - 1)) digit_re"

text \<open>
  The pattern
  \<open>(\d\d\d\d-\d\d-\d\d\.\d\d:\d\d:\d\d) (\<paragraph>\S+) (\S+) :(.*)\<close>.
\<close>

definition timestamp_re :: re where
  "timestamp_re = Cat (digits 4) (Cat (chr_re CHR ''-'') (Cat (digits 2) (Cat (chr_re CHR ''-'')
     (Cat (digits 2) (Cat (chr_re CHR ''.'') (Cat (digits 2) (Cat (chr_re CHR '':'')
     (Cat (digits 2) (Cat (chr_re CHR '':'') (digits 2))))))))))"

definition lineRegEx :: re where
  "lineRegEx =
     Cat (Grp 1 timestamp_re) (Cat (chr_re CHR '' '')
     (Cat (Grp 2 (Cat (Cls (\<lambda>c. c = 0xB6)) (Plus nonspace_re))) (Cat (chr_re CHR '' '')
     (Cat (Grp 3 (Plus nonspace_re)) (Cat (lit '' :'') (Grp 4 (Star dot)))))))"

record log_line =
  timestamp :: jstr
  thread :: jstr
  severity :: jstr
  logline :: jstr

text \<open>\<open>m && m.length==5\<close>, and the four groups.\<close>

definition parse_line :: "jstr \<Rightarrow> log_line option" where
  "parse_line l = (case match_groups lineRegEx l of
     Some [m, Some t, Some th, Some sv, Some lg] \<Rightarrow>
       Some \<lparr>timestamp = t, thread = th, severity = sv, logline = lg\<rparr>
   | _ \<Rightarrow> None)"

section \<open>Rows\<close>

definition substr1 :: "jstr \<Rightarrow> jstr" where
  "substr1 s = drop 1 s"

definition log_row :: "jstr \<Rightarrow> jstr \<Rightarrow> jstr \<Rightarrow> jstr \<Rightarrow> jstr" where
  "log_row ts th sv lg =
     js ''<tr class=\"thd_'' @ substr1 th @ js ''\"><td>'' @ ts @ js ''</td><td>'' @ th
     @ js ''</td><td>'' @ sv @ js ''</td><td class=\"log\">'' @ lg @ js ''</td></tr>''"

definition other_row :: "jstr \<Rightarrow> jstr" where
  "other_row l = js ''<tr class=\"th0\"><td colspan=\"4\">'' @ l @ js ''</td></tr>''"

text \<open>The state of the loop over the lines.\<close>

record log_state =
  tbl :: jstr
  multiline :: jstr
  threads :: "jstr list"

definition addLogLine :: "jstr \<Rightarrow> jstr \<Rightarrow> jstr \<Rightarrow> jstr \<Rightarrow> log_state \<Rightarrow> log_state" where
  "addLogLine ts th sv lg s = s\<lparr>tbl := tbl s @ log_row ts th sv lg\<rparr>"

text \<open>
  \<open>threads[t] = 1\<close>: the keys in insertion order; assigning a number to \<open>__proto__\<close> makes no key.
\<close>

definition add_thread :: "jstr \<Rightarrow> log_state \<Rightarrow> log_state" where
  "add_thread t s = (if t \<in> set (threads s) \<or> t = js ''__proto__'' then s
     else s\<lparr>threads := threads s @ [t]\<rparr>)"

definition BR :: jstr where
  "BR = js ''<br>''"

definition log_step :: "log_line \<Rightarrow> log_state \<Rightarrow> log_state" where
  "log_step m s =
     (let lg = logline m;
          s1 = (if take 1 lg = [0x23A1] then s\<lparr>multiline := substr1 lg\<rparr>
                else if take 1 lg = [0x23A2] then s\<lparr>multiline := multiline s @ BR @ substr1 lg\<rparr>
                else if take 1 lg = [0x23A3] then
                  (let s2 = s\<lparr>multiline := multiline s @ BR @ substr1 lg\<rparr>
                   in addLogLine (timestamp m) (thread m) (severity m) (multiline s2) s2)
                else addLogLine (timestamp m) (thread m) (severity m) lg (s\<lparr>multiline := []\<rparr>))
      in add_thread (substr1 (thread m)) s1)"

text \<open>One round of the loop, and the loop.\<close>

definition log_line_step :: "jstr \<Rightarrow> log_state \<Rightarrow> log_state" where
  "log_line_step l s = (case parse_line l of Some m \<Rightarrow> log_step m s
     | None \<Rightarrow> s\<lparr>tbl := tbl s @ other_row l\<rparr>)"

fun log_lines :: "jstr list \<Rightarrow> log_state \<Rightarrow> log_state" where
  "log_lines [] s = s"
| "log_lines (l # ls) s = log_lines ls (log_line_step l s)"

section \<open>Colours and buttons\<close>

definition colors :: "jstr list" where
  "colors = map js [''fcf7de'', ''defde0'', ''def3fd'', ''f0defd'', ''fddfdf'', ''dfdfdf'',
     ''B7C68B'', ''F4F0CB'', ''DED29E'']"

text \<open>A style rule: its selector text and the \<open>display\<close> and \<open>background-color\<close> it sets.\<close>

record css_rule =
  selectorText :: jstr
  display :: jstr
  background :: jstr

record log_page =
  list_html :: jstr
  tbl_html :: jstr
  rules :: "css_rule list"

definition thread_rule :: "jstr \<Rightarrow> nat \<Rightarrow> css_rule" where
  "thread_rule t colnum = \<lparr>selectorText = js ''.thd_'' @ t, display = [],
     background = js ''#'' @ colors ! colnum\<rparr>"

definition thread_button :: "jstr \<Rightarrow> jstr" where
  "thread_button t = js ''&nbsp;&nbsp;<button id=\"btn_'' @ t
     @ js ''\" class=\"enabled\" onclick=\"toggle('' @ [39] @ js ''thd_'' @ t @ [39] @ js '')\" >''
     @ [0xB6] @ t @ js ''</button>''"

definition first_button :: jstr where
  "first_button = js ''<blockquote>Toggle threads:&nbsp;&nbsp;<button id=\"btn0\" class=\"enabled\" onclick=\"toggle(''
     @ [39] @ js ''th0'' @ [39] @ js '')\"> '' @ [0x2205] @ js '' </button>''"

text \<open>
  The loop over the threads.  \<open>css_ok\<close> says which selectors the browser's \<open>insertRule\<close> accepts;
  it throws on the others.
\<close>

fun colour_threads ::
  "(jstr \<Rightarrow> bool) \<Rightarrow> jstr list \<Rightarrow> nat \<Rightarrow> jstr \<Rightarrow> (log_page, jstr) handler" where
  "colour_threads css_ok [] colnum buttons = ret buttons"
| "colour_threads css_ok (t # ts) colnum buttons =
     (if css_ok (js ''.thd_'' @ t) then
        seq (modify (\<lambda>p. p\<lparr>rules := rules p @ [thread_rule t colnum]\<rparr>))
            (colour_threads css_ok ts ((colnum + 1) mod length colors) (buttons @ thread_button t))
      else throw SyntaxError)"

section \<open>Loading a file\<close>

text \<open>The global function \<open>escape\<close>.\<close>

definition escape_keeps :: "jschar \<Rightarrow> bool" where
  "escape_keeps c \<longleftrightarrow> is_digit c \<or> 65 \<le> c \<and> c \<le> 90 \<or> 97 \<le> c \<and> c \<le> 122
     \<or> c \<in> set (js ''@*_+-./'')"

definition upper_hex :: "nat \<Rightarrow> jschar" where
  "upper_hex n = (if n < 10 then 48 + of_nat n else 55 + of_nat n)"

definition js_escape :: "jstr \<Rightarrow> jstr" where
  "js_escape s = concat (map (\<lambda>c.
     let n = unat c in
     if escape_keeps c then [c]
     else if n < 256 then js ''%'' @ [upper_hex (n div 16), upper_hex (n mod 16)]
     else js ''%u'' @ [upper_hex (n div 4096), upper_hex (n div 256 mod 16),
            upper_hex (n div 16 mod 16), upper_hex (n mod 16)]) s)"

record log_file =
  lf_name :: jstr
  lf_type :: jstr
  lf_size :: nat
  lf_text :: jstr

definition file_item :: "log_file \<Rightarrow> jstr" where
  "file_item f = js ''<li><strong>'' @ js_escape (lf_name f) @ js ''</strong> (''
     @ (if lf_type f = [] then js ''n/a'' else lf_type f) @ js '') - '' @ show_nat (lf_size f)
     @ js '' bytes. </li>''"

text \<open>The synchronous part of \<open>handleFileSelect\<close>.\<close>

definition select_files :: "log_file list \<Rightarrow> (log_page, unit) handler" where
  "select_files files = modify (\<lambda>p. p\<lparr>
     list_html := js ''<ul>'' @ concat (map file_item files) @ js ''</ul>'', tbl_html := []\<rparr>)"

text \<open>The \<open>onload\<close> callback of its reader, on the text of the first file.\<close>

definition log_onload :: "(jstr \<Rightarrow> bool) \<Rightarrow> jstr \<Rightarrow> (log_page, unit) handler" where
  "log_onload css_ok stringData =
     bnd (gets tbl_html) (\<lambda>t0.
     let fin = log_lines (split_char 10 stringData) \<lparr>tbl = t0, multiline = [], threads = []\<rparr> in
     seq (modify (\<lambda>p. p\<lparr>tbl_html := tbl fin\<rparr>))
     (bnd (colour_threads css_ok (for_in_order (threads fin)) 0 first_button) (\<lambda>buttons.
      modify (\<lambda>p. p\<lparr>list_html := list_html p @ buttons @ js ''</blockquote>''\<rparr>))))"

section \<open>Toggling\<close>

text \<open>The map \<open>cssrules\<close> builds keeps the last rule of a selector.\<close>

definition cssrules :: "css_rule list \<Rightarrow> jstr \<Rightarrow> nat option" where
  "cssrules rs name = (let is = filter (\<lambda>i. selectorText (rs ! i) = name) [0..<length rs] in
     if is = [] then None else Some (last is))"

definition css_getclass :: "jstr \<Rightarrow> (log_page, nat) handler" where
  "css_getclass name = bnd (gets (\<lambda>p. cssrules (rules p) name)) (\<lambda>r. case r of
     None \<Rightarrow> throw (Thrown (js ''TODO: deal_with_notfound_case: name=\"'' @ name @ js ''\"''))
   | Some i \<Rightarrow> ret i)"

definition toggle :: "jstr \<Rightarrow> (log_page, unit) handler" where
  "toggle name =
     bnd (css_getclass (js ''.'' @ name)) (\<lambda>i.
     modify (\<lambda>p. let r = rules p ! i in
       p\<lparr>rules := (rules p)[i := r\<lparr>display :=
          (if display r = js ''none'' then js ''table-row'' else js ''none'')\<rparr>]\<rparr>))"

text \<open>The rules of the style sheet in \<open>html/logview.html\<close>.\<close>

definition logview_rules :: "css_rule list" where
  "logview_rules = map (\<lambda>sel. \<lparr>selectorText = js sel, display = [], background = []\<rparr>)
     [''table, tr, th, td'', ''.log'', ''button'', ''.enabled'', ''.disabled'']"

definition logview_page :: log_page where
  "logview_page = \<lparr>list_html = [], tbl_html = [], rules = logview_rules\<rparr>"

section \<open>Lines of the logger\<close>

lemma tbl_add_thread [simp]: "tbl (add_thread t s) = tbl s" "multiline (add_thread t s) = multiline s"
  by (simp_all add: add_thread_def)

lemma tbl_log_step: "\<exists>r. tbl (log_step m s) = tbl s @ r"
  by (simp add: log_step_def addLogLine_def Let_def)

interpretation log_table: line_table log_line_step log_lines tbl
  by unfold_locales (auto simp: log_line_step_def tbl_log_step split: option.splits)

text \<open>A line as the logger writes it.\<close>

definition log_text :: "jstr \<Rightarrow> jstr \<Rightarrow> jstr \<Rightarrow> jstr \<Rightarrow> jstr" where
  "log_text ts th sv lg = ts @ [32] @ th @ [32] @ sv @ [32, 58] @ lg"

definition is_timestamp :: "jstr \<Rightarrow> bool" where
  "is_timestamp ts \<longleftrightarrow> map (\<lambda>c. if is_digit c then 48 else c) ts = js ''0000-00-00.00:00:00''"

definition is_word :: "jstr \<Rightarrow> bool" where
  "is_word w \<longleftrightarrow> w \<noteq> [] \<and> (\<forall>c \<in> set w. \<not> js_space c)"

lemma cu_log: "cu CHR '' '' = 32" "cu CHR '':'' = 58" "cu CHR ''-'' = 45" "cu CHR ''.'' = 46"
  by simp_all

lemma digit_mask: "(48 = (if is_digit c then 48 else c)) \<longleftrightarrow> is_digit c"
  "((if is_digit c then 48 else c) = 48) \<longleftrightarrow> is_digit c"
  "((if is_digit c then 48 else c) = 45) \<longleftrightarrow> c = 45" "((if is_digit c then 48 else c) = 46) \<longleftrightarrow> c = 46"
  "((if is_digit c then 48 else c) = 58) \<longleftrightarrow> c = 58"
  by (auto simp: is_digit_def)

lemma timestamp_ways:
  assumes "is_timestamp ts"
  shows "ways n0 timestamp_re (ts @ s, c) = [(s, c)]" and "length ts = 19"
proof -
  have "length ts = length (js ''0000-00-00.00:00:00'')"
    using assms unfolding is_timestamp_def by (metis length_map)
  then show "length ts = 19" by simp
  obtain y1 y2 y3 y4 m1 m2 d1 d2 h1 h2 i1 i2 s1 s2 where
    "ts = [y1, y2, y3, y4, 45, m1, m2, 45, d1, d2, 46, h1, h2, 58, i1, i2, 58, s1, s2]"
    "is_digit y1" "is_digit y2" "is_digit y3" "is_digit y4" "is_digit m1" "is_digit m2"
    "is_digit d1" "is_digit d2" "is_digit h1" "is_digit h2" "is_digit i1" "is_digit i2"
    "is_digit s1" "is_digit s2"
    using assms unfolding is_timestamp_def js_def by (auto simp: map_eq_Cons_conv digit_mask)
  then show "ways n0 timestamp_re (ts @ s, c) = [(s, c)]"
    by (simp add: timestamp_re_def digits_def digit_re_def chr_re_def numeral_eq_Suc)
qed

lemma word_run:
  assumes "\<forall>c \<in> set w. \<not> js_space c"
  shows "takeWhile (\<lambda>c. \<not> js_space c) (w @ 32 # s) = w" "dropWhile (\<lambda>c. \<not> js_space c) (w @ 32 # s) = 32 # s"
  using assms by (simp_all add: takeWhile_append2 dropWhile_append2 js_space_def)

lemma space_rejects: "rejects (\<lambda>c. \<not> js_space c) (Cat (chr_re CHR '' '') r)"
  unfolding chr_re_def cu_log by (intro rejects_Cat rejects_Cls) (simp add: js_space_def)

lemma parse_line_text:
  assumes ts: "is_timestamp ts" and th: "\<forall>c \<in> set w. \<not> js_space c" "w \<noteq> []"
    and sv: "is_word sv"
  shows "parse_line (log_text ts (0xB6 # w) sv lg) =
    Some \<lparr>timestamp = ts, thread = 0xB6 # w, severity = sv,
          logline = takeWhile (\<lambda>c. \<not> line_end c) lg\<rparr>"
proof -
  let ?lg = "takeWhile (\<lambda>c. \<not> line_end c) lg"
  let ?c = "(\<lambda>_. None)(1 \<mapsto> ts, 2 \<mapsto> 0xB6 # w, 3 \<mapsto> sv)"
  have w: "takeWhile (\<lambda>c. \<not> js_space c) (w @ 32 # s) = w" "dropWhile (\<lambda>c. \<not> js_space c) (w @ 32 # s) = 32 # s" for s
    using word_run [OF th(1)] by auto
  have v: "takeWhile (\<lambda>c. \<not> js_space c) (sv @ 32 # s) = sv" "dropWhile (\<lambda>c. \<not> js_space c) (sv @ 32 # s) = 32 # s" "sv \<noteq> []" for s
    using sv word_run [of sv] unfolding is_word_def by auto
  let ?r4 = "Grp 4 (Star dot)"
  let ?r3 = "Cat (Grp 3 (Plus nonspace_re)) (Cat (lit '' :'') ?r4)"
  let ?r2 = "Cat (Grp 2 (Cat (Cls (\<lambda>c. c = 0xB6)) (Plus nonspace_re))) (Cat (chr_re CHR '' '') ?r3)"
  have r4: "\<exists>ys. ways n ?r4 (lg, c) = (dropWhile (\<lambda>c. \<not> line_end c) lg, c(4 \<mapsto> ?lg)) # ys" for n c
    unfolding dot_def ways_rest_Grp by blast
  have r3: "ways n ?r3 (sv @ 32 # 58 # lg, c) = ways n ?r4 (lg, c(3 \<mapsto> sv))" for n c
  proof -
    have "rejects (\<lambda>c. \<not> js_space c) (Cat (lit '' :'') ?r4)"
      unfolding lit.simps by (intro rejects_Cat, unfold chr_re_def cu_log, rule rejects_Cls, simp add: js_space_def)
    then show ?thesis
      unfolding nonspace_re_def by (subst ways_run_Grp, assumption) (simp add: v ways_chr)
  qed
  have r2: "ways n ?r2 (0xB6 # w @ 32 # s, c) = ways n ?r3 (s, c(2 \<mapsto> 0xB6 # w))" for n s c
  proof -
    have "ways n (Cls (\<lambda>c. c = 0xB6)) ([0xB6] @ w @ 32 # s, c) = [(w @ 32 # s, c)]" by simp
    from ways_prefix_run_Grp [OF this space_rejects, of 2 ?r3] th(2) show ?thesis
      unfolding nonspace_re_def ways_chr_then by (simp add: w del: ways.simps)
  qed
  have ltext: "log_text ts (0xB6 # w) sv lg = ts @ 32 # 0xB6 # w @ 32 # sv @ 32 # 58 # lg"
    by (simp add: log_text_def)
  have r1: "ways n lineRegEx (ts @ 32 # s, \<lambda>_. None) = ways n ?r2 (s, (\<lambda>_. None)(1 \<mapsto> ts))" for n s
    using timestamp_ways [OF ts] by (simp add: lineRegEx_def chr_re_def del: fun_upd_apply)
  have "\<exists>ys. ways n lineRegEx (log_text ts (0xB6 # w) sv lg, \<lambda>_. None) = (dropWhile (\<lambda>c. \<not> line_end c) lg, ?c(4 \<mapsto> ?lg)) # ys" for n
    unfolding ltext r1 r2 r3 by (rule r4)
  then obtain ys where "ways (length (log_text ts (0xB6 # w) sv lg)) lineRegEx (log_text ts (0xB6 # w) sv lg, \<lambda>_. None)
      = (dropWhile (\<lambda>c. \<not> line_end c) lg, ?c(4 \<mapsto> ?lg)) # ys" by blast
  from search_at_start [OF this] have "search lineRegEx (log_text ts (0xB6 # w) sv lg) =
    Some ([], take (length (log_text ts (0xB6 # w) sv lg) - length (dropWhile (\<lambda>c. \<not> line_end c) lg))
       (log_text ts (0xB6 # w) sv lg), dropWhile (\<lambda>c. \<not> line_end c) lg, ?c(4 \<mapsto> ?lg))"
    by (simp only: search_def)
  moreover have "sort (groups lineRegEx) = [1, 2, 3, 4]"
    by (simp add: lineRegEx_def timestamp_re_def digits_def digit_re_def chr_re_def dot_def Plus_def
        nonspace_re_def numeral_eq_Suc)
  ultimately show ?thesis
    by (simp add: parse_line_def match_groups_def)
qed

section \<open>Rows and blocks\<close>

text \<open>The head of a line the logger writes, and a text that fits one line.\<close>

definition log_head :: "jstr \<Rightarrow> jstr \<Rightarrow> jstr \<Rightarrow> bool" where
  "log_head ts w sv \<longleftrightarrow> is_timestamp ts \<and> is_word w \<and> is_word sv"

definition one_line :: "jstr \<Rightarrow> bool" where
  "one_line t \<longleftrightarrow> (\<forall>c \<in> set t. \<not> line_end c)"

lemma parse_head:
  assumes "log_head ts w sv" and "one_line lg"
  shows "parse_line (log_text ts (0xB6 # w) sv lg) =
    Some \<lparr>timestamp = ts, thread = 0xB6 # w, severity = sv, logline = lg\<rparr>"
proof -
  have "takeWhile (\<lambda>c. \<not> line_end c) lg = lg"
    using assms(2) by (simp add: one_line_def takeWhile_eq_all_conv)
  with parse_line_text [of ts w sv lg] assms(1) show ?thesis
    by (simp add: log_head_def is_word_def)
qed

lemma one_line_Cons: "one_line (c # t) \<longleftrightarrow> \<not> line_end c \<and> one_line t"
  by (simp add: one_line_def)

lemma marks_in_line: "\<not> line_end 0x23A1" "\<not> line_end 0x23A2" "\<not> line_end 0x23A3"
  by (simp_all add: line_end_def)

lemma step_open:
  assumes "log_head ts w sv" and "one_line a"
  shows "log_line_step (log_text ts (0xB6 # w) sv (0x23A1 # a)) s
    = add_thread w (s\<lparr>multiline := a\<rparr>)"
  using assms
  by (simp add: log_line_step_def parse_head one_line_Cons marks_in_line log_step_def substr1_def Let_def)

lemma step_inner:
  assumes "log_head ts w sv" and "one_line a"
  shows "log_line_step (log_text ts (0xB6 # w) sv (0x23A2 # a)) s
    = add_thread w (s\<lparr>multiline := multiline s @ BR @ a\<rparr>)"
  using assms
  by (simp add: log_line_step_def parse_head one_line_Cons marks_in_line log_step_def substr1_def Let_def)

lemma step_close:
  assumes "log_head ts w sv" and "one_line a"
  shows "log_line_step (log_text ts (0xB6 # w) sv (0x23A3 # a)) s
    = add_thread w (s\<lparr>multiline := multiline s @ BR @ a,
        tbl := tbl s @ log_row ts (0xB6 # w) sv (multiline s @ BR @ a)\<rparr>)"
  using assms
  by (simp add: log_line_step_def parse_head one_line_Cons marks_in_line log_step_def substr1_def
      addLogLine_def Let_def)

lemma inner_lines:
  assumes "\<forall>(ts, w, sv, b) \<in> set mids. log_head ts w sv \<and> one_line b"
  shows "tbl (log_lines (map (\<lambda>(ts, w, sv, b). log_text ts (0xB6 # w) sv (0x23A2 # b)) mids) s) = tbl s
    \<and> multiline (log_lines (map (\<lambda>(ts, w, sv, b). log_text ts (0xB6 # w) sv (0x23A2 # b)) mids) s)
      = multiline s @ concat (map (\<lambda>(ts, w, sv, b). BR @ b) mids)"
  using assms by (induction mids arbitrary: s) (auto simp: step_inner)

lemma join_ends: "join sep (a # bs @ [z]) = a @ concat (map (\<lambda>b. sep @ b) bs) @ sep @ z"
  by (simp add: join_def)

text \<open>
  C22. Lines bracketed by the logger's multi-line marks become one row, with the time, thread and
  severity of the closing line and the texts joined by line breaks, whatever threads and
  times the lines carry.
\<close>

theorem multiline_block:
  assumes "log_head t0 w0 v0" and "one_line a" and "log_head t1 w1 v1" and "one_line z"
    and "\<forall>(ts, w, sv, b) \<in> set mids. log_head ts w sv \<and> one_line b"
  shows "tbl (log_lines (log_text t0 (0xB6 # w0) v0 (0x23A1 # a)
        # map (\<lambda>(ts, w, sv, b). log_text ts (0xB6 # w) sv (0x23A2 # b)) mids
        @ [log_text t1 (0xB6 # w1) v1 (0x23A3 # z)]) s)
    = tbl s @ log_row t1 (0xB6 # w1) v1 (join BR (a # map (\<lambda>(ts, w, sv, b). b) mids @ [z]))"
  using inner_lines [OF assms(5)] assms(1-4)
  by (simp add: log_table.loop_append step_open step_close join_ends case_prod_unfold comp_def)

theorem multiline_block_witness:
  "tbl (log_lines [js ''2022-09-01.10:11:12 '' @ [0xB6] @ js ''7 INFO :'' @ [0x23A1] @ js ''one'',
        js ''2022-09-01.10:11:13 '' @ [0xB6] @ js ''8 INFO :'' @ [0x23A2] @ js ''two'',
        js ''2022-09-01.10:11:14 '' @ [0xB6] @ js ''7 WARN :'' @ [0x23A3] @ js ''three'']
      \<lparr>tbl = [], multiline = [], threads = []\<rparr>)
    = log_row (js ''2022-09-01.10:11:14'') ([0xB6] @ js ''7'') (js ''WARN'') (js ''one<br>two<br>three'')"
proof -
  let ?t = "\<lambda>d. js ''2022-09-01.10:11:1'' @ [d]"
  have "log_head (?t 50) (js ''7'') (js ''INFO'')" "log_head (?t 51) (js ''8'') (js ''INFO'')"
    "log_head (?t 52) (js ''7'') (js ''WARN'')" "one_line (js ''one'')" "one_line (js ''two'')" "one_line (js ''three'')"
    by (simp_all add: log_head_def is_timestamp_def is_word_def one_line_def js_def is_digit_def
        js_space_def line_end_def)
  with multiline_block [of "?t 50" "js ''7''" "js ''INFO''" "js ''one''" "?t 52" "js ''7''" "js ''WARN''"
      "js ''three''" "[(?t 51, js ''8'', js ''INFO'', js ''two'')]" "\<lparr>tbl = [], multiline = [], threads = []\<rparr>"]
  show ?thesis by (simp add: log_text_def BR_def js_def)
qed

text \<open>
  A line of the logger's format without a mark becomes one row with its four parts, drops what an
  unfinished block had collected, and records its thread.
\<close>

theorem plain_line:
  assumes "log_head ts w sv" and "one_line lg" and "hd (lg @ [0]) \<notin> {0x23A1, 0x23A2, 0x23A3}"
  shows "log_lines (log_text ts (0xB6 # w) sv lg # ls) s =
    log_lines ls (add_thread w (s\<lparr>multiline := [], tbl := tbl s @ log_row ts (0xB6 # w) sv lg\<rparr>))"
  using assms
  by (cases lg) (simp_all add: log_line_step_def parse_head log_step_def substr1_def addLogLine_def Let_def)

theorem plain_line_witness:
  "log_lines [js ''2022-09-01.10:11:12 '' @ [0xB6] @ js ''7 INFO :up'']
      \<lparr>tbl = [], multiline = js ''x'', threads = []\<rparr>
    = \<lparr>tbl = log_row (js ''2022-09-01.10:11:12'') ([0xB6] @ js ''7'') (js ''INFO'') (js ''up''),
       multiline = [], threads = [js ''7'']\<rparr>"
proof -
  have "log_head (js ''2022-09-01.10:11:12'') (js ''7'') (js ''INFO'')" "one_line (js ''up'')"
    "hd (js ''up'' @ [0]) \<notin> {0x23A1, 0x23A2, 0x23A3}"
    by (simp_all add: log_head_def is_timestamp_def is_word_def one_line_def js_def is_digit_def
        js_space_def line_end_def)
  from plain_line [OF this, of "[]" "\<lparr>tbl = [], multiline = js ''x'', threads = []\<rparr>"] show ?thesis
    by (simp add: log_text_def add_thread_def js_def)
qed

section \<open>Threads and their rules\<close>

definition thread_rules :: "jstr list \<Rightarrow> nat \<Rightarrow> css_rule list" where
  "thread_rules ts n = map (\<lambda>(i, t). thread_rule t ((n + i) mod length colors)) (zip [0..<length ts] ts)"

lemma thread_rules_Cons:
  "n < length colors \<Longrightarrow>
    thread_rules (t # ts) n = thread_rule t n # thread_rules ts ((n + 1) mod length colors)"
  by (simp add: thread_rules_def upt_conv_Cons map_Suc_upt [symmetric] zip_map1 comp_def
      case_prod_unfold mod_simps del: upt_Suc)

lemma colour_threads_run:
  assumes "\<forall>t \<in> set ts. css_ok (js ''.thd_'' @ t)" and "n < length colors"
  shows "colour_threads css_ok ts n b p =
    (Inr (b @ concat (map thread_button ts)), p\<lparr>rules := rules p @ thread_rules ts n\<rparr>)"
  using assms
proof (induction ts arbitrary: n b p)
  case Nil
  then show ?case by (simp add: thread_rules_def)
next
  case (Cons t ts)
  have "length colors > 0" by (simp add: colors_def)
  with Cons show ?case by (simp add: thread_rules_Cons)
qed

lemma selectors_of_rules: "selectorText ` set (thread_rules ts n) = (\<lambda>t. js ''.thd_'' @ t) ` set ts"
  by (force simp: thread_rules_def thread_rule_def set_zip in_set_conv_nth)

lemma cssrules_Some:
  assumes "r \<in> set rs" and "selectorText r = name"
  shows "\<exists>i. cssrules rs name = Some i \<and> i < length rs \<and> selectorText (rs ! i) = name"
proof -
  let ?is = "filter (\<lambda>i. selectorText (rs ! i) = name) [0..<length rs]"
  from assms obtain i where "i \<in> set ?is" by (auto simp: in_set_conv_nth)
  then have ne: "?is \<noteq> []" by force
  then have "last ?is \<in> set ?is" by (rule last_in_set)
  with ne show ?thesis by (auto simp: cssrules_def Let_def)
qed

lemma cssrules_None:
  "name \<notin> selectorText ` set rs \<Longrightarrow> cssrules rs name = None"
  by (auto simp: cssrules_def Let_def filter_empty_conv)

lemma toggle_there:
  assumes "js ''.'' @ name \<in> selectorText ` set (rules p)"
  shows "\<exists>i. cssrules (rules p) (js ''.'' @ name) = Some i \<and> i < length (rules p)
    \<and> toggle name p = (Inr (), p\<lparr>rules := (rules p)[i := (rules p ! i)\<lparr>display :=
        (if display (rules p ! i) = js ''none'' then js ''table-row'' else js ''none'')\<rparr>]\<rparr>)"
proof -
  from assms obtain r where "r \<in> set (rules p)" "selectorText r = js ''.'' @ name" by auto
  from cssrules_Some [OF this] show ?thesis
    by (auto simp: toggle_def css_getclass_def Let_def)
qed

lemma toggle_changes:
  assumes "js ''.'' @ name \<in> selectorText ` set (rules p)"
  shows "\<exists>q. toggle name p = (Inr (), q) \<and> q \<noteq> p"
proof -
  from toggle_there [OF assms] obtain i q where i: "i < length (rules p)" "toggle name p = (Inr (), q)"
    "q = p\<lparr>rules := (rules p)[i := (rules p ! i)\<lparr>display :=
        (if display (rules p ! i) = js ''none'' then js ''table-row'' else js ''none'')\<rparr>]\<rparr>" by blast
  then have "display (rules q ! i) =
      (if display (rules p ! i) = js ''none'' then js ''table-row'' else js ''none'')" by simp
  then have "display (rules q ! i) \<noteq> display (rules p ! i)" by (simp split: if_splits)
  with i(2) show ?thesis by auto
qed

text \<open>The threads of a file, and the table it becomes.\<close>

definition file_lines :: "jstr \<Rightarrow> jstr \<Rightarrow> log_state" where
  "file_lines t0 stringData =
     log_lines (split_char 10 stringData) \<lparr>tbl = t0, multiline = [], threads = []\<rparr>"

text \<open>
  C30. Loading a log file never throws when the browser accepts the class selectors of its threads;
  the list then shows a button for every thread of the file, every thread has a colour rule, and pressing
  its button changes the page.
\<close>

theorem thread_buttons_work:
  assumes "\<forall>t \<in> set (threads (file_lines (tbl_html p) txt)). css_ok (js ''.thd_'' @ t)"
  shows "\<exists>q. log_onload css_ok txt p = (Inr (), q)
    \<and> tbl_html q = tbl (file_lines (tbl_html p) txt)
    \<and> (\<forall>t \<in> set (threads (file_lines (tbl_html p) txt)).
        sublist (thread_button t) (list_html q) \<and> (\<exists>q'. toggle (js ''thd_'' @ t) q = (Inr (), q') \<and> q' \<noteq> q))"
proof -
  let ?s = "file_lines (tbl_html p) txt"
  let ?ts = "for_in_order (threads ?s)"
  let ?q = "p\<lparr>tbl_html := tbl ?s, rules := rules p @ thread_rules ?ts 0,
    list_html := list_html p @ first_button @ concat (map thread_button ?ts) @ js ''</blockquote>''\<rparr>"
  have "colour_threads css_ok ?ts 0 first_button (p\<lparr>tbl_html := tbl ?s\<rparr>) =
     (Inr (first_button @ concat (map thread_button ?ts)), p\<lparr>tbl_html := tbl ?s, rules := rules p @ thread_rules ?ts 0\<rparr>)"
    using assms by (subst colour_threads_run) (simp_all add: colors_def)
  then have run: "log_onload css_ok txt p = (Inr (), ?q)"
    by (simp add: log_onload_def Let_def file_lines_def [symmetric])
  have "sublist (thread_button t) (list_html ?q)" if "t \<in> set (threads ?s)" for t
  proof -
    have "t \<in> set ?ts" using that by simp
    then obtain us vs where "?ts = us @ t # vs" by (meson split_list)
    then have "list_html ?q = (list_html p @ first_button @ concat (map thread_button us))
      @ thread_button t @ concat (map thread_button vs) @ js ''</blockquote>''" by simp
    then show ?thesis unfolding sublist_def by blast
  qed
  moreover have "\<exists>q'. toggle (js ''thd_'' @ t) ?q = (Inr (), q') \<and> q' \<noteq> ?q" if "t \<in> set (threads ?s)" for t
  proof -
    have "js ''.'' @ js ''thd_'' @ t \<in> selectorText ` set (rules ?q)"
      using selectors_of_rules [of ?ts 0] that by (auto simp: image_Un js_def)
    then show ?thesis by (rule toggle_changes)
  qed
  ultimately show ?thesis using run by (intro exI [of _ ?q]) auto
qed

theorem thread_buttons_work_witness:
  "\<exists>q. log_onload (\<lambda>_. True) (js ''2022-09-01.10:11:12 '' @ [0xB6] @ js ''7 INFO :up'') logview_page = (Inr (), q)
    \<and> (\<exists>q'. toggle (js ''thd_7'') q = (Inr (), q') \<and> q' \<noteq> q)"
proof -
  let ?l = "js ''2022-09-01.10:11:12 '' @ [0xB6] @ js ''7 INFO :up''"
  have "log_head (js ''2022-09-01.10:11:12'') (js ''7'') (js ''INFO'')" "one_line (js ''up'')"
    by (simp_all add: log_head_def is_timestamp_def is_word_def one_line_def js_def is_digit_def
        js_space_def line_end_def)
  from parse_head [OF this] have p: "parse_line ?l = Some \<lparr>timestamp = js ''2022-09-01.10:11:12'',
      thread = 0xB6 # js ''7'', severity = js ''INFO'', logline = js ''up''\<rparr>"
    by (simp add: log_text_def js_def)
  have "split_char 10 ?l = [?l]" by (rule split_char_lone) (simp add: js_def)
  with p have "js ''7'' \<in> set (threads (file_lines (tbl_html logview_page) ?l))"
    by (simp add: file_lines_def log_line_step_def log_step_def addLogLine_def add_thread_def substr1_def
        Let_def js_def)
  with thread_buttons_work [of logview_page ?l "\<lambda>_. True"] show ?thesis
    by (fastforce simp: js_append [symmetric])
qed

section \<open>Toggling\<close>

definition flip :: "css_rule \<Rightarrow> css_rule" where
  "flip r = r\<lparr>display := (if display r = js ''none'' then js ''table-row'' else js ''none'')\<rparr>"

lemma selector_flip [simp]: "selectorText (flip r) = selectorText r"
  by (simp add: flip_def)

lemma flip_flip_flip: "flip (flip (flip r)) = flip r"
  by (simp add: flip_def)

lemma cssrules_update:
  assumes "selectorText r = selectorText (rs ! i)"
  shows "cssrules (rs[i := r]) name = cssrules rs name"
proof -
  have "selectorText (rs[i := r] ! j) = selectorText (rs ! j)" for j
    using assms by (cases "i < length rs") (auto simp: nth_list_update list_update_beyond)
  then show ?thesis by (simp add: cssrules_def)
qed

lemma toggle_run:
  "toggle name p = (case cssrules (rules p) (js ''.'' @ name) of
     None \<Rightarrow> (Inl (Thrown (js ''TODO: deal_with_notfound_case: name=\"'' @ js ''.'' @ name @ js ''\"'')), p)
   | Some i \<Rightarrow> (Inr (), p\<lparr>rules := (rules p)[i := flip (rules p ! i)]\<rparr>))"
  by (simp add: toggle_def css_getclass_def bnd_def flip_def Let_def split: option.split)

lemma cssrules_bound: "cssrules rs name = Some i \<Longrightarrow> i < length rs"
proof -
  assume "cssrules rs name = Some i"
  then have "i \<in> set (filter (\<lambda>i. selectorText (rs ! i) = name) [0..<length rs])"
    by (auto simp: cssrules_def Let_def split: if_splits dest: last_in_set)
  then show ?thesis by simp
qed

text \<open>
  Pressing a button again undoes it: from the second press on, presses of the same button
  alternate between the same two pages, and nothing but the display of one rule changes.
\<close>

theorem toggle_alternates:
  assumes "toggle name p = (Inr (), q)"
  shows "\<exists>r. toggle name q = (Inr (), r) \<and> toggle name r = (Inr (), q)
    \<and> map selectorText (rules q) = map selectorText (rules p)
    \<and> list_html q = list_html p \<and> tbl_html q = tbl_html p"
proof -
  from assms obtain i where i: "cssrules (rules p) (js ''.'' @ name) = Some i"
    and q: "q = p\<lparr>rules := (rules p)[i := flip (rules p ! i)]\<rparr>"
    by (auto simp: toggle_run split: option.splits)
  have b: "i < length (rules p)" using i by (rule cssrules_bound)
  let ?r = "p\<lparr>rules := (rules p)[i := flip (flip (rules p ! i))]\<rparr>"
  have "toggle name q = (Inr (), ?r)" and "toggle name ?r = (Inr (), q)"
    using b by (simp_all add: toggle_run q cssrules_update i flip_flip_flip)
  then show ?thesis
    using b by (auto simp: q map_update list_update_same_conv)
qed

theorem toggle_alternates_witness:
  "\<exists>q r. toggle (js ''thd_7'') (logview_page\<lparr>rules := [thread_rule (js ''7'') 0]\<rparr>) = (Inr (), q)
    \<and> toggle (js ''thd_7'') q = (Inr (), r) \<and> toggle (js ''thd_7'') r = (Inr (), q)"
proof -
  let ?p = "logview_page\<lparr>rules := [thread_rule (js ''7'') 0]\<rparr>"
  have "cssrules (rules ?p) (js ''.thd_7'') = Some 0"
    by (simp add: cssrules_def thread_rule_def js_append [symmetric])
  then have "toggle (js ''thd_7'') ?p = (Inr (), ?p\<lparr>rules := [flip (thread_rule (js ''7'') 0)]\<rparr>)"
    by (simp add: toggle_run js_append [symmetric])
  from toggle_alternates [OF this] this show ?thesis by blast
qed

text \<open>The events of the page.\<close>

inductive log_event :: "(jstr \<Rightarrow> bool) \<Rightarrow> log_page \<Rightarrow> log_page \<Rightarrow> bool" for css_ok where
  choose: "select_files files p = (r, q) \<Longrightarrow> log_event css_ok p q"
| load: "log_onload css_ok txt p = (r, q) \<Longrightarrow> log_event css_ok p q"
| press: "toggle name p = (r, q) \<Longrightarrow> log_event css_ok p q"

inductive_cases log_eventE: "log_event css_ok p q"

definition at_load :: "log_page \<Rightarrow> bool" where
  "at_load p \<longleftrightarrow> p = logview_page"

definition no_th0 :: "log_page \<Rightarrow> bool" where
  "no_th0 p \<longleftrightarrow> js ''.th0'' \<notin> selectorText ` set (rules p)"

lemma thd_not_th0: "js ''.thd_'' @ t \<noteq> js ''.th0''"
proof
  assume "js ''.thd_'' @ t = js ''.th0''"
  then have "take 4 (js ''.thd_'' @ t) = take 4 (js ''.th0'')" by simp
  then show False by (simp add: js_def)
qed

lemma keeps_colour_threads: "keeps no_th0 (colour_threads css_ok ts n b)"
  by (induction ts arbitrary: n b)
     (auto intro!: keeps_intros simp: no_th0_def thread_rule_def thd_not_th0 [symmetric])

lemma keeps_log_onload: "keeps no_th0 (log_onload css_ok txt)"
  unfolding log_onload_def Let_def
  by (intro keeps_intros keeps_colour_threads) (simp_all add: no_th0_def)

lemma keeps_toggle: "keeps no_th0 (toggle name)"
proof -
  have "no_th0 (p\<lparr>rules := (rules p)[i := flip (rules p ! i)]\<rparr>)" if "no_th0 p" for p i
  proof -
    have "map selectorText ((rules p)[i := flip (rules p ! i)]) = map selectorText (rules p)"
      by (cases "i < length (rules p)") (simp_all add: map_update list_update_same_conv list_update_beyond)
    then have "selectorText ` set ((rules p)[i := flip (rules p ! i)]) = selectorText ` set (rules p)"
      by (metis set_map)
    with that show ?thesis by (simp add: no_th0_def)
  qed
  then show ?thesis by (auto simp: keeps_def toggle_run split: option.split)
qed

lemma keeps_select_files: "keeps no_th0 (select_files files)"
  unfolding select_files_def by (intro keeps_intros) (simp add: no_th0_def)

interpretation log_viewer: machine at_load "log_event css_ok" no_th0
proof
  fix p assume "at_load p"
  then show "no_th0 p"
    by (simp add: at_load_def no_th0_def logview_page_def logview_rules_def)
next
  fix p q assume "no_th0 p" "log_event css_ok p q"
  then show "no_th0 q"
    by (elim log_eventE; metis keepsD keeps_select_files keeps_log_onload keeps_toggle snd_conv)
qed

text \<open>
  The button for the lines without a thread never works: whatever files were loaded and
  buttons pressed, \<open>toggle('th0')\<close> throws and changes nothing, because no rule has the selector \<open>.th0\<close>.
\<close>

theorem th0_button_throws:
  assumes "reachable at_load (log_event css_ok) p"
  shows "toggle (js ''th0'') p =
    (Inl (Thrown (js ''TODO: deal_with_notfound_case: name=\".th0\"'')), p)"
proof -
  have "no_th0 p" using assms by (rule log_viewer.always)
  then have "cssrules (rules p) (js ''.th0'') = None" by (simp add: no_th0_def cssrules_None)
  then show ?thesis by (simp add: toggle_run js_append [symmetric])
qed

theorem th0_button_throws_witness:
  "toggle (js ''th0'') (snd (log_onload (\<lambda>_. True) (js ''no log'') logview_page)) =
    (Inl (Thrown (js ''TODO: deal_with_notfound_case: name=\".th0\"'')),
     snd (log_onload (\<lambda>_. True) (js ''no log'') logview_page))"
proof (rule th0_button_throws)
  have "reachable at_load (log_event (\<lambda>_. True)) logview_page"
    by (rule reachable.start) (simp add: at_load_def)
  then show "reachable at_load (log_event (\<lambda>_. True)) (snd (log_onload (\<lambda>_. True) (js ''no log'') logview_page))"
    by (rule reachable.event) (rule log_event.load [OF prod.collapse [symmetric]])
qed

end
