(* ===== verification/CrashView.thy ===== *)
theory CrashView
  imports LogView
begin

text \<open>
  \<open>html/crashview.js\<close>: the crash dump viewer.  Overlong C++ names are abbreviated and the angle
  brackets escaped by a list of replacements, applied in order; a line of the form of a stack
  frame becomes a row of four cells.
\<close>

section \<open>Replacements\<close>

text \<open>
  \<open>String.prototype.replace\<close> with a global pattern and a replacement string without \<open>$\<close>.
\<close>

definition replace_str :: "re \<Rightarrow> jstr \<Rightarrow> jstr \<Rightarrow> jstr" where
  "replace_str r t s = replace_g r (\<lambda>m c. t) s"

definition replaces :: "(re \<times> jstr) list" where
  "replaces =
     [(lit ''std::__1::allocator'', js ''ALLOC''),
      (lit ''std::__1::basic_string<char, std::__1::char_traits<char>, ALLOC<char> >'', js ''STRING''),
      (lit ''std::__1::vector<json_spirit::Pair_impl<json_spirit::Config_vector<STRING > >, ALLOC<json_spirit::Pair_impl<json_spirit::Config_vector<STRING > > > >'',
       js ''JS::VALUE''),
      (lit ''<'', js ''&lt;''),
      (lit ''>'', js ''&gt;'')]"

definition replaceAll :: "jstr \<Rightarrow> jstr" where
  "replaceAll s = foldl (\<lambda>t (r, u). replace_str r u t) s replaces"

section \<open>Lines\<close>

definition hex_re :: re where
  "hex_re = Cls (\<lambda>c. is_digit c \<or> 97 \<le> c \<and> c \<le> 102 \<or> 65 \<le> c \<and> c \<le> 70)"

text \<open>The pattern \<open>(\d+)\s+(\S+)\s+(0x[0-9a-fA-F]+)\s+(.*)\<close>.\<close>

definition crash_re :: re where
  "crash_re =
     Cat (Grp 1 (Plus digit_re)) (Cat (Plus space_re)
     (Cat (Grp 2 (Plus nonspace_re)) (Cat (Plus space_re)
     (Cat (Grp 3 (Cat (lit ''0x'') (Plus hex_re))) (Cat (Plus space_re) (Grp 4 (Star dot)))))))"

definition crash_row :: "jstr \<Rightarrow> jstr \<Rightarrow> jstr \<Rightarrow> jstr \<Rightarrow> jstr" where
  "crash_row nr module address lg =
     js ''<tr><td align=\"right\">'' @ nr @ js ''</td><td>'' @ module @ js ''</td><td>'' @ address
     @ js ''</td><td class=\"log\">'' @ replaceAll lg @ js ''</td></tr>''"

definition crash_other_row :: "jstr \<Rightarrow> jstr" where
  "crash_other_row l =
     js ''<tr class=\"th0\"><td colspan=\"4\">'' @ replaceAll l @ js ''&nbsp;</td></tr>''"

definition crash_line :: "jstr \<Rightarrow> jstr" where
  "crash_line l = (case match_groups crash_re l of
     Some [m, Some nr, Some module, Some address, Some lg] \<Rightarrow> crash_row nr module address lg
   | _ \<Rightarrow> crash_other_row l)"

text \<open>The loop of \<open>parseData\<close>: what it appends to the table.\<close>

fun crash_lines :: "jstr list \<Rightarrow> jstr \<Rightarrow> jstr" where
  "crash_lines [] t = t"
| "crash_lines (l # ls) t = crash_lines ls (t @ crash_line l)"

record crash_page =
  c_list :: jstr
  c_tbl :: jstr
  dropzone :: jstr

definition parseData :: "jstr \<Rightarrow> (crash_page, unit) handler" where
  "parseData stringData =
     modify (\<lambda>p. p\<lparr>c_tbl := crash_lines (split_char 10 stringData) (c_tbl p)\<rparr>)"

text \<open>\<open>handleFileSelect\<close> up to the reader, and its \<open>onload\<close> callback.\<close>

definition crash_select_files :: "log_file list \<Rightarrow> (crash_page, unit) handler" where
  "crash_select_files files = modify (\<lambda>p. p\<lparr>
     c_list := js ''<ul>'' @ concat (map file_item files) @ js ''</ul>'', c_tbl := []\<rparr>)"

definition crash_onload :: "jstr \<Rightarrow> (crash_page, unit) handler" where
  "crash_onload result = parseData result"

definition handleDropzone :: "(crash_page, unit) handler" where
  "handleDropzone =
     seq (modify (\<lambda>p. p\<lparr>c_tbl := []\<rparr>)) (bnd (gets dropzone) parseData)"

section \<open>Rows\<close>

interpretation crash_table: line_table "\<lambda>l t. t @ crash_line l" crash_lines "\<lambda>t. t"
  by unfold_locales auto

lemma crash_lines_rows: "crash_lines ls t = t @ concat (map crash_line ls)"
  by (rule crash_table.loop_rows) (rule refl)

text \<open>
  The dump becomes exactly one row per line, in order, after what the table held, and no text is lost: the
  lines joined by line feeds are the dump.
\<close>

theorem parseData_rows:
  "\<exists>ls. join [10] ls = stringData \<and> (\<forall>l \<in> set ls. 10 \<notin> set l)
    \<and> parseData stringData p = (Inr (), p\<lparr>c_tbl := c_tbl p @ concat (map crash_line ls)\<rparr>)"
  using join_split [of 10 stringData] split_char_free [of _ 10 stringData]
  by (auto simp: parseData_def crash_lines_rows intro!: exI [of _ "split_char 10 stringData"])

theorem parseData_rows_witness:
  "\<exists>ls. join [10] ls = js ''a'' @ [10] @ js ''b'' \<and> (\<forall>l \<in> set ls. 10 \<notin> set l)
    \<and> parseData (js ''a'' @ [10] @ js ''b'') \<lparr>c_list = [], c_tbl = [], dropzone = []\<rparr>
      = (Inr (), \<lparr>c_list = [], c_tbl = concat (map crash_line ls), dropzone = []\<rparr>)"
  using parseData_rows [of "js ''a'' @ [10] @ js ''b''" "\<lparr>c_list = [], c_tbl = [], dropzone = []\<rparr>"]
  by simp

lemma replace_one: "replace_str (lit [c]) t s = concat (map (\<lambda>d. if d = cu c then t else [d]) s)"
  unfolding replace_str_def lit.simps chr_re_def replace_g_Cls by simp

lemma cu_angle: "cu CHR ''<'' = 60" "cu CHR ''>'' = 62"
  by simp_all

lemma replaceAll_escapes:
  "\<exists>t. replaceAll s = concat (map (\<lambda>d. if d = 62 then js ''&gt;'' else [d])
     (concat (map (\<lambda>d. if d = 60 then js ''&lt;'' else [d]) t)))"
  unfolding replaceAll_def replaces_def foldl_Cons foldl_Nil prod.case replace_one cu_angle
  by (rule exI, rule refl)

text \<open>Whatever a dump contains, no angle bracket of it reaches the page as markup.\<close>

theorem replaceAll_no_brackets: "60 \<notin> set (replaceAll s) \<and> 62 \<notin> set (replaceAll s)"
proof -
  obtain t where t: "replaceAll s = concat (map (\<lambda>d. if d = 62 then js ''&gt;'' else [d])
     (concat (map (\<lambda>d. if d = 60 then js ''&lt;'' else [d]) t)))"
    using replaceAll_escapes by blast
  show ?thesis unfolding t by (auto simp: js_def split: if_splits)
qed

text \<open>A stack frame as a crash report writes it.\<close>

definition hex_digit_unit :: "jschar \<Rightarrow> bool" where
  "hex_digit_unit c \<longleftrightarrow> is_digit c \<or> 97 \<le> c \<and> c \<le> 102 \<or> 65 \<le> c \<and> c \<le> 70"

definition run_of :: "(jschar \<Rightarrow> bool) \<Rightarrow> jstr \<Rightarrow> bool" where
  "run_of P w \<longleftrightarrow> w \<noteq> [] \<and> (\<forall>c \<in> set w. P c)"

lemma run_of_then:
  assumes "run_of P w" and "\<not> P d"
  shows "takeWhile P (w @ d # s) = w" "dropWhile P (w @ d # s) = d # s"
  using assms by (simp_all add: run_of_def takeWhile_append2 dropWhile_append2)

lemma run_of_Cons: "run_of P w \<Longrightarrow> \<exists>d ds. w = d # ds \<and> P d"
  by (cases w) (auto simp: run_of_def)

lemma word_units_not_space: "is_digit c \<Longrightarrow> \<not> js_space c" "hex_digit_unit c \<Longrightarrow> \<not> js_space c"
proof -
  have "\<not> js_space c" if "33 \<le> c" "c \<le> 126" for c
    using that unfolding js_space_def word_le_nat_alt by auto
  moreover have "33 \<le> c \<and> c \<le> 126" if "is_digit c \<or> hex_digit_unit c"
    using that unfolding is_digit_def hex_digit_unit_def word_le_nat_alt by auto
  ultimately show "is_digit c \<Longrightarrow> \<not> js_space c" "hex_digit_unit c \<Longrightarrow> \<not> js_space c" by auto
qed

lemma crash_ways:
  assumes nr: "run_of is_digit nr" and s1: "run_of js_space s1" and md: "is_word md"
    and s2: "run_of js_space s2" and hx: "run_of hex_digit_unit hx" and s3: "run_of js_space s3"
    and lg: "lg = [] \<or> \<not> js_space (hd lg)"
  shows "\<exists>ys. ways n crash_re (nr @ s1 @ md @ s2 @ js ''0x'' @ hx @ s3 @ lg, \<lambda>_. None)
    = (dropWhile (\<lambda>c. \<not> line_end c) lg, (\<lambda>_. None)(1 \<mapsto> nr, 2 \<mapsto> md, 3 \<mapsto> js ''0x'' @ hx,
        4 \<mapsto> takeWhile (\<lambda>c. \<not> line_end c) lg)) # ys"
proof -
  let ?r4 = "Grp 4 (Star dot)"
  let ?s4 = "Cat (Plus space_re) ?r4"
  let ?r3 = "Cat (Grp 3 (Cat (lit ''0x'') (Plus hex_re))) ?s4"
  let ?s3 = "Cat (Plus space_re) ?r3"
  let ?r2 = "Cat (Grp 2 (Plus nonspace_re)) ?s3"
  let ?s2 = "Cat (Plus space_re) ?r2"
  obtain a s1' where s1': "s1 = a # s1'" "js_space a" using run_of_Cons [OF s1] by blast
  obtain b s2' where s2': "s2 = b # s2'" "js_space b" using run_of_Cons [OF s2] by blast
  obtain c s3' where s3': "s3 = c # s3'" "js_space c" using run_of_Cons [OF s3] by blast
  obtain m md' where md': "md = m # md'" "\<not> js_space m" using md by (cases md) (auto simp: is_word_def)
  have rejects_space: "rejects P (Cat (Plus space_re) r)" if "\<And>d. P d \<Longrightarrow> \<not> js_space d" for P r
    unfolding space_re_def by (intro rejects_Cat rejects_Plus) (use that in blast)
  have hex: "hex_re = Cls hex_digit_unit"
    by (simp add: hex_re_def hex_digit_unit_def [abs_def])
  have w1: "ways n crash_re (nr @ a # t, c) = ways n ?s2 (a # t, c(1 \<mapsto> nr))" for t c
    using nr word_units_not_space(1) s1'(2) unfolding crash_re_def digit_re_def
    by (subst ways_run_Grp, blast intro: rejects_space) (auto simp: run_of_then run_of_def)
  have w2: "ways n ?s2 (s1 @ m # t, c) = ways n ?r2 (m # t, c)" for t c
    using run_of_then [OF s1 md'(2)] s1' unfolding space_re_def
    by (subst ways_run) (auto simp: nonspace_re_def intro!: rejects_Cat rejects_Grp rejects_Plus)
  have w3: "ways n ?r2 (md @ b # t, c) = ways n ?s3 (b # t, c(2 \<mapsto> md))" for t c
    using run_of_then [of "\<lambda>c. \<not> js_space c" md b] md s2'(2) unfolding nonspace_re_def
    by (subst ways_run_Grp, blast intro: rejects_space) (auto simp: run_of_def is_word_def)
  have x: "js ''0x'' @ t = 48 # 120 # t" for t by (simp add: js_def)
  have w4: "ways n ?s3 (s2 @ 48 # t, c) = ways n ?r3 (48 # t, c)" for t c
  proof -
    have "\<not> js_space 48" by (simp add: js_space_def)
    moreover have "rejects js_space ?r3"
      unfolding lit.simps chr_re_def by (intro rejects_Cat rejects_Grp rejects_Cls) (auto simp: js_space_def)
    ultimately show ?thesis
      using run_of_then [OF s2, of 48] s2' unfolding space_re_def by (subst ways_run) auto
  qed
  have w5: "ways n ?r3 (js ''0x'' @ hx @ c # t, k) = ways n ?s4 (c # t, k(3 \<mapsto> js ''0x'' @ hx))" for t k
  proof -
    have "ways n (lit ''0x'') (js ''0x'' @ u, k) = [(u, k)]" for u by (simp add: x chr_re_def)
    moreover have "rejects hex_digit_unit ?s4" by (rule rejects_space) (rule word_units_not_space)
    ultimately have "ways n ?r3 (js ''0x'' @ s, k) = (if takeWhile hex_digit_unit s = [] then []
        else ways n ?s4 (dropWhile hex_digit_unit s, k(3 \<mapsto> js ''0x'' @ takeWhile hex_digit_unit s)))" for s
      unfolding hex by (rule ways_prefix_run_Grp)
    moreover have c: "\<not> hex_digit_unit c" and "hx \<noteq> []"
      using s3'(2) word_units_not_space(2) hx by (auto simp: run_of_def)
    ultimately show ?thesis by (simp only: run_of_then [OF hx c] if_False)
  qed
  have w6: "\<exists>ys. ways n ?s4 (s3 @ lg, k) = (dropWhile (\<lambda>c. \<not> line_end c) lg,
      k(4 \<mapsto> takeWhile (\<lambda>c. \<not> line_end c) lg)) # ys" for k
  proof -
    have "takeWhile js_space (s3 @ lg) = s3"
      using s3 lg by (cases lg) (auto simp: run_of_def takeWhile_append2)
    moreover have "length s3 > 0" using s3' by simp
    ultimately have "\<exists>zs. ways n (Plus space_re) (s3 @ lg, k) = (lg, k) # zs"
      unfolding space_re_def ways_Plus_Cls by (simp add: Suc_le_eq)
    then show ?thesis unfolding dot_def by (auto simp: ways_rest_Grp simp del: ways.simps(5,6))
  qed
  have "ways n crash_re (nr @ s1 @ md @ s2 @ js ''0x'' @ hx @ s3 @ lg, \<lambda>_. None)
    = ways n ?s4 (s3 @ lg, (\<lambda>_. None)(1 \<mapsto> nr, 2 \<mapsto> md, 3 \<mapsto> js ''0x'' @ hx))"
  proof -
    have "ways n crash_re (nr @ s1 @ md @ s2 @ js ''0x'' @ hx @ s3 @ lg, \<lambda>_. None)
      = ways n ?s2 (s1 @ md @ s2 @ js ''0x'' @ hx @ s3 @ lg, (\<lambda>_. None)(1 \<mapsto> nr))"
      by (simp only: s1'(1) append_Cons w1)
    also have "\<dots> = ways n ?r2 (md @ s2 @ js ''0x'' @ hx @ s3 @ lg, (\<lambda>_. None)(1 \<mapsto> nr))"
      by (simp only: md'(1) append_Cons w2)
    also have "\<dots> = ways n ?s3 (s2 @ js ''0x'' @ hx @ s3 @ lg, (\<lambda>_. None)(1 \<mapsto> nr, 2 \<mapsto> md))"
      by (simp only: s2'(1) append_Cons w3)
    also have "\<dots> = ways n ?r3 (js ''0x'' @ hx @ s3 @ lg, (\<lambda>_. None)(1 \<mapsto> nr, 2 \<mapsto> md))"
      by (simp only: x w4)
    also have "\<dots> = ways n ?s4 (s3 @ lg, (\<lambda>_. None)(1 \<mapsto> nr, 2 \<mapsto> md, 3 \<mapsto> js ''0x'' @ hx))"
      by (simp only: s3'(1) append_Cons w5)
    finally show ?thesis .
  qed
  with w6 show ?thesis by (simp only:)
qed

text \<open>
  A line of the form of a stack frame (number, module, hexadecimal address, text, separated by runs of
  spaces) becomes a row of these four cells, with the text abbreviated and escaped.
\<close>

theorem frame_row:
  assumes "run_of is_digit nr" and "run_of js_space s1" and "is_word md" and "run_of js_space s2"
    and "run_of hex_digit_unit hx" and "run_of js_space s3" and "lg = [] \<or> \<not> js_space (hd lg)"
    and "one_line lg"
  shows "crash_line (nr @ s1 @ md @ s2 @ js ''0x'' @ hx @ s3 @ lg) = crash_row nr md (js ''0x'' @ hx) lg"
proof -
  let ?l = "nr @ s1 @ md @ s2 @ js ''0x'' @ hx @ s3 @ lg"
  have lg: "takeWhile (\<lambda>c. \<not> line_end c) lg = lg" "dropWhile (\<lambda>c. \<not> line_end c) lg = []"
    using assms(8) by (auto simp: one_line_def)
  obtain ys where "ways (length ?l) crash_re (?l, \<lambda>_. None)
    = ([], (\<lambda>_. None)(1 \<mapsto> nr, 2 \<mapsto> md, 3 \<mapsto> js ''0x'' @ hx, 4 \<mapsto> lg)) # ys"
    using crash_ways [OF assms(1-7), of "length ?l"] unfolding lg by blast
  from search_at_start [OF this] have "search crash_re ?l = Some ([], ?l, [],
      (\<lambda>_. None)(1 \<mapsto> nr, 2 \<mapsto> md, 3 \<mapsto> js ''0x'' @ hx, 4 \<mapsto> lg))"
    by (simp add: search_def)
  moreover have "sort (groups crash_re) = [1, 2, 3, 4]"
    by (simp add: crash_re_def digit_re_def dot_def Plus_def nonspace_re_def space_re_def hex_re_def chr_re_def)
  ultimately show ?thesis
    by (simp add: crash_line_def match_groups_def)
qed

theorem frame_row_witness:
  "crash_line (js ''0   libc.dylib  0x00ffEE __kill<a> + 10'') =
    crash_row (js ''0'') (js ''libc.dylib'') (js ''0x00ffEE'') (js ''__kill<a> + 10'')"
proof -
  have "run_of is_digit (js ''0'')" "run_of js_space (js ''   '')" "is_word (js ''libc.dylib'')"
    "run_of js_space (js ''  '')" "run_of hex_digit_unit (js ''00ffEE'')" "run_of js_space (js '' '')"
    "js ''__kill<a> + 10'' = [] \<or> \<not> js_space (hd (js ''__kill<a> + 10''))" "one_line (js ''__kill<a> + 10'')"
    by (simp_all add: run_of_def is_word_def one_line_def js_def is_digit_def js_space_def line_end_def
        hex_digit_unit_def)
  from frame_row [OF this] show ?thesis by (simp add: js_append [symmetric])
qed

end
