(* ===== verification/UnitTests.thy ===== *)
theory UnitTests
  imports Escapes
begin

text \<open>
  \<open>html/unittests.js\<close> and \<open>html/test-encode-decode.js\<close>: the tests one can run from the page.

  Random numbers are drawn from the sequence \<open>entropy\<close>, from position \<open>drawn\<close> on.  The function
  \<open>call_json_rpc_function\<close> is defined nowhere in the repository; it is the argument \<open>rpc\<close>, None
  where no script defines it.
\<close>

record test_page =
  entropy :: "nat \<Rightarrow> 32 word"
  drawn :: nat
  unittest_div :: jstr
  unittest_out :: jstr
  rpc_log :: "(jstr \<times> jsval) list"

section \<open>Random names\<close>

definition base32_alphabet :: jstr where
  "base32_alphabet = js ''0123456789abcdefghijklmnopqrstuvwxyz''"

text \<open>\<open>getRandomValues\<close> on an array of twelve elements.\<close>

definition draw12 :: "(test_page, 32 word list) handler" where
  "draw12 = bnd (gets (\<lambda>p. map (\<lambda>i. entropy p (drawn p + i)) [0..<12])) (\<lambda>ws.
     seq (modify (\<lambda>p. p\<lparr>drawn := drawn p + 12\<rparr>)) (ret ws))"

definition name_unit :: "32 word \<Rightarrow> jschar" where
  "name_unit r = base32_alphabet ! (unat r mod (length base32_alphabet - 1))"

fun name_of :: "32 word list \<Rightarrow> jstr" where
  "name_of [] = []"
| "name_of (r # rs) = name_unit r # name_of rs"

definition gen_random_name :: "(test_page, jstr) handler" where
  "gen_random_name = bnd draw12 (\<lambda>rndArray. ret (name_of rndArray))"

definition random_name_test :: "(test_page, unit) handler" where
  "random_name_test = bnd gen_random_name (\<lambda>s.
     modify (\<lambda>p. p\<lparr>unittest_out := js ''pEp_'' @ s @ js ''@pep.lol''\<rparr>))"

section \<open>The list of tests\<close>

record unittest =
  description :: jstr
  onclick :: jstr

definition unittests :: "unittest list" where
  "unittests = [\<lparr>description = js ''call gen_random_name()'', onclick = js ''random_name_test()''\<rparr>]"

text \<open>The entry \<open>test-encode-decode.js\<close> adds.\<close>

definition encode_decode_entry :: unittest where
  "encode_decode_entry = \<lparr>description = js ''Encode/Decode'', onclick = js ''test_encode_decode()''\<rparr>"

definition test_row :: "nat \<Rightarrow> unittest \<Rightarrow> jstr" where
  "test_row i u = js ''<tr class=\"t\"><td>#'' @ show_nat (i + 1) @ js ''</td><td>'' @ description u
     @ js ''</td>'' @ js ''<td><button type=\"button\" onclick=\"'' @ onclick u
     @ js ''\"> Run! </button></td></tr>'' @ [10]"

definition add_test_buttons :: "unittest list \<Rightarrow> (test_page, unit) handler" where
  "add_test_buttons us = modify (\<lambda>p. p\<lparr>unittest_div :=
     js ''<table><tr class=\"t\"><th></th><th>Test name</th><th></th></tr>'' @ [10]
     @ concat (map (\<lambda>(i, u). test_row i u) (zip [0..<length us] us)) @ js ''</table>''\<rparr>)"

section \<open>The encode/decode test\<close>

type_synonym rpc = "jstr \<Rightarrow> jsval \<Rightarrow> (test_page, jsval) handler"

definition call_json_rpc_function :: "rpc option \<Rightarrow> jstr \<Rightarrow> jsval list \<Rightarrow> (test_page, jsval) handler" where
  "call_json_rpc_function rpc fn args = (case rpc of
     None \<Rightarrow> throw (ReferenceError (js ''call_json_rpc_function''))
   | Some call \<Rightarrow> call fn (JArr args))"

definition read :: "jsval \<Rightarrow> string \<Rightarrow> (test_page, jsval) handler" where
  "read v k = lift (get_prop v (js k))"

text \<open>\<open>v[0]\<close>\<close>

definition read0 :: "jsval \<Rightarrow> (test_page, jsval) handler" where
  "read0 v = lift (case v of JUndef \<Rightarrow> Inl TypeError | JNull \<Rightarrow> Inl TypeError
     | JArr (x # _) \<Rightarrow> Inr x | JStr (c # _) \<Rightarrow> Inr (JStr [c])
     | JObj kvs \<Rightarrow> (case map_of kvs (js ''0'') of None \<Rightarrow> Inr JUndef | Some x \<Rightarrow> Inr x)
     | _ \<Rightarrow> Inr JUndef)"

definition test_identity :: "jstr \<Rightarrow> jsval" where
  "test_identity rndName =
     JObj [(js ''address'', JStr (js ''enc-dec-test.'' @ rndName @ js ''@peptest.ch'')),
           (js ''user_id'', JStr (js ''pEp_own_userId'')),
           (js ''username'', JStr (js ''Test User '' @ rndName))]"

definition test_message :: "jstr \<Rightarrow> jstr \<Rightarrow> jsval \<Rightarrow> jsval" where
  "test_message a b identity =
     JObj [(js ''id'', JStr (js ''<pEp.'' @ a @ js ''.'' @ b @ js ''@peptest.ch>'')),
           (js ''shortmsg'', JStr (js ''Subject'')), (js ''longmsg'', JStr (js ''Body'')),
           (js ''attachments'', JArr []), (js ''from'', identity), (js ''to'', JArr [identity])]"

definition put_out :: "jstr \<Rightarrow> (test_page, unit) handler" where
  "put_out t = modify (\<lambda>p. p\<lparr>unittest_out := t\<rparr>)"

definition test_encode_decode :: "rpc option \<Rightarrow> (test_page, unit) handler" where
  "test_encode_decode rpc =
     bnd gen_random_name (\<lambda>rndName.
     let identity = test_identity rndName in
     bnd (call_json_rpc_function rpc (js ''myself'') [identity]) (\<lambda>r.
     bnd (read r ''result'') (\<lambda>res.
     bnd (read res ''outParams'') (\<lambda>outs.
     bnd (read0 outs) (\<lambda>newIdent.
     bnd (read newIdent ''fpr'') (\<lambda>fpr.
     seq (put_out (to_string (stringify_gap (js ''  '') newIdent)))
     (bnd gen_random_name (\<lambda>a.
      bnd gen_random_name (\<lambda>b.
      let msg1 = test_message a b identity in
      bnd (call_json_rpc_function rpc (js ''encrypt_message'')
             [msg1, JNull, JStr (js ''out''), JInt 3, JInt 0]) (\<lambda>r2.
      seq (bnd (gets unittest_out) (\<lambda>o1.
             put_out (o1 @ [10] @ js ''========='' @ [10]
                      @ to_string (stringify_gap (js ''  '') r2))))
      (bnd (call_json_rpc_function rpc (js ''delete_keypair'') [fpr]) (\<lambda>_. ret ()))))))))))))"

section \<open>Properties\<close>

lemma name_of_map: "name_of ws = map name_unit ws"
  by (induction ws) simp_all

lemma base32_length: "length base32_alphabet = 36"
  by (simp add: base32_alphabet_def)

lemma name_unit_letter: "name_unit w \<in> set (butlast base32_alphabet)"
proof -
  have "unat w mod 35 < length (butlast base32_alphabet)" by (simp add: base32_length)
  then have "butlast base32_alphabet ! (unat w mod 35) \<in> set (butlast base32_alphabet)" by (rule nth_mem)
  moreover have "butlast base32_alphabet ! (unat w mod 35) = base32_alphabet ! (unat w mod 35)"
    by (rule nth_butlast) (simp add: base32_length)
  ultimately show ?thesis by (simp add: name_unit_def base32_length)
qed

definition random_name :: "test_page \<Rightarrow> jstr" where
  "random_name p = map (\<lambda>i. name_unit (entropy p (drawn p + i))) [0..<12]"

definition after_draw :: "test_page \<Rightarrow> test_page" where
  "after_draw p = p\<lparr>drawn := drawn p + 12\<rparr>"

lemma gen_random_name_run: "gen_random_name p = (Inr (random_name p), after_draw p)"
  by (simp add: gen_random_name_def draw12_def name_of_map random_name_def after_draw_def comp_def del: upt_rec_numeral)

text \<open>
  C40. A random name has twelve letters, each from the alphabet but never its last letter \<open>z\<close>: the draw
  is reduced modulo one less than the length of the alphabet.
\<close>

theorem random_names_lack_z:
  "\<exists>s. gen_random_name p = (Inr s, p\<lparr>drawn := drawn p + 12\<rparr>) \<and> length s = 12
    \<and> (\<forall>c \<in> set s. c \<in> set base32_alphabet \<and> c \<noteq> cu CHR ''z'')"
proof -
  have "cu CHR ''z'' \<notin> set (butlast base32_alphabet)"
    by (simp add: base32_alphabet_def js_def)
  then have "c \<in> set base32_alphabet \<and> c \<noteq> cu CHR ''z''" if "c \<in> set (random_name p)" for c
  proof -
    from that obtain w where "c = name_unit w" by (auto simp: random_name_def simp del: upt_rec_numeral)
    with \<open>cu CHR ''z'' \<notin> _\<close> show ?thesis
      using name_unit_letter [of w] by (auto dest: in_set_butlastD)
  qed
  moreover have "length (random_name p) = 12" by (simp add: random_name_def)
  ultimately show ?thesis
    using gen_random_name_run [of p] by (auto simp: after_draw_def)
qed

theorem random_names_lack_z_witness:
  "\<exists>s. gen_random_name \<lparr>entropy = (\<lambda>i. of_nat i), drawn = 0, unittest_div = [], unittest_out = [], rpc_log = []\<rparr>
      = (Inr s, \<lparr>entropy = (\<lambda>i. of_nat i), drawn = 12, unittest_div = [], unittest_out = [], rpc_log = []\<rparr>)
    \<and> length s = 12 \<and> (\<forall>c \<in> set s. c \<in> set base32_alphabet \<and> c \<noteq> cu CHR ''z'')"
  using random_names_lack_z [of "\<lparr>entropy = (\<lambda>i. of_nat i), drawn = 0, unittest_div = [], unittest_out = [], rpc_log = []\<rparr>"]
  by simp

text \<open>
  On a page without \<open>call_json_rpc_function\<close>, which is every page of the repository, the encode/decode test throws a reference
  error right after it drew a name, and writes nothing.
\<close>

theorem encode_decode_without_rpc:
  "test_encode_decode None p =
    (Inl (ReferenceError (js ''call_json_rpc_function'')), p\<lparr>drawn := drawn p + 12\<rparr>)"
  by (simp add: test_encode_decode_def gen_random_name_run call_json_rpc_function_def after_draw_def Let_def)

text \<open>A server that answers by \<open>answer\<close> and keeps a log of the calls.\<close>

definition recording :: "(jstr \<Rightarrow> jsval \<Rightarrow> jsval) \<Rightarrow> rpc" where
  "recording answer fn args = bnd (modify (\<lambda>p. p\<lparr>rpc_log := rpc_log p @ [(fn, args)]\<rparr>))
     (\<lambda>_. ret (answer fn args))"

lemma recording_run:
  "call_json_rpc_function (Some (recording answer)) fn args p =
    (Inr (answer fn (JArr args)), p\<lparr>rpc_log := rpc_log p @ [(fn, JArr args)]\<rparr>)"
  by (simp add: call_json_rpc_function_def recording_def)

lemma test_page_draws [simp]:
  "rpc_log (after_draw p) = rpc_log p" "unittest_out (after_draw p) = unittest_out p"
  by (simp_all add: after_draw_def)

text \<open>
  With a server, the test makes its three calls in order: \<open>myself\<close> on a fresh identity,
  \<open>encrypt_message\<close> on a message from and to this identity, and \<open>delete_keypair\<close> on the
  fingerprint that \<open>myself\<close> returned.
\<close>

theorem encode_decode_calls:
  assumes "get_prop (answer (js ''myself'') (JArr [test_identity (random_name p)])) (js ''result'') = Inr res"
    and "get_prop res (js ''outParams'') = Inr (JArr (ident # outs))"
    and "get_prop ident (js ''fpr'') = Inr fpr"
  shows "\<exists>q msg. test_encode_decode (Some (recording answer)) p = (Inr (), q)
    \<and> get_prop msg (js ''from'') = Inr (test_identity (random_name p))
    \<and> get_prop msg (js ''to'') = Inr (JArr [test_identity (random_name p)])
    \<and> rpc_log q = rpc_log p @ [(js ''myself'', JArr [test_identity (random_name p)]),
         (js ''encrypt_message'', JArr [msg, JNull, JStr (js ''out''), JInt 3, JInt 0]),
         (js ''delete_keypair'', JArr [fpr])]"
proof -
  let ?i = "test_identity (random_name p)"
  let ?p1 = "(after_draw p)\<lparr>rpc_log := rpc_log p @ [(js ''myself'', JArr [?i])],
     unittest_out := to_string (stringify_gap (js ''  '') ident)\<rparr>"
  let ?msg = "test_message (random_name ?p1) (random_name (after_draw ?p1)) ?i"
  have "get_prop ?msg (js ''from'') = Inr ?i" "get_prop ?msg (js ''to'') = Inr (JArr [?i])"
    by (simp_all add: test_message_def)
  moreover have "\<exists>q. test_encode_decode (Some (recording answer)) p = (Inr (), q) \<and>
      rpc_log q = rpc_log p @ [(js ''myself'', JArr [?i]),
         (js ''encrypt_message'', JArr [?msg, JNull, JStr (js ''out''), JInt 3, JInt 0]),
         (js ''delete_keypair'', JArr [fpr])]"
    using assms
    by (simp add: test_encode_decode_def gen_random_name_run recording_run read_def read0_def
        put_out_def Let_def)
  ultimately show ?thesis by blast
qed

definition sample_answer :: "jstr \<Rightarrow> jsval \<Rightarrow> jsval" where
  "sample_answer fn args = JObj [(js ''result'', JObj [(js ''outParams'',
     JArr [JObj [(js ''fpr'', JStr (js ''AB12''))]])])]"

definition sample_page :: test_page where
  "sample_page = \<lparr>entropy = (\<lambda>i. of_nat i), drawn = 0, unittest_div = [], unittest_out = [], rpc_log = []\<rparr>"

theorem encode_decode_calls_witness:
  "\<exists>q. test_encode_decode (Some (recording sample_answer)) sample_page = (Inr (), q)
    \<and> map fst (rpc_log q) = [js ''myself'', js ''encrypt_message'', js ''delete_keypair'']
    \<and> snd (last (rpc_log q)) = JArr [JStr (js ''AB12'')]"
  using encode_decode_calls [of sample_answer sample_page
      "JObj [(js ''outParams'', JArr [JObj [(js ''fpr'', JStr (js ''AB12''))]])]"
      "JObj [(js ''fpr'', JStr (js ''AB12''))]" "[]" "JStr (js ''AB12'')"]
  by (auto simp: sample_answer_def sample_page_def)

end
