(* ===== verification/JqCore.thy ===== *)
theory JqCore
  imports JsRegExp
begin

text \<open>
  \<open>html/jquery-3.6.1.js\<close>, the core utilities: the types of values, \<open>extend\<close>, \<open>each\<close>, \<open>map\<close>, \<open>grep\<close>,
  \<open>merge\<close>, \<open>makeArray\<close> and the sets of elements with their stack.

  Unlike the pages, the library passes functions around: its values have functions (a type
  parameter), regular expressions and DOM nodes (numbers) besides those of JSON.  An object is the
  list of its own properties; objects are values here, so that an update of a shared object is
  written out where the code relies on it, and objects that contain themselves do not occur.
\<close>

section \<open>Values\<close>

datatype 'f val =
    VUndef
  | VNull
  | VBool bool
  | VNum jnum
  | VStr jstr
  | VArr "'f val list"
  | VObj "(jstr \<times> 'f val) list"
  | VFun 'f
  | VRe re
  | VNode nat

abbreviation VInt :: "int \<Rightarrow> 'f val" where
  "VInt i \<equiv> VNum (Fin i)"

definition vtruthy :: "'f val \<Rightarrow> bool" where
  "vtruthy v = (case v of VUndef \<Rightarrow> False | VNull \<Rightarrow> False | VBool b \<Rightarrow> b
     | VNum n \<Rightarrow> n \<noteq> NaN \<and> n \<noteq> Fin 0 | VStr s \<Rightarrow> s \<noteq> [] | _ \<Rightarrow> True)"

text \<open>\<open>v == null\<close>\<close>

definition nullish :: "'f val \<Rightarrow> bool" where
  "nullish v = (case v of VUndef \<Rightarrow> True | VNull \<Rightarrow> True | _ \<Rightarrow> False)"

definition is_undef :: "'f val \<Rightarrow> bool" where
  "is_undef v = (case v of VUndef \<Rightarrow> True | _ \<Rightarrow> False)"

definition typeof :: "'f val \<Rightarrow> jstr" where
  "typeof v = (case v of VUndef \<Rightarrow> js ''undefined'' | VBool _ \<Rightarrow> js ''boolean'' | VNum _ \<Rightarrow> js ''number''
     | VStr _ \<Rightarrow> js ''string'' | VFun _ \<Rightarrow> js ''function'' | _ \<Rightarrow> js ''object'')"

definition isFunction :: "'f val \<Rightarrow> bool" where
  "isFunction v = (case v of VFun _ \<Rightarrow> True | _ \<Rightarrow> False)"

definition isArray :: "'f val \<Rightarrow> bool" where
  "isArray v = (case v of VArr _ \<Rightarrow> True | _ \<Rightarrow> False)"

definition isPlainObject :: "'f val \<Rightarrow> bool" where
  "isPlainObject v = (case v of VObj _ \<Rightarrow> True | _ \<Rightarrow> False)"

definition toType :: "'f val \<Rightarrow> jstr" where
  "toType v = (case v of VNull \<Rightarrow> js ''null'' | VArr _ \<Rightarrow> js ''array'' | VRe _ \<Rightarrow> js ''regexp''
     | _ \<Rightarrow> typeof v)"

lemmas kind_defs = vtruthy_def nullish_def is_undef_def isFunction_def isArray_def isPlainObject_def

text \<open>Properties: reading one, writing one, and those a \<open>for in\<close> loop enumerates.\<close>

definition index_of :: "jstr \<Rightarrow> nat option" where
  "index_of k = (if is_index k then Some (read_nat k) else None)"

definition nth_val :: "'f val list \<Rightarrow> nat \<Rightarrow> 'f val" where
  "nth_val vs i = (if i < length vs then vs ! i else VUndef)"

definition getp :: "'f val \<Rightarrow> jstr \<Rightarrow> 'f val" where
  "getp v k = (case v of
     VObj kvs \<Rightarrow> (case map_of kvs k of None \<Rightarrow> VUndef | Some x \<Rightarrow> x)
   | VArr vs \<Rightarrow> (if k = js ''length'' then VInt (int (length vs))
       else case index_of k of None \<Rightarrow> VUndef | Some i \<Rightarrow> nth_val vs i)
   | VStr s \<Rightarrow> (if k = js ''length'' then VInt (int (length s))
       else case index_of k of None \<Rightarrow> VUndef | Some i \<Rightarrow> nth_val (map (\<lambda>c. VStr [c]) s) i)
   | _ \<Rightarrow> VUndef)"

definition set_index :: "'f val list \<Rightarrow> nat \<Rightarrow> 'f val \<Rightarrow> 'f val list" where
  "set_index vs i x = (if i < length vs then vs[i := x] else vs @ replicate (i - length vs) VUndef @ [x])"

definition putp :: "'f val \<Rightarrow> jstr \<Rightarrow> 'f val \<Rightarrow> 'f val" where
  "putp v k x = (case v of
     VObj kvs \<Rightarrow> VObj (set_prop kvs k x)
   | VArr vs \<Rightarrow> (case index_of k of None \<Rightarrow> v | Some i \<Rightarrow> VArr (set_index vs i x))
   | _ \<Rightarrow> v)"

definition in_order :: "(jstr \<times> 'v) list \<Rightarrow> (jstr \<times> 'v) list" where
  "in_order kvs = map (\<lambda>k. (k, the (map_of kvs k))) (for_in_order (map fst kvs))"

definition indexed :: "'v list \<Rightarrow> (jstr \<times> 'v) list" where
  "indexed vs = map (\<lambda>i. (show_nat i, vs ! i)) [0..<length vs]"

definition entries :: "'f val \<Rightarrow> (jstr \<times> 'f val) list" where
  "entries v = (case v of VObj kvs \<Rightarrow> in_order kvs | VArr vs \<Rightarrow> indexed vs
     | VStr s \<Rightarrow> indexed (map (\<lambda>c. VStr [c]) s) | _ \<Rightarrow> [])"

lemma getp_VObj [simp]: "getp (VObj kvs) k = (case map_of kvs k of None \<Rightarrow> VUndef | Some x \<Rightarrow> x)"
  by (simp add: getp_def)

lemma putp_VObj [simp]: "putp (VObj kvs) k x = VObj (set_prop kvs k x)"
  by (simp add: putp_def)

lemma set_in_order: "distinct (map fst kvs) \<Longrightarrow> set (in_order kvs) = set kvs"
  by (force simp: in_order_def image_image)

lemma map_of_in_order [simp]: "map_of (in_order kvs) k = map_of kvs k"
proof -
  have "map_of (map (\<lambda>k. (k, the (map_of kvs k))) ks) k = (if k \<in> set ks then Some (the (map_of kvs k)) else None)"
    for ks by (induction ks) auto
  then have "map_of (in_order kvs) k = (if k \<in> fst ` set kvs then Some (the (map_of kvs k)) else None)"
    by (simp add: in_order_def)
  then show ?thesis
    using map_of_eq_None_iff [of kvs k] by (cases "map_of kvs k") auto
qed

section \<open>extend\<close>

text \<open>
  The loop over the properties of one source.  A plain object or an array is copied into what the
  target has under the name when that is of the same kind, and into an empty one otherwise.
\<close>

definition clone_of :: "'f val \<Rightarrow> 'f val \<Rightarrow> 'f val" where
  "clone_of src copy =
     (if isArray copy then (if isArray src then src else VArr [])
      else (if isPlainObject src then src else VObj []))"

lemma size_entries:
  "(k, x) \<in> set (entries v) \<Longrightarrow> isPlainObject x \<or> isArray x \<Longrightarrow> size x < size v"
proof (cases v)
  case (VObj kvs)
  assume "(k, x) \<in> set (entries v)"
  then have "k \<in> fst ` set kvs" "x = the (map_of kvs k)" using VObj by (auto simp: entries_def in_order_def)
  then have "(k, x) \<in> set kvs" by (cases "map_of kvs k") (auto simp: map_of_eq_None_iff dest: map_of_SomeD)
  from size_list_estimation [OF this, of "size x" "size_prod (\<lambda>_. 0) size"] VObj show ?thesis by simp
next
  case (VArr vs)
  assume "(k, x) \<in> set (entries v)"
  then have "x \<in> set vs" using VArr by (auto simp: entries_def indexed_def)
  from size_list_estimation' [OF this, of "size x" size] VArr show ?thesis by simp
next
  case (VStr s)
  assume "(k, x) \<in> set (entries v)" "isPlainObject x \<or> isArray x"
  then show ?thesis using VStr by (auto simp: entries_def indexed_def kind_defs)
qed (simp_all add: entries_def)


function extend_into :: "bool \<Rightarrow> 'f val \<Rightarrow> 'f val \<Rightarrow> 'f val" where
  "extend_into deep target options =
     fold (\<lambda>(name, copy) t.
        if name = js ''__proto__'' then t
        else if deep \<and> (isPlainObject copy \<or> isArray copy)
        then putp t name (extend_into deep (clone_of (getp t name) copy) copy)
        else if \<not> is_undef copy then putp t name copy
        else t) (entries options) target"
  by pat_completeness auto
termination
  by (relation "measure (\<lambda>(_, _, v). size v)") (auto dest: size_entries)

declare extend_into.simps [simp del]

text \<open>The arguments: an optional \<open>true\<close>, the target, the sources.  One target alone extends \<open>this\<close>.\<close>

definition or_empty :: "'f val \<Rightarrow> 'f val" where
  "or_empty v = (if vtruthy v then v else VObj [])"

definition as_target :: "'f val \<Rightarrow> 'f val" where
  "as_target v = (if typeof v \<noteq> js ''object'' \<and> \<not> isFunction v then VObj [] else v)"

definition jq_extend :: "'f val \<Rightarrow> 'f val list \<Rightarrow> 'f val" where
  "jq_extend this args =
     (let deep = (case args of VBool True # _ \<Rightarrow> True | _ \<Rightarrow> False);
          i = (if deep then 2 else 1);
          target = as_target (or_empty (nth_val args (i - 1)))
      in if i = length args then extend_into deep this (args ! (i - 1))
         else fold (\<lambda>options t. if nullish options then t else extend_into deep t options)
                (drop i args) target)"

section \<open>Lists and objects\<close>

text \<open>
  \<open>isArrayLike\<close>.  The operator \<open>in\<close> throws on a primitive value; \<open>array_like\<close> is the function on an
  object.
\<close>

definition has_key :: "'f val \<Rightarrow> jstr \<Rightarrow> bool" where
  "has_key v k = (case v of
     VObj kvs \<Rightarrow> k \<in> fst ` set kvs
   | VArr vs \<Rightarrow> k = js ''length'' \<or> (\<exists>i < length vs. k = show_nat i)
   | VStr s \<Rightarrow> k = js ''length'' \<or> (\<exists>i < length s. k = show_nat i)
   | VFun _ \<Rightarrow> k = js ''length''
   | _ \<Rightarrow> False)"

definition array_like :: "'f val \<Rightarrow> bool" where
  "array_like v =
     (let len = (if has_key v (js ''length'') then getp v (js ''length'') else VBool False) in
      \<not> isFunction v \<and>
      (toType v = js ''array'' \<or>
       (case len of VNum (Fin n) \<Rightarrow> n = 0 \<or> n > 0 \<and> has_key v (show_int (n - 1)) | _ \<Rightarrow> False)))"

definition isArrayLike :: "'f val \<Rightarrow> js_error + bool" where
  "isArrayLike v = (if \<not> vtruthy v then Inr False
     else case v of VBool _ \<Rightarrow> Inl TypeError | VNum _ \<Rightarrow> Inl TypeError | VStr _ \<Rightarrow> Inl TypeError
       | _ \<Rightarrow> Inr (array_like v))"

text \<open>The elements of an array-like object.\<close>

definition array_items :: "'f val \<Rightarrow> 'f val list" where
  "array_items v = (case v of VArr vs \<Rightarrow> vs
     | _ \<Rightarrow> (case getp v (js ''length'') of
         VNum (Fin n) \<Rightarrow> map (\<lambda>i. getp v (show_nat i)) [0..<nat n] | _ \<Rightarrow> []))"

definition pairs_of :: "'f val \<Rightarrow> js_error + ('f val \<times> 'f val) list" where
  "pairs_of v = map_sum id (\<lambda>al.
     if al then map (\<lambda>(i, x). (VInt (int i), x)) (zip [0..<length (array_items v)] (array_items v))
     else map (\<lambda>(k, x). (VStr k, x)) (entries v)) (isArrayLike v)"

text \<open>\<open>each\<close>: the callback says whether it returned \<open>false\<close>.\<close>

fun each_until :: "('k \<Rightarrow> 'v \<Rightarrow> ('s, bool) handler) \<Rightarrow> ('k \<times> 'v) list \<Rightarrow> ('s, unit) handler" where
  "each_until cb [] = ret ()"
| "each_until cb ((k, x) # kxs) = bnd (cb k x) (\<lambda>stop. if stop then ret () else each_until cb kxs)"

definition jq_each :: "'f val \<Rightarrow> ('f val \<Rightarrow> 'f val \<Rightarrow> ('s, bool) handler) \<Rightarrow> ('s, 'f val) handler" where
  "jq_each obj cb = bnd (lift (pairs_of obj)) (\<lambda>kxs. seq (each_until cb kxs) (ret obj))"

definition merge :: "'e list \<Rightarrow> 'e list \<Rightarrow> 'e list" where
  "merge first second = first @ second"

definition makeArray :: "'f val \<Rightarrow> 'f val list \<Rightarrow> 'f val list" where
  "makeArray arr results =
     (if nullish arr then results
      else if array_like arr then merge results (case arr of VStr _ \<Rightarrow> [arr] | _ \<Rightarrow> array_items arr)
      else results @ [arr])"

text \<open>\<open>inArray\<close> with \<open>===\<close> as the parameter \<open>eq\<close>; a negative start counts from the end.\<close>

definition inArray :: "('e \<Rightarrow> 'e \<Rightarrow> bool) \<Rightarrow> 'e \<Rightarrow> 'e list \<Rightarrow> int \<Rightarrow> int" where
  "inArray eq x xs i =
     (let from = nat (if i < 0 then max 0 (i + int (length xs)) else i) in
      case filter (\<lambda>j. from \<le> j \<and> eq x (xs ! j)) [0..<length xs] of [] \<Rightarrow> -1 | j # _ \<Rightarrow> int j)"

fun grep_from :: "nat \<Rightarrow> 'e list \<Rightarrow> ('e \<Rightarrow> nat \<Rightarrow> bool) \<Rightarrow> bool \<Rightarrow> 'e list" where
  "grep_from i [] cb invert = []"
| "grep_from i (x # xs) cb invert =
     (let callbackInverse = (\<not> cb x i); callbackExpect = (\<not> invert) in
      if callbackInverse \<noteq> callbackExpect then x # grep_from (Suc i) xs cb invert
      else grep_from (Suc i) xs cb invert)"

definition grep :: "'e list \<Rightarrow> ('e \<Rightarrow> nat \<Rightarrow> bool) \<Rightarrow> bool \<Rightarrow> 'e list" where
  "grep elems cb invert = grep_from 0 elems cb invert"

text \<open>\<open>map\<close> drops null and undefined results and flattens arrays by one level.\<close>

fun map_each :: "('k \<Rightarrow> 'e \<Rightarrow> ('s, 'f val) handler) \<Rightarrow> ('k \<times> 'e) list \<Rightarrow> ('s, 'f val list) handler" where
  "map_each cb [] = ret []"
| "map_each cb ((k, x) # kxs) = bnd (cb k x) (\<lambda>v. bnd (map_each cb kxs) (\<lambda>vs.
     ret (if nullish v then vs else v # vs)))"

definition flat :: "'f val list \<Rightarrow> 'f val list" where
  "flat vs = concat (map (\<lambda>v. case v of VArr ws \<Rightarrow> ws | _ \<Rightarrow> [v]) vs)"

definition jq_map :: "'f val \<Rightarrow> ('f val \<Rightarrow> 'f val \<Rightarrow> ('s, 'f val) handler) \<Rightarrow> ('s, 'f val list) handler" where
  "jq_map elems cb = bnd (lift (pairs_of elems)) (\<lambda>kxs. bnd (map_each cb kxs) (\<lambda>vs. ret (flat vs)))"

definition isEmptyObject :: "'f val \<Rightarrow> bool" where
  "isEmptyObject v = (entries v = [])"

section \<open>Sets of elements\<close>

text \<open>A jQuery set: its elements and the set it was made from.\<close>

datatype 'e jqset = JQ (elems: "'e list") (prevObject: "'e jqset option")

definition pushStack :: "'e jqset \<Rightarrow> 'e list \<Rightarrow> 'e jqset" where
  "pushStack this es = JQ (merge [] es) (Some this)"

definition get_all :: "'e jqset \<Rightarrow> 'e list" where
  "get_all this = elems this"

definition get_nth :: "'e jqset \<Rightarrow> int \<Rightarrow> 'e option" where
  "get_nth this num =
     (let j = (if num < 0 then num + int (length (elems this)) else num) in
      if 0 \<le> j \<and> j < int (length (elems this)) then Some (elems this ! nat j) else None)"

definition eq_nth :: "'e jqset \<Rightarrow> int \<Rightarrow> 'e jqset" where
  "eq_nth this i =
     (let len = int (length (elems this)); j = i + (if i < 0 then len else 0) in
      pushStack this (if j \<ge> 0 \<and> j < len then [elems this ! nat j] else []))"

definition jq_first :: "'e jqset \<Rightarrow> 'e jqset" where
  "jq_first this = eq_nth this 0"

definition jq_last :: "'e jqset \<Rightarrow> 'e jqset" where
  "jq_last this = eq_nth this (-1)"

definition jq_even :: "'e jqset \<Rightarrow> 'e jqset" where
  "jq_even this = pushStack this (grep (elems this) (\<lambda>_ i. (i + 1) mod 2 \<noteq> 0) False)"

definition jq_odd :: "'e jqset \<Rightarrow> 'e jqset" where
  "jq_odd this = pushStack this (grep (elems this) (\<lambda>_ i. i mod 2 \<noteq> 0) False)"

text \<open>\<open>Array.prototype.slice\<close>\<close>

definition clip :: "int \<Rightarrow> int \<Rightarrow> nat" where
  "clip len i = nat (if i < 0 then max 0 (i + len) else min i len)"

definition js_slice :: "int \<Rightarrow> int option \<Rightarrow> 'e list \<Rightarrow> 'e list" where
  "js_slice i j xs =
     (let len = int (length xs); a = clip len i; b = (case j of None \<Rightarrow> length xs | Some j \<Rightarrow> clip len j)
      in take (b - a) (drop a xs))"

definition jq_slice :: "'e jqset \<Rightarrow> int \<Rightarrow> int option \<Rightarrow> 'e jqset" where
  "jq_slice this i j = pushStack this (js_slice i j (elems this))"

definition jq_end :: "'e jqset \<Rightarrow> 'e jqset" where
  "jq_end this = (case prevObject this of None \<Rightarrow> JQ [] None | Some p \<Rightarrow> p)"

section \<open>What extend does\<close>

lemma distinct_for_in_order: "distinct ts \<Longrightarrow> distinct (for_in_order ts)"
proof -
  assume d: "distinct ts"
  have "inj_on read_nat (set (filter is_index ts))"
    by (rule inj_onI) (metis is_index_def mem_Collect_eq set_filter)
  then have "distinct (map read_nat (filter is_index ts))"
    using d by (simp add: distinct_map)
  then have "distinct (map show_nat (sort (map read_nat (filter is_index ts))))"
    by (simp add: distinct_map inj_on_def)
  moreover have "set (map show_nat (sort (map read_nat (filter is_index ts)))) \<inter> set (filter (\<lambda>t. \<not> is_index t) ts) = {}"
    by (auto simp: is_index_def)
  ultimately show ?thesis using d by (simp only: for_in_order_def distinct_append) simp
qed

lemma distinct_entries: "distinct (map fst kvs) \<Longrightarrow> distinct (map fst (entries (VObj kvs)))"
  by (simp add: entries_def in_order_def comp_def distinct_for_in_order)

text \<open>A loop over properties that writes each at most once.\<close>

lemma fold_props:
  assumes "distinct (map fst es)"
    and "\<And>name copy kvs. f (name, copy) (VObj kvs) =
      (if upd name copy then VObj (set_prop kvs name (g copy (getp (VObj kvs) name))) else VObj kvs)"
  shows "\<exists>kvs'. fold f es (VObj kvs) = VObj kvs' \<and> (\<forall>k. map_of kvs' k =
    (case map_of es k of None \<Rightarrow> map_of kvs k
     | Some c \<Rightarrow> if upd k c then Some (g c (getp (VObj kvs) k)) else map_of kvs k))"
  using assms(1)
proof (induction es arbitrary: kvs)
  case (Cons e es)
  obtain n c where e: "e = (n, c)" by (cases e)
  with Cons.prems have d: "distinct (map fst es)" and n: "map_of es n = None"
    by (auto simp: map_of_eq_None_iff)
  let ?kvs = "if upd n c then set_prop kvs n (g c (getp (VObj kvs) n)) else kvs"
  have "fold f (e # es) (VObj kvs) = fold f es (VObj ?kvs)" by (simp add: e assms(2))
  moreover obtain kvs' where k: "fold f es (VObj ?kvs) = VObj kvs'" "\<forall>k. map_of kvs' k =
    (case map_of es k of None \<Rightarrow> map_of ?kvs k
     | Some c \<Rightarrow> if upd k c then Some (g c (getp (VObj ?kvs) k)) else map_of ?kvs k)"
    using Cons.IH [OF d, of ?kvs] by blast
  moreover have "map_of kvs' m = (case map_of (e # es) m of None \<Rightarrow> map_of kvs m
     | Some c \<Rightarrow> if upd m c then Some (g c (getp (VObj kvs) m)) else map_of kvs m)" for m
    using k(2) n by (cases "m = n") (auto simp: e split: option.split)
  ultimately show ?case by auto
qed simp

definition extended :: "bool \<Rightarrow> 'f val \<Rightarrow> 'f val \<Rightarrow> 'f val" where
  "extended deep src copy =
     (if deep \<and> (isPlainObject copy \<or> isArray copy) then extend_into deep (clone_of src copy) copy else copy)"

lemma extend_into_props:
  assumes "distinct (map fst opts)"
  shows "\<exists>kvs'. extend_into deep (VObj kvs) (VObj opts) = VObj kvs' \<and> (\<forall>k. map_of kvs' k =
    (case map_of opts k of None \<Rightarrow> map_of kvs k
     | Some c \<Rightarrow> if k \<noteq> js ''__proto__'' \<and> \<not> is_undef c then Some (extended deep (getp (VObj kvs) k) c)
        else map_of kvs k))"
proof -
  let ?f = "\<lambda>(name, copy) t.
        if name = js ''__proto__'' then t
        else if deep \<and> (isPlainObject copy \<or> isArray copy)
        then putp t name (extend_into deep (clone_of (getp t name) copy) copy)
        else if \<not> is_undef copy then putp t name copy else t"
  have "?f (name, copy) (VObj kvs) = (if name \<noteq> js ''__proto__'' \<and> \<not> is_undef copy
      then VObj (set_prop kvs name (extended deep (getp (VObj kvs) name) copy)) else VObj kvs)" for name copy kvs
    by (auto simp: extended_def kind_defs split: val.splits)
  from fold_props [OF distinct_entries [OF assms], of ?f
      "\<lambda>name copy. name \<noteq> js ''__proto__'' \<and> \<not> is_undef copy" "\<lambda>c src. extended deep src c", OF this]
  show ?thesis
    by (subst extend_into.simps) (simp add: entries_def)
qed

lemma getp_extend_into:
  assumes "distinct (map fst opts)" and "k \<noteq> js ''__proto__''"
  shows "getp (extend_into deep (VObj kvs) (VObj opts)) k =
    (let src = getp (VObj kvs) k; copy = getp (VObj opts) k
     in if is_undef copy then src else extended deep src copy)"
proof -
  obtain kvs' where "extend_into deep (VObj kvs) (VObj opts) = VObj kvs'" and k: "map_of kvs' k =
    (case map_of opts k of None \<Rightarrow> map_of kvs k
     | Some c \<Rightarrow> if k \<noteq> js ''__proto__'' \<and> \<not> is_undef c then Some (extended deep (getp (VObj kvs) k) c)
        else map_of kvs k)"
    using extend_into_props [OF assms(1)] by blast
  then show ?thesis
    using assms(2) by (auto simp: Let_def kind_defs split: option.splits)
qed

lemma extend_deep: "jq_extend this [VBool True, VObj t, VObj opts] = extend_into True (VObj t) (VObj opts)"
  by (simp add: jq_extend_def nth_val_def as_target_def or_empty_def typeof_def kind_defs)

lemma extend_shallow: "jq_extend this [VObj t, VObj opts] = extend_into False (VObj t) (VObj opts)"
  by (simp add: jq_extend_def nth_val_def as_target_def or_empty_def typeof_def kind_defs)

text \<open>
  After a deep \<open>extend\<close> a property is the source's if that is a plain value, the target's if the
  source has none, and for an object of the source the deep \<open>extend\<close> of what the target had there, or
  of a fresh object if that was no object; a shallow \<open>extend\<close> takes the source's value as it is.
\<close>

theorem extend_lookup:
  assumes "distinct (map fst opts)" and "k \<noteq> js ''__proto__''"
  shows "getp (jq_extend this [VBool True, VObj t, VObj opts]) k =
      (let src = getp (VObj t) k in case getp (VObj opts) k of
         VUndef \<Rightarrow> src
       | VObj c \<Rightarrow> jq_extend this [VBool True, if isPlainObject src then src else VObj [], VObj c]
       | VArr vs \<Rightarrow> extend_into True (if isArray src then src else VArr []) (VArr vs)
       | v \<Rightarrow> v)
    \<and> getp (jq_extend this [VObj t, VObj opts]) k =
      (if is_undef (getp (VObj opts) k) then getp (VObj t) k else getp (VObj opts) k)"
proof -
  have "jq_extend this [VBool True, if isPlainObject src then src else VObj [], VObj c] =
    extend_into True (clone_of src (VObj c)) (VObj c)" for src c
    by (cases src) (simp_all add: clone_of_def kind_defs extend_deep [simplified])
  then have "getp (jq_extend this [VBool True, VObj t, VObj opts]) k =
      (let src = getp (VObj t) k in case getp (VObj opts) k of
         VUndef \<Rightarrow> src
       | VObj c \<Rightarrow> jq_extend this [VBool True, if isPlainObject src then src else VObj [], VObj c]
       | VArr vs \<Rightarrow> extend_into True (if isArray src then src else VArr []) (VArr vs)
       | v \<Rightarrow> v)"
    unfolding extend_deep getp_extend_into [OF assms]
    by (cases "getp (VObj opts) k") (simp_all add: Let_def extended_def clone_of_def kind_defs del: getp_VObj)
  moreover have "getp (jq_extend this [VObj t, VObj opts]) k =
      (if is_undef (getp (VObj opts) k) then getp (VObj t) k else getp (VObj opts) k)"
    unfolding extend_shallow getp_extend_into [OF assms] by (simp add: Let_def extended_def del: getp_VObj)
  ultimately show ?thesis by blast
qed

theorem extend_lookup_witness:
  "getp (jq_extend VUndef [VBool True, VObj [(js ''a'', VInt 1), (js ''b'', VInt 2)],
      VObj [(js ''b'', VObj [(js ''c'', VInt 3)]), (js ''a'', VUndef)] :: nat val]) (js ''b'')
   = VObj [(js ''c'', VInt 3)]"
proof -
  have "distinct (map fst [(js ''b'', VObj [(js ''c'', VInt 3)]), (js ''a'', VUndef :: nat val)])"
    and "js ''b'' \<noteq> js ''__proto__''" by simp_all
  note ex = extend_lookup [THEN conjunct1, OF this, of VUndef "[(js ''a'', VInt 1), (js ''b'', VInt 2)]"]
  have "extend_into True (VObj []) (VObj [(js ''c'', VInt 3 :: nat val)]) = VObj [(js ''c'', VInt 3)]"
    by (subst extend_into.simps) (simp add: entries_def in_order_def for_in_order_def is_index_def kind_defs)
  with ex show ?thesis by (simp add: Let_def kind_defs extend_deep)
qed

end
