(* ===== verification/JqCallbacks.thy ===== *)
theory JqCallbacks
  imports JsPrelude
begin

text \<open>
  \<open>html/jquery-3.6.1.js\<close>, \<open>jQuery.Callbacks\<close>: the callback lists that deferreds and requests are
  made of.

  The code of a list is split where it calls a callback: \<open>advance\<close> runs the loops of \<open>fire\<close> up to the
  next call, \<open>returned\<close> is what happens with the value of a call.  A machine puts the parts together: its
  stack holds what is left to run, so that a callback may use any list, also the one that is calling
  it, before it returns or throws.  What a callback does is the parameter \<open>body\<close>.
\<close>

section \<open>A list and its operations\<close>

record ('f, 'a) cblist =
  o_once :: bool
  o_memory :: bool
  o_unique :: bool
  o_stopOnFalse :: bool
  firing :: bool
  memory :: "'a option"
  fired :: bool
  locked :: bool
  items :: "'f list option"
  queue :: "'a list"
  index :: int

text \<open>
  \<open>createOptions\<close>: the words of the options text become flags.  White space is that of HTML.
\<close>

definition html_white :: "jschar \<Rightarrow> bool" where
  "html_white c \<longleftrightarrow> c \<in> {0x20, 9, 13, 10, 12}"

function words :: "jstr \<Rightarrow> jstr list" where
  "words [] = []"
| "words (c # s) =
     (if html_white c then words s
      else (c # takeWhile (\<lambda>d. \<not> html_white d) s) # words (dropWhile (\<lambda>d. \<not> html_white d) s))"
  by pat_completeness auto
termination
  by (relation "measure length") (auto simp: le_imp_less_Suc length_dropWhile_le)

definition createOptions :: "jstr \<Rightarrow> jstr \<Rightarrow> bool" where
  "createOptions opts flag \<longleftrightarrow> flag \<in> set (words opts)"

definition Callbacks :: "(jstr \<Rightarrow> bool) \<Rightarrow> ('f, 'a) cblist" where
  "Callbacks opts = \<lparr>o_once = opts (js ''once''), o_memory = opts (js ''memory''),
     o_unique = opts (js ''unique''), o_stopOnFalse = opts (js ''stopOnFalse''),
     firing = False, memory = None, fired = False, locked = False, items = Some [], queue = [],
     index = -1\<rparr>"

text \<open>The text \<open>list\<close> when it is the empty string, and the list otherwise.\<close>

definition the_items :: "('f, 'a) cblist \<Rightarrow> 'f list" where
  "the_items c = (case items c of None \<Rightarrow> [] | Some xs \<Rightarrow> xs)"

text \<open>The end of \<open>fire\<close>.\<close>

definition finish :: "('f, 'a) cblist \<Rightarrow> ('f, 'a) cblist" where
  "finish c =
     (let c1 = (if o_memory c then c else c\<lparr>memory := None\<rparr>);
          c2 = c1\<lparr>firing := False\<rparr>
      in if locked c2 then c2\<lparr>items := (if memory c2 \<noteq> None then Some [] else None)\<rparr> else c2)"

text \<open>
  The loops of \<open>fire\<close> up to the next call: the function to call with the arguments, or None when
  the firing is over.
\<close>

function advance :: "('f, 'a) cblist \<Rightarrow> ('f \<times> 'a option) option \<times> ('f, 'a) cblist" where
  "advance c =
     (let i = index c + 1 in
      if i < int (length (the_items c)) then
        (Some (the_items c ! nat i, memory c), c\<lparr>index := i\<rparr>)
      else case queue c of
          [] \<Rightarrow> (None, finish (c\<lparr>index := -1\<rparr>))
        | a # q \<Rightarrow> advance (c\<lparr>index := -1, memory := Some a, queue := q\<rparr>))"
  by pat_completeness auto
termination
  by (relation "measure (\<lambda>c. length (queue c))") auto

declare advance.simps [simp del]

text \<open>The start of \<open>fire\<close>.\<close>

definition fire_start :: "('f, 'a) cblist \<Rightarrow> ('f \<times> 'a option) option \<times> ('f, 'a) cblist" where
  "fire_start c =
     (let c1 = c\<lparr>locked := locked c \<or> o_once c, fired := True, firing := True\<rparr> in
      case queue c1 of
        [] \<Rightarrow> (None, finish c1)
      | a # q \<Rightarrow> advance (c1\<lparr>memory := Some a, queue := q\<rparr>))"

definition returned :: "bool \<Rightarrow> ('f, 'a) cblist \<Rightarrow> ('f, 'a) cblist" where
  "returned is_false c =
     (if is_false \<and> o_stopOnFalse c
      then c\<lparr>index := int (length (the_items c)), memory := None\<rparr> else c)"

text \<open>The arguments of \<open>add\<close>: functions, nested arrays of them, and values it ignores.\<close>

datatype 'f cbarg = Fn 'f | Args "'f cbarg list" | Other

fun fns_of :: "'f cbarg \<Rightarrow> 'f list" where
  "fns_of (Fn f) = [f]"
| "fns_of (Args as) = concat (map fns_of as)"
| "fns_of Other = []"

definition has :: "('f, 'a) cblist \<Rightarrow> 'f \<Rightarrow> bool" where
  "has c f \<longleftrightarrow> f \<in> set (the_items c)"

definition push_item :: "'f \<Rightarrow> ('f, 'a) cblist \<Rightarrow> ('f, 'a) cblist" where
  "push_item f c = (if \<not> o_unique c \<or> \<not> has c f then c\<lparr>items := Some (the_items c @ [f])\<rparr> else c)"

text \<open>The flag says whether \<open>fire\<close> is to be called.\<close>

definition cb_add :: "'f cbarg list \<Rightarrow> ('f, 'a) cblist \<Rightarrow> bool \<times> ('f, 'a) cblist" where
  "cb_add args c =
     (case items c of None \<Rightarrow> (False, c)
      | Some xs \<Rightarrow>
          let c1 = (case memory c of Some a \<Rightarrow>
                      if \<not> firing c then c\<lparr>index := int (length xs) - 1, queue := queue c @ [a]\<rparr> else c
                    | None \<Rightarrow> c);
              c2 = fold push_item (fns_of (Args args)) c1
          in (memory c2 \<noteq> None \<and> \<not> firing c2, c2))"

text \<open>The loop of \<open>remove\<close> for one function, from position \<open>k\<close>.\<close>

function remove_from :: "nat \<Rightarrow> 'f \<Rightarrow> 'f list \<Rightarrow> int \<Rightarrow> 'f list \<times> int" where
  "remove_from k f xs i =
     (if k < length xs then
        if xs ! k = f
        then remove_from k f (take k xs @ drop (Suc k) xs) (if int k \<le> i then i - 1 else i)
        else remove_from (Suc k) f xs i
      else (xs, i))"
  by pat_completeness auto
termination
  by (relation "measures [\<lambda>(k, f, xs, i). length xs, \<lambda>(k, f, xs, i). length xs - k]") auto

declare remove_from.simps [simp del]

definition cb_remove1 :: "'f \<Rightarrow> ('f, 'a) cblist \<Rightarrow> ('f, 'a) cblist" where
  "cb_remove1 f c = (case items c of None \<Rightarrow> c
     | Some xs \<Rightarrow> (case remove_from 0 f xs (index c) of (ys, i) \<Rightarrow> c\<lparr>items := Some ys, index := i\<rparr>))"

definition cb_remove :: "'f list \<Rightarrow> ('f, 'a) cblist \<Rightarrow> ('f, 'a) cblist" where
  "cb_remove fs c = fold cb_remove1 fs c"

definition cb_empty :: "('f, 'a) cblist \<Rightarrow> ('f, 'a) cblist" where
  "cb_empty c = (if items c \<noteq> None then c\<lparr>items := Some []\<rparr> else c)"

definition cb_disable :: "('f, 'a) cblist \<Rightarrow> ('f, 'a) cblist" where
  "cb_disable c = c\<lparr>locked := True, queue := [], items := None, memory := None\<rparr>"

definition cb_lock :: "('f, 'a) cblist \<Rightarrow> ('f, 'a) cblist" where
  "cb_lock c =
     (let c1 = c\<lparr>locked := True, queue := []\<rparr> in
      if memory c1 = None \<and> \<not> firing c1 then c1\<lparr>items := None, memory := None\<rparr> else c1)"

definition cb_fireWith :: "'a \<Rightarrow> ('f, 'a) cblist \<Rightarrow> bool \<times> ('f, 'a) cblist" where
  "cb_fireWith a c = (if locked c then (False, c)
     else (let c1 = c\<lparr>queue := queue c @ [a]\<rparr> in (\<not> firing c1, c1)))"

section \<open>The machine\<close>

text \<open>
  Operations on a family of lists, and \<open>Note\<close>, an assignment to a variable outside the lists.  A call
  ends by returning (the flag: whether \<open>false\<close>) or by throwing.
\<close>

datatype ('l, 'f, 'a, 'x) cbop =
    Add 'l "'f cbarg list"
  | Remove 'l "'f list"
  | Empty 'l
  | Disable 'l
  | Lock 'l
  | FireWith 'l 'a
  | Note 'x

datatype outcome = Returns bool | Throws

text \<open>What is left to run: an operation, or the end of a call from a list and the rest of its firing.\<close>

datatype ('l, 'f, 'a, 'x) task =
    Op "('l, 'f, 'a, 'x) cbop"
  | End 'l outcome

record ('l, 'f, 'a, 'x) cbworld =
  lists :: "'l \<Rightarrow> ('f, 'a) cblist"
  var :: 'x
  calls :: "('l \<times> 'f \<times> 'a option) list"

type_synonym ('l, 'f, 'a, 'x) behaviour =
  "'f \<Rightarrow> 'a option \<Rightarrow> 'x \<Rightarrow> ('l, 'f, 'a, 'x) cbop list \<times> outcome"

definition on_list :: "'l \<Rightarrow> (('f, 'a) cblist \<Rightarrow> ('f, 'a) cblist) \<Rightarrow>
    ('l, 'f, 'a, 'x) cbworld \<Rightarrow> ('l, 'f, 'a, 'x) cbworld" where
  "on_list l g w = w\<lparr>lists := (lists w)(l := g (lists w l))\<rparr>"

text \<open>A firing that goes on: call the next function, or be done.\<close>

definition go_on :: "('l, 'f, 'a, 'x) behaviour \<Rightarrow> 'l \<Rightarrow> ('f \<times> 'a option) option \<times> ('f, 'a) cblist \<Rightarrow>
    ('l, 'f, 'a, 'x) cbworld \<Rightarrow> ('l, 'f, 'a, 'x) task list \<times> ('l, 'f, 'a, 'x) cbworld" where
  "go_on body l r w = (case r of
       (None, c) \<Rightarrow> ([], on_list l (\<lambda>_. c) w)
     | (Some (f, a), c) \<Rightarrow> (case body f a (var w) of (ops, out) \<Rightarrow>
         (map Op ops @ [End l out], (on_list l (\<lambda>_. c) w)\<lparr>calls := calls w @ [(l, f, a)]\<rparr>)))"

fun run_op :: "('l, 'f, 'a, 'x) behaviour \<Rightarrow> ('l, 'f, 'a, 'x) cbop \<Rightarrow> ('l, 'f, 'a, 'x) cbworld \<Rightarrow>
    ('l, 'f, 'a, 'x) task list \<times> ('l, 'f, 'a, 'x) cbworld" where
  "run_op body (Add l args) w = (case cb_add args (lists w l) of (go, c) \<Rightarrow>
     if go then go_on body l (fire_start c) w else ([], on_list l (\<lambda>_. c) w))"
| "run_op body (Remove l fs) w = ([], on_list l (cb_remove fs) w)"
| "run_op body (Empty l) w = ([], on_list l cb_empty w)"
| "run_op body (Disable l) w = ([], on_list l cb_disable w)"
| "run_op body (Lock l) w = ([], on_list l cb_lock w)"
| "run_op body (FireWith l a) w = (case cb_fireWith a (lists w l) of (go, c) \<Rightarrow>
     if go then go_on body l (fire_start c) w else ([], on_list l (\<lambda>_. c) w))"
| "run_op body (Note x) w = ([], w\<lparr>var := x\<rparr>)"

text \<open>One step.  A throw leaves all that was still to run.\<close>

fun cb_step :: "('l, 'f, 'a, 'x) behaviour \<Rightarrow> ('l, 'f, 'a, 'x) task list \<times> ('l, 'f, 'a, 'x) cbworld \<Rightarrow>
    ('l, 'f, 'a, 'x) task list \<times> ('l, 'f, 'a, 'x) cbworld" where
  "cb_step body ([], w) = ([], w)"
| "cb_step body (Op p # ts, w) = (case run_op body p w of (new, w') \<Rightarrow> (new @ ts, w'))"
| "cb_step body (End l (Returns b) # ts, w) =
     (case go_on body l (advance (returned b (lists w l))) w of (new, w') \<Rightarrow> (new @ ts, w'))"
| "cb_step body (End l Throws # ts, w) = ([], w)"

definition cb_run :: "('l, 'f, 'a, 'x) behaviour \<Rightarrow> nat \<Rightarrow> ('l, 'f, 'a, 'x) cbop list \<Rightarrow>
    ('l, 'f, 'a, 'x) cbworld \<Rightarrow> ('l, 'f, 'a, 'x) task list \<times> ('l, 'f, 'a, 'x) cbworld" where
  "cb_run body n ops w = (cb_step body ^^ n) (map Op ops, w)"

section \<open>Firing a list of quiet functions\<close>

definition idle :: "('f, 'a) cblist \<Rightarrow> bool" where
  "idle c \<longleftrightarrow> \<not> firing c \<and> queue c = [] \<and> index c = -1"

lemma idle_Callbacks: "idle (Callbacks opts)"
  by (simp add: idle_def Callbacks_def)

definition quiet :: "('l, 'f, 'a, 'x) behaviour \<Rightarrow> ('f, 'a) cblist \<Rightarrow> 'a option \<Rightarrow> 'x \<Rightarrow> 'f \<Rightarrow> bool" where
  "quiet body c a x f \<longleftrightarrow> (\<exists>b. body f a x = ([], Returns b) \<and> (b \<longrightarrow> \<not> o_stopOnFalse c))"

lemma returned_quiet: "(b \<longrightarrow> \<not> o_stopOnFalse c) \<Longrightarrow> returned b c = c"
  by (auto simp: returned_def)

lemma lists_on_list [simp]:
  "lists (on_list l g w) l = g (lists w l)" "m \<noteq> l \<Longrightarrow> lists (on_list l g w) m = lists w m"
  "var (on_list l g w) = var w" "calls (on_list l g w) = calls w"
  by (simp_all add: on_list_def)

lemma on_list_twice [simp]: "on_list l (\<lambda>_. c) (on_list l (\<lambda>_. d) w) = on_list l (\<lambda>_. c) w"
  by (simp add: on_list_def)

lemma on_list_calls [simp]: "on_list l g (w\<lparr>calls := k\<rparr>) = (on_list l g w)\<lparr>calls := k\<rparr>"
  by (simp add: on_list_def)

lemma nth_advance:
  assumes "items c = Some xs" and "index c = int k - 1" and "k < length xs"
  shows "advance c = (Some (xs ! k, memory c), c\<lparr>index := int k\<rparr>)"
  using assms by (subst advance.simps) (simp add: the_items_def Let_def)

lemma end_advance:
  assumes "items c = Some xs" and "index c = int (length xs) - 1" and "queue c = []"
  shows "advance c = (None, finish (c\<lparr>index := -1\<rparr>))"
  using assms by (subst advance.simps) (simp add: the_items_def Let_def)

text \<open>
  A firing in progress over quiet functions calls the functions from position \<open>k\<close> on, in order, and
  ends: one step per call.
\<close>

lemma quiet_firing:
  assumes "items c = Some xs" and "index c = int k - 1" and "queue c = []" and "k \<le> length xs"
    and "\<forall>f \<in> set xs. quiet body c (memory c) (var w) f"
  shows "\<exists>new w'. go_on body l (advance c) w = (new, w') \<and>
    (cb_step body ^^ (length xs - k)) (new @ ts, w') =
      (ts, (on_list l (\<lambda>_. finish (c\<lparr>index := -1\<rparr>)) w)
          \<lparr>calls := calls w @ map (\<lambda>f. (l, f, memory c)) (drop k xs)\<rparr>)"
  using assms
proof (induction "length xs - k" arbitrary: k c w)
  case 0
  then have "advance c = (None, finish (c\<lparr>index := -1\<rparr>))" by (intro end_advance) auto
  with 0 show ?case by (simp add: go_on_def on_list_def)
next
  case (Suc n)
  then have k: "k < length xs" and n: "n = length xs - Suc k" by simp_all
  let ?f = "xs ! k"
  let ?c = "c\<lparr>index := int k\<rparr>"
  have "quiet body c (memory c) (var w) ?f" using Suc.prems(5) k by simp
  then obtain b where b: "body ?f (memory c) (var w) = ([], Returns b)" "b \<longrightarrow> \<not> o_stopOnFalse c"
    by (auto simp: quiet_def)
  let ?w = "(on_list l (\<lambda>_. ?c) w)\<lparr>calls := calls w @ [(l, ?f, memory c)]\<rparr>"
  have adv: "advance c = (Some (?f, memory c), ?c)"
    using Suc.prems(1,2) k by (rule nth_advance)
  have go: "go_on body l (advance c) w = ([End l (Returns b)], ?w)"
    unfolding adv using b(1) by (simp add: go_on_def)
  have ret: "returned b (lists ?w l) = ?c" using b(2) by (simp add: returned_quiet)
  have "\<forall>f \<in> set xs. quiet body ?c (memory ?c) (var ?w) f"
    using Suc.prems(5) by (simp add: quiet_def)
  then obtain new w' where nw: "go_on body l (advance ?c) ?w = (new, w')"
    "(cb_step body ^^ (length xs - Suc k)) (new @ ts, w') =
      (ts, (on_list l (\<lambda>_. finish (?c\<lparr>index := -1\<rparr>)) ?w)
          \<lparr>calls := calls ?w @ map (\<lambda>f. (l, f, memory ?c)) (drop (Suc k) xs)\<rparr>)"
    using Suc.hyps(1) [OF n, of ?c ?w] Suc.prems k by auto
  have "cb_step body ([End l (Returns b)] @ ts, ?w) = (new @ ts, w')"
    using nw(1) ret by simp
  then have "(cb_step body ^^ (length xs - k)) ([End l (Returns b)] @ ts, ?w) =
      (cb_step body ^^ n) (new @ ts, w')"
    unfolding Suc.hyps(2) [symmetric] funpow_Suc_right comp_def by simp
  also have "\<dots> = (ts, (on_list l (\<lambda>_. finish (c\<lparr>index := -1\<rparr>)) w)
          \<lparr>calls := calls w @ map (\<lambda>f. (l, f, memory c)) (drop k xs)\<rparr>)"
    using nw(2) n k by (simp add: Cons_nth_drop_Suc [symmetric])
  finally show ?case using go by simp
qed

section \<open>Firing, adding, throwing\<close>

definition after_fire :: "'a \<Rightarrow> ('f, 'a) cblist \<Rightarrow> ('f, 'a) cblist" where
  "after_fire a c = c\<lparr>fired := True, locked := locked c \<or> o_once c,
     memory := (if o_memory c then Some a else None),
     items := (if \<not> locked c \<and> \<not> o_once c then items c else if o_memory c then Some [] else None)\<rparr>"

lemma finish_after_fire:
  "idle c \<Longrightarrow> finish (c\<lparr>locked := locked c \<or> o_once c, fired := True, firing := True, memory := Some a,
      queue := [], index := -1\<rparr>) = after_fire a c"
  by (cases c) (auto simp: finish_def after_fire_def idle_def Let_def)

lemma cb_run_Suc: "cb_run body (Suc n) (p # ops) w =
    (cb_step body ^^ n) (cb_step body (Op p # map Op ops, w))"
  by (simp only: cb_run_def funpow_Suc_right comp_def list.map)

text \<open>The first call of a firing of an idle list from position \<open>k\<close>.\<close>

definition begun :: "('f, 'a) cblist \<Rightarrow> 'a \<Rightarrow> nat \<Rightarrow> ('f, 'a) cblist" where
  "begun c a k = c\<lparr>locked := locked c \<or> o_once c, fired := True, firing := True, memory := Some a,
     queue := [], index := int k - 1\<rparr>"

lemma quiet_begun: "quiet body c b x f \<Longrightarrow> quiet body (begun c a k) b x f"
  by (simp add: quiet_def begun_def)

lemma begun_firing:
  assumes "idle c" and "items c = Some xs" and "k \<le> length xs"
    and "\<forall>f \<in> set xs. quiet body c (Some a) (var w) f"
  shows "\<exists>new w'. go_on body l (advance (begun c a k)) w = (new, w') \<and>
    (cb_step body ^^ (length xs - k)) (new @ ts, w') =
      (ts, (on_list l (\<lambda>_. after_fire a c) w)
          \<lparr>calls := calls w @ map (\<lambda>f. (l, f, Some a)) (drop k xs)\<rparr>)"
proof -
  have b: "items (begun c a k) = Some xs" "index (begun c a k) = int k - 1" "queue (begun c a k) = []"
    "memory (begun c a k) = Some a"
    using assms(2) by (simp_all add: begun_def)
  have q: "\<forall>f \<in> set xs. quiet body (begun c a k) (memory (begun c a k)) (var w) f"
    using assms(4) b(4) by (simp add: quiet_begun)
  have e: "finish ((begun c a k)\<lparr>index := -1\<rparr>) = after_fire a c"
    using finish_after_fire [OF assms(1), of a] by (simp add: begun_def)
  show ?thesis
    using quiet_firing [OF b(1,2,3) assms(3) q, of l ts] unfolding e b(4) .
qed


lemma fold_push_items:
  "items c = Some xs \<Longrightarrow> \<not> o_unique c \<Longrightarrow> fold push_item fs c = c\<lparr>items := Some (xs @ fs)\<rparr>"
proof (induction fs arbitrary: c xs)
  case Nil
  then show ?case by (cases c) simp
next
  case (Cons f fs)
  have "push_item f c = c\<lparr>items := Some (xs @ [f])\<rparr>"
    using Cons.prems by (simp add: push_item_def the_items_def)
  then show ?case using Cons.IH [of "c\<lparr>items := Some (xs @ [f])\<rparr>" "xs @ [f]"] Cons.prems by simp
qed

text \<open>
  Adding functions to a list that remembers a firing calls the added functions, and only these, at
  once, in order, with the remembered arguments.
\<close>

theorem add_after_fire:
  assumes "idle (lists w l)" and "memory (lists w l) = Some a" and "items (lists w l) = Some xs"
    and "\<not> o_unique (lists w l)" and "o_memory (lists w l)"
    and "\<forall>f \<in> set (xs @ fns_of (Args args)). quiet body (lists w l) (Some a) (var w) f"
  shows "\<exists>c. cb_run body (Suc (length (fns_of (Args args)))) [Add l args] w =
    ([], w\<lparr>lists := (lists w)(l := c), calls := calls w @ map (\<lambda>f. (l, f, Some a)) (fns_of (Args args))\<rparr>)
    \<and> idle c \<and> memory c = Some a"
proof -
  let ?c = "lists w l"
  let ?fs = "fns_of (Args args)"
  let ?d = "?c\<lparr>items := Some (xs @ ?fs)\<rparr>"
  have idle: "idle ?d" using assms(1) by (simp add: idle_def)
  have c1: "cb_add args ?c = (True, ?c\<lparr>index := int (length xs) - 1, queue := [a], items := Some (xs @ ?fs)\<rparr>)"
    using assms(1-4) fold_push_items [of "?c\<lparr>index := int (length xs) - 1, queue := queue ?c @ [a]\<rparr>" xs ?fs]
    by (simp add: cb_add_def idle_def Let_def)
  have start: "fire_start (?c\<lparr>index := int (length xs) - 1, queue := [a], items := Some (xs @ ?fs)\<rparr>)
      = advance (begun ?d a (length xs))"
    by (simp add: fire_start_def begun_def Let_def) (cases ?c; simp)
  have q: "\<forall>f \<in> set (xs @ ?fs). quiet body ?d (Some a) (var w) f"
    using assms(6) by (simp add: quiet_def)
  from begun_firing [OF idle _ _ q, of "length xs" l "[]"] obtain new w' where
    n: "go_on body l (advance (begun ?d a (length xs))) w = (new, w')"
      "(cb_step body ^^ length ?fs) (new, w') =
        ([], (on_list l (\<lambda>_. after_fire a ?d) w)\<lparr>calls := calls w @ map (\<lambda>f. (l, f, Some a)) ?fs\<rparr>)"
    by auto
  have "cb_step body ([Op (Add l args)], w) = (new, w')"
    using n(1) start c1 by simp
  then have "cb_run body (Suc (length ?fs)) [Add l args] w =
      ([], w\<lparr>lists := (lists w)(l := after_fire a ?d), calls := calls w @ map (\<lambda>f. (l, f, Some a)) ?fs\<rparr>)"
    using n(2) by (simp add: cb_run_Suc on_list_def)
  moreover have "idle (after_fire a ?d)" "memory (after_fire a ?d) = Some a"
    using assms(1,5) by (simp_all add: after_fire_def idle_def)
  ultimately show ?thesis by blast
qed

lemma blocked_fires:
  assumes "firing (lists w l)"
  shows "calls (snd (cb_run body n (map (FireWith l) bs) w)) = calls w"
  using assms
proof (induction n arbitrary: bs w)
  case 0
  then show ?case by (simp add: cb_run_def)
next
  case (Suc n)
  show ?case
  proof (cases bs)
    case Nil
    have "(cb_step body ^^ k) ([], w) = ([], w)" for k by (induction k) simp_all
    then show ?thesis using Nil by (simp add: cb_run_def)
  next
    case (Cons b bs')
    let ?w = "on_list l (\<lambda>_. snd (cb_fireWith b (lists w l))) w"
    have f: "firing (lists ?w l)" using Suc.prems by (simp add: cb_fireWith_def Let_def)
    have "cb_step body (Op (FireWith l b) # map Op (map (FireWith l) bs'), w) = (map Op (map (FireWith l) bs'), ?w)"
      using Suc.prems by (simp add: cb_fireWith_def Let_def)
    then have "cb_run body (Suc n) (map (FireWith l) bs) w = cb_run body n (map (FireWith l) bs') ?w"
      using Cons by (simp only: list.map cb_run_Suc) (simp add: cb_run_def)
    then show ?thesis using Suc.IH [OF f, of bs'] by simp
  qed
qed

text \<open>
  C37. A function that throws blocks its list for good: the functions after it are not called, the
  list stays marked as firing, and every later firing only queues its arguments and calls nothing.
\<close>

theorem throw_blocks_list:
  assumes "idle (lists w l)" and "\<not> locked (lists w l)" and "items (lists w l) = Some (f # fs)"
    and "body f (Some a) (var w) = ([], Throws)"
  shows "\<exists>w'. cb_run body 2 [FireWith l a] w = ([], w') \<and> calls w' = calls w @ [(l, f, Some a)]
    \<and> firing (lists w' l) \<and> (\<forall>bs n. calls (snd (cb_run body n (map (FireWith l) bs) w')) = calls w')"
proof -
  let ?c = "lists w l"
  have start: "fire_start (?c\<lparr>queue := queue ?c @ [a]\<rparr>) = advance (begun ?c a 0)"
    using assms(1) by (simp add: fire_start_def begun_def idle_def Let_def) (cases ?c; simp)
  have adv: "advance (begun ?c a 0) = (Some (f, Some a), (begun ?c a 0)\<lparr>index := 0\<rparr>)"
    using assms(3) by (subst nth_advance [where k = 0 and xs = "f # fs"]) (simp_all add: begun_def)
  let ?w = "(on_list l (\<lambda>_. (begun ?c a 0)\<lparr>index := 0\<rparr>) w)\<lparr>calls := calls w @ [(l, f, Some a)]\<rparr>"
  have "cb_step body ([Op (FireWith l a)], w) = ([End l Throws], ?w)"
    using assms(1,2,4) start adv by (simp add: cb_fireWith_def idle_def Let_def go_on_def)
  then have "cb_run body 2 [FireWith l a] w = ([], ?w)"
    by (simp add: numeral_2_eq_2 cb_run_Suc)
  moreover have "firing (lists ?w l)" by (simp add: begun_def)
  ultimately show ?thesis using blocked_fires [of ?w l] by (intro exI [of _ ?w]) simp
qed

definition sample_world :: "(unit, nat, nat, unit) cbworld" where
  "sample_world = \<lparr>lists = (\<lambda>_. (Callbacks (createOptions (js ''once memory'')))\<lparr>items := Some [3, 5]\<rparr>), var = (), calls = []\<rparr>"

definition silent :: "(unit, nat, nat, unit) behaviour" where
  "silent f a x = (if f = 9 then ([], Throws) else ([], Returns False))"

lemma sample_facts:
  "idle (lists sample_world l)" "\<not> locked (lists sample_world l)" "items (lists sample_world l) = Some [3, 5]"
  "quiet silent c a x 3" "quiet silent c a x 5" "quiet silent c a x 7" "memory (lists sample_world l) = None"
  "\<not> o_unique (lists sample_world l)" "o_memory (lists sample_world l)" "o_once (lists sample_world l)"
  by (auto simp: sample_world_def idle_def Callbacks_def quiet_def silent_def createOptions_def html_white_def js_def)


theorem add_after_fire_witness:
  "calls (snd (cb_run silent 2 [Add () [Fn 7]]
     (sample_world\<lparr>lists := \<lambda>l. (lists sample_world l)\<lparr>memory := Some 4, items := Some []\<rparr>\<rparr>))) = [((), 7, Some 4)]"
proof -
  let ?w = "sample_world\<lparr>lists := \<lambda>l. (lists sample_world l)\<lparr>memory := Some 4, items := Some []\<rparr>\<rparr>"
  have "idle (lists ?w ())" "memory (lists ?w ()) = Some 4" "items (lists ?w ()) = Some []"
    "\<not> o_unique (lists ?w ())" "o_memory (lists ?w ())"
    "\<forall>f \<in> set ([] @ fns_of (Args [Fn 7])). quiet silent (lists ?w ()) (Some 4) (var ?w) f"
    using sample_facts by (auto simp: idle_def quiet_def silent_def)
  from add_after_fire [of ?w "()", OF this] show ?thesis by (auto simp: sample_world_def numeral_2_eq_2)
qed

theorem throw_blocks_list_witness:
  "\<exists>w'. cb_run silent 2 [FireWith () 4]
      (sample_world\<lparr>lists := \<lambda>l. (lists sample_world l)\<lparr>items := Some [9, 3], o_once := False\<rparr>\<rparr>) = ([], w')
    \<and> calls w' = [((), 9, Some 4)] \<and> calls (snd (cb_run silent 9 [FireWith () 1, FireWith () 2] w')) = calls w'"
proof -
  let ?w = "sample_world\<lparr>lists := \<lambda>l. (lists sample_world l)\<lparr>items := Some [9, 3], o_once := False\<rparr>\<rparr>"
  have "idle (lists ?w ())" "\<not> locked (lists ?w ())" "items (lists ?w ()) = Some (9 # [3])"
    "silent 9 (Some 4) (var ?w) = ([], Throws)"
    using sample_facts by (simp_all add: idle_def silent_def)
  from throw_blocks_list [of ?w "()" 9 "[3]" silent 4, OF this] obtain w' where w': "cb_run silent 2 [FireWith () 4] ?w = ([], w')"
    "calls w' = [((), 9, Some 4)]" "\<forall>bs n. calls (snd (cb_run silent n (map (FireWith ()) bs) w')) = calls w'"
    by (auto simp: sample_world_def)
  from w'(3) have "calls (snd (cb_run silent 9 (map (FireWith ()) [1, 2]) w')) = calls w'" by blast
  with w' show ?thesis by auto
qed

section \<open>A list that fires once\<close>

text \<open>
  What a list that may fire once looks like before its firing, and from its firing with \<open>a\<close> on.
\<close>

definition fresh :: "('f, 'a) cblist \<Rightarrow> bool" where
  "fresh c \<longleftrightarrow> \<not> fired c \<and> \<not> firing c \<and> memory c = None \<and> queue c = [] \<and> index c \<ge> -1"

definition spent :: "'a \<Rightarrow> ('f, 'a) cblist \<Rightarrow> bool" where
  "spent a c \<longleftrightarrow> fired c \<and> locked c \<and> queue c = [] \<and> index c \<ge> -1
     \<and> (memory c = Some a \<or> memory c = None \<and> items c = None)"

text \<open>The calls so far that came from the list \<open>l\<close>.\<close>

definition calls_of :: "'l \<Rightarrow> ('l \<times> 'f \<times> 'a option) list \<Rightarrow> ('f \<times> 'a option) list" where
  "calls_of l cs = map snd (filter (\<lambda>(m, _). m = l) cs)"

lemma calls_of_append [simp]: "calls_of l (cs @ ds) = calls_of l cs @ calls_of l ds"
  and calls_of_one [simp]: "calls_of l [(m, fx)] = (if m = l then [fx] else [])"
  by (simp_all add: calls_of_def)

definition once_ok :: "('f, 'a) cblist \<Rightarrow> ('f \<times> 'a option) list \<Rightarrow> bool" where
  "once_ok c cs \<longleftrightarrow> o_once c \<and> (fresh c \<and> cs = [] \<or> (\<exists>a. spent a c \<and> (\<forall>(f, x) \<in> set cs. x = Some a)))"

lemma once_okI: "o_once c \<Longrightarrow> spent a c \<Longrightarrow> \<forall>(f, x) \<in> set cs. x = Some a \<Longrightarrow> once_ok c cs"
  by (auto simp: once_ok_def)

text \<open>The options of a list never change.\<close>

definition same_options :: "('f, 'a) cblist \<Rightarrow> ('f, 'a) cblist \<Rightarrow> bool" where
  "same_options c d \<longleftrightarrow> o_once d = o_once c \<and> o_memory d = o_memory c \<and> o_unique d = o_unique c
     \<and> o_stopOnFalse d = o_stopOnFalse c"

lemma options_finish: "same_options c (finish c)"
  by (simp add: same_options_def finish_def Let_def)

lemma options_advance: "same_options c (snd (advance c))"
proof (induction c rule: advance.induct)
  case (1 c)
  then show ?case
    by (subst advance.simps)
       (auto simp: Let_def same_options_def finish_def split: list.split)
qed

text \<open>The loops of \<open>fire\<close> on a spent list call with the arguments of its firing, or end spent.\<close>

definition spending :: "'a \<Rightarrow> ('f, 'a) cblist \<Rightarrow> bool" where
  "spending a c \<longleftrightarrow> fired c \<and> locked c \<and> queue c = [] \<and> index c \<ge> -1 \<and>
     (memory c = Some a \<or> memory c = None \<and> (items c = None \<or> index c \<ge> int (length (the_items c))))"

lemma spending_advance:
  assumes "spending a c"
  shows "case advance c of (None, d) \<Rightarrow> spent a d | (Some (f, x), d) \<Rightarrow> x = Some a \<and> spent a d"
proof (cases "index c + 1 < int (length (the_items c))")
  case True
  then have "memory c = Some a" using assms by (auto simp: spending_def the_items_def)
  with True assms show ?thesis
    by (subst advance.simps) (simp add: Let_def spending_def spent_def)
next
  case False
  with assms show ?thesis
    by (subst advance.simps) (auto simp: Let_def spending_def spent_def finish_def)
qed

lemma spent_returned: "spent a c \<Longrightarrow> spending a (returned b c)"
  by (auto simp: spent_def spending_def returned_def the_items_def)

lemma fire_start_spending:
  assumes "o_once c \<or> locked c" and "queue c = [a]" and "index c \<ge> -1"
  shows "\<exists>d. fire_start c = advance d \<and> spending a d \<and> o_once d = o_once c"
  using assms by (auto simp: fire_start_def Let_def spending_def)

lemma go_on_None:
  "go_on body l (None, c) w = ([], on_list l (\<lambda>_. c) w)"
  by (simp add: go_on_def)

lemma go_on_Some:
  "go_on body l (Some (f, x), c) w =
    (map Op (fst (body f x (var w))) @ [End l (snd (body f x (var w)))],
     (on_list l (\<lambda>_. c) w)\<lparr>calls := calls w @ [(l, f, x)]\<rparr>)"
  by (simp add: go_on_def split: prod.split)

text \<open>A firing of a spent list leaves it spent, and only its ends are new.\<close>

definition ends_ok :: "('l, 'f, 'a, 'x) task list \<Rightarrow> ('l, 'f, 'a, 'x) cbworld \<Rightarrow> bool" where
  "ends_ok ts w \<longleftrightarrow> (\<forall>l out. End l out \<in> set ts \<longrightarrow> fired (lists w l))"

lemma once_go_on:
  assumes "go_on body l (advance d) w = (new, w')" and "spending a d" and "o_once d"
    and "\<forall>(f, x) \<in> set (calls_of l (calls w)). x = Some a"
  shows "once_ok (lists w' l) (calls_of l (calls w'))" and "fired (lists w' l)"
    and "m \<noteq> l \<Longrightarrow> lists w' m = lists w m \<and> calls_of m (calls w') = calls_of m (calls w)"
    and "End m out \<in> set new \<Longrightarrow> m = l"
proof -
  have o: "o_once (snd (advance d))" using options_advance [of d] assms(3) by (simp add: same_options_def)
  have "once_ok (lists w' l) (calls_of l (calls w')) \<and> fired (lists w' l)
    \<and> (m \<noteq> l \<longrightarrow> lists w' m = lists w m \<and> calls_of m (calls w') = calls_of m (calls w))
    \<and> (End m out \<in> set new \<longrightarrow> m = l)"
  proof (cases "fst (advance d)")
    case None
    then have e: "advance d = (None, snd (advance d))" by (simp add: prod_eq_iff)
    from spending_advance [OF assms(2)] have s: "spent a (snd (advance d))" by (subst (asm) e) simp
    from assms(1) have "new = []" "w' = on_list l (\<lambda>_. snd (advance d)) w"
      by (subst (asm) e, simp add: go_on_None)+
    with s o assms(4) show ?thesis by (auto intro: once_okI simp: spent_def)
  next
    case (Some fx)
    then obtain f x where e: "advance d = (Some (f, x), snd (advance d))"
      by (cases fx) (auto simp: prod_eq_iff)
    from spending_advance [OF assms(2)] have s: "x = Some a" "spent a (snd (advance d))"
      by (subst (asm) e, simp)+
    from assms(1) have n: "new = map Op (fst (body f x (var w))) @ [End l (snd (body f x (var w)))]"
      "w' = (on_list l (\<lambda>_. snd (advance d)) w)\<lparr>calls := calls w @ [(l, f, x)]\<rparr>"
      by (subst (asm) e, simp add: go_on_Some)+
    show ?thesis
      using s(1) o assms(4) once_okI [OF o s(2)] s(2) unfolding n by (auto simp: spent_def)
  qed
  then show "once_ok (lists w' l) (calls_of l (calls w'))" and "fired (lists w' l)"
    and "m \<noteq> l \<Longrightarrow> lists w' m = lists w m \<and> calls_of m (calls w') = calls_of m (calls w)"
    and "End m out \<in> set new \<Longrightarrow> m = l" by blast+
qed

lemma remove_from_index: "-1 \<le> i \<Longrightarrow> -1 \<le> snd (remove_from k f xs i)"
proof (induction k f xs i rule: remove_from.induct)
  case (1 k f xs i)
  then show ?case by (subst remove_from.simps) auto
qed

text \<open>The operations that call nothing.\<close>

lemma fired_quiet [simp]:
  "fired (cb_remove1 f c) = fired c" "fired (cb_remove fs c) = fired c" "fired (cb_empty c) = fired c"
  "fired (cb_disable c) = fired c" "fired (cb_lock c) = fired c"
proof -
  show r: "fired (cb_remove1 f c) = fired c" for f and c :: "('a, 'b) cblist"
    by (simp add: cb_remove1_def split: option.split prod.split)
  show "fired (cb_remove fs c) = fired c"
    unfolding cb_remove_def by (induction fs arbitrary: c) (simp_all add: r)
qed (simp_all add: cb_empty_def cb_disable_def cb_lock_def Let_def)

lemma once_remove1:
  assumes "once_ok c cs"
  shows "once_ok (cb_remove1 f c) cs"
proof (cases "items c")
  case (Some xs)
  have "-1 \<le> index c" using assms by (auto simp: once_ok_def fresh_def spent_def)
  then have "-1 \<le> snd (remove_from 0 f xs (index c))" by (rule remove_from_index)
  with Some assms show ?thesis
    by (auto simp: once_ok_def cb_remove1_def fresh_def spent_def case_prod_beta)
qed (use assms in \<open>simp add: cb_remove1_def\<close>)

lemma once_remove: "once_ok c cs \<Longrightarrow> once_ok (cb_remove fs c) cs"
  unfolding cb_remove_def by (induction fs arbitrary: c) (simp_all add: once_remove1)

lemma once_quiet_ops:
  assumes "once_ok c cs"
  shows "once_ok (cb_empty c) cs" "once_ok (cb_disable c) cs" "once_ok (cb_lock c) cs"
  using assms by (auto simp: once_ok_def cb_empty_def cb_disable_def cb_lock_def fresh_def spent_def Let_def)

text \<open>What \<open>add\<close> and \<open>fireWith\<close> leave: a list to fire with the arguments of its firing, or a list as before.\<close>

definition once_next :: "('f \<times> 'a option) list \<Rightarrow> ('f, 'a) cblist \<Rightarrow> bool \<times> ('f, 'a) cblist \<Rightarrow> bool" where
  "once_next cs c r \<longleftrightarrow> (if fst r
     then \<exists>d a. fire_start (snd r) = advance d \<and> spending a d \<and> o_once d \<and> (\<forall>(f, x) \<in> set cs. x = Some a)
     else once_ok (snd r) cs \<and> fired (snd r) = fired c)"

lemma once_nextI:
  assumes "o_once c'" and "queue c' = [a]" and "index c' \<ge> -1" and "\<forall>(f, x) \<in> set cs. x = Some a"
  shows "once_next cs c (True, c')"
proof -
  from fire_start_spending [of c' a] assms obtain d where "fire_start c' = advance d" "spending a d" "o_once d"
    by auto
  with assms(4) show ?thesis unfolding once_next_def by auto
qed

lemma fold_push_same:
  "o_once (fold push_item fs c) = o_once c \<and> fired (fold push_item fs c) = fired c
   \<and> locked (fold push_item fs c) = locked c \<and> queue (fold push_item fs c) = queue c
   \<and> index (fold push_item fs c) = index c \<and> memory (fold push_item fs c) = memory c
   \<and> firing (fold push_item fs c) = firing c"
  by (induction fs arbitrary: c) (simp_all add: push_item_def)

lemma once_add:
  assumes "once_ok c cs"
  shows "once_next cs c (cb_add args c)"
proof (cases "items c")
  case None
  with assms show ?thesis by (simp add: cb_add_def once_next_def)
next
  case (Some xs)
  note f = fold_push_same [of "fns_of (Args args)"]
  from assms consider (fresh) "fresh c" "cs = []" | (spent) a where "spent a c" "\<forall>(f, x) \<in> set cs. x = Some a"
    by (auto simp: once_ok_def)
  then show ?thesis
  proof cases
    case fresh
    with Some assms f [of c] show ?thesis
      by (auto simp: cb_add_def once_next_def once_ok_def fresh_def Let_def)
  next
    case (spent a)
    then have m: "memory c = Some a" using Some by (simp add: spent_def)
    show ?thesis
    proof (cases "firing c")
      case True
      with Some m spent assms f [of c] show ?thesis
        by (auto simp: cb_add_def once_next_def once_ok_def spent_def Let_def)
    next
      case False
      let ?c = "fold push_item (fns_of (Args args)) (c\<lparr>index := int (length xs) - 1, queue := queue c @ [a]\<rparr>)"
      have "cb_add args c = (True, ?c)"
        using Some m False f [of "c\<lparr>index := int (length xs) - 1, queue := queue c @ [a]\<rparr>"]
        by (simp add: cb_add_def Let_def)
      moreover have "once_next cs c (True, ?c)"
        by (rule once_nextI [of _ a])
          (use f [of "c\<lparr>index := int (length xs) - 1, queue := queue c @ [a]\<rparr>"] spent assms in
            \<open>simp_all add: once_ok_def spent_def\<close>)
      ultimately show ?thesis by simp
    qed
  qed
qed

lemma once_fireWith:
  assumes "once_ok c cs"
  shows "once_next cs c (cb_fireWith a c)"
proof (cases "locked c \<or> firing c")
  case True
  with assms show ?thesis
    by (auto simp: cb_fireWith_def once_next_def once_ok_def fresh_def spent_def Let_def)
next
  case False
  then have "fresh c" "cs = []" using assms by (auto simp: once_ok_def spent_def)
  with False assms show ?thesis
    by (simp add: cb_fireWith_def Let_def) (rule once_nextI [of _ a]; simp add: once_ok_def fresh_def)
qed

definition all_once :: "('l, 'f, 'a, 'x) cbworld \<Rightarrow> bool" where
  "all_once w \<longleftrightarrow> (\<forall>l. once_ok (lists w l) (calls_of l (calls w)))"

text \<open>A step on the list \<open>l\<close> that keeps the invariant.\<close>

definition kept :: "('l, 'f, 'a, 'x) cbworld \<Rightarrow> ('l, 'f, 'a, 'x) task list \<times> ('l, 'f, 'a, 'x) cbworld \<Rightarrow> bool" where
  "kept w r \<longleftrightarrow> all_once (snd r) \<and> ends_ok (fst r) (snd r)
     \<and> (\<forall>l. fired (lists w l) \<longrightarrow> fired (lists (snd r) l))"

lemma kept_quiet:
  assumes "all_once w" and "once_ok (g (lists w l)) (calls_of l (calls w))"
    and "fired (g (lists w l)) = fired (lists w l)"
  shows "kept w ([], on_list l g w)"
  using assms by (auto simp: kept_def all_once_def ends_ok_def on_list_def)

lemma kept_advance:
  assumes "all_once w" and "spending a d" and "o_once d" and "\<forall>(f, x) \<in> set (calls_of l (calls w)). x = Some a"
  shows "kept w (go_on body l (advance d) w)"
proof -
  obtain new w' where g: "go_on body l (advance d) w = (new, w')" by fastforce
  note o = once_go_on [OF g assms(2,3,4)]
  have "once_ok (lists w' m) (calls_of m (calls w'))" for m
    using o(1,3) assms(1) by (cases "m = l") (auto simp: all_once_def)
  moreover have "fired (lists w m) \<Longrightarrow> fired (lists w' m)" for m
    using o(2,3) by (cases "m = l") auto
  ultimately show ?thesis
    using o(2,4) unfolding g by (auto simp: kept_def all_once_def ends_ok_def)
qed

lemma kept_next:
  assumes "all_once w" and "once_next (calls_of l (calls w)) (lists w l) r"
  shows "kept w (if fst r then go_on body l (fire_start (snd r)) w else ([], on_list l (\<lambda>_. snd r) w))"
  using assms kept_advance [OF assms(1)] kept_quiet [OF assms(1), of "\<lambda>_. snd r"]
  by (auto simp: once_next_def)

lemma kept_run_op: "all_once w \<Longrightarrow> kept w (run_op body p w)"
proof (induction body p w rule: run_op.induct)
  case (1 body l args w)
  then show ?case
    using kept_next [OF 1 once_add] by (simp add: all_once_def case_prod_beta)
next
  case (6 body l a w)
  then show ?case
    using kept_next [OF 6 once_fireWith] by (simp add: all_once_def case_prod_beta)
next
  case (7 body x w)
  then show ?case by (auto simp: kept_def all_once_def ends_ok_def)
qed (auto intro!: kept_quiet simp: all_once_def once_remove once_quiet_ops)

lemma kept_step:
  assumes "all_once w" and "ends_ok ts w"
  shows "case cb_step body (ts, w) of (ts', w') \<Rightarrow> all_once w' \<and> ends_ok ts' w'"
proof -
  have more: "all_once (snd r) \<and> ends_ok (fst r @ us) (snd r)" if "kept w r" "ends_ok us w" for r us
    using that by (auto simp: kept_def ends_ok_def)
  show ?thesis
  proof (cases ts)
    case (Cons t us)
    then have us: "ends_ok us w" using assms(2) by (simp add: ends_ok_def)
    show ?thesis
    proof (cases t)
      case (Op p)
      show ?thesis using more [OF kept_run_op [OF assms(1), of body p] us]
        by (simp add: Cons Op case_prod_beta)
    next
      case (End l out)
      show ?thesis
      proof (cases out)
        case (Returns b)
        have "fired (lists w l)" using assms(2) by (auto simp: Cons End ends_ok_def)
        moreover have ok: "once_ok (lists w l) (calls_of l (calls w))" using assms(1) by (simp add: all_once_def)
        ultimately obtain a where a: "spent a (lists w l)" "\<forall>(f, x) \<in> set (calls_of l (calls w)). x = Some a"
          by (auto simp: once_ok_def fresh_def)
        have "o_once (returned b (lists w l))" using ok by (simp add: returned_def once_ok_def)
        from more [OF kept_advance [OF assms(1) spent_returned [OF a(1)] this a(2), of body] us]
        show ?thesis by (simp add: Cons End Returns case_prod_beta)
      qed (use assms Cons End in \<open>simp add: ends_ok_def\<close>)
    qed
  qed (use assms in simp)
qed


definition cb_event :: "('l, 'f, 'a, 'x) behaviour \<Rightarrow> ('l, 'f, 'a, 'x) task list \<times> ('l, 'f, 'a, 'x) cbworld \<Rightarrow>
    ('l, 'f, 'a, 'x) task list \<times> ('l, 'f, 'a, 'x) cbworld \<Rightarrow> bool" where
  "cb_event body s t \<longleftrightarrow> t = cb_step body s \<or> fst s = [] \<and> (\<exists>ops. t = (map Op ops, snd s))"

definition cb_init :: "('l \<Rightarrow> jstr \<Rightarrow> bool) \<Rightarrow> ('l, 'f, 'a, 'x) task list \<times> ('l, 'f, 'a, 'x) cbworld \<Rightarrow> bool" where
  "cb_init opts s \<longleftrightarrow> fst s = [] \<and> calls (snd s) = [] \<and> (\<forall>l. lists (snd s) l = Callbacks (opts l))"

interpretation once_lists: machine
  "\<lambda>s. cb_init opts s \<and> (\<forall>l. opts l (js ''once''))" "cb_event body" "\<lambda>(ts, w). all_once w \<and> ends_ok ts w"
  for opts body
proof unfold_locales
  show "case s of (ts, w) \<Rightarrow> all_once w \<and> ends_ok ts w" if "cb_init opts s \<and> (\<forall>l. opts l (js ''once''))" for s
    using that by (auto simp: cb_init_def all_once_def ends_ok_def once_ok_def Callbacks_def fresh_def calls_of_def)
next
  fix s t assume "case s of (ts, w) \<Rightarrow> all_once w \<and> ends_ok ts w" "cb_event body s t"
  then show "case t of (ts, w) \<Rightarrow> all_once w \<and> ends_ok ts w"
    using kept_step [of "snd s" "fst s" body] by (auto simp: cb_event_def ends_ok_def split: prod.splits)
qed

text \<open>
  C24. In every history of lists that fire once, whatever the called functions do with the lists that
  are calling them, all calls a list ever makes carry one and the same argument.
\<close>

theorem once_args:
  assumes "reachable (\<lambda>s. cb_init opts s \<and> (\<forall>l. opts l (js ''once''))) (cb_event body) (ts, w)"
  shows "\<exists>a. \<forall>(m, f, x) \<in> set (calls w). m = l \<longrightarrow> x = Some a"
proof -
  have "all_once w" using once_lists.always [OF assms] by simp
  then have "once_ok (lists w l) (calls_of l (calls w))" by (simp add: all_once_def)
  then obtain a where "\<forall>(f, x) \<in> set (calls_of l (calls w)). x = Some a" by (auto simp: once_ok_def)
  then show ?thesis by (intro exI [of _ a]) (auto simp: calls_of_def)
qed

lemma cb_event_start: "cb_event body ([], w) (map Op ops, w)"
  by (auto simp: cb_event_def)

lemma reachable_steps: "reachable init (cb_event body) s \<Longrightarrow> reachable init (cb_event body) ((cb_step body ^^ n) s)"
  by (induction n) (auto intro: reachable.event simp: cb_event_def)

definition empty_world :: "(unit, nat, nat, unit) cbworld" where
  "empty_world = \<lparr>lists = (\<lambda>_. Callbacks (createOptions (js ''once memory''))), var = (), calls = []\<rparr>"

theorem once_args_witness:
  "case cb_run silent 9 [Add () [Fn 3], FireWith () 4, FireWith () 5, Add () [Fn 7]] empty_world of
     (ts, w) \<Rightarrow> calls w = [((), 3, Some 4), ((), 7, Some 4)] \<and> (\<exists>a. \<forall>(m, f, x) \<in> set (calls w). m = () \<longrightarrow> x = Some a)"
proof -
  let ?ops = "[Add () [Fn 3], FireWith () 4, FireWith () 5, Add () [Fn 7]]"
  let ?init = "\<lambda>s. cb_init (\<lambda>_. createOptions (js ''once memory'')) s \<and> (\<forall>l::unit. createOptions (js ''once memory'') (js ''once''))"
  have o: "createOptions (js ''once memory'') (js ''once'')" "createOptions (js ''once memory'') (js ''memory'')"
    "\<not> createOptions (js ''once memory'') (js ''unique'')" "\<not> createOptions (js ''once memory'') (js ''stopOnFalse'')"
    by (simp_all add: createOptions_def html_white_def js_def)
  have "reachable ?init (cb_event silent) ([], empty_world)"
    by (rule reachable.start [of ?init]) (use o in \<open>simp add: cb_init_def empty_world_def\<close>)
  then have "reachable ?init (cb_event silent) (map Op ?ops, empty_world)"
    using cb_event_start by (rule reachable.event [where step = "cb_event silent"])
  then have r: "reachable ?init (cb_event silent) (cb_run silent 9 ?ops empty_world)"
    unfolding cb_run_def by (rule reachable_steps)
  have "calls (snd (cb_run silent 9 ?ops empty_world)) = [((), 3, Some 4), ((), 7, Some 4)]"
    by (simp add: cb_run_def empty_world_def Callbacks_def o eval_nat_numeral advance.simps cb_add_def cb_fireWith_def
      push_item_def the_items_def fire_start_def finish_def returned_def go_on_def on_list_def silent_def Let_def)
  with once_args [of "\<lambda>_. createOptions (js ''once memory'')" silent, of "fst (cb_run silent 9 ?ops empty_world)" "snd (cb_run silent 9 ?ops empty_world)" "()"] r
  show ?thesis by (simp add: case_prod_beta)
qed

end
