(* ===== verification/JqAjaxParts.thy ===== *)
theory JqAjaxParts
  imports JqCore JqCallbacks
begin

text \<open>
  \<open>html/jquery-3.6.1.js\<close>, the parts of the request machinery that compute: query strings, the tables
  of prefilters and transports, the merging of settings, headers, the choice of a response and its
  conversion.

  A function of the settings is called through the parameter \<open>call\<close>, which gives for a function and its
  arguments the value it throws or the value it returns.
\<close>

type_synonym 'f caller = "'f \<Rightarrow> 'f val list \<Rightarrow> 'f val + 'f val"

definition type_error :: "'f val" where
  "type_error = VObj [(js ''name'', VStr (js ''TypeError''))]"

definition call_val :: "'f caller \<Rightarrow> 'f val \<Rightarrow> 'f val list \<Rightarrow> 'f val + 'f val" where
  "call_val call v args = (case v of VFun f \<Rightarrow> call f args | _ \<Rightarrow> Inl type_error)"

text \<open>Text of a value; that of functions, regular expressions and nodes is the parameter \<open>host\<close>.\<close>

fun vstr :: "('f val \<Rightarrow> jstr) \<Rightarrow> 'f val \<Rightarrow> jstr" where
  "vstr host VUndef = js ''undefined''"
| "vstr host VNull = js ''null''"
| "vstr host (VBool b) = js (if b then ''true'' else ''false'')"
| "vstr host (VNum n) = show_num n"
| "vstr host (VStr s) = s"
| "vstr host (VArr vs) = join (js '','') (map (\<lambda>v. if nullish v then [] else vstr host v) vs)"
| "vstr host (VObj kvs) = js ''[object Object]''"
| "vstr host (VFun f) = host (VFun f)"
| "vstr host (VRe r) = host (VRe r)"
| "vstr host (VNode n) = host (VNode n)"

text \<open>\<open>toLowerCase\<close> and \<open>toUpperCase\<close>; the types, methods and header names they are used on are ASCII.\<close>

definition lower1 :: "jschar \<Rightarrow> jschar" where
  "lower1 c = (if 65 \<le> c \<and> c \<le> 90 then c + 32 else c)"

definition lower :: "jstr \<Rightarrow> jstr" where
  "lower s = map lower1 s"

definition upper :: "jstr \<Rightarrow> jstr" where
  "upper s = map (\<lambda>c. if 97 \<le> c \<and> c \<le> 122 then c - 32 else c) s"

definition re_test :: "re \<Rightarrow> jstr \<Rightarrow> bool" where
  "re_test r s \<longleftrightarrow> search r s \<noteq> None"

lemma lower1_idem [simp]: "lower1 (lower1 c) = lower1 c"
proof -
  have "65 \<le> c \<and> c \<le> 90 \<Longrightarrow> \<not> c + 32 \<le> (90 :: jschar)"
    by (simp add: word_le_nat_alt unat_word_ariths)
  then show ?thesis by (simp add: lower1_def)
qed

lemma lower_idem [simp]: "lower (lower s) = lower s"
  by (simp add: lower_def)

section \<open>Query strings\<close>

text \<open>\<open>encodeURIComponent\<close>: the UTF-8 bytes of the code points, with percent signs.\<close>

definition unreserved :: "jschar \<Rightarrow> bool" where
  "unreserved c \<longleftrightarrow> 48 \<le> c \<and> c \<le> 57 \<or> 65 \<le> c \<and> c \<le> 90 \<or> 97 \<le> c \<and> c \<le> 122
     \<or> c \<in> set (js ''-_.!~*'') \<or> c \<in> {39, 40, 41}"

definition hex_upper :: "nat \<Rightarrow> jschar" where
  "hex_upper n = (if n < 10 then 48 + of_nat n else 55 + of_nat n)"

definition percent :: "nat \<Rightarrow> jstr" where
  "percent b = [37, hex_upper (b div 16), hex_upper (b mod 16)]"

definition utf8 :: "nat \<Rightarrow> nat list" where
  "utf8 p =
     (if p < 0x80 then [p]
      else if p < 0x800 then [0xC0 + p div 64, 0x80 + p mod 64]
      else if p < 0x10000 then [0xE0 + p div 4096, 0x80 + p div 64 mod 64, 0x80 + p mod 64]
      else [0xF0 + p div 262144, 0x80 + p div 4096 mod 64, 0x80 + p div 64 mod 64, 0x80 + p mod 64])"

fun encodeURIComponent :: "jstr \<Rightarrow> js_error + jstr" where
  "encodeURIComponent [] = Inr []"
| "encodeURIComponent [c] =
     (if unreserved c then Inr [c]
      else if high_surrogate c \<or> low_surrogate c then Inl URIError
      else Inr (concat (map percent (utf8 (unat c)))))"
| "encodeURIComponent (c # d # s) =
     (if unreserved c then map_sum id (\<lambda>t. c # t) (encodeURIComponent (d # s))
      else if low_surrogate c then Inl URIError
      else if high_surrogate c then
        (if low_surrogate d
         then map_sum id (\<lambda>t. concat (map percent (utf8
                (0x10000 + (unat c - 0xD800) * 0x400 + (unat d - 0xDC00)))) @ t) (encodeURIComponent s)
         else Inl URIError)
      else map_sum id (\<lambda>t. concat (map percent (utf8 (unat c))) @ t) (encodeURIComponent (d # s)))"

text \<open>\<open>rbracket\<close>\<close>

definition rbracket :: re where
  "rbracket = Cat (Cls (\<lambda>c. c = cu CHR ''['')) (Cat (Cls (\<lambda>c. c = cu CHR '']'')) Eol)"

definition brackets :: "jstr \<Rightarrow> jstr \<Rightarrow> jstr" where
  "brackets pfx k = pfx @ js ''['' @ k @ js '']''"

lemma size_parts: "(k, x) \<in> set (entries v) \<Longrightarrow> toType v = js ''object'' \<Longrightarrow> size x < size v"
proof -
  assume a: "(k, x) \<in> set (entries v)" "toType v = js ''object''"
  then obtain kvs where v: "v = VObj kvs"
    by (cases v) (simp_all add: toType_def typeof_def entries_def)
  with a have "k \<in> fst ` set kvs" "x = the (map_of kvs k)" by (auto simp: entries_def in_order_def)
  then have "(k, x) \<in> set kvs" by (cases "map_of kvs k") (auto simp: map_of_eq_None_iff dest: map_of_SomeD)
  from size_list_estimation' [OF this, of "size x" "size_prod (\<lambda>_. 0) size"] show ?thesis by (simp add: v)
qed

lemma size_nth: "i < length vs \<Longrightarrow> size (vs ! i) < Suc (size_list size vs)"
  using size_list_estimation' [OF nth_mem, of i vs "size (vs ! i)" size] by simp

text \<open>\<open>buildParams\<close>: the keys and values it hands to \<open>add\<close>, in order.\<close>

function buildParams :: "jstr \<Rightarrow> 'f val \<Rightarrow> bool \<Rightarrow> (jstr \<times> 'f val) list" where
  "buildParams pfx obj traditional =
     (case obj of
        VArr vs \<Rightarrow> concat (map (\<lambda>i.
            let v = vs ! i in
            if traditional \<or> re_test rbracket pfx then [(pfx, v)]
            else buildParams (brackets pfx
                   (if typeof v = js ''object'' \<and> (case v of VNull \<Rightarrow> False | _ \<Rightarrow> True) then show_nat i else []))
                 v traditional) [0..<length vs])
      | _ \<Rightarrow>
         if \<not> traditional \<and> toType obj = js ''object''
         then concat (map (\<lambda>(name, v). buildParams (brackets pfx name) v traditional) (entries obj))
         else [(pfx, obj)])"
  by pat_completeness auto
termination
  by (relation "measure (\<lambda>(_, v, _). size v)")
    (auto dest: size_parts simp: size_nth)

declare buildParams.simps [simp del]


text \<open>\<open>add\<close> and \<open>jQuery.param\<close>.  A function among the values is called for its value.\<close>

definition param_value :: "'f caller \<Rightarrow> 'f val \<Rightarrow> 'f val + 'f val" where
  "param_value call v = (if isFunction v then call_val call v [] else Inr v)"

definition uri_error :: "'f val" where
  "uri_error = VObj [(js ''name'', VStr (js ''URIError''))]"

definition encode_val :: "('f val \<Rightarrow> jstr) \<Rightarrow> 'f val \<Rightarrow> 'f val + jstr" where
  "encode_val host v = (case encodeURIComponent (vstr host v) of Inl _ \<Rightarrow> Inl uri_error | Inr t \<Rightarrow> Inr t)"

definition param_add :: "('f val \<Rightarrow> jstr) \<Rightarrow> 'f caller \<Rightarrow> 'f val \<times> 'f val \<Rightarrow> 'f val + jstr" where
  "param_add host call kv = (case param_value call (snd kv) of Inl e \<Rightarrow> Inl e | Inr x \<Rightarrow>
     (case encode_val host (fst kv) of Inl e \<Rightarrow> Inl e | Inr k \<Rightarrow>
      (case encode_val host (if nullish x then VStr [] else x) of Inl e \<Rightarrow> Inl e | Inr v \<Rightarrow>
       Inr (k @ js ''='' @ v))))"

fun all_results :: "('a \<Rightarrow> 'e + 'b) \<Rightarrow> 'a list \<Rightarrow> 'e + 'b list" where
  "all_results f [] = Inr []"
| "all_results f (x # xs) = (case f x of Inl e \<Rightarrow> Inl e | Inr y \<Rightarrow>
     (case all_results f xs of Inl e \<Rightarrow> Inl e | Inr ys \<Rightarrow> Inr (y # ys)))"

definition field_pair :: "'f val \<Rightarrow> 'f val + 'f val \<times> 'f val" where
  "field_pair v = (if nullish v then Inl type_error else Inr (getp v (js ''name''), getp v (js ''value'')))"

definition jq_param :: "('f val \<Rightarrow> jstr) \<Rightarrow> 'f caller \<Rightarrow> 'f val \<Rightarrow> bool \<Rightarrow> 'f val + jstr" where
  "jq_param host call a traditional =
     (if nullish a then Inr []
      else map_sum id (join (js ''&''))
        (case a of
           VArr vs \<Rightarrow> all_results (\<lambda>v. case field_pair v of Inl e \<Rightarrow> Inl e | Inr kv \<Rightarrow> param_add host call kv) vs
         | _ \<Rightarrow> all_results (\<lambda>(k, v). param_add host call (VStr k, v))
                  (concat (map (\<lambda>(name, v). buildParams name v traditional) (entries a)))))"

section \<open>Prefilters and transports\<close>

text \<open>
  \<open>addToPrefiltersOrTransports\<close>: a missing type expression stands for any type, a plus sign puts the
  function in front; a value that is no function adds nothing.
\<close>

definition star :: jstr where
  "star = js ''*''"

definition add_one :: "'p \<Rightarrow> jstr \<Rightarrow> (jstr \<times> 'p list) list \<Rightarrow> (jstr \<times> 'p list) list" where
  "add_one func dataType structure =
     (let at = (\<lambda>k. case map_of structure k of None \<Rightarrow> [] | Some fs \<Rightarrow> fs) in
      if take 1 dataType = js ''+''
      then let k = (if drop 1 dataType = [] then star else drop 1 dataType)
           in set_prop structure k (func # at k)
      else set_prop structure dataType (at dataType @ [func]))"

definition addToPrefiltersOrTransports ::
  "jstr option \<Rightarrow> 'p option \<Rightarrow> (jstr \<times> 'p list) list \<Rightarrow> (jstr \<times> 'p list) list" where
  "addToPrefiltersOrTransports dataTypeExpression func structure =
     (let dataTypes = words (lower (case dataTypeExpression of None \<Rightarrow> star | Some e \<Rightarrow> e)) in
      case func of None \<Rightarrow> structure | Some f \<Rightarrow> fold (add_one f) dataTypes structure)"

text \<open>
  \<open>inspectPrefiltersOrTransports\<close>: the functions of a type are asked in order.  A prefilter may
  delegate to another type, which is then inspected instead of the rest; a transport factory is the
  last asked when it gives a transport.  \<open>ask\<close> runs a function of the table on the state, \<open>unshift\<close>
  puts a type in front of those of the request.
\<close>

definition as_str :: "'f val \<Rightarrow> jstr option" where
  "as_str v = (case v of VStr t \<Rightarrow> Some t | _ \<Rightarrow> None)"

type_synonym ('s, 'f) inspector = "jstr \<Rightarrow> jstr list \<Rightarrow> 's \<Rightarrow> 'f val \<times> jstr list \<times> 's"

primrec inspect_all :: "('s, 'f) inspector \<Rightarrow> ('p \<Rightarrow> 's \<Rightarrow> 'f val \<times> 's) \<Rightarrow> (jstr \<Rightarrow> 's \<Rightarrow> 's) \<Rightarrow> bool \<Rightarrow>
    'p list \<Rightarrow> jstr list \<Rightarrow> 's \<Rightarrow> 'f val \<times> jstr list \<times> 's" where
  "inspect_all again ask unshift seeking [] inspected s = (VUndef, inspected, s)"
| "inspect_all again ask unshift seeking (f # fs) inspected s =
     (case ask f s of (answer, s1) \<Rightarrow>
        case as_str answer of
          Some t \<Rightarrow>
            if \<not> seeking \<and> t \<notin> set inspected then
              (case again t inspected (unshift t s1) of (_, inspected', s2) \<Rightarrow> (VUndef, inspected', s2))
            else if seeking \<and> vtruthy answer then (answer, inspected, s1)
            else inspect_all again ask unshift seeking fs inspected s1
        | None \<Rightarrow>
            if seeking \<and> vtruthy answer then (answer, inspected, s1)
            else inspect_all again ask unshift seeking fs inspected s1)"

primrec inspect :: "('p \<Rightarrow> 's \<Rightarrow> 'f val \<times> 's) \<Rightarrow> (jstr \<Rightarrow> 's \<Rightarrow> 's) \<Rightarrow> (jstr \<times> 'p list) list \<Rightarrow> bool \<Rightarrow>
    nat \<Rightarrow> ('s, 'f) inspector" where
  "inspect ask unshift structure seeking 0 = (\<lambda>dataType inspected s. (VUndef, inspected, s))"
| "inspect ask unshift structure seeking (Suc n) = (\<lambda>dataType inspected s.
     inspect_all (inspect ask unshift structure seeking n) ask unshift seeking
       (case map_of structure dataType of None \<Rightarrow> [] | Some fs \<Rightarrow> fs) (dataType # inspected) s)"

definition inspectPrefiltersOrTransports ::
  "('p \<Rightarrow> 's \<Rightarrow> 'f val \<times> 's) \<Rightarrow> (jstr \<Rightarrow> 's \<Rightarrow> 's) \<Rightarrow> ('s \<Rightarrow> jstr) \<Rightarrow> (jstr \<times> 'p list) list \<Rightarrow> bool \<Rightarrow>
    's \<Rightarrow> 'f val \<times> 's" where
  "inspectPrefiltersOrTransports ask unshift first_type structure seeking s =
     (let n = Suc (length structure) in
      case inspect ask unshift structure seeking n (first_type s) [] s of (v, inspected, s1) \<Rightarrow>
        if vtruthy v then (v, s1)
        else if star \<notin> set inspected
        then (case inspect ask unshift structure seeking n star inspected s1 of (v2, _, s2) \<Rightarrow> (v2, s2))
        else (VBool False, s1))"


text \<open>The types of the table that were not inspected yet.\<close>

definition left_types :: "(jstr \<times> 'p list) list \<Rightarrow> jstr list \<Rightarrow> nat" where
  "left_types structure inspected = card (fst ` set structure - set inspected)"

lemma left_types_Cons:
  "t \<in> fst ` set structure \<Longrightarrow> t \<notin> set inspected \<Longrightarrow>
    Suc (left_types structure (t # inspected)) = left_types structure inspected"
proof -
  assume "t \<in> fst ` set structure" "t \<notin> set inspected"
  then have "fst ` set structure - set inspected = insert t (fst ` set structure - set (t # inspected))"
    "t \<notin> fst ` set structure - set (t # inspected)" by auto
  then show ?thesis unfolding left_types_def by (metis List.finite_set card_insert_disjoint finite_Diff finite_imageI)
qed

lemma inspect_fuel:
  "left_types structure inspected < n \<Longrightarrow> t \<notin> set inspected \<Longrightarrow> n \<le> m \<Longrightarrow>
    inspect ask unshift structure seeking n t inspected s = inspect ask unshift structure seeking m t inspected s"
proof (induction n arbitrary: m t inspected s)
  case (Suc n)
  then obtain m' where m: "m = Suc m'" "n \<le> m'" by (metis Suc_le_D Suc_le_mono)
  let ?fs = "case map_of structure t of None \<Rightarrow> [] | Some fs \<Rightarrow> fs"
  have all: "inspect_all (inspect ask unshift structure seeking n) ask unshift seeking fs insp u =
      inspect_all (inspect ask unshift structure seeking m') ask unshift seeking fs insp u"
    if "left_types structure insp < n" for fs insp u
    using that
  proof (induction fs arbitrary: u)
    case (Cons f fs)
    have "inspect ask unshift structure seeking n x insp y = inspect ask unshift structure seeking m' x insp y"
      if "x \<notin> set insp" for x y by (rule Suc.IH [OF Cons.prems that m(2)])
    then show ?case using Cons.IH [OF Cons.prems] by (auto split: prod.split option.split)
  qed simp
  show ?case
  proof (cases "map_of structure t")
    case None
    then show ?thesis by (simp add: m)
  next
    case (Some fs)
    then have "t \<in> fst ` set structure" by (auto dest: map_of_SomeD intro: rev_image_eqI)
    from left_types_Cons [OF this Suc.prems(2)] Suc.prems(1) have "left_types structure (t # inspected) < n" by simp
    from all [OF this] show ?thesis by (simp add: m)
  qed
qed simp

text \<open>
  The inspection of prefilters and transports ends: the fuel of one round per type of the table and
  one more is never used up, whatever types the prefilters delegate to and however they change the
  request.
\<close>

theorem inspect_enough:
  assumes "length structure < n"
  shows "inspect ask unshift structure seeking n t [] s =
    inspect ask unshift structure seeking (Suc (length structure)) t [] s"
proof -
  have "left_types structure [] < Suc (length structure)"
    unfolding left_types_def by (simp add: less_Suc_eq_le card_length [of "map fst structure", simplified])
  from inspect_fuel [OF this, of t n ask unshift seeking s] assms show ?thesis by simp
qed

theorem inspect_enough_witness:
  "inspect (\<lambda>p s. (if p = 0 then VStr (js ''script'') else VUndef :: nat val, s + p)) (\<lambda>_ s. s)
      [(js ''json'', [0]), (js ''script'', [5 :: nat])] False 9 (js ''json'') [] 1
    = (VUndef, [js ''script'', js ''json''], 6)"
proof -
  have "length [(js ''json'', [0]), (js ''script'', [5 :: nat])] < 9" by simp
  then show ?thesis by (subst inspect_enough) (simp_all add: eval_nat_numeral as_str_def)
qed


section \<open>Settings\<close>

text \<open>
  \<open>ajaxExtend\<close>: the options named in \<open>flatOptions\<close> are assigned, the others are copied deeply, all
  together after the flat ones.
\<close>

definition flat_step :: "'f val \<Rightarrow> jstr \<times> 'f val \<Rightarrow> 'f val \<times> 'f val option \<Rightarrow> 'f val \<times> 'f val option" where
  "flat_step flatOptions kv td = (case kv of (key, v) \<Rightarrow> case td of (target, deep) \<Rightarrow>
     if is_undef v then (target, deep)
     else if vtruthy (getp flatOptions key) then (putp target key v, deep)
     else (target, Some (putp (case deep of None \<Rightarrow> VObj [] | Some d \<Rightarrow> d) key v)))"

definition ajaxExtend :: "'f val \<Rightarrow> 'f val \<Rightarrow> 'f val \<Rightarrow> 'f val" where
  "ajaxExtend ajaxSettings target src =
     (let flatOptions = or_empty (getp ajaxSettings (js ''flatOptions''));
          r = fold (flat_step flatOptions) (entries src) (target, None)
      in case r of (target1, None) \<Rightarrow> target1
         | (target1, Some deep) \<Rightarrow> jq_extend VUndef [VBool True, target1, deep])"

text \<open>Giving settings to \<open>ajaxSetup\<close> builds a settings object; leaving them out extends the defaults.\<close>

definition ajaxSetup :: "'f val \<Rightarrow> 'f val \<Rightarrow> 'f val option \<Rightarrow> 'f val" where
  "ajaxSetup ajaxSettings target settings = (case settings of
     Some o' \<Rightarrow> if vtruthy o' then ajaxExtend ajaxSettings (ajaxExtend ajaxSettings target ajaxSettings) o'
       else ajaxExtend ajaxSettings ajaxSettings target
   | None \<Rightarrow> ajaxExtend ajaxSettings ajaxSettings target)"

section \<open>Headers\<close>

text \<open>
  A header line is a name, a colon, and a text without leading blanks; lines without a colon are
  skipped.  Header texts have no other line ends than carriage return and line feed.
\<close>

fun header_lines :: "jstr \<Rightarrow> jstr list" where
  "header_lines [] = [[]]"
| "header_lines (c # s) = (if c = 10 \<or> c = 13 then [] # header_lines s
     else case header_lines s of [] \<Rightarrow> [[c]] | l # ls \<Rightarrow> (c # l) # ls)"

definition parse_header :: "jstr \<Rightarrow> (jstr \<times> jstr) list" where
  "parse_header line = (if 58 \<in> set line
     then [(lower (takeWhile (\<lambda>c. c \<noteq> 58) line),
            dropWhile (\<lambda>c. c = 32 \<or> c = 9) (drop 1 (dropWhile (\<lambda>c. c \<noteq> 58) line)))]
     else [])"

definition responseHeaders :: "jstr \<Rightarrow> (jstr \<times> jstr list) list" where
  "responseHeaders headers =
     fold (\<lambda>(k, v) t. set_prop t (k @ js '' '')
         ((case map_of t (k @ js '' '') of None \<Rightarrow> [] | Some vs \<Rightarrow> vs) @ [v]))
       (concat (map parse_header (header_lines headers))) []"

definition getResponseHeader :: "bool \<Rightarrow> jstr \<Rightarrow> jstr \<Rightarrow> jstr option" where
  "getResponseHeader completed headers key =
     (if completed then map_option (join (js '', '')) (map_of (responseHeaders headers) (lower key @ js '' ''))
      else None)"

text \<open>
  Request headers: a name that differs from an earlier one in case only writes the earlier one's
  header.
\<close>

record 'f header_table =
  names :: "(jstr \<times> jstr) list"
  headers :: "(jstr \<times> 'f val) list"

definition setRequestHeader :: "jstr \<Rightarrow> 'f val \<Rightarrow> 'f header_table \<Rightarrow> 'f header_table" where
  "setRequestHeader name v h =
     (let name1 = (case map_of (names h) (lower name) of
                     Some n \<Rightarrow> if n \<noteq> [] then n else name | None \<Rightarrow> name)
      in h\<lparr>names := set_prop (names h) (lower name) name1, headers := set_prop (headers h) name1 v\<rparr>)"

section \<open>The response\<close>

text \<open>
  \<open>ajaxHandleResponses\<close>: \<open>dts\<close> are the data types of the request, \<open>content_type\<close> the answer to
  \<open>getResponseHeader("Content-Type")\<close>, asked when the first type is \<open>*\<close> and the request has no MIME
  type of its own.  The result is the response and the data types left behind.
\<close>

definition first_type :: "jstr list \<Rightarrow> jstr" where
  "first_type dts = (case dts of [] \<Rightarrow> js ''undefined'' | t # _ \<Rightarrow> t)"

definition known_type :: "'f val \<Rightarrow> jstr \<Rightarrow> jstr option" where
  "known_type contents ct =
     (case filter (\<lambda>(type, v). case v of VRe r \<Rightarrow> re_test r ct | _ \<Rightarrow> False) (entries contents) of
        [] \<Rightarrow> None | (type, _) # _ \<Rightarrow> Some type)"

fun convertible :: "'f val \<Rightarrow> jstr list \<Rightarrow> jstr option \<Rightarrow> jstr list \<Rightarrow> jstr option" where
  "convertible converters dts firstDataType [] = firstDataType"
| "convertible converters dts firstDataType (type # types) =
     (if dts = [] \<or> hd dts = [] \<or> vtruthy (getp converters (type @ js '' '' @ hd dts)) then
        (if type \<noteq> [] then Some type else firstDataType)
      else convertible converters dts
             (case firstDataType of Some t \<Rightarrow> if t \<noteq> [] then Some t else Some type | None \<Rightarrow> Some type) types)"

definition ajaxHandleResponses ::
  "'f val \<Rightarrow> 'f val \<Rightarrow> 'f val \<Rightarrow> jstr option \<Rightarrow> jstr list \<Rightarrow> 'f val \<Rightarrow> 'f val \<times> jstr list" where
  "ajaxHandleResponses contents converters mimeType content_type dts responses =
     (let auto = (dts \<noteq> [] \<and> hd dts = star);
          dts1 = dropWhile (\<lambda>t. t = star) dts;
          ct = (if auto then (case mimeType of VStr (c # m) \<Rightarrow> Some (c # m) | _ \<Rightarrow> content_type) else None);
          dts2 = (case ct of None \<Rightarrow> dts1
                  | Some t \<Rightarrow> if t = [] then dts1
                      else case known_type contents t of None \<Rightarrow> dts1 | Some type \<Rightarrow> type # dts1);
          final = (if has_key responses (first_type dts2) then (if dts2 = [] then None else Some (hd dts2))
                   else convertible converters dts2 None (map fst (entries responses)))
      in case final of
           Some t \<Rightarrow> if t = [] then (VUndef, dts2)
             else (getp responses t, if dts2 \<noteq> [] \<and> t = hd dts2 then dts2 else t # dts2)
         | None \<Rightarrow> (VUndef, dts2))"

text \<open>
  \<open>ajaxConvert\<close>.  \<open>find_converter\<close> is the choice of a converter from \<open>prev\<close> to \<open>current\<close>: a direct
  one, or a pair through an intermediate type; the result is the converter, the type to convert to
  and the types still to come.
\<close>

definition falsy_or :: "'f val \<Rightarrow> 'f val \<Rightarrow> 'f val" where
  "falsy_or a b = (if vtruthy a then a else b)"

definition is_true :: "'f val \<Rightarrow> bool" where
  "is_true v = (case v of VBool b \<Rightarrow> b | _ \<Rightarrow> False)"

definition direct :: "'f val \<Rightarrow> jstr \<Rightarrow> jstr \<Rightarrow> 'f val" where
  "direct converters a b = falsy_or (getp converters (a @ js '' '' @ b)) (getp converters (js ''* '' @ b))"

fun find_pair :: "'f val \<Rightarrow> jstr \<Rightarrow> jstr \<Rightarrow> jstr list \<Rightarrow> 'f val \<Rightarrow> (jstr \<times> 'f val) list \<Rightarrow>
    'f val \<times> jstr \<times> jstr list" where
  "find_pair converters prev current dts conv [] = (conv, current, dts)"
| "find_pair converters prev current dts conv ((conv2, f2) # rest) =
     (case split_char 32 conv2 of
        tmp0 # tmp1 # _ \<Rightarrow>
          if tmp1 = current then
            (let c = direct converters prev tmp0 in
             if vtruthy c then
               (if is_true c then (f2, current, dts)
                else if \<not> is_true f2 then (c, tmp0, tmp1 # dts)
                else (c, current, dts))
             else find_pair converters prev current dts c rest)
          else find_pair converters prev current dts conv rest
      | _ \<Rightarrow> find_pair converters prev current dts conv rest)"

definition find_converter :: "'f val \<Rightarrow> jstr \<Rightarrow> jstr \<Rightarrow> jstr list \<Rightarrow> 'f val \<times> jstr \<times> jstr list" where
  "find_converter converters prev current dts =
     (let conv = direct converters prev current in
      if vtruthy conv then (conv, current, dts)
      else find_pair converters prev current dts conv (entries converters))"

text \<open>The conversion of one step: the response, or the end of \<open>ajaxConvert\<close> with an error.\<close>

datatype 'f converted =
    Parsererror "'f val"
  | Success "'f val"
  | Bubbled "'f val"

definition apply_conv :: "'f caller \<Rightarrow> bool \<Rightarrow> jstr \<Rightarrow> jstr \<Rightarrow> 'f val \<Rightarrow> 'f val \<Rightarrow> 'f converted + 'f val" where
  "apply_conv call throws prev current conv response =
     (if is_true conv then Inr response
      else case call_val call conv [response] of
        Inr v \<Rightarrow> Inr v
      | Inl e \<Rightarrow>
          if vtruthy conv \<and> throws then Inl (Bubbled e)
          else Inl (Parsererror (if vtruthy conv then e
                 else VStr (js ''No conversion from '' @ prev @ js '' to '' @ current))))"

record 'f conv_env =
  cv_call :: "'f caller"
  cv_converters :: "'f val"
  cv_throws :: bool
  cv_fields :: "'f val"
  cv_filter :: "'f val"
  cv_dataType :: "'f val"
  cv_isSuccess :: bool

text \<open>
  The first steps of a round of the loop: the field of the request object for the type, and in the first
  round of a successful request the data filter.
\<close>

definition note_field :: "('f val \<Rightarrow> jstr) \<Rightarrow> 'f conv_env \<Rightarrow> jstr \<Rightarrow> 'f val \<Rightarrow> 'f val \<Rightarrow> 'f val" where
  "note_field host env current response jqXHR =
     (let field = getp (cv_fields env) current in
      if vtruthy field then putp jqXHR (vstr host field) response else jqXHR)"

definition data_filter :: "'f conv_env \<Rightarrow> jstr option \<Rightarrow> 'f val \<Rightarrow> 'f val + 'f val" where
  "data_filter env prev response =
     (if prev = None \<and> cv_isSuccess env \<and> vtruthy (cv_filter env)
      then call_val (cv_call env) (cv_filter env) [response, cv_dataType env] else Inr response)"

partial_function (option) convert_loop ::
  "('f val \<Rightarrow> jstr) \<Rightarrow> 'f conv_env \<Rightarrow> jstr option \<Rightarrow> jstr list \<Rightarrow> 'f val \<Rightarrow> 'f val \<Rightarrow> ('f converted \<times> 'f val) option"
where
  "convert_loop host env prev dts response jqXHR =
     (if dts = [] \<or> hd dts = [] then Some (Success response, jqXHR)
      else let current = hd dts; jq = note_field host env current response jqXHR in
        (case data_filter env prev response of
           Inl e \<Rightarrow> Some (Bubbled e, jq)
         | Inr response1 \<Rightarrow>
             if tl dts = [] \<or> hd (tl dts) = [] then Some (Success response1, jq)
             else let target = hd (tl dts); rest = tl (tl dts) in
               if target = star then convert_loop host env (Some current) (current # rest) response1 jq
               else if current \<noteq> star \<and> current \<noteq> target then
                 (case find_converter (cv_converters env) current target rest of (conv, target', rest') \<Rightarrow>
                    (case apply_conv (cv_call env) (cv_throws env) current target' conv response1 of
                       Inl r \<Rightarrow> Some (r, jq)
                     | Inr response2 \<Rightarrow>
                         convert_loop host env (Some current) (target' # rest') response2 jq))
               else convert_loop host env (Some current) (target # rest) response1 jq))"

definition lower_keys :: "'f val \<Rightarrow> 'f val" where
  "lower_keys converters = VObj (fold (\<lambda>(k, v) t. set_prop t (lower k) v) (entries converters) [])"

definition ajaxConvert :: "('f val \<Rightarrow> jstr) \<Rightarrow> 'f caller \<Rightarrow> 'f val \<Rightarrow> jstr list \<Rightarrow> 'f val \<Rightarrow> 'f val \<Rightarrow> bool \<Rightarrow>
    ('f converted \<times> 'f val) option" where
  "ajaxConvert host call s dts response jqXHR isSuccess =
     convert_loop host
       \<lparr>cv_call = call,
        cv_converters = (if length dts > 1 \<and> dts ! 1 \<noteq> [] then lower_keys (getp s (js ''converters'')) else VObj []),
        cv_throws = vtruthy (getp s (js ''throws'')),
        cv_fields = getp s (js ''responseFields''), cv_filter = getp s (js ''dataFilter''),
        cv_dataType = getp s (js ''dataType''), cv_isSuccess = isSuccess\<rparr>
       None dts response jqXHR"

section \<open>Conversion ends\<close>

text \<open>
  Converters as they are meant to be: named by two types with one space between them, and none of them
  a falsy value.
\<close>

definition two_words :: "jstr \<Rightarrow> bool" where
  "two_words k \<longleftrightarrow> length (split_char 32 k) = 2"

definition good_converters :: "'f val \<Rightarrow> bool" where
  "good_converters c \<longleftrightarrow> (\<forall>(k, v) \<in> set (entries c). two_words k \<and> vtruthy v)"

lemma entries_getp: "(k, v) \<in> set (entries (VObj kvs)) \<Longrightarrow> getp (VObj kvs) k = v"
proof -
  assume "(k, v) \<in> set (entries (VObj kvs))"
  then have "k \<in> fst ` set kvs" and v: "v = the (map_of kvs k)" by (auto simp: entries_def in_order_def)
  then obtain w where "map_of kvs k = Some w" by (metis map_of_eq_None_iff not_None_eq)
  with v show ?thesis by simp
qed

lemma two_words_join:
  assumes "two_words k" and "split_char 32 k = a # b # r"
  shows "k = a @ js '' '' @ b"
proof -
  have "join [32] (a # b # r) = k" using join_split [of 32 k] assms(2) by simp
  moreover have "r = []" using assms by (simp add: two_words_def)
  ultimately show ?thesis by (simp add: js_def)
qed

lemma find_pair_result:
  "find_pair c p cur dts f es = (f', cur', dts') \<Longrightarrow>
    cur' = cur \<and> dts' = dts
    \<or> dts' = cur # dts \<and> (\<exists>k v r. (k, v) \<in> set es \<and> split_char 32 k = cur' # cur # r)"
proof (induction es arbitrary: f)
  case (Cons e es)
  obtain k v where e: "e = (k, v)" by (cases e)
  show ?case
  proof (cases "split_char 32 k")
    case (Cons t0 ts)
    show ?thesis
    proof (cases ts)
      case Nil
      then show ?thesis using Cons.IH Cons.prems \<open>split_char 32 k = t0 # ts\<close> by (auto simp: e)
    next
      case (Cons t1 us)
      then show ?thesis using Cons.IH Cons.prems \<open>split_char 32 k = t0 # ts\<close>
        by (auto simp: e Let_def split: if_splits)
    qed
  qed simp
qed simp

lemma find_converter_result:
  assumes "good_converters c" and "c = VObj kvs" and "find_converter c p cur dts = (f, cur', dts')"
  shows "cur' = cur \<and> dts' = dts \<or> dts' = cur # dts \<and> vtruthy (direct c cur' cur)"
proof -
  from assms(3) find_pair_result [of c p cur dts _ "entries c" f cur' dts']
  consider "cur' = cur" "dts' = dts"
    | k v r where "dts' = cur # dts" "(k, v) \<in> set (entries c)" "split_char 32 k = cur' # cur # r"
    by (auto simp: find_converter_def Let_def split: if_splits)
  then show ?thesis
  proof cases
    case 2
    then have t: "two_words k" "vtruthy v" using assms(1) by (auto simp: good_converters_def)
    then have "getp c (cur' @ js '' '' @ cur) = v"
      using two_words_join [OF t(1) 2(3)] entries_getp 2(2) assms(2) by metis
    then show ?thesis using t 2(1) by (simp add: direct_def falsy_or_def)
  qed simp
qed

text \<open>A round with a direct converter, or with nothing to convert, takes a type from the list.\<close>

definition easy :: "'f val \<Rightarrow> jstr list \<Rightarrow> bool" where
  "easy c dts \<longleftrightarrow> (case dts of a # b # _ \<Rightarrow> b = star \<or> a = star \<or> a = b \<or> vtruthy (direct c a b) | _ \<Rightarrow> True)"

lemma convert_easy:
  assumes shorter: "\<And>prev dts' r jq. length dts' < length dts \<Longrightarrow> convert_loop host env prev dts' r jq \<noteq> None"
    and "easy (cv_converters env) dts"
  shows "convert_loop host env prev dts r jq \<noteq> None"
proof (cases dts)
  case Nil
  then show ?thesis by (subst convert_loop.simps) simp
next
  case (Cons a ds)
  show ?thesis
  proof (cases ds)
    case Nil
    then show ?thesis using Cons by (subst convert_loop.simps) (simp add: Let_def split: sum.split)
  next
    case (Cons b es)
    have "convert_loop host env p (c # es) r' jq' \<noteq> None" for p c r' jq'
      by (rule shorter) (simp add: Cons \<open>dts = a # ds\<close>)
    moreover have "a \<noteq> star \<Longrightarrow> a \<noteq> b \<Longrightarrow> b \<noteq> star \<Longrightarrow> snd (find_converter (cv_converters env) a b es) = (b, es)"
      using assms(2) by (simp add: easy_def Cons \<open>dts = a # ds\<close> find_converter_def)
    ultimately show ?thesis
      by (subst convert_loop.simps)
        (auto simp: Let_def Cons \<open>dts = a # ds\<close> split: sum.split prod.split dest: sym)
  qed
qed

lemma convert_ends:
  assumes "good_converters (cv_converters env)" and "cv_converters env = VObj kvs"
  shows "convert_loop host env prev dts r jq \<noteq> None"
proof (induction "length dts" arbitrary: prev dts r jq rule: less_induct)
  case less
  show ?case
  proof (cases "easy (cv_converters env) dts")
    case True
    show ?thesis by (rule convert_easy [OF less True])
  next
    case False
    then obtain a b es where dts: "dts = a # b # es" and n: "b \<noteq> star" "a \<noteq> star" "a \<noteq> b"
      by (auto simp: easy_def split: list.splits)
    obtain f c' ds' where f: "find_converter (cv_converters env) a b es = (f, c', ds')"
      by (metis prod.exhaust)
    have "easy (cv_converters env) (c' # ds') \<and> length (c' # ds') \<le> length dts \<or> length (c' # ds') < length dts"
      using find_converter_result [OF assms f] by (auto simp: dts easy_def)
    then have go: "convert_loop host env p (c' # ds') r' jq' \<noteq> None" for p r' jq'
    proof
      assume e: "easy (cv_converters env) (c' # ds') \<and> length (c' # ds') \<le> length dts"
      show ?thesis
      proof (rule convert_easy)
        show "convert_loop host env p dts' r jq \<noteq> None" if "length dts' < length (c' # ds')" for p dts' r jq
          using that e by (intro less) simp
      qed (use e in simp)
    qed (rule less)
    then show ?thesis using n
      by (subst convert_loop.simps) (auto simp: dts f Let_def split: sum.split)
  qed
qed

lemma length_split_lower: "length (split_char 32 (lower s)) = length (split_char 32 s)"
proof (induction s)
  case (Cons c s)
  have "lower1 c = 32 \<longleftrightarrow> c = 32"
  proof -
    have "65 \<le> c \<and> c \<le> 90 \<Longrightarrow> c + 32 \<noteq> (32 :: jschar)"
      by (auto simp: word_le_nat_alt unat_word_ariths word_unat_eq_iff)
    then show ?thesis by (auto simp: lower1_def)
  qed
  with Cons show ?case by (auto simp: lower_def split: list.split)
qed (simp add: lower_def)

lemma set_prop_sub: "set (set_prop t k v) \<subseteq> insert (k, v) (set t)"
  by (induction t k v rule: set_prop.induct) auto

lemma entries_sub: "e \<in> set (entries (VObj kvs)) \<Longrightarrow> e \<in> set kvs"
proof -
  assume "e \<in> set (entries (VObj kvs))"
  then have k: "fst e \<in> fst ` set kvs" and v: "snd e = the (map_of kvs (fst e))"
    by (auto simp: entries_def in_order_def intro: rev_image_eqI)
  then obtain w where "map_of kvs (fst e) = Some w" by (metis map_of_eq_None_iff not_None_eq)
  with v show ?thesis by (cases e) (auto dest: map_of_SomeD)
qed

lemma fold_set_prop_all:
  "\<forall>e \<in> set es. P (lower (fst e), snd e) \<Longrightarrow> \<forall>e \<in> set t. P e \<Longrightarrow>
    \<forall>e \<in> set (fold (\<lambda>(k, v) t. set_prop t (lower k) v) es t). P e"
proof (induction es arbitrary: t)
  case (Cons e es)
  have "\<forall>x \<in> set (set_prop t (lower (fst e)) (snd e)). P x"
  proof
    fix x assume "x \<in> set (set_prop t (lower (fst e)) (snd e))"
    then have "x = (lower (fst e), snd e) \<or> x \<in> set t" using set_prop_sub by fast
    then show "P x" using Cons.prems by (elim disjE) simp_all
  qed
  with Cons.IH Cons.prems(1) show ?case by (simp add: case_prod_beta)
qed simp

lemma good_lower_keys:
  assumes "good_converters c"
  shows "good_converters (lower_keys c)" and "\<exists>kvs. lower_keys c = VObj kvs"
proof -
  let ?P = "\<lambda>e :: jstr \<times> 'a val. two_words (fst e) \<and> vtruthy (snd e)"
  have "\<forall>e \<in> set (entries c). ?P (lower (fst e), snd e)"
    using assms by (simp add: good_converters_def case_prod_beta two_words_def length_split_lower)
  from fold_set_prop_all [of "entries c" ?P "[]", OF this]
  have all: "\<forall>e \<in> set (fold (\<lambda>(k, v) t. set_prop t (lower k) v) (entries c) []). ?P e" by simp
  show "good_converters (lower_keys c)"
    unfolding lower_keys_def good_converters_def case_prod_beta
  proof
    fix e assume "e \<in> set (entries (VObj (fold (\<lambda>p t. set_prop t (lower (fst p)) (snd p)) (entries c) [])))"
    from all [unfolded case_prod_beta, rule_format, OF entries_sub [OF this]] show "?P e" .
  qed
  show "\<exists>kvs. lower_keys c = VObj kvs" by (simp add: lower_keys_def)
qed

text \<open>
  C25. Converting a response ends when every converter is named by two types and none is disabled,
  whatever the converters return or throw.
\<close>

theorem ajaxConvert_ends:
  fixes s :: "'f val"
  assumes "good_converters (getp s (js ''converters''))"
  shows "\<exists>r jq. ajaxConvert host call s dts response jqXHR isSuccess = Some (r, jq)"
proof -
  let ?c = "if length dts > 1 \<and> dts ! 1 \<noteq> [] then lower_keys (getp s (js ''converters'')) else VObj []"
  have "good_converters (VObj [] :: 'f val)" by (simp add: good_converters_def entries_def in_order_def for_in_order_def)
  then have "good_converters ?c" "\<exists>kvs. ?c = VObj kvs"
    using good_lower_keys [OF assms] by simp_all
  then obtain kvs where c: "good_converters ?c" "?c = VObj kvs" by blast
  have "convert_loop host env None dts response jqXHR \<noteq> None" if "cv_converters env = ?c" for env
    using convert_ends [of env kvs] c by (simp only: that not_False_eq_True)
  then have "ajaxConvert host call s dts response jqXHR isSuccess \<noteq> None"
    unfolding ajaxConvert_def by simp
  then show ?thesis by auto
qed

section \<open>The settings of the library\<close>

text \<open>
  \<open>jQuery.ajaxSettings\<close>; \<open>String\<close>, \<open>JSON.parse\<close> and \<open>jQuery.parseXML\<close> are the functions \<open>strf\<close>, \<open>jsonf\<close>,
  \<open>xmlf\<close>.  A word boundary is matched as a neighbouring non-word unit or an end of the text, which
  comes to the same for \<open>test\<close>.
\<close>

definition word_unit :: "jschar \<Rightarrow> bool" where
  "word_unit c \<longleftrightarrow> is_digit c \<or> 65 \<le> c \<and> c \<le> 90 \<or> 97 \<le> c \<and> c \<le> 122 \<or> c = 95"

definition before_word :: re where
  "before_word = Alt Bol (Cls (\<lambda>c. \<not> word_unit c))"

definition after_word :: re where
  "after_word = Alt Eol (Cls (\<lambda>c. \<not> word_unit c))"

definition ajax_settings :: "jstr \<Rightarrow> bool \<Rightarrow> 'f \<Rightarrow> 'f \<Rightarrow> 'f \<Rightarrow> 'f val" where
  "ajax_settings href isLocal strf jsonf xmlf = VObj
     [(js ''url'', VStr href),
      (js ''type'', VStr (js ''GET'')),
      (js ''isLocal'', VBool isLocal),
      (js ''global'', VBool True),
      (js ''processData'', VBool True),
      (js ''async'', VBool True),
      (js ''contentType'', VStr (js ''application/x-www-form-urlencoded; charset=UTF-8'')),
      (js ''accepts'', VObj
        [(js ''*'', VStr (js ''*/*'')),
         (js ''text'', VStr (js ''text/plain'')),
         (js ''html'', VStr (js ''text/html'')),
         (js ''xml'', VStr (js ''application/xml, text/xml'')),
         (js ''json'', VStr (js ''application/json, text/javascript''))]),
      (js ''contents'', VObj
        [(js ''xml'', VRe (Cat before_word (Cat (lit ''xml'') after_word))),
         (js ''html'', VRe (Cat before_word (lit ''html''))),
         (js ''json'', VRe (Cat before_word (Cat (lit ''json'') after_word)))]),
      (js ''responseFields'', VObj
        [(js ''xml'', VStr (js ''responseXML'')),
         (js ''text'', VStr (js ''responseText'')),
         (js ''json'', VStr (js ''responseJSON''))]),
      (js ''converters'', VObj
        [(js ''* text'', VFun strf),
         (js ''text html'', VBool True),
         (js ''text json'', VFun jsonf),
         (js ''text xml'', VFun xmlf)]),
      (js ''flatOptions'', VObj [(js ''url'', VBool True), (js ''context'', VBool True)])]"

lemma not_index: "is_index (js s) \<longleftrightarrow> show_nat (read_nat (js s)) = js s \<and> read_nat (js s) < 2 ^ 32 - 1"
  by (simp add: is_index_def)

lemma digit_head: "is_index (c # s) \<Longrightarrow> is_digit c"
  using show_nat_digits [of "read_nat (c # s)"] by (auto simp: is_index_def)

lemma word_not_index [simp]: "\<not> is_index (js [])" "\<not> is_digit (cu c) \<Longrightarrow> \<not> is_index (js (c # s))"
  using digit_head [of "cu c" "js s"] by (auto simp: js_def is_index_def)

lemma for_in_words: "\<forall>k \<in> set ks. \<not> is_index k \<Longrightarrow> for_in_order ks = ks"
  by (simp add: for_in_order_def filter_id_conv [THEN iffD2])

lemma settings_converters:
  "getp (ajax_settings href isLocal strf jsonf xmlf) (js ''converters'') =
     VObj [(js ''* text'', VFun strf), (js ''text html'', VBool True),
       (js ''text json'', VFun jsonf), (js ''text xml'', VFun xmlf)]"
  "getp (ajax_settings href isLocal strf jsonf xmlf) (js ''responseFields'') =
     VObj [(js ''xml'', VStr (js ''responseXML'')), (js ''text'', VStr (js ''responseText'')),
       (js ''json'', VStr (js ''responseJSON''))]"
  "getp (ajax_settings href isLocal strf jsonf xmlf) (js ''throws'') = VUndef"
  "getp (ajax_settings href isLocal strf jsonf xmlf) (js ''dataFilter'') = VUndef"
  "getp (ajax_settings href isLocal strf jsonf xmlf) (js ''mimeType'') = VUndef"
  by (simp_all add: ajax_settings_def)

lemma lower_js:
  "lower (js []) = js []" "lower (js (c # s)) = lower1 (cu c) # lower (js s)"
  by (simp_all add: lower_def js_def)

lemma lower_converters:
  "lower_keys (VObj [(js ''* text'', f), (js ''text html'', g), (js ''text json'', h), (js ''text xml'', k)]) =
    VObj [(js ''* text'', f), (js ''text html'', g), (js ''text json'', h), (js ''text xml'', k)]"
proof -
  have l: "lower (js ''* text'') = js ''* text''" "lower (js ''text html'') = js ''text html''"
    "lower (js ''text json'') = js ''text json''" "lower (js ''text xml'') = js ''text xml''"
    by (simp_all add: lower_def js_def lower1_def)
  have "\<not> is_digit (cu CHR ''*'')" "\<not> is_digit (cu CHR ''t'')" by (simp_all add: is_digit_def)
  then show ?thesis
    by (simp add: lower_keys_def entries_def in_order_def for_in_words l)
qed

text \<open>
  C29. With the settings of the library, a request for JSON takes the text of the response, notes it as
  \<open>responseText\<close>, and gives what \<open>JSON.parse\<close> makes of it, noted as \<open>responseJSON\<close>, or a parse error with
  the error that \<open>JSON.parse\<close> threw.
\<close>

theorem json_response:
  fixes href isLocal strf jsonf xmlf
  defines "s \<equiv> ajax_settings href isLocal strf jsonf xmlf"
  shows "ajaxHandleResponses (getp s (js ''contents'')) (getp s (js ''converters'')) (getp s (js ''mimeType''))
        content_type [js ''json''] (VObj [(js ''text'', VStr body)]) = (VStr body, [js ''text'', js ''json'']) \<and>
     ajaxConvert host call s [js ''text'', js ''json''] (VStr body) (VObj jq) isSuccess =
       Some (case call jsonf [VStr body] of
         Inr v \<Rightarrow> (Success v, VObj (set_prop (set_prop jq (js ''responseText'') (VStr body)) (js ''responseJSON'') v))
       | Inl e \<Rightarrow> (Parsererror e, VObj (set_prop jq (js ''responseText'') (VStr body))))"
proof
  show "ajaxHandleResponses (getp s (js ''contents'')) (getp s (js ''converters'')) (getp s (js ''mimeType''))
        content_type [js ''json''] (VObj [(js ''text'', VStr body)]) = (VStr body, [js ''text'', js ''json''])"
  proof -
    have h: "\<not> has_key (VObj [(js ''text'', VStr body)]) (js ''json'')" by (simp add: has_key_def)
    have e: "map fst (entries (VObj [(js ''text'', VStr body)])) = [js ''text'']"
      by (simp add: entries_def in_order_def for_in_words is_digit_def)
    have c: "vtruthy (getp (getp s (js ''converters'')) (js ''text'' @ js '' '' @ js ''json''))"
      by (simp add: s_def settings_converters js_append [symmetric] vtruthy_def)
    have "star \<noteq> js ''json''" by (simp add: star_def)
    then show ?thesis
      unfolding ajaxHandleResponses_def e by (simp add: first_type_def h c Let_def)
  qed
  have d: "direct (VObj [(js ''* text'', VFun strf), (js ''text html'', VBool True),
       (js ''text json'', VFun jsonf), (js ''text xml'', VFun xmlf)]) (js ''text'') (js ''json'') = VFun jsonf"
    by (simp add: direct_def falsy_or_def js_append [symmetric] vtruthy_def)
  show "ajaxConvert host call s [js ''text'', js ''json''] (VStr body) (VObj jq) isSuccess =
       Some (case call jsonf [VStr body] of
         Inr v \<Rightarrow> (Success v, VObj (set_prop (set_prop jq (js ''responseText'') (VStr body)) (js ''responseJSON'') v))
       | Inl e \<Rightarrow> (Parsererror e, VObj (set_prop jq (js ''responseText'') (VStr body))))"
    unfolding ajaxConvert_def s_def settings_converters
    by (subst convert_loop.simps, simp add: lower_converters note_field_def data_filter_def vtruthy_def star_def
        find_converter_def d apply_conv_def is_true_def call_val_def Let_def split: sum.split)
      (subst convert_loop.simps, simp add: note_field_def data_filter_def vtruthy_def)
qed

section \<open>What ajaxExtend does\<close>

definition deep_keys :: "(jstr \<times> 'f val) list option \<Rightarrow> (jstr \<times> 'f val) list" where
  "deep_keys d = (case d of None \<Rightarrow> [] | Some kvs \<Rightarrow> kvs)"

text \<open>What the flat part and the deep part hold under a name in the end.\<close>

definition flat_at :: "'f val \<Rightarrow> (jstr \<times> 'f val) list \<Rightarrow> (jstr \<times> 'f val) list \<Rightarrow> jstr \<Rightarrow> 'f val" where
  "flat_at fl es t k = (case map_of es k of
     Some v \<Rightarrow> if \<not> is_undef v \<and> vtruthy (getp fl k) then v else getp (VObj t) k
   | None \<Rightarrow> getp (VObj t) k)"

definition deep_at :: "'f val \<Rightarrow> (jstr \<times> 'f val) list \<Rightarrow> (jstr \<times> 'f val) list \<Rightarrow> jstr \<Rightarrow> 'f val" where
  "deep_at fl es d k = (case map_of es k of
     Some v \<Rightarrow> if \<not> is_undef v \<and> \<not> vtruthy (getp fl k) then v else VUndef
   | None \<Rightarrow> getp (VObj d) k)"

lemma flat_steps:
  assumes "distinct (map fst es)" and "fst ` set es \<inter> fst ` set (deep_keys d) = {}"
    and "distinct (map fst (deep_keys d))"
  shows "\<exists>t' d'. fold (flat_step fl) es (VObj t, map_option VObj d) = (VObj t', map_option VObj d')
    \<and> distinct (map fst (deep_keys d'))
    \<and> (\<forall>k. getp (VObj t') k = flat_at fl es t k)
    \<and> (\<forall>k. getp (VObj (deep_keys d')) k = deep_at fl es (deep_keys d) k)"
  using assms
proof (induction es arbitrary: t d)
  case Nil
  then show ?case
    by (intro exI [of _ t] exI [of _ d]) (simp add: flat_at_def deep_at_def)
next
  case (Cons e es)
  obtain n v where e: "e = (n, v)" by (cases e)
  with Cons.prems have dist: "distinct (map fst es)" and n: "map_of es n = None" "map_of (deep_keys d) n = None"
    and dis: "fst ` set es \<inter> fst ` set (deep_keys d) = {}" "n \<notin> fst ` set es"
    by (auto simp: map_of_eq_None_iff)
  note IH = Cons.IH [OF dist]
  consider (undef) "is_undef v" | (flat) "\<not> is_undef v" "vtruthy (getp fl n)"
    | (deep) "\<not> is_undef v" "\<not> vtruthy (getp fl n)" by blast
  then show ?case
  proof cases
    case undef
    have "flat_at fl (e # es) t k = flat_at fl es t k" "deep_at fl (e # es) (deep_keys d) k = deep_at fl es (deep_keys d) k" for k
      using undef n by (auto simp: flat_at_def deep_at_def e)
    then show ?thesis
      using IH [OF dis(1) Cons.prems(3), of t] undef by (simp add: e flat_step_def)
  next
    case flat
    have "flat_at fl (e # es) t k = flat_at fl es (set_prop t n v) k"
      "deep_at fl (e # es) (deep_keys d) k = deep_at fl es (deep_keys d) k" for k
      using flat n by (auto simp: flat_at_def deep_at_def e split: option.split)
    then show ?thesis
      using IH [OF dis(1) Cons.prems(3), of "set_prop t n v"] flat by (simp add: e flat_step_def)
  next
    case deep
    let ?d = "set_prop (deep_keys d) n v"
    have s: "fold (flat_step fl) (e # es) (VObj t, map_option VObj d) =
        fold (flat_step fl) es (VObj t, map_option VObj (Some ?d))"
      using deep by (cases d) (simp_all add: e flat_step_def deep_keys_def)
    have "fst ` set ?d \<subseteq> insert n (fst ` set (deep_keys d))" using set_prop_sub by force
    then have "fst ` set es \<inter> fst ` set (deep_keys (Some ?d)) = {}" using dis by (auto simp: deep_keys_def)
    moreover have "distinct (map fst (deep_keys (Some ?d)))"
      using distinct_set_prop [OF Cons.prems(3)] by (simp add: deep_keys_def)
    moreover have "flat_at fl (e # es) t k = flat_at fl es t k"
      "deep_at fl (e # es) (deep_keys d) k = deep_at fl es (deep_keys (Some ?d)) k" for k
      using deep n by (auto simp: flat_at_def deep_at_def deep_keys_def e split: option.split)
    ultimately show ?thesis unfolding s by (simp only: IH)
  qed
qed

lemma ajaxExtend_at:
  assumes "distinct (map fst src)" and "k \<noteq> js ''__proto__''"
  shows "\<exists>t'. ajaxExtend settings (VObj t) (VObj src) = VObj t'"
    and "getp (ajaxExtend settings (VObj t) (VObj src)) k =
      (let v = getp (VObj src) k in
       if is_undef v then getp (VObj t) k
       else if vtruthy (getp (or_empty (getp settings (js ''flatOptions''))) k) then v
       else extended True (getp (VObj t) k) v)"
proof -
  let ?fl = "or_empty (getp settings (js ''flatOptions''))"
  obtain t' d' where r: "fold (flat_step ?fl) (entries (VObj src)) (VObj t, map_option VObj None) = (VObj t', map_option VObj d')"
    and d: "distinct (map fst (deep_keys d'))"
    and t': "getp (VObj t') k = flat_at ?fl (entries (VObj src)) t k"
    and dk: "getp (VObj (deep_keys d')) k = deep_at ?fl (entries (VObj src)) (deep_keys None) k"
    using flat_steps [of "entries (VObj src)" None ?fl t, OF distinct_entries [OF assms(1)]]
    by (auto simp: deep_keys_def)
  have e: "ajaxExtend settings (VObj t) (VObj src) = extend_into True (VObj t') (VObj (deep_keys d'))"
  proof (cases d')
    case None
    then show ?thesis using r
      by (subst extend_into.simps)
        (simp add: ajaxExtend_def deep_keys_def entries_def [of "VObj []"] in_order_def [of "[]"] for_in_order_def)
  next
    case (Some x)
    then show ?thesis using r
      by (simp add: ajaxExtend_def deep_keys_def extend_deep)
  qed
  show "\<exists>t'. ajaxExtend settings (VObj t) (VObj src) = VObj t'"
    using extend_into_props [OF d] unfolding e by blast
  have m: "map_of (entries (VObj src)) k = map_of src k" by (simp add: entries_def)
  show "getp (ajaxExtend settings (VObj t) (VObj src)) k =
      (let v = getp (VObj src) k in
       if is_undef v then getp (VObj t) k
       else if vtruthy (getp ?fl k) then v
       else extended True (getp (VObj t) k) v)"
    unfolding e getp_extend_into [OF d assms(2)] t' dk
    by (auto simp: flat_at_def deep_at_def m deep_keys_def Let_def kind_defs split: option.split)
qed

section \<open>A conversion that does not end\<close>

text \<open>A state of the loop that leads back to itself, up to the response and the fields.\<close>

definition stuck :: "'f conv_env \<Rightarrow> bool" where
  "stuck env \<longleftrightarrow> cv_filter env = VUndef
     \<and> (\<exists>f. find_converter (cv_converters env) (js ''text'') (js ''json'') [] = (VFun f, js ''text'', [js ''json''])
            \<and> (\<forall>x. \<exists>y. cv_call env f [x] = Inr y))"

lemma stuck_never_ends:
  assumes "convert_loop host env prev dts r jq = Some res" and "stuck env" and "dts = [js ''text'', js ''json'']"
  shows False
proof -
  have "stuck env \<longrightarrow> dts = [js ''text'', js ''json''] \<longrightarrow> False"
  proof (rule convert_loop.raw_induct [OF _ assms(1), where P = "\<lambda>host env prev dts r jq res.
      stuck env \<longrightarrow> dts = [js ''text'', js ''json''] \<longrightarrow> False"], intro impI)
    fix loop host env prev dts r jq res
    assume IH: "\<And>host env prev dts r jq res. loop host env prev dts r jq = Some res \<Longrightarrow>
        stuck env \<longrightarrow> dts = [js ''text'', js ''json''] \<longrightarrow> False"
      and run: "(if dts = [] \<or> hd dts = [] then Some (Success r, jq)
      else let current = hd dts; jq = note_field host env current r jq in
        (case data_filter env prev r of
           Inl e \<Rightarrow> Some (Bubbled e, jq)
         | Inr response1 \<Rightarrow>
             if tl dts = [] \<or> hd (tl dts) = [] then Some (Success response1, jq)
             else let target = hd (tl dts); rest = tl (tl dts) in
               if target = star then loop host env (Some current) (current # rest) response1 jq
               else if current \<noteq> star \<and> current \<noteq> target then
                 (case find_converter (cv_converters env) current target rest of (conv, target', rest') \<Rightarrow>
                    (case apply_conv (cv_call env) (cv_throws env) current target' conv response1 of
                       Inl r \<Rightarrow> Some (r, jq)
                     | Inr response2 \<Rightarrow>
                         loop host env (Some current) (target' # rest') response2 jq))
               else loop host env (Some current) (target # rest) response1 jq)) = Some res"
      and s: "stuck env" and d: "dts = [js ''text'', js ''json'']"
    from s obtain f where f: "find_converter (cv_converters env) (js ''text'') (js ''json'') [] = (VFun f, js ''text'', [js ''json''])"
      and ok: "\<forall>x. \<exists>y. cv_call env f [x] = Inr y" and nf: "cv_filter env = VUndef"
      by (auto simp: stuck_def)
    from ok obtain y where y: "cv_call env f [r] = Inr y" by blast
    have "loop host env (Some (js ''text'')) [js ''text'', js ''json''] y (note_field host env (js ''text'') r jq) = Some res"
      using run f y nf by (simp add: d data_filter_def vtruthy_def Let_def star_def apply_conv_def is_true_def call_val_def)
    from IH [OF this] s show False by simp
  qed
  then show False using assms by blast
qed

text \<open>
  C32. A page that disables the library's converter from text to JSON by the value \<open>false\<close> makes every
  conversion of a text response to JSON run for ever: the search for a pair of converters goes from
  text over text to JSON, again and again.
\<close>

theorem disabled_converter_hangs:
  fixes href isLocal and strf jsonf xmlf :: 'f
  defines "s \<equiv> ajaxSetup (ajax_settings href isLocal strf jsonf xmlf) (VObj [])
    (Some (VObj [(js ''converters'', VObj [(js ''text json'', VBool False)])]))"
  assumes "\<And>x. \<exists>y. call strf [x] = Inr y"
  shows "ajaxConvert host call s [js ''text'', js ''json''] response jqXHR isSuccess = None"
proof -
  let ?D = "ajax_settings href isLocal strf jsonf xmlf"
  let ?o = "[(js ''converters'', VObj [(js ''text json'', VBool False)])] :: (jstr \<times> 'f val) list"
  let ?c = "\<lambda>h. VObj [(js ''* text'', VFun strf), (js ''text html'', VBool True), (js ''text json'', h), (js ''text xml'', VFun xmlf)]"
  obtain D where D: "?D = VObj D" and dD: "distinct (map fst D)" by (simp add: ajax_settings_def)
  obtain t where t: "ajaxExtend ?D (VObj []) ?D = VObj t"
    using ajaxExtend_at(1) [OF dD, of "js ''url''" ?D "[]"] D by auto
  have s: "s = ajaxExtend ?D (VObj t) (VObj ?o)" by (simp add: s_def ajaxSetup_def vtruthy_def t)
  have fl: "or_empty (getp ?D (js ''flatOptions'')) = VObj [(js ''url'', VBool True), (js ''context'', VBool True)]"
    by (simp add: ajax_settings_def or_empty_def vtruthy_def)
  have d: "distinct (map fst ?o)" by simp
  have at: "getp s k = (let v = getp (VObj ?o) k in if is_undef v then getp (VObj t) k else extended True (getp (VObj t) k) v)"
    if "k \<noteq> js ''__proto__''" "k \<noteq> js ''url''" "k \<noteq> js ''context''" for k
    using ajaxExtend_at(2) [OF d that(1), of ?D t] that(2,3) unfolding s fl
    by (simp add: Let_def vtruthy_def del: getp_VObj) (simp add: vtruthy_def)
  have tk: "getp (VObj t) k = (let v = getp ?D k in if is_undef v then VUndef else extended True VUndef v)"
    if "k \<noteq> js ''__proto__''" "k \<noteq> js ''url''" "k \<noteq> js ''context''" for k
    using ajaxExtend_at(2) [OF dD that(1), of ?D "[]"] that(2,3) unfolding D [symmetric] t fl
    by (simp add: Let_def vtruthy_def del: getp_VObj) (simp add: vtruthy_def)
  have c0: "getp (VObj t) (js ''converters'') = ?c (VFun jsonf)"
  proof -
    have "extend_into True (VObj []) (?c (VFun jsonf)) = ?c (VFun jsonf)"
      by (subst extend_into.simps) (simp add: entries_def in_order_def for_in_words is_digit_def kind_defs)
    then show ?thesis
      by (simp add: tk settings_converters extended_def clone_of_def kind_defs del: getp_VObj)
  qed
  have conv: "getp s (js ''converters'') = ?c (VBool False)"
  proof -
    have "extend_into True (?c (VFun jsonf)) (VObj [(js ''text json'', VBool False)]) = ?c (VBool False)"
      by (subst extend_into.simps) (simp add: entries_def in_order_def for_in_words is_digit_def kind_defs)
    moreover have "getp (VObj ?o) (js ''converters'') = VObj [(js ''text json'', VBool False)]" by simp
    ultimately show ?thesis
      by (subst at) (simp_all add: c0 extended_def clone_of_def kind_defs Let_def del: getp_VObj)
  qed
  have filt: "getp s (js ''dataFilter'') = VUndef"
  proof -
    have "getp (VObj t) (js ''dataFilter'') = VUndef"
      by (simp add: tk settings_converters kind_defs del: getp_VObj)
    moreover have "getp (VObj ?o) (js ''dataFilter'') = VUndef" by simp
    ultimately show ?thesis by (subst at) (simp_all add: kind_defs Let_def del: getp_VObj)
  qed
  have find: "find_converter (?c (VBool False)) (js ''text'') (js ''json'') [] = (VFun strf, js ''text'', [js ''json''])"
  proof -
    have "split_char 32 (js ''* text'') = [star, js ''text'']" "split_char 32 (js ''text html'') = [js ''text'', js ''html'']"
      "split_char 32 (js ''text json'') = [js ''text'', js ''json'']"
      by (simp_all add: js_def star_def)
    moreover have "entries (?c (VBool False)) = [(js ''* text'', VFun strf), (js ''text html'', VBool True),
        (js ''text json'', VBool False), (js ''text xml'', VFun xmlf)]"
      by (simp add: entries_def in_order_def for_in_words is_digit_def)
    ultimately show ?thesis
      by (simp add: find_converter_def direct_def falsy_or_def js_append [symmetric] vtruthy_def is_true_def Let_def)
  qed
  show ?thesis
  proof (rule ccontr)
    assume "ajaxConvert host call s [js ''text'', js ''json''] response jqXHR isSuccess \<noteq> None"
    then obtain res where "ajaxConvert host call s [js ''text'', js ''json''] response jqXHR isSuccess = Some res" by auto
    from stuck_never_ends [OF this [unfolded ajaxConvert_def conv filt]] show False
      using find assms(2) by (simp add: stuck_def lower_converters)
  qed
qed

theorem disabled_converter_hangs_witness:
  "ajaxConvert (\<lambda>_. []) (\<lambda>f xs. Inr (VInt (int f)))
     (ajaxSetup (ajax_settings (js ''/'') False 1 2 3) (VObj [])
        (Some (VObj [(js ''converters'', VObj [(js ''text json'', VBool False)])])))
     [js ''text'', js ''json''] (VStr (js ''{}'')) (VObj []) True = None"
  by (rule disabled_converter_hangs) simp

theorem ajaxConvert_ends_witness:
  "\<exists>r jq. ajaxConvert (\<lambda>_. []) (\<lambda>f xs. Inl VNull)
     (VObj [(js ''converters'', VObj [(js ''* text'', VFun (1 :: nat)), (js ''text json'', VFun 2)])])
     [js ''xml'', js ''json''] (VStr (js ''{}'')) (VObj []) True = Some (r, jq)"
proof (rule ajaxConvert_ends)
  have "split_char 32 (js ''* text'') = [star, js ''text'']" "split_char 32 (js ''text json'') = [js ''text'', js ''json'']"
    by (simp_all add: js_def star_def)
  then show "good_converters (getp (VObj [(js ''converters'', VObj [(js ''* text'', VFun (1 :: nat)), (js ''text json'', VFun 2)])]) (js ''converters''))"
    by (simp add: good_converters_def entries_def in_order_def for_in_words is_digit_def two_words_def vtruthy_def)
qed

end
