(* ===== verification/JqAjax.thy ===== *)
theory JqAjax
  imports JqAjaxParts
begin

text \<open>
  \<open>html/jquery-3.6.1.js\<close>, \<open>jQuery.ajax\<close>: a request from its options to the call of its callbacks.

  Record \<open>request\<close> holds the variables of one call of \<open>ajax\<close>; \<open>ajax_page\<close> what the calls share, and a log
  of what they do to the page: events triggered, the deferred settled, the transport used.  What the
  page's functions do with the request object before it is sent is a list of \<open>xhr_op\<close>, chosen by the
  parameter \<open>hook\<close>; the browser's answers are parameters too.
\<close>

section \<open>State\<close>

record 'f request =
  rid :: nat
  settings :: "'f val"
  dataTypes :: "jstr list"
  options :: "'f val"
  cacheURL :: jstr
  responseHeadersString :: jstr
  timeoutTimer :: bool
  completed :: "bool option"
  fireGlobals :: bool
  transport :: "'f val"
  statusCodes :: "'f val"
  sent_headers :: "'f header_table"
  strAbort :: jstr
  jqXHR :: "'f val"

datatype 'f ajax_event =
    PageEvent jstr
  | RequestEvent jstr
  | Resolved "'f val" "'f val"
  | Rejected "'f val" "'f val"
  | CodeCallbacks "'f val"
  | Completed "'f val"
  | Sent "(jstr \<times> 'f val) list"
  | Aborted jstr

record 'f ajax_page =
  active :: int
  lastModified :: "(jstr \<times> jstr) list"
  etag :: "(jstr \<times> jstr) list"
  guid :: int
  log :: "(nat \<times> 'f ajax_event) list"

text \<open>How a piece of code ends.\<close>

datatype 'f fate = Fine | Threw "'f val" | Hangs

type_synonym 'f act = "'f request \<times> 'f ajax_page \<Rightarrow> 'f fate \<times> 'f request \<times> 'f ajax_page"

text \<open>What a function of the page may do with the request object and the settings it is given.\<close>

datatype 'f xhr_op =
    SetHeader jstr "'f val"
  | OverrideMime "'f val"
  | StatusCode "'f val"
  | Abort "jstr option"
  | Assign jstr "'f val"

text \<open>A call of the transport's callback: status, status text, responses, headers.\<close>

type_synonym 'f completion = "int \<times> 'f val \<times> 'f val \<times> jstr"

record 'f ajax_env =
  call :: "'f caller"
  host :: "'f val \<Rightarrow> jstr"
  href :: jstr
  protocol :: jstr
  own_origin :: jstr
  origin :: "jstr \<Rightarrow> jstr option"
  noop :: 'f
  hook :: "'f \<Rightarrow> 'f request \<Rightarrow> 'f xhr_op list \<times> 'f val"
  send_handlers :: "'f request \<Rightarrow> 'f xhr_op list"
  send :: "'f request \<Rightarrow> 'f completion option \<times> 'f val option"
  prefilters :: "(jstr \<times> 'f list) list"
  transports :: "(jstr \<times> 'f list) list"
  ajaxSettings :: "'f val"

definition skip :: "'f act" where
  "skip = (\<lambda>st. (Fine, st))"

definition andthen :: "'f act \<Rightarrow> 'f act \<Rightarrow> 'f act" where
  "andthen m n st = (case m st of (Fine, st') \<Rightarrow> n st' | (f, st') \<Rightarrow> (f, st'))"

definition upd :: "('f request \<Rightarrow> 'f request) \<Rightarrow> 'f act" where
  "upd f st = (Fine, f (fst st), snd st)"

definition note_event :: "'f ajax_event \<Rightarrow> 'f act" where
  "note_event e st = (Fine, fst st, (snd st)\<lparr>log := log (snd st) @ [(rid (fst st), e)]\<rparr>)"

text \<open>\<open>v === false\<close>\<close>

definition is_false :: "'f val \<Rightarrow> bool" where
  "is_false v = (case v of VBool b \<Rightarrow> \<not> b | _ \<Rightarrow> False)"

definition s_get :: "'f request \<Rightarrow> string \<Rightarrow> 'f val" where
  "s_get r k = getp (settings r) (js k)"

definition s_put :: "string \<Rightarrow> 'f val \<Rightarrow> 'f request \<Rightarrow> 'f request" where
  "s_put k v r = r\<lparr>settings := putp (settings r) (js k) v\<rparr>"

definition x_put :: "string \<Rightarrow> 'f val \<Rightarrow> 'f request \<Rightarrow> 'f request" where
  "x_put k v r = r\<lparr>jqXHR := putp (jqXHR r) (js k) v\<rparr>"

section \<open>The end of a request\<close>

definition isCompleted :: "'f request \<Rightarrow> bool" where
  "isCompleted r \<longleftrightarrow> completed r = Some True"

text \<open>The callbacks for the status: called at once when the request has completed.\<close>

definition add_code :: "jstr \<times> 'f val \<Rightarrow> 'f val \<Rightarrow> 'f val" where
  "add_code kv codes = putp codes (fst kv) (VArr [getp codes (fst kv), snd kv])"

definition statusCode :: "('f val \<Rightarrow> jstr) \<Rightarrow> 'f val \<Rightarrow> 'f act" where
  "statusCode hst m st =
     (if \<not> vtruthy m then (Fine, st)
      else if isCompleted (fst st)
      then note_event (CodeCallbacks (getp m (vstr hst (getp (jqXHR (fst st)) (js ''status''))))) st
      else upd (\<lambda>r. r\<lparr>statusCodes := fold add_code (entries m) (statusCodes r)\<rparr>) st)"

definition succeeded :: "int \<Rightarrow> bool" where
  "succeeded status \<longleftrightarrow> status \<ge> 200 \<and> status < 300 \<or> status = 304"

text \<open>The choice and the conversion of the response.\<close>

definition type_of_content :: "'f request \<Rightarrow> jstr option" where
  "type_of_content r = getResponseHeader (isCompleted r) (responseHeadersString r) (js ''Content-Type'')"

definition take_response :: "'f val \<Rightarrow> 'f request \<Rightarrow> 'f val \<times> 'f request" where
  "take_response responses r =
     (if vtruthy responses
      then (case ajaxHandleResponses (s_get r ''contents'') (s_get r ''converters'') (s_get r ''mimeType'')
              (type_of_content r) (dataTypes r) responses of
              (response, dts) \<Rightarrow> (response, r\<lparr>dataTypes := dts\<rparr>))
      else (VUndef, r))"

definition script_noop :: "'f \<Rightarrow> bool \<Rightarrow> 'f request \<Rightarrow> 'f request" where
  "script_noop noopf isSuccess r =
     (if \<not> isSuccess \<and> js ''script'' \<in> set (dataTypes r) \<and> js ''json'' \<notin> set (dataTypes r)
      then s_put ''converters'' (putp (s_get r ''converters'') (js ''text script'') (VFun noopf)) r else r)"

definition remember :: "string \<Rightarrow> 'f request \<Rightarrow> (jstr \<times> jstr) list \<Rightarrow> (jstr \<times> jstr) list" where
  "remember header r cached =
     (case getResponseHeader True (responseHeadersString r) (js header) of
        Some m \<Rightarrow> if m \<noteq> [] then set_prop cached (cacheURL r) m else cached
      | None \<Rightarrow> cached)"

definition if_modified :: "'f act" where
  "if_modified st =
     (if vtruthy (s_get (fst st) ''ifModified'')
      then (Fine, fst st, (snd st)\<lparr>lastModified := remember ''Last-Modified'' (fst st) (lastModified (snd st)),
              etag := remember ''etag'' (fst st) (etag (snd st))\<rparr>)
      else (Fine, st))"

definition is_head :: "'f request \<Rightarrow> bool" where
  "is_head r \<longleftrightarrow> as_str (s_get r ''type'') = Some (js ''HEAD'')"

text \<open>Success, status text, data and error, from the status and the converted response.\<close>

definition verdict :: "'f request \<Rightarrow> int \<Rightarrow> 'f val \<Rightarrow> 'f converted \<Rightarrow> bool \<times> 'f val \<times> 'f val \<times> 'f val \<times> int" where
  "verdict r status nativeStatusText conv =
     (if succeeded status then
        if status = 204 \<or> is_head r then (True, VStr (js ''nocontent''), VUndef, VUndef, status)
        else if status = 304 then (True, VStr (js ''notmodified''), VUndef, VUndef, status)
        else (case conv of
            Success d \<Rightarrow> (True, VStr (js ''success''), d, VUndef, status)
          | Parsererror e \<Rightarrow> (\<not> vtruthy e, VStr (js ''parsererror''), VUndef, e, status)
          | Bubbled e \<Rightarrow> (False, VUndef, VUndef, e, status))
      else if status \<noteq> 0 \<or> \<not> vtruthy nativeStatusText
      then (False, VStr (js ''error''), VUndef, nativeStatusText, max 0 status)
      else (False, nativeStatusText, VUndef, nativeStatusText, status))"

text \<open>
  \<open>done\<close>.  The first part ends with the converted response, or leaves the request unsettled when the
  conversion throws or does not end.
\<close>

definition done_start :: "'f completion \<Rightarrow> 'f request \<Rightarrow> 'f request" where
  "done_start c r = (case c of (status, _, _, hdrs) \<Rightarrow>
     x_put ''readyState'' (VInt (if status > 0 then 4 else 0))
       (r\<lparr>completed := Some True, timeoutTimer := False, transport := VUndef, responseHeadersString := hdrs\<rparr>))"

definition done_convert :: "'f ajax_env \<Rightarrow> 'f completion \<Rightarrow> 'f request \<Rightarrow> ('f converted \<times> 'f val) option \<times> 'f request" where
  "done_convert env c r = (case c of (status, _, responses, _) \<Rightarrow>
     (case take_response responses r of (response, r1) \<Rightarrow>
      let r2 = script_noop (noop env) (succeeded status) r1 in
      (ajaxConvert (host env) (call env) (settings r2) (dataTypes r2) response (jqXHR r2) (succeeded status), r2)))"

definition done_settle :: "'f ajax_env \<Rightarrow> 'f completion \<Rightarrow> 'f converted \<Rightarrow> 'f act" where
  "done_settle env c conv st = (case c of (status, nativeStatusText, _, _) \<Rightarrow>
     (case verdict (fst st) status nativeStatusText conv of (isSuccess, statusText, success, err, status') \<Rightarrow>
      andthen (upd (x_put ''status'' (VInt status')))
      (andthen (upd (x_put ''statusText''
          (VStr (vstr (host env) (if vtruthy nativeStatusText then nativeStatusText else statusText)))))
      (andthen (note_event (if isSuccess then Resolved success statusText else Rejected statusText err))
      (andthen (\<lambda>st. statusCode (host env) (statusCodes (fst st)) st)
      (andthen (upd (\<lambda>r. r\<lparr>statusCodes := VUndef\<rparr>))
      (andthen (if fireGlobals (fst st)
                then note_event (RequestEvent (js (if isSuccess then ''ajaxSuccess'' else ''ajaxError'')))
                else skip)
      (andthen (note_event (Completed statusText))
      (if fireGlobals (fst st)
       then andthen (note_event (RequestEvent (js ''ajaxComplete'')))
           (\<lambda>st. let n = active (snd st) - 1; g = (snd st)\<lparr>active := n\<rparr> in
              if n = 0 then note_event (PageEvent (js ''ajaxStop'')) (fst st, g) else (Fine, fst st, g))
       else skip)))))))
      st))"

definition ajax_done :: "'f ajax_env \<Rightarrow> 'f completion \<Rightarrow> 'f act" where
  "ajax_done env c st =
     (if isCompleted (fst st) then (Fine, st)
      else case done_convert env c (done_start c (fst st)) of
        (None, r) \<Rightarrow> (Hangs, r, snd st)
      | (Some (Bubbled e, jq), r) \<Rightarrow> (Threw e, r\<lparr>jqXHR := jq\<rparr>, snd st)
      | (Some (conv, jq), r) \<Rightarrow>
          andthen (if succeeded (fst c) then if_modified else skip) (done_settle env c conv)
            (r\<lparr>jqXHR := jq\<rparr>, snd st))"

text \<open>\<open>abort\<close>\<close>

definition abort :: "'f ajax_env \<Rightarrow> jstr option \<Rightarrow> 'f act" where
  "abort env statusText st =
     (let finalText = (case statusText of Some (c # t) \<Rightarrow> c # t | _ \<Rightarrow> strAbort (fst st)) in
      andthen (if vtruthy (transport (fst st)) then note_event (Aborted finalText) else skip)
        (ajax_done env (0, VStr finalText, VUndef, [])) st)"

definition set_header :: "jstr \<Rightarrow> 'f val \<Rightarrow> 'f request \<Rightarrow> 'f request" where
  "set_header name v r =
     (if completed r = None then r\<lparr>sent_headers := setRequestHeader name v (sent_headers r)\<rparr> else r)"

definition overrideMimeType :: "'f val \<Rightarrow> 'f request \<Rightarrow> 'f request" where
  "overrideMimeType type r = (if completed r = None then s_put ''mimeType'' type r else r)"

fun xhr_act :: "'f ajax_env \<Rightarrow> 'f xhr_op \<Rightarrow> 'f act" where
  "xhr_act env (SetHeader name v) = upd (set_header name v)"
| "xhr_act env (OverrideMime type) = upd (overrideMimeType type)"
| "xhr_act env (StatusCode m) = statusCode (host env) m"
| "xhr_act env (Abort statusText) = abort env statusText"
| "xhr_act env (Assign k v) = upd (\<lambda>r. r\<lparr>settings := putp (settings r) k v\<rparr>)"

definition xhr_acts :: "'f ajax_env \<Rightarrow> 'f xhr_op list \<Rightarrow> 'f act" where
  "xhr_acts env ops = foldr (\<lambda>p m. andthen (xhr_act env p) m) ops skip"

section \<open>The start of a request\<close>

definition begin_request :: "'f ajax_env \<Rightarrow> nat \<Rightarrow> 'f val \<Rightarrow> 'f request" where
  "begin_request env n opts =
     (let s = ajaxSetup (ajaxSettings env) (VObj []) (Some opts) in
      \<lparr>rid = n, settings = s, dataTypes = [], options = opts, cacheURL = [], responseHeadersString = [],
       timeoutTimer = False, completed = None, fireGlobals = False, transport = VUndef,
       statusCodes = or_empty (getp s (js ''statusCode'')), sent_headers = \<lparr>names = [], headers = []\<rparr>,
       strAbort = js ''canceled'', jqXHR = VObj [(js ''readyState'', VInt 0)]\<rparr>)"

text \<open>The URL, the method, the data types, the origin and the data.\<close>

definition add_protocol :: "jstr \<Rightarrow> jstr \<Rightarrow> jstr" where
  "add_protocol proto url = (if take 2 url = js ''//'' then proto @ js ''//'' @ drop 2 url else url)"

definition set_url :: "'f ajax_env \<Rightarrow> 'f val \<Rightarrow> 'f request \<Rightarrow> 'f request" where
  "set_url env url r = s_put ''url'' (VStr (add_protocol (protocol env)
     (vstr (host env) (falsy_or url (falsy_or (s_get r ''url'') (VStr (href env))))))) r"

definition set_type :: "'f request \<Rightarrow> 'f request" where
  "set_type r = s_put ''type'' (falsy_or (getp (options r) (js ''method'')) (falsy_or (getp (options r) (js ''type''))
     (falsy_or (s_get r ''method'') (s_get r ''type'')))) r"

definition set_dataTypes :: "'f ajax_env \<Rightarrow> 'f request \<Rightarrow> 'f request" where
  "set_dataTypes env r =
     (let ws = words (lower (vstr (host env) (falsy_or (s_get r ''dataType'') (VStr star))))
      in r\<lparr>dataTypes := (if ws = [] then [[]] else ws)\<rparr>)"

definition set_crossDomain :: "'f ajax_env \<Rightarrow> 'f request \<Rightarrow> 'f request" where
  "set_crossDomain env r =
     (if nullish (s_get r ''crossDomain'')
      then s_put ''crossDomain'' (VBool (case origin env (vstr (host env) (s_get r ''url'')) of
             None \<Rightarrow> True | Some o' \<Rightarrow> own_origin env \<noteq> o')) r
      else r)"

definition set_data :: "'f ajax_env \<Rightarrow> 'f request \<Rightarrow> 'f val + 'f request" where
  "set_data env r =
     (let d = s_get r ''data'' in
      if vtruthy d \<and> vtruthy (s_get r ''processData'') \<and> typeof d \<noteq> js ''string''
      then (case jq_param (host env) (call env) d (vtruthy (s_get r ''traditional'')) of
              Inl e \<Rightarrow> Inl e | Inr t \<Rightarrow> Inr (s_put ''data'' (VStr t) r))
      else Inr r)"

definition prepare :: "'f ajax_env \<Rightarrow> 'f val \<Rightarrow> 'f request \<Rightarrow> 'f val + 'f request" where
  "prepare env url r = set_data env (set_crossDomain env (set_dataTypes env (set_type (set_url env url r))))"

text \<open>The prefilters and the transport factories, run on the request.\<close>

definition ask :: "'f ajax_env \<Rightarrow> 'f \<Rightarrow> 'f fate \<times> 'f request \<times> 'f ajax_page \<Rightarrow>
    'f val \<times> 'f fate \<times> 'f request \<times> 'f ajax_page" where
  "ask env f fst' = (case fst' of
     (Fine, st) \<Rightarrow> (case hook env f (fst st) of (ops, answer) \<Rightarrow> (answer, xhr_acts env ops st))
   | other \<Rightarrow> (VUndef, other))"

definition front_type :: "jstr \<Rightarrow> 'f fate \<times> 'f request \<times> 'f ajax_page \<Rightarrow> 'f fate \<times> 'f request \<times> 'f ajax_page" where
  "front_type t = (\<lambda>(x, r, g). (x, r\<lparr>dataTypes := t # dataTypes r\<rparr>, g))"

definition consult :: "'f ajax_env \<Rightarrow> bool \<Rightarrow> 'f request \<times> 'f ajax_page \<Rightarrow>
    'f val \<times> 'f fate \<times> 'f request \<times> 'f ajax_page" where
  "consult env seeking st =
     inspectPrefiltersOrTransports (ask env) front_type (\<lambda>(_, r, _). first_type (dataTypes r))
       (if seeking then transports env else prefilters env) seeking (Fine, st)"

text \<open>The events at the start of a request, and the count of active requests.\<close>

definition count_active :: "'f act" where
  "count_active st =
     (let r = fst st; g = snd st; fire = vtruthy (s_get r ''global''); r1 = r\<lparr>fireGlobals := fire\<rparr> in
      if fire then
        (let g1 = g\<lparr>active := active g + 1\<rparr> in
         if active g = 0 then note_event (PageEvent (js ''ajaxStart'')) (r1, g1) else (Fine, r1, g1))
      else (Fine, r1, g))"

text \<open>The address that is requested.\<close>

definition replace1 :: "re \<Rightarrow> (jstr \<Rightarrow> caps \<Rightarrow> jstr) \<Rightarrow> jstr \<Rightarrow> jstr" where
  "replace1 re f s = (case search re s of None \<Rightarrow> s | Some (before, m, rest, c) \<Rightarrow> before @ f m c @ rest)"

definition rhash :: re where
  "rhash = Cat (lit ''#'') (Cat (Star dot) Eol)"

definition rantiCache :: re where
  "rantiCache = Cat (Grp 1 (Cls (\<lambda>c. c = 63 \<or> c = 38))) (Cat (lit ''_='') (Star (Cls (\<lambda>c. c \<noteq> 38))))"

definition r20 :: re where
  "r20 = lit ''%20''"

definition joiner :: "jstr \<Rightarrow> jstr" where
  "joiner url = (if 63 \<in> set url then js ''&'' else js ''?'')"

definition form_type :: jstr where
  "form_type = js ''application/x-www-form-urlencoded''"

definition delete_prop :: "'f val \<Rightarrow> jstr \<Rightarrow> 'f val" where
  "delete_prop v k = (case v of VObj kvs \<Rightarrow> VObj (filter (\<lambda>(k', _). k' \<noteq> k) kvs) | _ \<Rightarrow> v)"

definition set_method :: "'f ajax_env \<Rightarrow> 'f request \<Rightarrow> 'f request" where
  "set_method env r =
     (let t = upper (vstr (host env) (s_get r ''type''))
      in s_put ''hasContent'' (VBool (t \<noteq> js ''GET'' \<and> t \<noteq> js ''HEAD'')) (s_put ''type'' (VStr t) r))"

definition append_data :: "'f ajax_env \<Rightarrow> jstr \<Rightarrow> 'f request \<Rightarrow> jstr \<times> 'f request" where
  "append_data env url r =
     (let d = s_get r ''data'' in
      if vtruthy d \<and> (vtruthy (s_get r ''processData'') \<or> typeof d = js ''string'')
      then (url @ joiner url @ vstr (host env) d, r\<lparr>settings := delete_prop (settings r) (js ''data'')\<rparr>)
      else (url, r))"

definition anti_cache :: "'f request \<Rightarrow> jstr \<Rightarrow> jstr \<Rightarrow> 'f ajax_page \<Rightarrow> jstr \<times> jstr \<times> 'f ajax_page" where
  "anti_cache r url uncached g =
     (if is_false (s_get r ''cache'') then
        (let u = replace1 rantiCache (\<lambda>m c. case c 1 of None \<Rightarrow> [] | Some x \<Rightarrow> x) url
         in (u, joiner u @ js ''_='' @ show_int (guid g) @ uncached, g\<lparr>guid := guid g + 1\<rparr>))
      else (url, uncached, g))"

definition no_content_url :: "'f ajax_env \<Rightarrow> jstr \<Rightarrow> 'f act" where
  "no_content_url env url0 st =
     (let uncached = drop (length url0) (vstr (host env) (s_get (fst st) ''url'')) in
      case append_data env url0 (fst st) of (url1, r1) \<Rightarrow>
        (case anti_cache r1 url1 uncached (snd st) of (url2, uncached1, g1) \<Rightarrow>
           (Fine, s_put ''url'' (VStr (url2 @ uncached1)) (r1\<lparr>cacheURL := url2\<rparr>), g1)))"

definition set_address :: "'f ajax_env \<Rightarrow> 'f act" where
  "set_address env st =
     (let r = set_method env (fst st);
          url0 = replace1 rhash (\<lambda>m c. []) (vstr (host env) (s_get r ''url''));
          r1 = r\<lparr>cacheURL := url0\<rparr>; d = s_get r1 ''data''
      in if \<not> vtruthy (s_get r1 ''hasContent'') then no_content_url env url0 (r1, snd st)
         else if vtruthy d \<and> vtruthy (s_get r1 ''processData'')
             \<and> take (length form_type) (vstr (host env) (falsy_or (s_get r1 ''contentType'') (VStr []))) = form_type
         then (Fine, s_put ''data'' (VStr (replace_g r20 (\<lambda>m c. js ''+'') (vstr (host env) d))) r1, snd st)
         else (Fine, r1, snd st))"

section \<open>Headers and sending\<close>

definition allTypes :: jstr where
  "allTypes = js ''*/*''"

definition cached_headers :: "'f ajax_page \<Rightarrow> 'f request \<Rightarrow> 'f request" where
  "cached_headers g r =
     (if vtruthy (s_get r ''ifModified'') then
        (let put = (\<lambda>h cached r. case map_of cached (cacheURL r) of
               Some m \<Rightarrow> if m \<noteq> [] then set_header (js h) (VStr m) r else r | None \<Rightarrow> r)
         in put ''If-None-Match'' (etag g) (put ''If-Modified-Since'' (lastModified g) r))
      else r)"

definition content_header :: "'f request \<Rightarrow> 'f request" where
  "content_header r =
     (if vtruthy (s_get r ''data'') \<and> vtruthy (s_get r ''hasContent'')
          \<and> \<not> is_false (s_get r ''contentType'')
        \<or> vtruthy (getp (options r) (js ''contentType''))
      then set_header (js ''Content-Type'') (s_get r ''contentType'') r else r)"

definition accept_header :: "('f val \<Rightarrow> jstr) \<Rightarrow> 'f request \<Rightarrow> 'f request" where
  "accept_header hst r =
     (let t = first_type (dataTypes r); accepts = s_get r ''accepts'';
          known = (dataTypes r \<noteq> [] \<and> t \<noteq> [] \<and> vtruthy (getp accepts t))
      in set_header (js ''Accept'')
           (if known then
              VStr (vstr hst (getp accepts t) @ (if t \<noteq> star then js '', '' @ allTypes @ js ''; q=0.01'' else []))
            else getp accepts star) r)"

definition own_headers :: "'f request \<Rightarrow> 'f request" where
  "own_headers r = fold (\<lambda>(k, v). set_header k v) (entries (s_get r ''headers'')) r"

definition set_headers :: "'f ajax_env \<Rightarrow> 'f act" where
  "set_headers env st =
     (Fine, own_headers (accept_header (host env) (content_header (cached_headers (snd st) (fst st)))), snd st)"

text \<open>\<open>beforeSend\<close>; the flag says whether the request was given up.\<close>

definition before_send :: "'f ajax_env \<Rightarrow> 'f request \<times> 'f ajax_page \<Rightarrow> bool \<times> 'f fate \<times> 'f request \<times> 'f ajax_page" where
  "before_send env st =
     (case s_get (fst st) ''beforeSend'' of
        VFun f \<Rightarrow> (case hook env f (fst st) of (ops, answer) \<Rightarrow>
          (case xhr_acts env ops st of
             (Fine, st1) \<Rightarrow>
               if is_false answer \<or> isCompleted (fst st1)
               then (True, abort env None st1) else (False, Fine, st1)
           | (x, st1) \<Rightarrow> (True, x, st1)))
      | v \<Rightarrow> if vtruthy v then (True, Threw type_error, st) else (False, Fine, st))"

text \<open>The call of the transport, which may complete at once, throw, or both.\<close>

definition transport_send :: "'f ajax_env \<Rightarrow> 'f act" where
  "transport_send env st =
     (case send env (fst st) of (answer, thrown) \<Rightarrow>
      andthen (upd (\<lambda>r. r\<lparr>completed := Some False\<rparr>))
      (andthen (\<lambda>st. note_event (Sent (headers (sent_headers (fst st)))) st)
       (\<lambda>st. case (case answer of None \<Rightarrow> skip | Some c \<Rightarrow> ajax_done env c) st of
          (Hangs, st1) \<Rightarrow> (Hangs, st1)
        | (x, st1) \<Rightarrow>
            (case (case x of Threw e \<Rightarrow> Some e | _ \<Rightarrow> thrown) of
               None \<Rightarrow> (Fine, st1)
             | Some e \<Rightarrow> if isCompleted (fst st1) then (Threw e, st1)
                 else ajax_done env (-1, e, VUndef, []) st1))) st)"

definition ajax_send :: "'f ajax_env \<Rightarrow> 'f act" where
  "ajax_send env st =
     (case consult env True ((fst st)\<lparr>strAbort := js ''abort''\<rparr>, snd st) of
        (tr, Fine, st1) \<Rightarrow>
          if \<not> vtruthy tr then ajax_done env (-1, VStr (js ''No Transport''), VUndef, []) st1
          else
            andthen (upd (\<lambda>r. x_put ''readyState'' (VInt 1) (r\<lparr>transport := tr\<rparr>)))
            (\<lambda>st2. case (if fireGlobals (fst st2)
                then andthen (note_event (RequestEvent (js ''ajaxSend''))) (xhr_acts env (send_handlers env (fst st2)))
                else skip) st2 of
               (Fine, st3) \<Rightarrow>
                 if isCompleted (fst st3) then (Fine, st3)
                 else andthen (upd (\<lambda>r. r\<lparr>timeoutTimer := vtruthy (s_get r ''async'')
                          \<and> (case s_get r ''timeout'' of VNum (Fin n) \<Rightarrow> n > 0 | _ \<Rightarrow> False)\<rparr>))
                      (transport_send env) st3
             | other \<Rightarrow> other) st1
      | (_, other) \<Rightarrow> other)"

text \<open>\<open>jQuery.ajax\<close>, with the number of the request.\<close>

definition ajax :: "'f ajax_env \<Rightarrow> nat \<Rightarrow> 'f val \<Rightarrow> 'f val \<Rightarrow> 'f ajax_page \<Rightarrow> 'f fate \<times> 'f request \<times> 'f ajax_page" where
  "ajax env n url opts g =
     (let by_object = (typeof url = js ''object'');
          opts1 = or_empty (if by_object then url else opts);
          url1 = (if by_object then VUndef else url);
          r0 = begin_request env n opts1
      in case prepare env url1 r0 of
           Inl e \<Rightarrow> (Threw e, r0, g)
         | Inr r1 \<Rightarrow>
             (case consult env False (r1, g) of
                (_, Fine, st2) \<Rightarrow>
                  if isCompleted (fst st2) then (Fine, st2)
                  else andthen count_active
                       (andthen (set_address env)
                       (andthen (set_headers env)
                        (\<lambda>st3. case before_send env st3 of
                            (True, other) \<Rightarrow> other
                          | (False, _, st4) \<Rightarrow> ajax_send env st4))) st2
              | (_, other) \<Rightarrow> other))"

text \<open>\<open>jQuery.get\<close> and \<open>jQuery.post\<close>: the options they hand to \<open>ajax\<close>.\<close>

definition method_options :: "jstr \<Rightarrow> 'f val \<Rightarrow> 'f val \<Rightarrow> 'f val \<Rightarrow> 'f val \<Rightarrow> 'f val" where
  "method_options meth url data callback type =
     (let shifted = isFunction data;
          type1 = (if shifted then falsy_or type callback else type);
          callback1 = (if shifted then data else callback);
          data1 = (if shifted then VUndef else data)
      in jq_extend VUndef
           [VObj [(js ''url'', url), (js ''type'', VStr meth), (js ''dataType'', type1),
                  (js ''data'', data1), (js ''success'', callback1)],
            if isPlainObject url then url else VBool False])"

definition jq_post :: "'f ajax_env \<Rightarrow> nat \<Rightarrow> 'f val \<Rightarrow> 'f val \<Rightarrow> 'f val \<Rightarrow> 'f val \<Rightarrow> 'f ajax_page \<Rightarrow>
    'f fate \<times> 'f request \<times> 'f ajax_page" where
  "jq_post env n url data callback type g = ajax env n (method_options (js ''post'') url data callback type) VUndef g"

section \<open>One end per request\<close>

definition events_of :: "nat \<Rightarrow> 'f ajax_page \<Rightarrow> 'f ajax_event list" where
  "events_of i g = map snd (filter (\<lambda>(n, _). n = i) (log g))"

definition settling :: "'f ajax_event \<Rightarrow> bool" where
  "settling e = (case e of Resolved _ _ \<Rightarrow> True | Rejected _ _ \<Rightarrow> True | _ \<Rightarrow> False)"

definition completing :: "'f ajax_event \<Rightarrow> bool" where
  "completing e = (case e of RequestEvent t \<Rightarrow> t = js ''ajaxComplete'' | _ \<Rightarrow> False)"

definition settles :: "nat \<Rightarrow> 'f ajax_page \<Rightarrow> nat" where
  "settles i g = length (filter settling (events_of i g))"

definition completes :: "nat \<Rightarrow> 'f ajax_page \<Rightarrow> nat" where
  "completes i g = length (filter completing (events_of i g))"

text \<open>
  What a piece of code for a request does to the page: only the request's own events are logged, the
  count of active requests goes with the request's completion, and a request that has not completed has
  not been settled.
\<close>

definition unsettled :: "'f request \<times> 'f ajax_page \<Rightarrow> bool" where
  "unsettled st \<longleftrightarrow> (let i = rid (fst st); g = snd st in
     settles i g \<le> 1 \<and> completes i g \<le> 1 \<and> (completes i g = 1 \<longrightarrow> settles i g = 1 \<and> fireGlobals (fst st))
     \<and> (\<not> isCompleted (fst st) \<longrightarrow> settles i g = 0 \<and> completes i g = 0))"

definition leads :: "'f request \<times> 'f ajax_page \<Rightarrow> 'f request \<times> 'f ajax_page \<Rightarrow> bool" where
  "leads st st' \<longleftrightarrow> rid (fst st') = rid (fst st) \<and> fireGlobals (fst st') = fireGlobals (fst st)
     \<and> (\<forall>i. i \<noteq> rid (fst st) \<longrightarrow> events_of i (snd st') = events_of i (snd st))
     \<and> active (snd st') + int (completes (rid (fst st)) (snd st')) = active (snd st) + int (completes (rid (fst st)) (snd st))
     \<and> (unsettled st \<longrightarrow> unsettled st')"

definition proper :: "'f act \<Rightarrow> bool" where
  "proper m \<longleftrightarrow> (\<forall>st. leads st (snd (m st)))"

named_theorems proper_intros \<open>rules that show code of a request proper\<close>

lemma leads_refl [simp]: "leads st st"
  by (simp add: leads_def)

lemma leads_trans: "leads a b \<Longrightarrow> leads b c \<Longrightarrow> leads a c"
  by (auto simp: leads_def)

lemma proper_skip [proper_intros]: "proper skip"
  by (simp add: proper_def skip_def)

lemma proper_andthen [proper_intros]: "proper m \<Longrightarrow> proper n \<Longrightarrow> proper (andthen m n)"
  unfolding proper_def
proof
  fix st assume m: "\<forall>st. leads st (snd (m st))" and n: "\<forall>st. leads st (snd (n st))"
  then have "leads st (snd (m st))" "leads (snd (m st)) (snd (n (snd (m st))))" by blast+
  then show "leads st (snd (andthen m n st))"
    by (auto simp: andthen_def split: prod.split fate.split intro: leads_trans)
qed

text \<open>An update of a request that keeps its number and its progress.\<close>

definition same_course :: "('f request \<Rightarrow> 'f request) \<Rightarrow> bool" where
  "same_course f \<longleftrightarrow> (\<forall>r. rid (f r) = rid r \<and> fireGlobals (f r) = fireGlobals r
     \<and> (isCompleted (f r) = isCompleted r))"

lemma proper_upd: "same_course f \<Longrightarrow> proper (upd f)"
  by (simp add: proper_def upd_def same_course_def leads_def unsettled_def Let_def)

lemma events_of_note: "events_of i (g\<lparr>log := log g @ [(n, e)]\<rparr>) = events_of i g @ (if n = i then [e] else [])"
  by (simp add: events_of_def)

lemma proper_note: "\<not> settling e \<Longrightarrow> \<not> completing e \<Longrightarrow> proper (note_event e)"
  by (simp add: proper_def note_event_def leads_def unsettled_def settles_def completes_def events_of_note Let_def)

lemma proper_ops:
  "same_course (set_header n v)" "same_course (overrideMimeType t)" "same_course (x_put k v)" "same_course (s_put k' v)"
  "same_course (\<lambda>r. r\<lparr>settings := h r\<rparr>)" "same_course (\<lambda>r. r\<lparr>statusCodes := c r\<rparr>)" "same_course (\<lambda>r. r\<lparr>timeoutTimer := b r\<rparr>)"
  "same_course (\<lambda>r. r\<lparr>transport := tr\<rparr>)" "same_course (\<lambda>r. r\<lparr>strAbort := sa\<rparr>)" "same_course (\<lambda>r. r\<lparr>dataTypes := dt r\<rparr>)"
  by (simp_all add: same_course_def set_header_def overrideMimeType_def x_put_def s_put_def isCompleted_def)

lemma properD: "proper m \<Longrightarrow> leads st (snd (m st))"
  unfolding proper_def by blast

lemma proper_codes: "proper (note_event (CodeCallbacks x))"
  by (rule proper_note) (simp_all add: settling_def completing_def)

lemma proper_statusCode [proper_intros]: "proper (statusCode h m)"
  unfolding proper_def
  by (simp add: statusCode_def properD [OF proper_codes] properD [OF proper_upd [OF proper_ops(6)]])

text \<open>The last part of a request: its events and its effect on the count.\<close>

lemma x_put_course [simp]:
  "rid (x_put k v r) = rid r" "fireGlobals (x_put k v r) = fireGlobals r" "completed (x_put k v r) = completed r"
  "statusCodes (x_put k v r) = statusCodes r"
  by (simp_all add: x_put_def)

definition effected :: "'f request \<times> 'f ajax_page \<Rightarrow> 'f request \<times> 'f ajax_page \<Rightarrow> nat \<Rightarrow> nat \<Rightarrow> int \<Rightarrow> bool" where
  "effected st st' a b c \<longleftrightarrow> rid (fst st') = rid (fst st) \<and> fireGlobals (fst st') = fireGlobals (fst st)
     \<and> isCompleted (fst st')
     \<and> (\<forall>i. i \<noteq> rid (fst st) \<longrightarrow> events_of i (snd st') = events_of i (snd st))
     \<and> settles (rid (fst st)) (snd st') = settles (rid (fst st)) (snd st) + a
     \<and> completes (rid (fst st)) (snd st') = completes (rid (fst st)) (snd st) + b
     \<and> active (snd st') = active (snd st) + c"

definition effect :: "'f act \<Rightarrow> nat \<Rightarrow> nat \<Rightarrow> int \<Rightarrow> bool" where
  "effect m a b c \<longleftrightarrow> (\<forall>st. isCompleted (fst st) \<longrightarrow> (\<exists>st'. m st = (Fine, st') \<and> effected st st' a b c))"

lemma effected_trans: "effected s t a b c \<Longrightarrow> effected t u a' b' c' \<Longrightarrow> effected s u (a + a') (b + b') (c + c')"
  by (simp add: effected_def)

lemma effect_andthen: "effect m a b c \<Longrightarrow> effect n a' b' c' \<Longrightarrow> effect (andthen m n) (a + a') (b + b') (c + c')"
  unfolding effect_def
proof (intro allI impI)
  fix st :: "'a request \<times> 'a ajax_page"
  assume m: "\<forall>st. isCompleted (fst st) \<longrightarrow> (\<exists>st'. m st = (Fine, st') \<and> effected st st' a b c)"
    and n: "\<forall>st. isCompleted (fst st) \<longrightarrow> (\<exists>st'. n st = (Fine, st') \<and> effected st st' a' b' c')"
    and "isCompleted (fst st)"
  then obtain u where u: "m st = (Fine, u)" "effected st u a b c" by blast
  moreover from u(2) n obtain v where v: "n u = (Fine, v)" "effected u v a' b' c'"
    unfolding effected_def by blast
  ultimately show "\<exists>st'. andthen m n st = (Fine, st') \<and> effected st st' (a + a') (b + b') (c + c')"
    using effected_trans [OF u(2) v(2)] by (simp add: andthen_def)
qed

lemma effect_skip: "effect skip 0 0 0"
  by (simp add: effect_def effected_def skip_def)

lemma effect_upd: "same_course f \<Longrightarrow> effect (upd f) 0 0 0"
  by (simp add: effect_def effected_def upd_def same_course_def)

lemma effect_note: "effect (note_event e) (if settling e then 1 else 0) (if completing e then 1 else 0) 0"
  by (simp add: effect_def effected_def note_event_def settles_def completes_def events_of_note)

lemma effect_settle: "settling e \<Longrightarrow> \<not> completing e \<Longrightarrow> effect (note_event e) 1 0 0"
  and effect_complete: "\<not> settling e \<Longrightarrow> completing e \<Longrightarrow> effect (note_event e) 0 1 0"
  and effect_other: "\<not> settling e \<Longrightarrow> \<not> completing e \<Longrightarrow> effect (note_event e) 0 0 0"
  using effect_note [of e] by simp_all

lemma effect_pointwise: "(\<And>st. isCompleted (fst st) \<Longrightarrow> \<exists>k. m st = k st \<and> effect k a b c) \<Longrightarrow> effect m a b c"
  unfolding effect_def by metis

lemma effect_codes: "effect (\<lambda>st. statusCode h (c st) st) 0 0 0"
proof (rule effect_pointwise)
  fix st :: "'a request \<times> 'a ajax_page" assume "isCompleted (fst st)"
  then have "statusCode h (c st) st =
      (if vtruthy (c st) then note_event (CodeCallbacks (getp (c st) (vstr h (getp (jqXHR (fst st)) (js ''status''))))) else skip) st"
    by (simp add: statusCode_def skip_def)
  moreover have "effect (if vtruthy (c st) then note_event (CodeCallbacks x) else skip) 0 0 0" for x
    using effect_other [of "CodeCallbacks x"] by (simp add: settling_def completing_def effect_skip)
  ultimately show "\<exists>k. statusCode h (c st) st = k st \<and> effect k 0 0 0" by blast
qed

lemma effect_stop: "effect (\<lambda>st. let n = active (snd st) - 1; g = (snd st)\<lparr>active := n\<rparr> in
              if n = 0 then note_event (PageEvent (js ''ajaxStop'')) (fst st, g) else (Fine, fst st, g)) 0 0 (-1)"
  by (simp add: effect_def effected_def note_event_def settles_def completes_def events_of_def settling_def completing_def Let_def)

lemma effect_at:
  "effect m a b c \<Longrightarrow> isCompleted (fst st) \<Longrightarrow> a = a' \<Longrightarrow> b = b' \<Longrightarrow> c = c' \<Longrightarrow>
    \<exists>st'. m st = (Fine, st') \<and> effected st st' a' b' c'"
  unfolding effect_def by blast

lemma effect_request_event: "t \<noteq> ''ajaxComplete'' \<Longrightarrow> effect (note_event (RequestEvent (js t))) 0 0 0"
  by (rule effect_other) (simp_all add: settling_def completing_def)

lemma settle_effect:
  assumes "isCompleted (fst st)"
  shows "\<exists>st'. done_settle env c conv st = (Fine, st') \<and> effected st st' 1
    (if fireGlobals (fst st) then 1 else 0) (if fireGlobals (fst st) then -1 else 0)"
proof -
  obtain status native resp hdrs where c: "c = (status, native, resp, hdrs)" by (metis prod.exhaust)
  obtain ok text' data err status' where v: "verdict (fst st) status native conv = (ok, text', data, err, status')"
    by (metis prod.exhaust)
  let ?fire = "fireGlobals (fst st)"
  let ?settle = "note_event (if ok then Resolved data text' else Rejected text' err)"
  let ?global = "if ?fire then note_event (RequestEvent (js (if ok then ''ajaxSuccess'' else ''ajaxError''))) else skip"
  have s: "effect ?settle 1 0 0" by (rule effect_settle) (simp_all add: settling_def completing_def)
  have g: "effect ?global 0 0 0"
    by (simp add: effect_request_event effect_skip)
  have d: "effect (note_event (Completed text')) 0 0 0" by (rule effect_other) (simp_all add: settling_def completing_def)
  have a: "effect (note_event (RequestEvent (js ''ajaxComplete''))) 0 1 0"
    by (rule effect_complete) (simp_all add: settling_def completing_def)
  have codes: "same_course (\<lambda>r. r\<lparr>statusCodes := VUndef\<rparr>)" by (rule proper_ops)
  note puts = effect_upd [OF proper_ops(3)]
  note all = effect_andthen [OF puts effect_andthen [OF puts effect_andthen [OF s effect_andthen [OF effect_codes
    effect_andthen [OF effect_upd [OF codes] effect_andthen [OF g effect_andthen [OF d]]]]]]]
  show ?thesis
  proof (cases ?fire)
    case True
    then have T: "fireGlobals (fst st) = True" by simp
    show ?thesis
      unfolding done_settle_def c prod.case v T if_True
      by (rule effect_at [OF all [OF effect_andthen [OF a effect_stop], unfolded T if_True] assms]) simp_all
  next
    case False
    then have F: "fireGlobals (fst st) = False" by simp
    show ?thesis
      unfolding done_settle_def c prod.case v F if_False
      by (rule effect_at [OF all [OF effect_skip, unfolded F if_False] assms]) simp_all
  qed
qed

section \<open>Every part of a request is proper\<close>

lemma proper_pointwise: "(\<And>st. \<exists>k. m st = k st \<and> proper k) \<Longrightarrow> proper m"
  unfolding proper_def by metis

lemma convert_course:
  assumes "done_convert env c r = (res, r')"
  shows "rid r' = rid r" "fireGlobals r' = fireGlobals r" "completed r' = completed r"
  using assms
  by (auto simp: done_convert_def take_response_def script_noop_def s_put_def Let_def split: prod.splits if_splits)

lemma leads_completed:
  assumes "rid r' = rid r" and "fireGlobals r' = fireGlobals r" and "isCompleted r'"
    and "\<And>i. events_of i g' = events_of i g" and "active g' = active g"
  shows "leads (r, g) (r', g')"
  using assms by (simp add: leads_def unsettled_def settles_def completes_def Let_def)

lemma if_modified_page:
  "\<exists>g1. (if b then if_modified else skip) (r, g) = (Fine, r, g1) \<and> log g1 = log g \<and> active g1 = active g"
  by (simp add: if_modified_def skip_def)

lemma proper_done [proper_intros]: "proper (ajax_done env c)"
  unfolding proper_def
proof
  fix st :: "'a request \<times> 'a ajax_page"
  obtain r g where st: "st = (r, g)" by (cases st)
  show "leads st (snd (ajax_done env c st))"
  proof (cases "isCompleted r")
    case True
    then show ?thesis by (simp add: ajax_done_def st)
  next
    case False
    obtain res r1 where d: "done_convert env c (done_start c r) = (res, r1)" by (metis prod.exhaust)
    have r1: "rid r1 = rid r" "fireGlobals r1 = fireGlobals r" "isCompleted r1"
      using convert_course [OF d] by (auto simp: done_start_def isCompleted_def split: prod.splits)
    have settled: "leads st (snd (andthen (if succeeded (fst c) then if_modified else skip) (done_settle env c conv)
            (r1\<lparr>jqXHR := jq\<rparr>, g)))" for conv jq
    proof -
      obtain g1 where g1: "(if succeeded (fst c) then if_modified else skip) (r1\<lparr>jqXHR := jq\<rparr>, g) = (Fine, r1\<lparr>jqXHR := jq\<rparr>, g1)"
        and e: "\<And>i. events_of i g1 = events_of i g" "active g1 = active g"
        using if_modified_page [of "succeeded (fst c)" "r1\<lparr>jqXHR := jq\<rparr>" g] by (auto simp: events_of_def)
      have "isCompleted (fst (r1\<lparr>jqXHR := jq\<rparr>, g1))" using r1(3) by (simp add: isCompleted_def)
      from settle_effect [OF this, of env c conv] obtain u where
        u: "done_settle env c conv (r1\<lparr>jqXHR := jq\<rparr>, g1) = (Fine, u)"
          "effected (r1\<lparr>jqXHR := jq\<rparr>, g1) u 1 (if fireGlobals r then 1 else 0) (if fireGlobals r then - 1 else 0)"
        using r1 by auto
      have "leads st u"
        using u(2) r1 e False
        by (auto simp: st leads_def effected_def unsettled_def settles_def completes_def Let_def)
      then show ?thesis by (simp add: andthen_def g1 u(1))
    qed
    have still: "leads st (r1\<lparr>jqXHR := jq\<rparr>, g)" "leads st (r1, g)" for jq
      unfolding st using r1 by (auto intro!: leads_completed simp: isCompleted_def)
    show ?thesis
      using settled still False
      by (auto simp: ajax_done_def st d split: option.split prod.split converted.split)
  qed
qed

lemma proper_aborted: "proper (note_event (Aborted t))"
  by (rule proper_note) (simp_all add: settling_def completing_def)

lemma proper_abort [proper_intros]: "proper (abort env t)"
proof (rule proper_pointwise)
  fix st :: "'a request \<times> 'a ajax_page"
  have p: "proper (andthen (if b then note_event (Aborted x) else skip) (ajax_done env c))" for b x c
    by (auto intro!: proper_intros proper_aborted)
  show "\<exists>k. abort env t st = k st \<and> proper k"
    unfolding abort_def Let_def by (rule exI, rule conjI, rule refl, rule p)
qed

lemma proper_xhr_act [proper_intros]: "proper (xhr_act env p)"
  by (cases p) (simp_all add: proper_intros proper_upd proper_ops)

lemma proper_xhr_acts [proper_intros]: "proper (xhr_acts env ops)"
  by (induction ops) (simp_all add: xhr_acts_def proper_intros)

text \<open>A relation that every function of a table respects is respected by its inspection.\<close>

lemma inspect_relates:
  fixes ask :: "'p \<Rightarrow> 's \<Rightarrow> 'f val \<times> 's"
  assumes ask: "\<And>f s. rel s (snd (ask f s))" and unshift: "\<And>t s. rel s (unshift t s)"
    and refl: "\<And>s. rel s s" and trans: "\<And>a b c. rel a b \<Longrightarrow> rel b c \<Longrightarrow> rel a c"
  shows "rel s (snd (snd (inspect ask unshift structure seeking n t insp s)))"
proof (induction n arbitrary: t insp s)
  case 0
  then show ?case by (simp add: refl)
next
  case (Suc n)
  have "rel s (snd (snd (inspect_all (inspect ask unshift structure seeking n) ask unshift seeking fs insp s)))" for fs insp s
  proof (induction fs arbitrary: s)
    case (Cons f fs)
    obtain a s1 where a: "ask f s = (a, s1)" by (metis prod.exhaust)
    have s1: "rel s s1" using ask [of s f] a by simp
    have "rel s (snd (snd (inspect_all (inspect ask unshift structure seeking n) ask unshift seeking fs insp s1)))"
      by (rule trans [OF s1 Cons.IH])
    moreover have "rel s (snd (snd (inspect ask unshift structure seeking n t insp (unshift t s1))))" for t
      by (rule trans [OF s1 trans [OF unshift Suc.IH]])
    ultimately show ?case
      using s1 by (auto simp: a split: option.split prod.split) (metis snd_conv)+
  qed (simp add: refl)
  then show ?case by simp
qed

lemma consult_leads: "leads st (snd (snd (consult env seeking st)))"
proof -
  let ?rel = "\<lambda>a b. leads (snd a) (snd b)"
  have ask: "?rel s (snd (ask env f s))" for f s
    using properD [OF proper_xhr_acts, of "snd s" env]
    by (auto simp: ask_def split: prod.split fate.split) 
  have front: "?rel s (front_type t s)" for t and s :: "'a fate \<times> 'a request \<times> 'a ajax_page"
    by (cases s) (simp add: front_type_def leads_def unsettled_def isCompleted_def Let_def)
  have i: "?rel s (snd (snd (inspect (ask env) front_type tb sk n t insp s)))" for tb sk n t insp s
    by (rule inspect_relates [of ?rel]) (simp_all add: ask front, blast intro: leads_trans)
  let ?n = "Suc (length (if seeking then transports env else prefilters env))"
  let ?tb = "if seeking then transports env else prefilters env"
  obtain v insp s1 where a: "inspect (ask env) front_type ?tb seeking ?n (first_type (dataTypes (fst st))) [] (Fine, st) = (v, insp, s1)"
    by (metis prod.exhaust)
  have s1: "leads st (snd s1)" using i [of "(Fine, st)" ?tb seeking ?n "first_type (dataTypes (fst st))" "[]"] a by simp
  obtain v2 insp2 s2 where b: "inspect (ask env) front_type ?tb seeking ?n star insp s1 = (v2, insp2, s2)"
    by (metis prod.exhaust)
  have s2: "leads st (snd s2)" using leads_trans [OF s1] i [of s1 ?tb seeking ?n star insp] b by simp
  show ?thesis
    using s1 s2 a b
    by (auto simp: consult_def inspectPrefiltersOrTransports_def Let_def case_prod_beta)
qed

section \<open>All requests of a page\<close>

lemma proper_keep:
  assumes "\<And>r g. \<exists>x r' g'. m (r, g) = (x, r', g') \<and> rid r' = rid r \<and> fireGlobals r' = fireGlobals r
    \<and> completed r' = completed r \<and> log g' = log g \<and> active g' = active g"
  shows "proper m"
  unfolding proper_def
proof
  fix st
  obtain x r' g' where m: "m st = (x, r', g')" "rid r' = rid (fst st)" "fireGlobals r' = fireGlobals (fst st)"
    "completed r' = completed (fst st)" "log g' = log (snd st)" "active g' = active (snd st)"
    using assms [of "fst st" "snd st"] by auto
  then show "leads st (snd (m st))"
    by (simp add: m(1) leads_def unsettled_def events_of_def settles_def completes_def isCompleted_def Let_def)
qed

lemma s_put_course [simp]:
  "rid (s_put k v r) = rid r" "fireGlobals (s_put k v r) = fireGlobals r" "completed (s_put k v r) = completed r"
  by (simp_all add: s_put_def)

lemma set_header_course [simp]:
  "rid (set_header k v r) = rid r" "fireGlobals (set_header k v r) = fireGlobals r"
  "completed (set_header k v r) = completed r"
  by (simp_all add: set_header_def)

lemma no_content_course:
  "\<exists>r' g'. no_content_url env u (r, g) = (Fine, r', g') \<and> rid r' = rid r \<and> fireGlobals r' = fireGlobals r
    \<and> completed r' = completed r \<and> log g' = log g \<and> active g' = active g"
proof -
  obtain url1 r1 where a: "append_data env u r = (url1, r1)" by (metis prod.exhaust)
  then have r1: "rid r1 = rid r" "fireGlobals r1 = fireGlobals r" "completed r1 = completed r"
    by (auto simp: append_data_def Let_def split: if_splits)
  obtain url2 un g1 where b: "anti_cache r1 url1 (drop (length u) (vstr (host env) (s_get r ''url''))) g = (url2, un, g1)"
    by (metis prod.exhaust)
  then have "log g1 = log g" "active g1 = active g"
    by (auto simp: anti_cache_def Let_def split: if_splits)
  with r1 show ?thesis by (simp add: no_content_url_def a b)
qed

lemma proper_address: "proper (set_address env)"
proof (rule proper_keep)
  fix r :: "'a request" and g :: "'a ajax_page"
  let ?r = "set_method env r"
  let ?u = "replace1 rhash (\<lambda>m c. []) (vstr (host env) (s_get ?r ''url''))"
  have r: "rid ?r = rid r" "fireGlobals ?r = fireGlobals r" "completed ?r = completed r"
    by (simp_all add: set_method_def Let_def)
  show "\<exists>x r' g'. set_address env (r, g) = (x, r', g') \<and> rid r' = rid r \<and> fireGlobals r' = fireGlobals r
    \<and> completed r' = completed r \<and> log g' = log g \<and> active g' = active g"
    using no_content_course [of env ?u "?r\<lparr>cacheURL := ?u\<rparr>" g] r
    by (auto simp: set_address_def Let_def)
qed

lemma own_headers_course:
  "rid (own_headers r) = rid r \<and> fireGlobals (own_headers r) = fireGlobals r \<and> completed (own_headers r) = completed r"
proof -
  have "rid (fold (\<lambda>(k, v). set_header k v) es r) = rid r
    \<and> fireGlobals (fold (\<lambda>(k, v). set_header k v) es r) = fireGlobals r
    \<and> completed (fold (\<lambda>(k, v). set_header k v) es r) = completed r" for es
    by (induction es arbitrary: r) (simp_all add: case_prod_beta)
  then show ?thesis by (simp add: own_headers_def)
qed

lemma header_courses:
  "rid (cached_headers g r) = rid r \<and> fireGlobals (cached_headers g r) = fireGlobals r
    \<and> completed (cached_headers g r) = completed r"
  "rid (content_header r) = rid r \<and> fireGlobals (content_header r) = fireGlobals r
    \<and> completed (content_header r) = completed r"
  "rid (accept_header h r) = rid r \<and> fireGlobals (accept_header h r) = fireGlobals r
    \<and> completed (accept_header h r) = completed r"
  by (simp_all add: cached_headers_def content_header_def accept_header_def Let_def split: option.split)

lemma proper_headers: "proper (set_headers env)"
  by (rule proper_keep) (simp add: set_headers_def own_headers_course header_courses)

lemma before_send_leads: "leads st (snd (snd (before_send env st)))"
proof (cases "s_get (fst st) ''beforeSend''")
  case (VFun f)
  obtain ops a where h: "hook env f (fst st) = (ops, a)" by (metis prod.exhaust)
  obtain x st1 where x: "xhr_acts env ops st = (x, st1)" by (metis prod.exhaust)
  have st1: "leads st st1" using properD [OF proper_xhr_acts, of st env ops] x by simp
  have "leads st (snd (abort env None st1))" by (rule leads_trans [OF st1 properD [OF proper_abort]])
  with st1 show ?thesis by (simp add: before_send_def VFun h x split: fate.split)
qed (simp_all add: before_send_def)

lemma proper_sent: "proper (\<lambda>st. note_event (Sent (headers (sent_headers (fst st)))) st)"
proof (rule proper_pointwise)
  fix st :: "'a request \<times> 'a ajax_page"
  have "proper (note_event (Sent (headers (sent_headers (fst st)))))"
    by (rule proper_note) (simp_all add: settling_def completing_def)
  then show "\<exists>k. note_event (Sent (headers (sent_headers (fst st)))) st = k st \<and> proper k" by blast
qed

lemma proper_seq:
  assumes "proper m" and "\<And>f u. m st = (f, u) \<Longrightarrow> leads st u \<Longrightarrow> leads u (snd (k f u))"
  shows "leads st (snd (case m st of (f, u) \<Rightarrow> k f u))"
proof -
  obtain f u where u: "m st = (f, u)" by (metis prod.exhaust)
  have "leads st u" using properD [OF assms(1), of st] u by simp
  with assms(2) [OF u] show ?thesis by (auto simp: u intro: leads_trans)
qed

definition send_rest :: "'f ajax_env \<Rightarrow> 'f completion option \<Rightarrow> 'f val option \<Rightarrow> 'f act" where
  "send_rest env answer thrown = (\<lambda>st. case (case answer of None \<Rightarrow> skip | Some c \<Rightarrow> ajax_done env c) st of
          (Hangs, st1) \<Rightarrow> (Hangs, st1)
        | (x, st1) \<Rightarrow>
            (case (case x of Threw e \<Rightarrow> Some e | _ \<Rightarrow> thrown) of
               None \<Rightarrow> (Fine, st1)
             | Some e \<Rightarrow> if isCompleted (fst st1) then (Threw e, st1)
                 else ajax_done env (-1, e, VUndef, []) st1))"

lemma proper_send_rest: "proper (send_rest env answer thrown)"
  unfolding proper_def
proof
  fix st :: "'a request \<times> 'a ajax_page"
  let ?m = "case answer of None \<Rightarrow> skip | Some c \<Rightarrow> ajax_done env c"
  have p: "proper ?m" by (simp add: proper_intros split: option.split)
  have d: "leads u (snd (ajax_done env c u))" for c u by (rule properD [OF proper_done])
  show "leads st (snd (send_rest env answer thrown st))"
    unfolding send_rest_def
    by (rule proper_seq [OF p]) (auto simp: d split: fate.split option.split)
qed

lemma transport_send_leads:
  assumes "\<not> isCompleted (fst st)"
  shows "leads st (snd (transport_send env st))"
proof -
  obtain answer thrown where s: "send env (fst st) = (answer, thrown)" by (metis prod.exhaust)
  let ?st = "((fst st)\<lparr>completed := Some False\<rparr>, snd st)"
  have u: "leads st ?st"
    using assms by (simp add: leads_def unsettled_def isCompleted_def Let_def)
  have "proper (andthen (\<lambda>st. note_event (Sent (headers (sent_headers (fst st)))) st) (send_rest env answer thrown))"
    by (rule proper_andthen [OF proper_sent proper_send_rest])
  from leads_trans [OF u properD [OF this]] show ?thesis
    by (simp add: transport_send_def s send_rest_def upd_def andthen_def [of "upd _"])
qed

lemma ajax_send_leads: "leads st (snd (ajax_send env st))"
proof -
  let ?st = "((fst st)\<lparr>strAbort := js ''abort''\<rparr>, snd st)"
  obtain tr x st1 where c: "consult env True ?st = (tr, x, st1)" by (metis prod.exhaust)
  have "leads st ?st" by (simp add: leads_def unsettled_def isCompleted_def Let_def)
  then have st1: "leads st st1" using consult_leads [of ?st env True] c by (auto intro: leads_trans)
  have none: "leads st (snd (ajax_done env d st1))" for d
    by (rule leads_trans [OF st1 properD [OF proper_done]])
  have ev: "proper (if b then andthen (note_event (RequestEvent (js ''ajaxSend''))) (xhr_acts env ops) else skip)" for b ops
    by (auto intro!: proper_intros proper_note simp: settling_def completing_def)
  let ?rest = "\<lambda>st2. case (if fireGlobals (fst st2)
                then andthen (note_event (RequestEvent (js ''ajaxSend''))) (xhr_acts env (send_handlers env (fst st2)))
                else skip) st2 of
               (Fine, st3) \<Rightarrow>
                 if isCompleted (fst st3) then (Fine, st3)
                 else andthen (upd (\<lambda>r. r\<lparr>timeoutTimer := vtruthy (s_get r ''async'')
                          \<and> (case s_get r ''timeout'' of VNum (Fin n) \<Rightarrow> n > 0 | _ \<Rightarrow> False)\<rparr>))
                      (transport_send env) st3
             | other \<Rightarrow> other"
  have timer: "leads u (snd (andthen (upd (\<lambda>r. r\<lparr>timeoutTimer := b r\<rparr>)) (transport_send env) u))"
    if "\<not> isCompleted (fst u)" for u and b :: "'a request \<Rightarrow> bool"
  proof -
    have "leads u ((fst u)\<lparr>timeoutTimer := b (fst u)\<rparr>, snd u)"
      by (simp add: leads_def unsettled_def isCompleted_def Let_def)
    from leads_trans [OF this transport_send_leads] that show ?thesis
      by (simp add: andthen_def upd_def isCompleted_def)
  qed
  have rest: "leads st2 (snd (?rest st2))" for st2
    by (rule proper_seq [OF ev]) (auto simp: timer split: fate.split)
  have up: "proper (upd (\<lambda>r. x_put ''readyState'' (VInt 1) (r\<lparr>transport := tr\<rparr>)))"
    by (rule proper_upd) (simp add: same_course_def isCompleted_def)
  have "proper (andthen (upd (\<lambda>r. x_put ''readyState'' (VInt 1) (r\<lparr>transport := tr\<rparr>))) ?rest)"
    by (rule proper_andthen [OF up]) (simp only: proper_def rest, simp)
  from leads_trans [OF st1 properD [OF this]] none st1 show ?thesis
    by (simp add: ajax_send_def c split: fate.split)
qed

text \<open>A request that was just made: its number, and its share of the count.\<close>

definition born :: "nat \<Rightarrow> 'f ajax_page \<Rightarrow> 'f request \<times> 'f ajax_page \<Rightarrow> bool" where
  "born n g st \<longleftrightarrow> rid (fst st) = n \<and> unsettled st \<and> (\<forall>i. i \<noteq> n \<longrightarrow> events_of i (snd st) = events_of i g)
     \<and> active (snd st) + int (completes n (snd st)) = active g + (if fireGlobals (fst st) then 1 else 0)"

lemma born_leads: "born n g st \<Longrightarrow> leads st st' \<Longrightarrow> born n g st'"
  by (auto simp: born_def leads_def)

lemma born_count:
  assumes "born n g st" and "\<not> isCompleted (fst st)" and "\<not> fireGlobals (fst st)"
  shows "\<exists>st'. count_active st = (Fine, st') \<and> born n g st'"
  using assms
  by (auto simp: count_active_def born_def unsettled_def note_event_def events_of_note settles_def completes_def
      settling_def completing_def isCompleted_def Let_def events_of_def)

lemma prepare_course:
  assumes "prepare env u r = Inr r1"
  shows "rid r1 = rid r" "fireGlobals r1 = fireGlobals r" "completed r1 = completed r"
proof -
  have a: "rid (set_url env u r) = rid r" "fireGlobals (set_url env u r) = fireGlobals r"
    "completed (set_url env u r) = completed r" for r by (simp_all add: set_url_def)
  have b: "rid (set_type r) = rid r" "fireGlobals (set_type r) = fireGlobals r"
    "completed (set_type r) = completed r" for r :: "'a request" by (simp_all add: set_type_def)
  have c: "rid (set_dataTypes env r) = rid r" "fireGlobals (set_dataTypes env r) = fireGlobals r"
    "completed (set_dataTypes env r) = completed r" for r by (simp_all add: set_dataTypes_def Let_def)
  have d: "rid (set_crossDomain env r) = rid r" "fireGlobals (set_crossDomain env r) = fireGlobals r"
    "completed (set_crossDomain env r) = completed r" for r by (simp_all add: set_crossDomain_def)
  have e: "set_data env r = Inr r1 \<Longrightarrow> rid r1 = rid r \<and> fireGlobals r1 = fireGlobals r \<and> completed r1 = completed r" for r
    by (auto simp: set_data_def Let_def split: if_splits sum.splits)
  show "rid r1 = rid r" "fireGlobals r1 = fireGlobals r" "completed r1 = completed r"
    using e [OF assms [unfolded prepare_def]] by (simp_all add: a b c d)
qed

lemma ajax_born:
  assumes "events_of n g = []"
  shows "born n g (snd (ajax env n url opts g))"
proof -
  let ?u = "if typeof url = js ''object'' then VUndef else url"
  let ?o = "or_empty (if typeof url = js ''object'' then url else opts)"
  let ?r = "begin_request env n ?o"
  have r0': "rid ?r = n" "completed ?r = None" "\<not> fireGlobals ?r" by (simp_all add: begin_request_def Let_def)
  have fresh: "born n g (r, g)" if "rid r = n" "completed r = None" "\<not> fireGlobals r" for r
    using assms that by (simp add: born_def unsettled_def settles_def completes_def isCompleted_def Let_def)
  have r0: "born n g (?r, g)" by (rule fresh [OF r0'])
  show ?thesis
  proof (cases "prepare env ?u ?r")
    case (Inl e)
    then show ?thesis using r0 by (simp add: ajax_def Let_def)
  next
    case (Inr r1)
    from prepare_course [OF this] have r1: "born n g (r1, g)" "\<not> fireGlobals r1"
      using r0' by (simp_all add: fresh)
    obtain v x st2 where c: "consult env False (r1, g) = (v, x, st2)" by (metis prod.exhaust)
    then have l: "leads (r1, g) st2" using consult_leads [of "(r1, g)" env False] by simp
    then have st2: "born n g st2" "\<not> fireGlobals (fst st2)" using r1 by (auto intro: born_leads simp: leads_def)
    show ?thesis
    proof (cases "x = Fine \<and> \<not> isCompleted (fst st2)")
      case True
      then obtain st3 where st3: "count_active st2 = (Fine, st3)" "born n g st3"
        using born_count [OF st2(1) _ st2(2)] by blast
      let ?last = "\<lambda>st3. case before_send env st3 of (True, other) \<Rightarrow> other | (False, _, st4) \<Rightarrow> ajax_send env st4"
      have "leads u (snd (?last u))" for u
        using before_send_leads [of u env] by (auto split: prod.split bool.split intro: leads_trans ajax_send_leads)
      then have "proper ?last" by (simp add: proper_def)
      then have "proper (andthen (set_address env) (andthen (set_headers env) ?last))"
        by (intro proper_andthen proper_address proper_headers)
      from born_leads [OF st3(2) properD [OF this]] show ?thesis
        using True by (simp add: ajax_def Let_def Inr c andthen_def [of count_active] st3(1))
    next
      case False
      then show ?thesis using st2 by (auto simp: ajax_def Let_def Inr c split: fate.split)
    qed
  qed
qed

record 'f ajax_world =
  page :: "'f ajax_page"
  reqs :: "'f request list"

text \<open>
  What happens on a page: a request is made, its transport answers (also late, or more than once), its
  time runs out, the page uses its request object.
\<close>

inductive ajax_step :: "'f ajax_world \<Rightarrow> 'f ajax_world \<Rightarrow> bool" where
  made: "ajax env (length (reqs w)) url opts (page w) = (f, r, g) \<Longrightarrow>
    ajax_step w (w\<lparr>page := g, reqs := reqs w @ [r]\<rparr>)"
| answered: "i < length (reqs w) \<Longrightarrow> ajax_done env c (reqs w ! i, page w) = (f, r, g) \<Longrightarrow>
    ajax_step w (w\<lparr>page := g, reqs := (reqs w)[i := r]\<rparr>)"
| timed_out: "i < length (reqs w) \<Longrightarrow> timeoutTimer (reqs w ! i) \<Longrightarrow>
    abort env (Some (js ''timeout'')) (reqs w ! i, page w) = (f, r, g) \<Longrightarrow>
    ajax_step w (w\<lparr>page := g, reqs := (reqs w)[i := r]\<rparr>)"
| used: "i < length (reqs w) \<Longrightarrow> xhr_act env p (reqs w ! i, page w) = (f, r, g) \<Longrightarrow>
    ajax_step w (w\<lparr>page := g, reqs := (reqs w)[i := r]\<rparr>)"

definition ajax_init :: "'f ajax_world \<Rightarrow> bool" where
  "ajax_init w \<longleftrightarrow> reqs w = [] \<and> active (page w) = 0 \<and> log (page w) = []"

definition share :: "'f ajax_world \<Rightarrow> nat \<Rightarrow> int" where
  "share w i = (if fireGlobals (reqs w ! i) then 1 else 0) - int (completes i (page w))"

definition world_ok :: "'f ajax_world \<Rightarrow> bool" where
  "world_ok w \<longleftrightarrow> (\<forall>i < length (reqs w). rid (reqs w ! i) = i \<and> unsettled (reqs w ! i, page w))
     \<and> (\<forall>i \<ge> length (reqs w). events_of i (page w) = [])
     \<and> active (page w) = (\<Sum>i < length (reqs w). share w i)"

lemma unsettled_other:
  "rid r \<noteq> i \<Longrightarrow> events_of (rid r) g' = events_of (rid r) g \<Longrightarrow> unsettled (r, g) \<Longrightarrow> unsettled (r, g')"
  by (simp add: unsettled_def settles_def completes_def Let_def)

lemma world_leads:
  assumes ok: "world_ok w" and i: "i < length (reqs w)" and l: "leads (reqs w ! i, page w) (r, g)"
  shows "world_ok (w\<lparr>page := g, reqs := (reqs w)[i := r]\<rparr>)"
proof -
  let ?w = "w\<lparr>page := g, reqs := (reqs w)[i := r]\<rparr>"
  have rid: "rid (reqs w ! i) = i" and u: "unsettled (reqs w ! i, page w)" using ok i by (simp_all add: world_ok_def)
  have l': "rid r = i" "fireGlobals r = fireGlobals (reqs w ! i)" "unsettled (r, g)"
    "\<And>j. j \<noteq> i \<Longrightarrow> events_of j g = events_of j (page w)"
    "active g + int (completes i g) = active (page w) + int (completes i (page w))"
    using l u by (auto simp: leads_def rid)
  have "rid (reqs ?w ! j) = j \<and> unsettled (reqs ?w ! j, page ?w)" if "j < length (reqs ?w)" for j
  proof (cases "j = i")
    case True
    then show ?thesis using l' i by simp
  next
    case False
    then have "rid (reqs w ! j) = j" "unsettled (reqs w ! j, page w)" using ok that by (simp_all add: world_ok_def)
    with False l'(4) show ?thesis using unsettled_other [of "reqs w ! j" i g "page w"] by simp
  qed
  moreover have "events_of j (page ?w) = []" if "j \<ge> length (reqs ?w)" for j
    using that ok i l'(4) by (simp add: world_ok_def)
  moreover have "active (page ?w) = (\<Sum>j < length (reqs ?w). share ?w j)"
  proof -
    have other: "share ?w j = share w j" if "j \<noteq> i" for j
      using that l'(4) by (simp add: share_def completes_def)
    have split: "(\<Sum>j < length (reqs w). f j) = f i + (\<Sum>j \<in> {..< length (reqs w)} - {i}. f j)" for f :: "nat \<Rightarrow> int"
      using i by (simp add: sum.remove)
    have "(\<Sum>j \<in> {..< length (reqs w)} - {i}. share ?w j) = (\<Sum>j \<in> {..< length (reqs w)} - {i}. share w j)"
      by (rule sum.cong) (simp_all add: other)
    moreover have "share ?w i = share w i + (active g - active (page w))"
      using l'(2,5) i by (simp add: share_def)
    ultimately show ?thesis using ok split [of "share w"] split [of "share ?w"] by (simp add: world_ok_def)
  qed
  ultimately show ?thesis unfolding world_ok_def by blast
qed

lemma world_made:
  assumes ok: "world_ok w" and b: "born (length (reqs w)) (page w) (r, g)"
  shows "world_ok (w\<lparr>page := g, reqs := reqs w @ [r]\<rparr>)"
proof -
  let ?w = "w\<lparr>page := g, reqs := reqs w @ [r]\<rparr>"
  let ?n = "length (reqs w)"
  have b': "rid r = ?n" "unsettled (r, g)" "\<And>j. j \<noteq> ?n \<Longrightarrow> events_of j g = events_of j (page w)"
    "active g + int (completes ?n g) = active (page w) + (if fireGlobals r then 1 else 0)"
    using b by (auto simp: born_def)
  have "rid (reqs ?w ! j) = j \<and> unsettled (reqs ?w ! j, page ?w)" if "j < length (reqs ?w)" for j
  proof (cases "j = ?n")
    case True
    then show ?thesis using b' by simp
  next
    case False
    then have "j < ?n" using that by simp
    then have "rid (reqs w ! j) = j" "unsettled (reqs w ! j, page w)" using ok by (simp_all add: world_ok_def)
    with False \<open>j < ?n\<close> b'(3) show ?thesis
      using unsettled_other [of "reqs w ! j" ?n g "page w"] by (simp add: nth_append)
  qed
  moreover have "events_of j (page ?w) = []" if "j \<ge> length (reqs ?w)" for j
    using that ok b'(3) by (simp add: world_ok_def)
  moreover have "active (page ?w) = (\<Sum>j < length (reqs ?w). share ?w j)"
  proof -
    have "(\<Sum>j < ?n. share ?w j) = (\<Sum>j < ?n. share w j)"
      using b'(3) by (intro sum.cong) (simp_all add: share_def completes_def nth_append)
    moreover have "share ?w ?n = active g - active (page w)"
      using b'(4) by (simp add: share_def)
    ultimately show ?thesis using ok by (simp add: world_ok_def)
  qed
  ultimately show ?thesis unfolding world_ok_def by blast
qed

interpretation ajax_pages: machine ajax_init ajax_step world_ok
proof unfold_locales
  show "world_ok w" if "ajax_init w" for w :: "'f ajax_world"
    using that by (simp add: ajax_init_def world_ok_def events_of_def)
next
  fix w w' :: "'f ajax_world"
  assume ok: "world_ok w" and s: "ajax_step w w'"
  from s show "world_ok w'"
  proof (cases rule: ajax_step.cases)
    case (made env url opts f r g)
    have "events_of (length (reqs w)) (page w) = []" using ok by (simp add: world_ok_def)
    from ajax_born [OF this, of env url opts] made show ?thesis using world_made [OF ok] by simp
  next
    case (answered i env c f r g)
    then show ?thesis using world_leads [OF ok] properD [OF proper_done, of "(reqs w ! i, page w)" env c] by simp
  next
    case (timed_out i env f r g)
    then show ?thesis
      using world_leads [OF ok] properD [OF proper_abort, of "(reqs w ! i, page w)" env "Some (js ''timeout'')"] by simp
  next
    case (used i env p f r g)
    then show ?thesis using world_leads [OF ok] properD [OF proper_xhr_act, of "(reqs w ! i, page w)" env p] by simp
  qed
qed


definition empty_page :: "'f ajax_page" where
  "empty_page = \<lparr>active = 0, lastModified = [], etag = [], guid = 0, log = []\<rparr>"

text \<open>One request of an environment without transports, and a late answer to it.\<close>

definition sample_env :: "nat ajax_env" where
  "sample_env = \<lparr>call = \<lambda>_ _. Inr VUndef, host = \<lambda>_. [], href = js ''/'', protocol = js ''http:'',
     own_origin = js ''o'', origin = \<lambda>_. None, noop = 0, hook = \<lambda>_ _. ([], VUndef), send_handlers = \<lambda>_. [],
     send = \<lambda>_. (None, None), prefilters = [], transports = [],
     ajaxSettings = VObj [(js ''global'', VBool True)]\<rparr>"


end
