(* ===== verification/JqTransports.thy ===== *)
theory JqTransports
  imports JqAjax
begin

text \<open>
  \<open>html/jquery-3.6.1.js\<close>: the prefilters and transports that come with the library, namely the
  XMLHttpRequest transport, the script tag transport and the JSONP prefilter.
\<close>

section \<open>Prefilters\<close>

text \<open>A header given in the options sets the content type.\<close>

definition prefilter_content_type :: "'f request \<Rightarrow> 'f xhr_op list \<times> 'f val" where
  "prefilter_content_type r =
     (map (\<lambda>(_, v). Assign (js ''contentType'') (falsy_or v (VStr [])))
        (filter (\<lambda>(k, _). lower k = js ''content-type'') (entries (s_get r ''headers''))), VUndef)"

text \<open>Scripts are not run without being asked for across domains.\<close>

definition prefilter_cross_domain :: "'f request \<Rightarrow> 'f xhr_op list \<times> 'f val" where
  "prefilter_cross_domain r =
     (if vtruthy (s_get r ''crossDomain'')
      then [Assign (js ''contents'') (putp (s_get r ''contents'') (js ''script'') (VBool False))] else [], VUndef)"

definition prefilter_script :: "'f request \<Rightarrow> 'f xhr_op list \<times> 'f val" where
  "prefilter_script r =
     ((if is_undef (s_get r ''cache'') then [Assign (js ''cache'') (VBool False)] else []) @
      (if vtruthy (s_get r ''crossDomain'') then [Assign (js ''type'') (VStr (js ''GET''))] else []), VUndef)"

text \<open>The settings for scripts; the converter evaluates the text and is the function \<open>evalf\<close>.\<close>

definition script_settings :: "'f \<Rightarrow> 'f val" where
  "script_settings evalf = VObj
     [(js ''accepts'', VObj [(js ''script'', VStr (js (''text/javascript, application/javascript, ''
          @ ''application/ecmascript, application/x-ecmascript'')))]),
      (js ''contents'', VObj [(js ''script'', VRe (Cat before_word (Cat (Alt (lit ''java'') (lit ''ecma''))
          (Cat (lit ''script'') after_word))))]),
      (js ''converters'', VObj [(js ''text script'', VFun evalf)])]"

section \<open>The XMLHttpRequest transport\<close>

text \<open>What the transport does with the browser's object, in order.\<close>

datatype 'f native_call =
    Open "'f val" "'f val" "'f val" "'f val" "'f val"
  | SetField jstr "'f val"
  | OverrideMimeType "'f val"
  | SetRequestHeader jstr "'f val"
  | Send "'f val"
  | NativeAbort

text \<open>
  The transport of one request: \<open>live\<close> is whether the variable \<open>callback\<close> still has its function; the
  handlers of the browser's object are set as long as it has.
\<close>

record 'f xhr_transport =
  native :: "'f native_call list"
  live :: bool

definition requested_with :: "'f request \<Rightarrow> (jstr \<times> 'f val) list \<Rightarrow> (jstr \<times> 'f val) list" where
  "requested_with r hs =
     (let k = js ''X-Requested-With'';
          given = (case map_of hs k of None \<Rightarrow> False | Some v \<Rightarrow> vtruthy v)
      in if \<not> vtruthy (s_get r ''crossDomain'') \<and> \<not> given
         then set_prop hs k (VStr (js ''XMLHttpRequest'')) else hs)"

definition xhr_send :: "'f request \<Rightarrow> (jstr \<times> 'f val) list \<Rightarrow> 'f xhr_transport" where
  "xhr_send r hs =
     \<lparr>native =
        [Open (s_get r ''type'') (s_get r ''url'') (s_get r ''async'') (s_get r ''username'') (s_get r ''password'')]
        @ map (\<lambda>(k, v). SetField k v) (entries (s_get r ''xhrFields''))
        @ (if vtruthy (s_get r ''mimeType'') then [OverrideMimeType (s_get r ''mimeType'')] else [])
        @ map (\<lambda>(k, v). SetRequestHeader k v) (in_order (requested_with r hs))
        @ [Send (if vtruthy (s_get r ''hasContent'') then falsy_or (s_get r ''data'') VNull else VNull)],
      live = True\<rparr>"

text \<open>What the browser's object says when one of its events comes.\<close>

record 'f xhr_answer =
  xa_status :: int
  xa_statusText :: "'f val"
  xa_responseType :: jstr
  xa_responseText :: "'f val"
  xa_response :: "'f val"
  xa_headers :: jstr

datatype xhr_kind = Load | Failure | AbortCall

definition xhrSuccessStatus :: "int \<Rightarrow> int" where
  "xhrSuccessStatus status = (if status = 0 then 200 else if status = 1223 then 204 else status)"

definition xhr_responses :: "'f xhr_answer \<Rightarrow> 'f val" where
  "xhr_responses a =
     (if (xa_responseType a \<noteq> [] \<and> xa_responseType a \<noteq> js ''text'')
         \<or> typeof (xa_responseText a) \<noteq> js ''string''
      then VObj [(js ''binary'', xa_response a)] else VObj [(js ''text'', xa_responseText a)])"

text \<open>The function made by \<open>callback\<close>: the completion it reports, if any.\<close>

definition xhr_callback :: "xhr_kind \<Rightarrow> 'f xhr_answer \<Rightarrow> 'f xhr_transport \<Rightarrow>
    'f completion option \<times> 'f xhr_transport" where
  "xhr_callback kind a x =
     (if \<not> live x then (None, x)
      else let x1 = x\<lparr>live := False\<rparr> in
        case kind of
          AbortCall \<Rightarrow> (None, x1\<lparr>native := native x1 @ [NativeAbort]\<rparr>)
        | Failure \<Rightarrow> (Some (xa_status a, xa_statusText a, VUndef, []), x1)
        | Load \<Rightarrow> (Some (xhrSuccessStatus (xa_status a), xa_statusText a, xhr_responses a, xa_headers a), x1))"

text \<open>
  Runs: events of the browser and calls of the transport's \<open>abort\<close>, with the completions that reach
  \<open>done\<close>.
\<close>

primrec xhr_run :: "(xhr_kind \<times> 'f xhr_answer) list \<Rightarrow> 'f xhr_transport \<Rightarrow> 'f completion list" where
  "xhr_run [] x = []"
| "xhr_run (e # es) x = (case xhr_callback (fst e) (snd e) x of (c, x1) \<Rightarrow>
     (case c of None \<Rightarrow> [] | Some d \<Rightarrow> [d]) @ xhr_run es x1)"

lemma xhr_dead: "\<not> live x \<Longrightarrow> xhr_run es x = []"
  by (induction es) (simp_all add: xhr_callback_def)

section \<open>The script transport\<close>

text \<open>A script tag: whether it is in the document, and whether \<open>callback\<close> has its function.\<close>

record script_transport =
  in_document :: bool
  armed :: bool

definition script_send :: "script_transport" where
  "script_send = \<lparr>in_document = True, armed = True\<rparr>"

datatype script_event = ScriptLoad | ScriptError | ScriptAbort

definition script_callback :: "script_event \<Rightarrow> script_transport \<Rightarrow> 'f completion option \<times> script_transport" where
  "script_callback e t =
     (let t1 = \<lparr>in_document = False, armed = False\<rparr> in
      if \<not> armed t then (None, t)
      else case e of
        ScriptAbort \<Rightarrow> (None, t1)
      | ScriptLoad \<Rightarrow> (Some (200, VStr (js ''load''), VUndef, []), t1)
      | ScriptError \<Rightarrow> (Some (404, VStr (js ''error''), VUndef, []), t1))"

section \<open>JSONP\<close>

text \<open>What the prefilter shares with other requests, and the variables of one call of it.\<close>

record 'f jsonp_page =
  globals :: "(jstr \<times> 'f val) list"
  oldCallbacks :: "jstr list"
  next_guid :: int

record 'f jsonp_call =
  callbackName :: jstr
  overwritten :: "'f val"
  responseContainer :: "'f val list option"

text \<open>\<open>rjsonp\<close>: the text before the first place holder, its equals sign if it has one, and the text after.\<close>

fun rjsonp :: "jstr \<Rightarrow> (jstr \<times> jstr \<times> jstr) option" where
  "rjsonp (a # b # s) =
     (if a = 61 \<and> b = 63 \<and> (s = [] \<or> hd s = 38) then Some ([], [61], s)
      else if a = 63 \<and> b = 63 then Some ([], [], s)
      else case rjsonp (b # s) of None \<Rightarrow> None | Some (u, e, v) \<Rightarrow> Some (a # u, e, v))"
| "rjsonp _ = None"

definition put_name :: "jstr \<Rightarrow> jstr \<Rightarrow> jstr" where
  "put_name name t = (case rjsonp t of None \<Rightarrow> t | Some (u, e, v) \<Rightarrow> u @ e @ name @ v)"

text \<open>Where the callback's name goes: the setting with a place holder in it, if there is one.\<close>

definition jsonProp :: "'f request \<Rightarrow> string option" where
  "jsonProp r =
     (let form = (case falsy_or (s_get r ''contentType'') (VStr []) of
            VStr t \<Rightarrow> take (length form_type) t = form_type | _ \<Rightarrow> False)
      in if is_false (s_get r ''jsonp'') then None
         else if (case as_str (s_get r ''url'') of None \<Rightarrow> False | Some u \<Rightarrow> rjsonp u \<noteq> None) then Some ''url''
         else if form \<and> (case as_str (s_get r ''data'') of None \<Rightarrow> False | Some d \<Rightarrow> rjsonp d \<noteq> None)
         then Some ''data'' else None)"

text \<open>
  The name: \<open>name_of\<close> is what a function given as \<open>jsonpCallback\<close> returns; the library's own function,
  \<open>None\<close> here, takes a free name or makes one, and marks the settings with it.
\<close>

definition own_name :: "jstr \<Rightarrow> 'f jsonp_page \<Rightarrow> jstr \<times> 'f jsonp_page" where
  "own_name expando p = (case oldCallbacks p of
     [] \<Rightarrow> (expando @ js ''_'' @ show_int (next_guid p), p\<lparr>next_guid := next_guid p + 1\<rparr>)
   | ns \<Rightarrow> (if last ns \<noteq> [] then (last ns, p\<lparr>oldCallbacks := butlast ns\<rparr>)
        else (expando @ js ''_'' @ show_int (next_guid p),
              p\<lparr>oldCallbacks := butlast ns, next_guid := next_guid p + 1\<rparr>)))"

definition choose_name :: "('f \<Rightarrow> jstr option) \<Rightarrow> jstr \<Rightarrow> 'f request \<Rightarrow> 'f jsonp_page \<Rightarrow>
    jstr \<times> 'f xhr_op list \<times> 'f jsonp_page" where
  "choose_name name_of expando r p = (case s_get r ''jsonpCallback'' of
     VFun f \<Rightarrow> (case name_of f of
         Some n \<Rightarrow> (n, [], p)
       | None \<Rightarrow> (case own_name expando p of (n, p1) \<Rightarrow> (n, [Assign n (VBool True)], p1)))
   | VStr n \<Rightarrow> (n, [], p)
   | v \<Rightarrow> (vstr (\<lambda>_. []) v, [], p))"

text \<open>
  The prefilter: the changes to the request, and the call that waits for the script.  \<open>convf\<close> is the
  converter it installs.
\<close>

definition jsonp_prefilter :: "('f \<Rightarrow> jstr option) \<Rightarrow> jstr \<Rightarrow> 'f \<Rightarrow> 'f val \<Rightarrow> 'f request \<Rightarrow> 'f jsonp_page \<Rightarrow>
    ('f xhr_op list \<times> jstr list \<times> 'f jsonp_call \<times> 'f jsonp_page) option" where
  "jsonp_prefilter name_of expando convf catcher r p =
     (let prop = jsonProp r in
      if prop = None \<and> (dataTypes r = [] \<or> hd (dataTypes r) \<noteq> js ''jsonp'') then None
      else case choose_name name_of expando r p of (name, marks, p1) \<Rightarrow>
        let url = vstr (\<lambda>_. []) (s_get r ''url'');
            place = (case prop of
              Some k \<Rightarrow> [Assign (js k) (VStr (put_name name (case as_str (s_get r k) of None \<Rightarrow> [] | Some t \<Rightarrow> t)))]
            | None \<Rightarrow> if is_false (s_get r ''jsonp'') then []
                else [Assign (js ''url'')
                  (VStr (url @ joiner url @ vstr (\<lambda>_. []) (s_get r ''jsonp'') @ js ''='' @ name))]);
            old = (case map_of (globals p1) name of None \<Rightarrow> VUndef | Some v \<Rightarrow> v)
        in Some (marks @ [Assign (js ''jsonpCallback'') (VStr name)] @ place
              @ [Assign (js ''converters'') (putp (s_get r ''converters'') (js ''script json'') (VFun convf))],
             (case dataTypes r of [] \<Rightarrow> [js ''json''] | _ # ts \<Rightarrow> js ''json'' # ts),
             \<lparr>callbackName = name, overwritten = old, responseContainer = None\<rparr>,
             p1\<lparr>globals := set_prop (globals p1) name catcher\<rparr>))"

text \<open>The script calls the function; the converter takes what it was called with.\<close>

definition jsonp_called :: "'f val list \<Rightarrow> 'f jsonp_call \<Rightarrow> 'f jsonp_call" where
  "jsonp_called args c = c\<lparr>responseContainer := Some args\<rparr>"

definition jsonp_convert :: "'f jsonp_call \<Rightarrow> 'f val + 'f val" where
  "jsonp_convert c = (case responseContainer c of
     None \<Rightarrow> Inl (VObj [(js ''message'', VStr (callbackName c @ js '' was not called''))])
   | Some args \<Rightarrow> Inr (nth_val args 0))"

text \<open>
  The clean-up: the previous value is put back, or the property removed; a name marked in the settings is
  free again; the previous function is called with the response, which is the second result.
\<close>

definition jsonp_cleanup :: "'f val \<Rightarrow> 'f request \<Rightarrow> 'f jsonp_call \<Rightarrow> 'f jsonp_page \<Rightarrow>
    'f request \<times> ('f val \<times> 'f val) option \<times> 'f jsonp_page" where
  "jsonp_cleanup original r c p =
     (let name = callbackName c;
          p1 = p\<lparr>globals := (if is_undef (overwritten c) then filter (\<lambda>(k, _). k \<noteq> name) (globals p)
                 else set_prop (globals p) name (overwritten c))\<rparr>;
          marked = vtruthy (getp (settings r) name)
      in (if marked then s_put ''jsonpCallback'' (getp original (js ''jsonpCallback'')) r else r,
          (case responseContainer c of
             Some args \<Rightarrow> if isFunction (overwritten c) then Some (overwritten c, nth_val args 0) else None
           | None \<Rightarrow> None),
          if marked then p1\<lparr>oldCallbacks := oldCallbacks p1 @ [name]\<rparr> else p1))"

section \<open>What the transports promise\<close>

text \<open>
  The first event of a sent request decides: a load or a failure is reported to the request once, with
  the status, text and headers of the browser's object; a call of \<open>abort\<close> stops the browser's request and
  reports nothing; whatever comes later is ignored.
\<close>

theorem xhr_first_event:
  "xhr_run ((kind, a) # es) (xhr_send r hs) = (case kind of
     Load \<Rightarrow> [(xhrSuccessStatus (xa_status a), xa_statusText a, xhr_responses a, xa_headers a)]
   | Failure \<Rightarrow> [(xa_status a, xa_statusText a, VUndef, [])]
   | AbortCall \<Rightarrow> [])
   \<and> native (snd (xhr_callback kind a (xhr_send r hs))) =
       native (xhr_send r hs) @ (if kind = AbortCall then [NativeAbort] else [])"
proof (cases kind)
  case Load
  then show ?thesis by (simp add: xhr_callback_def xhr_send_def xhr_dead)
next
  case Failure
  then show ?thesis by (simp add: xhr_callback_def xhr_send_def xhr_dead)
next
  case AbortCall
  then show ?thesis by (simp add: xhr_callback_def xhr_send_def xhr_dead)
qed

lemma map_of_without: "map_of (filter (\<lambda>(k, _). k \<noteq> name) kvs) k = (if k = name then None else map_of kvs k)"
  by (induction kvs) auto

lemma choose_name_globals: "choose_name name_of expando r p = (n, ms, p1) \<Longrightarrow> globals p1 = globals p"
  by (auto simp: choose_name_def own_name_def split: val.splits option.splits prod.splits list.splits if_splits)


text \<open>A request whose callback gets the name of a function of the page.\<close>

definition sample_jsonp :: "nat request" where
  "sample_jsonp = (begin_request sample_env 0 VUndef)
     \<lparr>settings := VObj [(js ''url'', VStr (js ''/f'')), (js ''jsonp'', VStr (js ''cb'')), (js ''jsonpCallback'', VFun 1)],
      dataTypes := [js ''jsonp'']\<rparr>"

definition sample_globals :: "nat jsonp_page" where
  "sample_globals = \<lparr>globals = [(js ''jq_5'', VFun 9)], oldCallbacks = [], next_guid = 5\<rparr>"


end
