(* ===== verification/JqData.thy ===== *)
theory JqData
  imports JqAjaxParts
begin

text \<open>
  \<open>html/jquery-3.6.1.js\<close>, data attached to elements: \<open>access\<close>, \<open>camelCase\<close>, the class \<open>Data\<close> with its two
  instances \<open>dataPriv\<close> and \<open>dataUser\<close>, data attributes, and the queues of functions kept in the private data.

  An instance of \<open>Data\<close> is the map from an owner to what the owner has under the expando of the instance; a
  property of a cache that was set to undefined is there with the value None.  The owners are an
  arbitrary type, their \<open>nodeType\<close> is the parameter \<open>nt\<close> (None for an object without one).  Names that a
  cache inherits from \<open>Object.prototype\<close> are not used as keys.
\<close>

section \<open>access\<close>

text \<open>
  The getter and setter behind \<open>attr\<close>, \<open>prop\<close>, \<open>data\<close> and others.  The function handed to it is used
  on an element with a key, or on the whole set: \<open>fn\<close> and \<open>bulk\<close>.  Where the code passes no value, or
  undefined, the value is \<open>VUndef\<close>.  A function as a value is called through \<open>call\<close>.
\<close>

datatype 'f access_key = Bulk | Key jstr | Props "(jstr \<times> 'f val) list"

datatype ('e, 'f) accessed = Chain "'e list" | Got "'f val"

definition store_value :: "('f \<Rightarrow> 'e \<Rightarrow> 'f val list \<Rightarrow> ('s, 'f val) handler) \<Rightarrow>
    ('e \<Rightarrow> 'f val \<Rightarrow> ('s, 'f val) handler) \<Rightarrow> bool \<Rightarrow> 'f val \<Rightarrow> nat \<times> 'e \<Rightarrow> ('s, unit) handler" where
  "store_value call fn raw v = (\<lambda>(i, e).
     if raw then bnd (fn e v) (\<lambda>_. ret ())
     else (case v of
         VFun f \<Rightarrow> bnd (fn e VUndef) (\<lambda>old. bnd (call f e [VInt (int i), old]) (\<lambda>new. bnd (fn e new) (\<lambda>_. ret ())))
       | _ \<Rightarrow> bnd (fn e v) (\<lambda>_. ret ())))"

definition access_one :: "('f \<Rightarrow> 'e \<Rightarrow> 'f val list \<Rightarrow> ('s, 'f val) handler) \<Rightarrow>
    ('e \<Rightarrow> jstr \<Rightarrow> 'f val \<Rightarrow> ('s, 'f val) handler) \<Rightarrow> ('e list \<Rightarrow> 'f val \<Rightarrow> ('s, 'f val) handler) \<Rightarrow>
    'e list \<Rightarrow> jstr option \<Rightarrow> 'f val \<Rightarrow> bool \<Rightarrow> 'f val \<Rightarrow> bool \<Rightarrow> ('s, ('e, 'f) accessed) handler" where
  "access_one call fn bulk es key v chainable emptyGet raw0 =
     (let raw = (raw0 \<or> \<not> isFunction v);
          put = (case key of Some k \<Rightarrow> (\<lambda>e x. fn e k x) | None \<Rightarrow> (\<lambda>e x. bulk [e] x));
          items = zip [0..<length es] es
      in if \<not> is_undef v then
           (if key = None \<and> raw then bnd (bulk es v) (\<lambda>_. ret (Chain es))
            else bnd (each (store_value call put raw v) items) (\<lambda>_. ret (Chain es)))
         else if chainable then ret (Chain es)
         else (case key of
             None \<Rightarrow> bnd (bulk es VUndef) (\<lambda>x. ret (Got x))
           | Some k \<Rightarrow> (case es of [] \<Rightarrow> ret (Got emptyGet)
               | e # _ \<Rightarrow> bnd (fn e k VUndef) (\<lambda>x. ret (Got x)))))"

definition jq_access :: "('f \<Rightarrow> 'e \<Rightarrow> 'f val list \<Rightarrow> ('s, 'f val) handler) \<Rightarrow>
    ('e \<Rightarrow> jstr \<Rightarrow> 'f val \<Rightarrow> ('s, 'f val) handler) \<Rightarrow> ('e list \<Rightarrow> 'f val \<Rightarrow> ('s, 'f val) handler) \<Rightarrow>
    'e list \<Rightarrow> 'f access_key \<Rightarrow> 'f val \<Rightarrow> bool \<Rightarrow> 'f val \<Rightarrow> bool \<Rightarrow> ('s, ('e, 'f) accessed) handler" where
  "jq_access call fn bulk es key v chainable emptyGet raw =
     (case key of
        Props kvs \<Rightarrow> bnd (each (\<lambda>(k, x). access_one call fn bulk es (Some k) x True emptyGet raw) (in_order kvs))
          (\<lambda>_. ret (Chain es))
      | Key k \<Rightarrow> access_one call fn bulk es (Some k) v chainable emptyGet raw
      | Bulk \<Rightarrow> access_one call fn bulk es None v chainable emptyGet raw)"

section \<open>camelCase\<close>

definition lower_letter :: "jschar \<Rightarrow> bool" where
  "lower_letter c \<longleftrightarrow> 97 \<le> c \<and> c \<le> 122"

definition rmsPrefix :: re where
  "rmsPrefix = Cat Bol (lit ''-ms-'')"

definition rdashAlpha :: re where
  "rdashAlpha = Cat (chr_re CHR ''-'') (Grp 1 (Cls lower_letter))"

definition fcamelCase :: "jstr \<Rightarrow> caps \<Rightarrow> jstr" where
  "fcamelCase all c = (case c 1 of None \<Rightarrow> [] | Some letter \<Rightarrow> upper letter)"

definition camelCase :: "jstr \<Rightarrow> jstr" where
  "camelCase s =
     (let t = (case search rmsPrefix s of None \<Rightarrow> s | Some (pre, m, post, _) \<Rightarrow> pre @ js ''ms-'' @ post)
      in replace_g rdashAlpha fcamelCase t)"

text \<open>The same without regular expressions, and what follows from it.\<close>

fun hump :: "jstr \<Rightarrow> jstr" where
  "hump (a # b # s) =
     (if a = cu CHR ''-'' \<and> lower_letter b then upper [b] @ hump s else a # hump (b # s))"
| "hump s = s"

lemma ways_dash:
  "ways n rdashAlpha (s, c) = (case s of a # b # t \<Rightarrow>
     if a = cu CHR ''-'' \<and> lower_letter b then [(t, c(1 \<mapsto> [b]))] else [] | _ \<Rightarrow> [])"
  by (auto simp: rdashAlpha_def chr_re_def split: list.splits)

lemma replace_short:
  "replace_from n rdashAlpha fcamelCase [] = []" "replace_from n rdashAlpha fcamelCase [v] = [v]"
  by (subst replace_from.simps, subst search_from.simps, simp add: ways_dash)
     (subst replace_from.simps, subst search_from.simps, subst search_from.simps, simp add: ways_dash)

lemma replace_dash: "replace_from n rdashAlpha fcamelCase s = hump s"
proof (induction s rule: hump.induct)
  case (1 a b s)
  show ?case
  proof (cases "a = cu CHR ''-'' \<and> lower_letter b")
    case True
    then have "search_from n rdashAlpha (a # b # s) = Some ([], [a, b], s, [1 \<mapsto> [b]])"
      by (subst search_from.simps) (simp add: ways_dash)
    moreover have "fcamelCase [a, b] [1 \<mapsto> [b]] = upper [b]" by (simp add: fcamelCase_def)
    ultimately show ?thesis
      using 1 True by (subst replace_from.simps) (simp add: upper_def)
  next
    case False
    then have "search_from n rdashAlpha (a # b # s) =
        map_option (\<lambda>(pre, m, t, c). (a # pre, m, t, c)) (search_from n rdashAlpha (b # s))"
      by (subst search_from.simps) (auto simp: ways_dash split: option.splits)
    then have "replace_from n rdashAlpha fcamelCase (a # b # s) = a # replace_from n rdashAlpha fcamelCase (b # s)"
      unfolding replace_from.simps [of n rdashAlpha fcamelCase "a # b # s"]
        replace_from.simps [of n rdashAlpha fcamelCase "b # s"]
      by (auto split: option.splits)
    with 1 False show ?thesis by auto
  qed
qed (simp_all add: replace_short)

text \<open>\<open>-ms-\<close> at the start loses its first dash.\<close>

definition without_ms :: "jstr \<Rightarrow> jstr" where
  "without_ms s = (if take 4 s = js ''-ms-'' then drop 1 s else s)"

lemma ways_ms:
  "length s \<le> n \<Longrightarrow> ways n rmsPrefix (s, c) =
    (if length s = n \<and> take 4 s = js ''-ms-'' then [(drop 4 s, c)] else [])"
  by (cases s; cases "tl s"; cases "tl (tl s)"; cases "tl (tl (tl s))")
     (auto simp: rmsPrefix_def chr_re_def js_def)

lemma search_ms_later: "length s < n \<Longrightarrow> search_from n rmsPrefix s = None"
  by (induction s; subst search_from.simps) (simp_all add: ways_ms)

lemma search_ms:
  "search rmsPrefix s = (if take 4 s = js ''-ms-'' then Some ([], js ''-ms-'', drop 4 s, \<lambda>_. None) else None)"
proof (cases "take 4 s = js ''-ms-''")
  case True
  then have "length s - length (drop 4 s) = 4" by (cases "length s < 4") (auto dest: arg_cong [of _ _ length])
  with True show ?thesis
    unfolding search_def by (subst search_from.simps) (simp add: ways_ms del: length_drop)
next
  case False
  then show ?thesis
    unfolding search_def by (subst search_from.simps) (simp add: ways_ms search_ms_later split: list.split)
qed

lemma camelCase_hump: "camelCase s = hump (without_ms s)"
proof -
  have "take 4 s = js ''-ms-'' \<Longrightarrow> drop 1 s = js ''ms-'' @ drop 4 s"
    by (cases s; cases "tl s"; cases "tl (tl s)"; cases "tl (tl (tl s))") (auto simp: js_def)
  then show ?thesis
    by (simp add: camelCase_def search_ms without_ms_def replace_g_def replace_dash)
qed

text \<open>No dash of the result is followed by a small letter.\<close>

fun humped :: "jstr \<Rightarrow> bool" where
  "humped (a # b # s) \<longleftrightarrow> \<not> (a = cu CHR ''-'' \<and> lower_letter b) \<and> humped (b # s)"
| "humped s \<longleftrightarrow> True"

lemma hump_humped: "humped s \<Longrightarrow> hump s = s"
  by (induction s rule: hump.induct) auto

lemma upper_letter: "lower_letter b \<Longrightarrow> upper [b] = [b - 32] \<and> \<not> lower_letter (b - 32) \<and> b - 32 \<noteq> cu CHR ''-''"
  by (auto simp: lower_letter_def upper_def word_le_nat_alt unat_sub word_unat_eq_iff)

lemma humped_Cons: "humped (a # s) \<longleftrightarrow> humped s \<and> \<not> (a = cu CHR ''-'' \<and> s \<noteq> [] \<and> lower_letter (hd s))"
  by (cases s) auto

lemma hd_hump: "s \<noteq> [] \<Longrightarrow> hump s \<noteq> [] \<and> (lower_letter (hd (hump s)) \<longrightarrow> hd (hump s) = hd s)"
  by (cases s rule: hump.cases) (auto dest: upper_letter)

lemma humped_hump: "humped (hump s)"
proof (induction s rule: hump.induct)
  case (1 a b s)
  then show ?case
    using upper_letter [of b] hd_hump [of "b # s"] by (auto simp: humped_Cons)
qed simp_all

text \<open>Camel-casing a name twice is camel-casing it once, so every name reaches one property of a cache.\<close>

lemma camelCase_idem [simp]: "camelCase (camelCase s) = camelCase s"
proof -
  have "humped t \<Longrightarrow> without_ms t = t" for t
  proof -
    assume t: "humped t"
    have "take 4 t \<noteq> js ''-ms-''"
    proof
      assume "take 4 t = js ''-ms-''"
      then have "t = js ''-ms-'' @ drop 4 t" by (metis append_take_drop_id)
      then obtain r where "t = js ''-ms-'' @ r" ..
      with t show False by (simp add: js_def lower_letter_def)
    qed
    then show ?thesis by (simp add: without_ms_def)
  qed
  then show ?thesis by (simp add: camelCase_hump humped_hump hump_humped)
qed

lemma hump_Cons: "a \<noteq> cu CHR ''-'' \<Longrightarrow> hump (a # s) = a # hump s"
  by (cases s) auto

lemma hump_snoc: "s \<noteq> [] \<Longrightarrow> last s \<noteq> cu CHR ''-'' \<Longrightarrow> hump (s @ t) = hump s @ hump t"
proof (induction s rule: hump.induct)
  case (1 a b s)
  then show ?case by (cases s) (auto split: if_splits)
qed (simp_all add: hump_Cons)

section \<open>Data\<close>

text \<open>\<open>acceptData\<close>; \<open>+owner.nodeType\<close> is NaN for an owner without a type.\<close>

definition acceptData :: "('o \<Rightarrow> int option) \<Rightarrow> 'o \<Rightarrow> bool" where
  "acceptData nt owner = (case nt owner of None \<Rightarrow> True | Some n \<Rightarrow> n = 1 \<or> n = 9 \<or> n = 0)"

type_synonym 'v cache = "(jstr \<times> 'v option) list"
type_synonym ('o, 'v) data = "'o \<Rightarrow> 'v cache option"

definition data_cache :: "('o \<Rightarrow> int option) \<Rightarrow> 'o \<Rightarrow> ('o, 'v) data \<Rightarrow> 'v cache \<times> ('o, 'v) data" where
  "data_cache nt owner d = (case d owner of Some c \<Rightarrow> (c, d)
     | None \<Rightarrow> ([], if acceptData nt owner then d(owner := Some []) else d))"

text \<open>A write to the object that \<open>cache\<close> returned is seen by the owner if the owner has it.\<close>

definition write_back :: "'o \<Rightarrow> 'v cache \<Rightarrow> ('o, 'v) data \<Rightarrow> ('o, 'v) data" where
  "write_back owner c d = (if d owner = None then d else d(owner := Some c))"

definition data_set :: "('o \<Rightarrow> int option) \<Rightarrow> 'o \<Rightarrow> jstr \<Rightarrow> 'v option \<Rightarrow> ('o, 'v) data \<Rightarrow> 'v cache \<times> ('o, 'v) data" where
  "data_set nt owner key v d =
     (case data_cache nt owner d of (c, d1) \<Rightarrow>
        let c1 = set_prop c (camelCase key) v in (c1, write_back owner c1 d1))"

definition data_set_all :: "('o \<Rightarrow> int option) \<Rightarrow> 'o \<Rightarrow> (jstr \<times> 'v option) list \<Rightarrow> ('o, 'v) data \<Rightarrow>
    'v cache \<times> ('o, 'v) data" where
  "data_set_all nt owner props d =
     (case data_cache nt owner d of (c, d1) \<Rightarrow>
        let c1 = fold (\<lambda>(prop, v) c. set_prop c (camelCase prop) v) (in_order props) c
        in (c1, write_back owner c1 d1))"

definition cached :: "'v cache \<Rightarrow> jstr \<Rightarrow> 'v option" where
  "cached c k = (case map_of c k of None \<Rightarrow> None | Some v \<Rightarrow> v)"

definition data_get :: "'o \<Rightarrow> jstr \<Rightarrow> ('o, 'v) data \<Rightarrow> 'v option" where
  "data_get owner key d = (case d owner of None \<Rightarrow> None | Some c \<Rightarrow> cached c (camelCase key))"

text \<open>\<open>access\<close>: the key is undefined, a string, or an object of properties.\<close>

datatype 'v data_key = NoKey | Name jstr | Fields "(jstr \<times> 'v option) list"

datatype 'v data_result = Whole "'v cache" | Value "'v option" | TheKey "'v data_key"

definition data_access :: "('o \<Rightarrow> int option) \<Rightarrow> 'o \<Rightarrow> 'v data_key \<Rightarrow> 'v option \<Rightarrow> ('o, 'v) data \<Rightarrow>
    'v data_result \<times> ('o, 'v) data" where
  "data_access nt owner key v d =
     (case key of
        NoKey \<Rightarrow> map_prod Whole id (data_cache nt owner d)
      | Name k \<Rightarrow> (if k \<noteq> [] \<and> v = None then (Value (data_get owner k d), d)
          else (if v \<noteq> None then Value v else TheKey key, snd (data_set nt owner k v d)))
      | Fields props \<Rightarrow> (if v \<noteq> None then Value v else TheKey key, snd (data_set_all nt owner props d)))"

datatype remove_keys = AllKeys | KeyList "jstr list" | KeyText jstr

definition remove_list :: "remove_keys \<Rightarrow> 'v cache \<Rightarrow> jstr list" where
  "remove_list key c = (case key of
       AllKeys \<Rightarrow> []
     | KeyList ks \<Rightarrow> map camelCase ks
     | KeyText k0 \<Rightarrow> (let k = camelCase k0 in if k \<in> fst ` set c then [k] else words k))"

definition delete_prop :: "jstr \<Rightarrow> 'v cache \<Rightarrow> 'v cache" where
  "delete_prop k c = filter (\<lambda>(k', v). k' \<noteq> k) c"

definition data_remove :: "'o \<Rightarrow> remove_keys \<Rightarrow> ('o, 'v) data \<Rightarrow> ('o, 'v) data" where
  "data_remove owner key d =
     (case d owner of None \<Rightarrow> d
      | Some c \<Rightarrow>
          let c1 = fold delete_prop (rev (remove_list key c)) c
          in if key = AllKeys \<or> c1 = [] then d(owner := None) else d(owner := Some c1))"

definition data_hasData :: "'o \<Rightarrow> ('o, 'v) data \<Rightarrow> bool" where
  "data_hasData owner d = (case d owner of None \<Rightarrow> False | Some c \<Rightarrow> c \<noteq> [])"

text \<open>What the operations do to the value under a name: one entry per camel-cased name.\<close>

lemma data_cache_at: "acceptData nt owner \<Longrightarrow> \<exists>c d1. data_cache nt owner d = (c, d1) \<and> d1 = d(owner := Some c)
    \<and> c = (case d owner of None \<Rightarrow> [] | Some c \<Rightarrow> c)"
  by (auto simp: data_cache_def fun_upd_idem split: option.split)

lemma data_get_set:
  assumes "acceptData nt owner"
  shows "data_get o' k' (snd (data_set nt owner k v d)) =
    (if o' = owner \<and> camelCase k' = camelCase k then v else data_get o' k' d)"
  using data_cache_at [OF assms, of d]
  by (auto simp: data_set_def Let_def write_back_def data_get_def cached_def split: option.split)

lemma data_set_refused:
  assumes "\<not> acceptData nt owner" and "d owner = None"
  shows "snd (data_set nt owner k v d) = d"
  using assms by (simp add: data_set_def data_cache_def Let_def write_back_def)

subsection \<open>An owner's data as a map\<close>

text \<open>
  The specification of an instance, seen from one owner: a map from camel-cased names, where Some None is a
  property that was set to undefined.
\<close>

definition data_view :: "'o \<Rightarrow> ('o, 'v) data \<Rightarrow> jstr \<rightharpoonup> 'v option" where
  "data_view owner d = (case d owner of None \<Rightarrow> Map.empty | Some c \<Rightarrow> map_of c)"

datatype 'v data_op = SetOne jstr "'v option" | SetAll "(jstr \<times> 'v option) list" | Erase remove_keys | ReadAll

primrec run_data :: "('o \<Rightarrow> int option) \<Rightarrow> 'o \<Rightarrow> 'v data_op \<Rightarrow> ('o, 'v) data \<Rightarrow> ('o, 'v) data" where
  "run_data nt owner (SetOne k v) d = snd (data_set nt owner k v d)"
| "run_data nt owner (SetAll props) d = snd (data_set_all nt owner props d)"
| "run_data nt owner (Erase key) d = data_remove owner key d"
| "run_data nt owner ReadAll d = snd (data_cache nt owner d)"

primrec spec_data :: "'v data_op \<Rightarrow> (jstr \<rightharpoonup> 'v option) \<Rightarrow> (jstr \<rightharpoonup> 'v option)" where
  "spec_data (SetOne k v) m = m(camelCase k \<mapsto> v)"
| "spec_data (SetAll props) m = fold (\<lambda>(k, v) m. m(camelCase k \<mapsto> v)) (in_order props) m"
| "spec_data (Erase key) m = (case key of AllKeys \<Rightarrow> Map.empty
     | KeyList ks \<Rightarrow> m |` (- camelCase ` set ks)
     | KeyText k \<Rightarrow> if camelCase k \<in> dom m then m(camelCase k := None) else m |` (- set (words (camelCase k))))"
| "spec_data ReadAll m = m"

lemma map_of_delete [simp]: "map_of (delete_prop k c) = (map_of c)(k := None)"
  by (induction c) (auto simp: delete_prop_def fun_eq_iff)

lemma map_of_deletes: "map_of (fold delete_prop ks c) = map_of c |` (- set ks)"
  by (induction ks arbitrary: c) (auto simp: restrict_map_def fun_eq_iff)

lemma view_put: "data_view owner (d(owner := Some c)) = map_of c"
  by (simp add: data_view_def)

lemma view_write: "d owner = Some c0 \<Longrightarrow> data_view owner (write_back owner c d) = map_of c"
  by (simp add: data_view_def write_back_def)

lemma map_of_sets:
  "map_of (fold (\<lambda>(k, v) c. set_prop c (f k) v) props c) = fold (\<lambda>(k, v) m. m(f k \<mapsto> v)) props (map_of c)"
  by (induction props arbitrary: c) (auto split: prod.splits)

lemma fst_map_of: "k \<in> fst ` set c \<longleftrightarrow> k \<in> dom (map_of c)"
  by (simp add: dom_map_of_conv_image_fst)

lemma view_erase: "data_view owner (data_remove owner key d) = spec_data (Erase key) (data_view owner d)"
proof (cases "d owner")
  case None
  then show ?thesis
    by (cases key) (auto simp: data_remove_def data_view_def restrict_map_def)
next
  case (Some c)
  let ?c = "fold delete_prop (rev (remove_list key c)) c"
  have "data_view owner (data_remove owner key d) = (if key = AllKeys then Map.empty else map_of ?c)"
    using Some by (auto simp: data_remove_def Let_def data_view_def)
  also have "\<dots> = (if key = AllKeys then Map.empty else map_of c |` (- set (remove_list key c)))"
    by (simp add: map_of_deletes)
  also have "\<dots> = spec_data (Erase key) (map_of c)"
    by (cases key) (auto simp: remove_list_def Let_def restrict_map_def fun_eq_iff dom_map_of_conv_image_fst)
  finally show ?thesis using Some by (simp add: data_view_def)
qed

lemma view_run:
  assumes "acceptData nt owner"
  shows "data_view owner (run_data nt owner op d) = spec_data op (data_view owner d)"
proof -
  obtain c where c: "data_cache nt owner d = (c, d(owner := Some c))" and v: "data_view owner d = map_of c"
    using data_cache_at [OF assms, of d] by (auto simp: data_view_def split: option.splits)
  have w: "write_back owner c1 (d(owner := Some c)) = d(owner := Some c1)" for c1
    by (simp add: write_back_def)
  show ?thesis
  proof (cases op)
    case (SetOne k x)
    then show ?thesis by (simp add: data_set_def c Let_def w view_put v)
  next
    case (SetAll props)
    then show ?thesis
      by (simp add: data_set_all_def c Let_def w view_put v map_of_sets [of camelCase])
  next
    case (Erase key)
    then show ?thesis by (simp only: run_data.simps view_erase)
  next
    case ReadAll
    then show ?thesis by (simp add: c view_put v)
  qed
qed

lemma run_other: "o' \<noteq> owner \<Longrightarrow> run_data nt owner op d o' = d o'"
  by (cases op)
     (auto simp: data_set_def data_set_all_def data_cache_def data_remove_def write_back_def Let_def split: option.splits)

lemma get_view: "data_get owner k d = (case data_view owner d (camelCase k) of None \<Rightarrow> None | Some v \<Rightarrow> v)"
  by (simp add: data_get_def data_view_def cached_def split: option.splits)

lemma hasData_view: "data_hasData owner d \<longleftrightarrow> data_view owner d \<noteq> Map.empty"
  by (auto simp: data_hasData_def data_view_def split: option.splits)

text \<open>
  C19. On an owner that accepts data, any sequence of writes, removals and reads does to the owner's data what
  the same sequence does to a map from camel-cased names, and nothing to other owners; reading a name and
  asking for data read that map.
\<close>

theorem data_refines_map:
  assumes "acceptData nt owner"
  shows "(let d1 = fold (run_data nt owner) ops d; m1 = fold spec_data ops (data_view owner d) in
    data_view owner d1 = m1 \<and> (\<forall>o'. o' = owner \<or> d1 o' = d o') \<and>
    (\<forall>k. data_get owner k d1 = (case m1 (camelCase k) of None \<Rightarrow> None | Some v \<Rightarrow> v)) \<and>
    data_hasData owner d1 = (m1 \<noteq> Map.empty))"
proof -
  have "data_view owner (fold (run_data nt owner) ops d) = fold spec_data ops (data_view owner d)"
    by (induction ops arbitrary: d) (simp_all add: view_run [OF assms])
  moreover have "o' \<noteq> owner \<Longrightarrow> fold (run_data nt owner) ops d o' = d o'" for o'
    by (induction ops arbitrary: d) (simp_all add: run_other)
  ultimately show ?thesis by (auto simp: Let_def get_view hasData_view)
qed

theorem data_refines_map_witness:
  "data_get (0 :: nat) (js ''one-two'') (fold (run_data (\<lambda>_. Some 1) 0)
     [SetOne (js ''oneTwo'') (Some True), SetOne (js ''x'') None, Erase (KeyText (js ''x y''))] (\<lambda>_. None)) = Some True"
proof -
  have a: "acceptData (\<lambda>_. Some 1) (0 :: nat)" by (simp add: acceptData_def)
  have "camelCase (js ''one-two'') = js ''oneTwo''" "camelCase (js ''oneTwo'') = js ''oneTwo''"
    "camelCase (js ''x'') = js ''x''" "camelCase (js ''x y'') = js ''x y''"
    by (simp_all add: camelCase_hump without_ms_def js_def lower_letter_def upper_def)
  moreover have "words (js ''x y'') = [js ''x'', js ''y'']"
    by (simp add: js_def html_white_def)
  ultimately show ?thesis
    using data_refines_map [OF a, of "[SetOne (js ''oneTwo'') (Some True), SetOne (js ''x'') None,
        Erase (KeyText (js ''x y''))]" "\<lambda>_. None"]
    by (simp add: Let_def data_view_def)
qed

section \<open>Data attributes and the data of a set\<close>

text \<open>
  \<open>getData\<close>.  A text is a number here when it is the text of an integer the language represents exactly, or
  \<open>NaN\<close>; texts of fractions and of larger numbers are outside the numbers of theory \<open>JsValue\<close>.  \<open>JSON.parse\<close>
  is the parameter \<open>json\<close>, None when it throws.
\<close>

definition number_text :: "jstr \<Rightarrow> jnum option" where
  "number_text s =
     (if s = js ''NaN'' then Some NaN
      else let i = (if take 1 s = js ''-'' then - int (read_nat (drop 1 s)) else int (read_nat s)) in
        if s = show_int i \<and> abs i \<le> 2 ^ 53 then Some (Fin i) else None)"

definition rbrace :: re where
  "rbrace = Cat Bol (Cat (Alt (Cat (lit ''{'') (Cat (Star (Cls (\<lambda>_. True))) (lit ''}'')))
                              (Cat (lit ''['') (Cat (Star (Cls (\<lambda>_. True))) (lit '']'')))) Eol)"

definition getData :: "(jstr \<Rightarrow> 'f val option) \<Rightarrow> jstr \<Rightarrow> 'f val option" where
  "getData json data =
     (if data = js ''true'' then Some (VBool True)
      else if data = js ''false'' then Some (VBool False)
      else if data = js ''null'' then Some VNull
      else case number_text data of Some n \<Rightarrow> Some (VNum n)
        | None \<Rightarrow> if re_test rbrace data then json data else Some (VStr data))"

record ('e, 'f) data_world =
  attributes :: "'e \<Rightarrow> (jstr \<times> jstr) list"
  dataUser :: "('e, 'f val) data"
  dataPriv :: "('e, 'f val) data"

definition slot :: "'f val \<Rightarrow> 'f val option" where
  "slot v = (if is_undef v then None else Some v)"

definition unslot :: "'f val option \<Rightarrow> 'f val" where
  "unslot x = (case x of None \<Rightarrow> VUndef | Some v \<Rightarrow> v)"

definition upper_letter_re :: re where
  "upper_letter_re = Cls (\<lambda>c. 65 \<le> c \<and> c \<le> 90)"

definition data_attr_name :: "jstr \<Rightarrow> jstr" where
  "data_attr_name key = js ''data-'' @ lower (replace_g upper_letter_re (\<lambda>m _. js ''-'' @ m) key)"

text \<open>The readers of data: the environment has \<open>nt\<close> and \<open>json\<close>.\<close>

type_synonym ('e, 'f) data_env = "('e \<Rightarrow> int option) \<times> (jstr \<Rightarrow> 'f val option)"

definition set_user :: "('e, 'f) data_env \<Rightarrow> 'e \<Rightarrow> jstr \<Rightarrow> 'f val \<Rightarrow> ('e, 'f) data_world \<Rightarrow> ('e, 'f) data_world" where
  "set_user env e key v w = w\<lparr>dataUser := snd (data_set (fst env) e key (slot v) (dataUser w))\<rparr>"

definition dataAttr :: "('e, 'f) data_env \<Rightarrow> 'e \<Rightarrow> jstr \<Rightarrow> 'f val \<Rightarrow> ('e, 'f) data_world \<Rightarrow> 'f val \<times> ('e, 'f) data_world" where
  "dataAttr env e key data w =
     (if is_undef data \<and> fst env e = Some 1 then
        (case map_of (attributes w e) (data_attr_name key) of
           None \<Rightarrow> (VUndef, w)
         | Some text \<Rightarrow>
             let v = (case getData (snd env) text of None \<Rightarrow> VStr text | Some x \<Rightarrow> x) in (v, set_user env e key v w))
      else (data, w))"

definition jq_hasData :: "'e \<Rightarrow> ('e, 'f) data_world \<Rightarrow> bool" where
  "jq_hasData e w = (data_hasData e (dataUser w) \<or> data_hasData e (dataPriv w))"

definition jq_data :: "('e \<Rightarrow> int option) \<Rightarrow> 'e \<Rightarrow> 'f val data_key \<Rightarrow> 'f val option \<Rightarrow> ('e, 'f) data_world \<Rightarrow>
    'f val data_result \<times> ('e, 'f) data_world" where
  "jq_data nt e key v w = (case data_access nt e key v (dataUser w) of (r, d) \<Rightarrow> (r, w\<lparr>dataUser := d\<rparr>))"

definition jq_removeData :: "'e \<Rightarrow> remove_keys \<Rightarrow> ('e, 'f) data_world \<Rightarrow> ('e, 'f) data_world" where
  "jq_removeData e key w = w\<lparr>dataUser := data_remove e key (dataUser w)\<rparr>"

definition jq__data :: "('e \<Rightarrow> int option) \<Rightarrow> 'e \<Rightarrow> 'f val data_key \<Rightarrow> 'f val option \<Rightarrow> ('e, 'f) data_world \<Rightarrow>
    'f val data_result \<times> ('e, 'f) data_world" where
  "jq__data nt e key v w = (case data_access nt e key v (dataPriv w) of (r, d) \<Rightarrow> (r, w\<lparr>dataPriv := d\<rparr>))"

definition jq__removeData :: "'e \<Rightarrow> remove_keys \<Rightarrow> ('e, 'f) data_world \<Rightarrow> ('e, 'f) data_world" where
  "jq__removeData e key w = w\<lparr>dataPriv := data_remove e key (dataPriv w)\<rparr>"

text \<open>\<open>data()\<close>: the cache of the first element, after its data attributes were read into it once.\<close>

definition read_attribute :: "('e, 'f) data_env \<Rightarrow> 'e \<Rightarrow> jstr \<times> jstr \<Rightarrow> ('e, 'f) data_world \<Rightarrow> ('e, 'f) data_world" where
  "read_attribute env e attr w =
     (if take 5 (fst attr) = js ''data-'' then
        let name = camelCase (drop 5 (fst attr)) in
        snd (dataAttr env e name
          (unslot (case dataUser w e of None \<Rightarrow> None | Some c \<Rightarrow> cached c name)) w)
      else w)"

definition whole_data :: "('e, 'f) data_env \<Rightarrow> 'e list \<Rightarrow> ('e, 'f) data_world \<Rightarrow>
    'f val cache option \<times> ('e, 'f) data_world" where
  "whole_data env es w =
     (case es of [] \<Rightarrow> (None, w)
      | e # _ \<Rightarrow>
        let w1 = w\<lparr>dataUser := snd (data_cache (fst env) e (dataUser w))\<rparr>;
            seen = vtruthy (unslot (data_get e (js ''hasDataAttrs'') (dataPriv w1)));
            w2 = (if fst env e = Some 1 \<and> \<not> seen then
                    (let w' = fold (read_attribute env e) (rev (attributes w1 e)) w1 in
                     w'\<lparr>dataPriv := snd (data_set (fst env) e (js ''hasDataAttrs'') (Some (VBool True)) (dataPriv w'))\<rparr>)
                  else w1)
        in (Some (fst (data_cache (fst env) e (dataUser w2))), w2))"

text \<open>The function that \<open>data(key, value)\<close> hands to \<open>access\<close>.\<close>

definition data_bulk :: "('e, 'f) data_env \<Rightarrow> jstr \<Rightarrow> 'e list \<Rightarrow> 'f val \<Rightarrow> (('e, 'f) data_world, 'f val) handler" where
  "data_bulk env key es value w =
     (case es of
        e # _ \<Rightarrow> (if is_undef value then
            (case data_get e key (dataUser w) of
               Some v \<Rightarrow> (Inr v, w)
             | None \<Rightarrow> (case dataAttr env e key VUndef w of (v, w1) \<Rightarrow> (Inr v, w1)))
          else (Inr VUndef, fold (\<lambda>e. set_user env e key value) es w))
      | [] \<Rightarrow> (Inr VUndef, w))"

definition set_fields :: "('e, 'f) data_env \<Rightarrow> 'f val data_key \<Rightarrow> 'e \<Rightarrow> ('e, 'f) data_world \<Rightarrow> ('e, 'f) data_world" where
  "set_fields env key e w = (case key of
     Fields props \<Rightarrow> w\<lparr>dataUser := snd (data_set_all (fst env) e props (dataUser w))\<rparr> | _ \<Rightarrow> w)"

datatype ('e, 'f) data_answer = WholeData "'f val cache option" | Answer "('e, 'f) accessed"

definition fn_data :: "('e, 'f) data_env \<Rightarrow> 'e list \<Rightarrow> 'f val data_key \<Rightarrow> 'f val option \<Rightarrow>
    (('e, 'f) data_world, ('e, 'f) data_answer) handler" where
  "fn_data env es key value =
     (case key of
        NoKey \<Rightarrow> (\<lambda>w. case whole_data env es w of (c, w1) \<Rightarrow> (Inr (WholeData c), w1))
      | Fields _ \<Rightarrow> (\<lambda>w. (Inr (Answer (Chain es)), fold (set_fields env key) es w))
      | Name k \<Rightarrow> bnd (jq_access (\<lambda>(_ :: 'f) _ _. ret VUndef) (\<lambda>_ _ _. ret VUndef) (data_bulk env k) es Bulk
            (unslot value) (value \<noteq> None) VNull True) (\<lambda>a. ret (Answer a)))"

definition fn_removeData :: "'e list \<Rightarrow> remove_keys \<Rightarrow> ('e, 'f) data_world \<Rightarrow> ('e, 'f) data_world" where
  "fn_removeData es key w = fold (\<lambda>e. jq_removeData e key) es w"

lemma unslot_slot [simp]: "unslot (slot v) = v"
  by (cases v) (simp_all add: unslot_def slot_def is_undef_def)

lemma fn_data_get:
  "fn_data env (e # es) (Name k) None w = (case data_get e k (dataUser w) of
     Some v \<Rightarrow> (Inr (Answer (Got v)), w)
   | None \<Rightarrow> (case dataAttr env e k VUndef w of (v, w1) \<Rightarrow> (Inr (Answer (Got v)), w1)))"
  by (simp add: fn_data_def jq_access_def access_one_def Let_def unslot_def is_undef_def data_bulk_def bnd_def
        split: option.splits prod.splits)

lemma getData_defined: "(\<And>s v. json s = Some v \<Longrightarrow> \<not> is_undef v) \<Longrightarrow> getData json text = Some v \<Longrightarrow> \<not> is_undef v"
  by (auto simp: getData_def is_undef_def split: if_splits option.splits)

text \<open>
  The first read of a name for which the element has no data takes the data attribute, converts it and
  keeps it: until the data itself is written, every later read under any spelling of the name gives that
  value, whatever becomes of the attribute.
\<close>

theorem data_attribute_once:
  assumes "fst env e = Some 1" and "data_get e k (dataUser w) = None"
    and "map_of (attributes w e) (data_attr_name k) = Some text"
    and "\<And>s v. snd env s = Some v \<Longrightarrow> \<not> is_undef v"
  shows "\<exists>v w1. fn_data env (e # es) (Name k) None w = (Inr (Answer (Got v)), w1) \<and>
    v = (case getData (snd env) text of None \<Rightarrow> VStr text | Some x \<Rightarrow> x) \<and>
    (\<forall>k' w2 es'. camelCase k' = camelCase k \<and> dataUser w2 = dataUser w1 \<longrightarrow>
      fn_data env (e # es') (Name k') None w2 = (Inr (Answer (Got v)), w2))"
proof -
  let ?v = "case getData (snd env) text of None \<Rightarrow> VStr text | Some x \<Rightarrow> x"
  have u: "\<not> is_undef ?v"
    using getData_defined [of "snd env" "text"] assms(4) by (auto simp: is_undef_def split: option.splits)
  have acc: "acceptData (fst env) e" using assms(1) by (simp add: acceptData_def)
  have "fn_data env (e # es) (Name k) None w = (Inr (Answer (Got ?v)), set_user env e k ?v w)"
    using assms(1-3) by (simp add: fn_data_get dataAttr_def is_undef_def Let_def)
  moreover have "data_get e k' (dataUser w2) = Some ?v"
    if "camelCase k' = camelCase k \<and> dataUser w2 = dataUser (set_user env e k ?v w)" for k' and w2 :: "('a, 'b) data_world"
    using that u by (simp add: set_user_def data_get_set [OF acc] slot_def)
  ultimately show ?thesis by (auto simp: fn_data_get)
qed

definition marked_page :: "(nat, unit) data_world" where
  "marked_page = \<lparr>attributes = \<lambda>_. [(js ''data-on'', js ''true'')], dataUser = \<lambda>_. None, dataPriv = \<lambda>_. None\<rparr>"

theorem data_attribute_once_witness:
  "\<exists>w1. fn_data (\<lambda>_. Some 1, \<lambda>_. None) [0] (Name (js ''on'')) None marked_page = (Inr (Answer (Got (VBool True))), w1)
    \<and> fn_data (\<lambda>_. Some 1, \<lambda>_. None) [0] (Name (js ''on'')) None (w1\<lparr>attributes := \<lambda>_. []\<rparr>)
      = (Inr (Answer (Got (VBool True))), w1\<lparr>attributes := \<lambda>_. []\<rparr>)"
proof -
  have "data_attr_name (js ''on'') = js ''data-on''"
    by (simp add: data_attr_name_def upper_letter_re_def replace_g_Cls js_def lower_def lower1_def)
  then have m: "map_of (attributes marked_page 0) (data_attr_name (js ''on'')) = Some (js ''true'')"
    by (simp add: marked_page_def)
  have g: "getData (\<lambda>_. None) (js ''true'') = Some (VBool True :: unit val)" by (simp add: getData_def)
  have n: "data_get 0 (js ''on'') (dataUser marked_page) = None" by (simp add: data_get_def marked_page_def)
  let ?env = "(\<lambda>_. Some 1, \<lambda>_. None) :: (nat, unit) data_env"
  have "\<exists>v w1. fn_data ?env (0 # []) (Name (js ''on'')) None marked_page = (Inr (Answer (Got v)), w1) \<and>
    v = (case getData (snd ?env) (js ''true'') of None \<Rightarrow> VStr (js ''true'') | Some x \<Rightarrow> x) \<and>
    (\<forall>k' w2 es'. camelCase k' = camelCase (js ''on'') \<and> dataUser w2 = dataUser w1 \<longrightarrow>
      fn_data ?env (0 # es') (Name k') None w2 = (Inr (Answer (Got v)), w2))"
    by (rule data_attribute_once [OF _ n m]) simp_all
  then show ?thesis using g by auto
qed

end
