(* ===== verification/JqQueue.thy ===== *)
theory JqQueue
  imports JqData
begin

text \<open>
  \<open>html/jquery-3.6.1.js\<close>: the queues of functions attached to elements (\<open>queue\<close>, \<open>dequeue\<close>,
  \<open>_queueHooks\<close>, \<open>clearQueue\<close>, \<open>promise\<close>).

  A queue is an array in the private data of its element under the type's name followed by \<open>queue\<close>, its hooks are
  beside it under the name followed by \<open>queueHooks\<close>.  The call of a function is the last thing \<open>dequeue\<close> does when
  it takes one, so what the function does while it runs (adding functions, calling \<open>next\<close>) comes after it as
  further operations; the call itself is noted in a log.
\<close>

section \<open>Queues and their hooks\<close>

datatype 'f item = InProgress | Task 'f

text \<open>The functions in \<open>hooks.empty\<close>: the one that cleans up, and the \<open>resolve\<close> of a promise.\<close>

datatype notice = Cleanup jstr | Resolve nat

record 'f hooks =
  stop :: "'f option"
  empty :: "(notice, unit) cblist"

datatype 'f priv = PQueue "'f item list" | PHooks "'f hooks"

text \<open>
  What happened, for the properties: an element's queue, named by its key in the private data, got a function or
  was replaced, or a function of it was called; a promise was resolved.
\<close>

datatype ('o, 'f) happening =
    Queued 'o jstr 'f
  | Replaced 'o jstr "'f item list"
  | Called 'o jstr 'f
  | Resolved nat

record ('o, 'f) queues =
  priv :: "('o, 'f priv) data"
  waiting :: "nat \<Rightarrow> int"
  made :: nat
  log :: "('o, 'f) happening list"

definition happens :: "('o, 'f) happening \<Rightarrow> ('o, 'f) queues \<Rightarrow> ('o, 'f) queues" where
  "happens h w = w\<lparr>log := log w @ [h]\<rparr>"

definition fx :: jstr where
  "fx = js ''fx''"

definition or_fx :: "jstr \<Rightarrow> jstr" where
  "or_fx type = (if type = [] then fx else type)"

definition queue_name :: "jstr \<Rightarrow> jstr" where
  "queue_name type = type @ js ''queue''"

definition hooks_name :: "jstr \<Rightarrow> jstr" where
  "hooks_name type = type @ js ''queueHooks''"

definition stored_queue :: "'o \<Rightarrow> jstr \<Rightarrow> ('o, 'f) queues \<Rightarrow> 'f item list option" where
  "stored_queue owner type w =
     (case data_get owner (queue_name type) (priv w) of Some (PQueue q) \<Rightarrow> Some q | _ \<Rightarrow> None)"

definition put_priv :: "('o \<Rightarrow> int option) \<Rightarrow> 'o \<Rightarrow> jstr \<Rightarrow> 'f priv \<Rightarrow> ('o, 'f) queues \<Rightarrow> ('o, 'f) queues" where
  "put_priv nt owner name x w = w\<lparr>priv := snd (data_access nt owner (Name name) (Some x) (priv w))\<rparr>"

text \<open>The array is changed in place: the change is seen if the array is stored.\<close>

definition mutate_queue :: "('o \<Rightarrow> int option) \<Rightarrow> 'o \<Rightarrow> jstr \<Rightarrow> 'f item list \<Rightarrow> ('o, 'f) queues \<Rightarrow> ('o, 'f) queues" where
  "mutate_queue nt owner type q w =
     (if stored_queue owner type w = None then w else put_priv nt owner (queue_name type) (PQueue q) w)"

text \<open>\<open>jQuery.queue\<close>: without data it looks the queue up.\<close>

datatype 'f queued = One 'f | Many "'f item list"

definition queued_items :: "'f queued \<Rightarrow> 'f item list" where
  "queued_items x = (case x of One f \<Rightarrow> [Task f] | Many fs \<Rightarrow> fs)"

definition queued_as :: "'o \<Rightarrow> jstr \<Rightarrow> 'f queued \<Rightarrow> ('o, 'f) happening" where
  "queued_as owner type x = (case x of One f \<Rightarrow> Queued owner (camelCase (queue_name type)) f
     | Many fs \<Rightarrow> Replaced owner (camelCase (queue_name type)) fs)"

definition jq_queue :: "('o \<Rightarrow> int option) \<Rightarrow> 'o \<Rightarrow> jstr \<Rightarrow> 'f queued option \<Rightarrow> ('o, 'f) queues \<Rightarrow>
    'f item list \<times> ('o, 'f) queues" where
  "jq_queue nt owner type0 x w =
     (let type = or_fx type0; q = stored_queue owner type w in
      case x of
        None \<Rightarrow> (case q of None \<Rightarrow> [] | Some xs \<Rightarrow> xs, w)
      | Some y \<Rightarrow>
          let w1 = happens (queued_as owner type y) w in
          (case (q, y) of
             (Some xs, One f) \<Rightarrow> (xs @ [Task f], mutate_queue nt owner type (xs @ [Task f]) w1)
           | _ \<Rightarrow> (queued_items y, put_priv nt owner (queue_name type) (PQueue (queued_items y)) w1)))"

text \<open>\<open>_queueHooks\<close>\<close>

definition new_hooks :: "jstr \<Rightarrow> 'f hooks" where
  "new_hooks type = \<lparr>stop = None,
     empty = snd (cb_add [Fn (Cleanup type)] (Callbacks (createOptions (js ''once memory''))))\<rparr>"

definition stored_hooks :: "'o \<Rightarrow> jstr \<Rightarrow> ('o, 'f) queues \<Rightarrow> 'f hooks option" where
  "stored_hooks owner type w =
     (case data_get owner (hooks_name type) (priv w) of Some (PHooks h) \<Rightarrow> Some h | _ \<Rightarrow> None)"

definition queueHooks :: "('o \<Rightarrow> int option) \<Rightarrow> 'o \<Rightarrow> jstr \<Rightarrow> ('o, 'f) queues \<Rightarrow> 'f hooks \<times> ('o, 'f) queues" where
  "queueHooks nt owner type w =
     (case stored_hooks owner type w of Some h \<Rightarrow> (h, w)
      | None \<Rightarrow> (new_hooks type, put_priv nt owner (hooks_name type) (PHooks (new_hooks type)) w))"

definition mutate_hooks :: "('o \<Rightarrow> int option) \<Rightarrow> 'o \<Rightarrow> jstr \<Rightarrow> 'f hooks \<Rightarrow> ('o, 'f) queues \<Rightarrow> ('o, 'f) queues" where
  "mutate_hooks nt owner type h w =
     (if stored_hooks owner type w = None then w else put_priv nt owner (hooks_name type) (PHooks h) w)"

text \<open>
  A firing of \<open>hooks.empty\<close>: none of its functions touches the list, so the calls are made one after the other.
  The fuel is one more than the number of functions.
\<close>

fun drain :: "nat \<Rightarrow> ('g \<times> 'a option) option \<times> ('g, 'a) cblist \<Rightarrow> 'g list" where
  "drain (Suc n) (Some (g, _), c) = g # drain n (advance (returned False c))"
| "drain _ _ = []"

text \<open>The \<open>resolve\<close> of a promise; \<open>resolveWith\<close> is the note that the promise is resolved.\<close>

definition count_down :: "nat \<Rightarrow> ('o, 'f) queues \<Rightarrow> ('o, 'f) queues" where
  "count_down p w =
     (let w1 = w\<lparr>waiting := (waiting w)(p := waiting w p - 1)\<rparr>
      in if waiting w1 p = 0 then happens (Resolved p) w1 else w1)"

definition run_notice :: "'o \<Rightarrow> notice \<Rightarrow> ('o, 'f) queues \<Rightarrow> ('o, 'f) queues" where
  "run_notice owner n w = (case n of
       Cleanup type \<Rightarrow> w\<lparr>priv := data_remove owner (KeyList [queue_name type, hooks_name type]) (priv w)\<rparr>
     | Resolve p \<Rightarrow> count_down p w)"

definition fire_empty :: "'o \<Rightarrow> 'f hooks \<Rightarrow> ('o, 'f) queues \<Rightarrow> ('o, 'f) queues" where
  "fire_empty owner h w = (case cb_fireWith () (empty h) of (go, c) \<Rightarrow>
     if go then fold (run_notice owner) (drain (Suc (length (the_items c))) (fire_start c)) w else w)"

section \<open>dequeue\<close>

definition take_next :: "'f item list \<Rightarrow> 'f item option \<times> 'f item list" where
  "take_next q = (case q of [] \<Rightarrow> (None, []) | x # r \<Rightarrow> (Some x, r))"

text \<open>From the test of \<open>fn\<close> on: the array \<open>q\<close> is without the function.\<close>

definition call_next :: "('o \<Rightarrow> int option) \<Rightarrow> 'o \<Rightarrow> jstr \<Rightarrow> 'f hooks \<Rightarrow> 'f item option \<Rightarrow> 'f item list \<Rightarrow> nat \<Rightarrow>
    (('o, 'f) queues, unit) handler" where
  "call_next nt owner type h fn q startLength w =
     (case fn of
        Some g \<Rightarrow>
          let h1 = h\<lparr>stop := None\<rparr>;
              q1 = (if type = fx then InProgress # q else q);
              w1 = mutate_hooks nt owner type h1 (mutate_queue nt owner type q1 w)
          in (case g of InProgress \<Rightarrow> (Inl TypeError, w1)
              | Task f \<Rightarrow>
                  let w2 = happens (Called owner (camelCase (queue_name type)) f) w1 in
                  (Inr (), if startLength = 0 then fire_empty owner h1 w2 else w2))
      | None \<Rightarrow> (Inr (), if startLength = 0 then fire_empty owner h w else w))"

definition dequeue :: "('o \<Rightarrow> int option) \<Rightarrow> 'o \<Rightarrow> jstr \<Rightarrow> (('o, 'f) queues, unit) handler" where
  "dequeue nt owner type0 w =
     (let type = or_fx type0;
          q0 = fst (jq_queue nt owner type None w);
          (fn, q1) = take_next q0;
          (h, w2) = queueHooks nt owner type (mutate_queue nt owner type q1 w)
      in if fn = Some InProgress then
           (case take_next q1 of (fn2, q2) \<Rightarrow>
              call_next nt owner type h fn2 q2 (length q0 - 1) (mutate_queue nt owner type q2 w2))
         else call_next nt owner type h fn q1 (length q0) w2)"

section \<open>The methods of sets\<close>

text \<open>\<open>queue\<close> on one element of the set.\<close>

definition queue_one :: "('o \<Rightarrow> int option) \<Rightarrow> jstr \<Rightarrow> 'f queued \<Rightarrow> 'o \<Rightarrow> (('o, 'f) queues, unit) handler" where
  "queue_one nt type x owner w =
     (case jq_queue nt owner type (Some x) w of (q, w1) \<Rightarrow>
        let w2 = snd (queueHooks nt owner type w1) in
        if type = fx \<and> fst (take_next q) \<noteq> Some InProgress then dequeue nt owner type w2 else (Inr (), w2))"

text \<open>Its arguments: the type may be left out.\<close>

definition fn_queue_get :: "('o \<Rightarrow> int option) \<Rightarrow> 'o list \<Rightarrow> jstr option \<Rightarrow> ('o, 'f) queues \<Rightarrow> 'f item list option" where
  "fn_queue_get nt es type w = (case es of [] \<Rightarrow> None
     | e # _ \<Rightarrow> Some (fst (jq_queue nt e (case type of None \<Rightarrow> fx | Some t \<Rightarrow> t) None w)))"

definition fn_queue :: "('o \<Rightarrow> int option) \<Rightarrow> 'o list \<Rightarrow> jstr option \<Rightarrow> 'f queued option \<Rightarrow> (('o, 'f) queues, unit) handler" where
  "fn_queue nt es type x = (case x of None \<Rightarrow> ret ()
     | Some y \<Rightarrow> bnd (each (queue_one nt (case type of None \<Rightarrow> fx | Some t \<Rightarrow> t) y) es) (\<lambda>_. ret ()))"

definition fn_dequeue :: "('o \<Rightarrow> int option) \<Rightarrow> 'o list \<Rightarrow> jstr \<Rightarrow> (('o, 'f) queues, unit) handler" where
  "fn_dequeue nt es type = bnd (each (\<lambda>e. dequeue nt e type) es) (\<lambda>_. ret ())"

definition clearQueue :: "('o \<Rightarrow> int option) \<Rightarrow> 'o list \<Rightarrow> jstr \<Rightarrow> (('o, 'f) queues, unit) handler" where
  "clearQueue nt es type = fn_queue nt es (Some (or_fx type)) (Some (Many []))"

text \<open>\<open>promise\<close>, which is the number of the promise here.\<close>

definition add_notice :: "('o \<Rightarrow> int option) \<Rightarrow> jstr \<Rightarrow> nat \<Rightarrow> 'o \<Rightarrow> ('o, 'f) queues \<Rightarrow> ('o, 'f) queues" where
  "add_notice nt type p owner w = (case stored_hooks owner type w of
       None \<Rightarrow> w
     | Some h \<Rightarrow>
         let w1 = w\<lparr>waiting := (waiting w)(p := waiting w p + 1)\<rparr>;
             (go, c) = cb_add [Fn (Resolve p)] (empty h);
             w2 = mutate_hooks nt owner type (h\<lparr>empty := c\<rparr>) w1
         in if go then fold (run_notice owner) (drain (Suc (length (the_items c))) (fire_start c)) w2 else w2)"

definition fn_promise :: "('o \<Rightarrow> int option) \<Rightarrow> 'o list \<Rightarrow> jstr \<Rightarrow> ('o, 'f) queues \<Rightarrow> nat \<times> ('o, 'f) queues" where
  "fn_promise nt es type w =
     (let p = made w;
          w1 = w\<lparr>made := Suc p, waiting := (waiting w)(p := 1)\<rparr>;
          w2 = fold (add_notice nt (or_fx type) p) (rev es) w1
      in (p, count_down p w2))"

section \<open>Names and firings\<close>

definition queue_key :: "jstr \<Rightarrow> jstr" where
  "queue_key type = camelCase (queue_name type)"

lemma hump_js: "hump (js ''Hooks'') = js ''Hooks''" "hump (js ''e'') = js ''e''"
  by (simp_all add: js_def lower_letter_def)

lemma last_without_ms: "2 \<le> length s \<Longrightarrow> without_ms s \<noteq> [] \<and> last (without_ms s) = last s"
  by (cases s; cases "tl s") (auto simp: without_ms_def js_def)

lemma without_ms_append: "4 \<le> length s \<Longrightarrow> without_ms (s @ t) = without_ms s @ t"
  by (cases s) (auto simp: without_ms_def)

lemma hooks_key: "camelCase (hooks_name type) = queue_key type @ js ''Hooks''"
proof -
  let ?q = "type @ js ''queue''"
  have "hooks_name type = ?q @ js ''Hooks''" by (simp add: hooks_name_def js_def)
  then have "without_ms (hooks_name type) = without_ms ?q @ js ''Hooks''"
    using without_ms_append [of ?q "js ''Hooks''"] by simp
  moreover have "without_ms ?q \<noteq> []" "last (without_ms ?q) \<noteq> cu CHR ''-''"
    using last_without_ms [of ?q] by (simp_all add: js_def)
  ultimately show ?thesis
    by (simp add: camelCase_hump queue_key_def queue_name_def hump_snoc hump_js)
qed

lemma last_queue_key: "queue_key type \<noteq> [] \<and> last (queue_key type) = cu CHR ''e''"
proof -
  have "without_ms (type @ js ''queue'') = without_ms (type @ js ''queu'') @ js ''e''"
    using without_ms_append [of "type @ js ''queu''" "js ''e''"] by (simp add: js_def)
  moreover have "without_ms (type @ js ''queu'') \<noteq> []" "last (without_ms (type @ js ''queu'')) \<noteq> cu CHR ''-''"
    using last_without_ms [of "type @ js ''queu''"] by (simp_all add: js_def)
  ultimately have "queue_key type = hump (without_ms (type @ js ''queu'')) @ js ''e''"
    by (simp add: queue_key_def queue_name_def camelCase_hump hump_snoc hump_js)
  then show ?thesis by (simp add: js_def)
qed

lemma queue_key_not_hooks [simp]:
  "queue_key t \<noteq> queue_key t' @ js ''Hooks''" "queue_key t' @ js ''Hooks'' \<noteq> queue_key t"
proof -
  show "queue_key t \<noteq> queue_key t' @ js ''Hooks''"
    using last_queue_key [of t] by (auto simp: js_def)
  then show "queue_key t' @ js ''Hooks'' \<noteq> queue_key t" by metis
qed

text \<open>A firing calls every function of the list.\<close>

lemma drain_all:
  assumes "items c = Some xs" and "index c = int k - 1" and "queue c = []" and "k \<le> length xs"
  shows "drain (Suc (length xs - k)) (advance c) = drop k xs"
  using assms
proof (induction "length xs - k" arbitrary: k c)
  case 0
  then have "advance c = (None, finish (c\<lparr>index := -1\<rparr>))" by (intro end_advance) auto
  with 0 show ?case by simp
next
  case (Suc n)
  then have k: "k < length xs" and n: "n = length xs - Suc k" by simp_all
  have "advance c = (Some (xs ! k, memory c), c\<lparr>index := int k\<rparr>)"
    using Suc.prems(1,2) k by (rule nth_advance)
  moreover have "drain (Suc (length xs - Suc k)) (advance (c\<lparr>index := int k\<rparr>)) = drop (Suc k) xs"
    using Suc.prems k by (intro Suc.hyps(1) [OF n]) simp_all
  ultimately show ?case
    using k by (simp add: returned_def Cons_nth_drop_Suc Suc_diff_Suc flip: Suc.hyps(2))
qed

lemma drain_fire:
  assumes "items c = Some xs" and "index c = -1" and "queue c = [()]"
  shows "drain (Suc (length (the_items c))) (fire_start c) = xs"
proof -
  have "fire_start c = advance (c\<lparr>locked := locked c \<or> o_once c, fired := True, firing := True,
      memory := Some (), queue := []\<rparr>)"
    using assms by (simp add: fire_start_def)
  then show ?thesis
    using drain_all [of "c\<lparr>locked := locked c \<or> o_once c, fired := True, firing := True,
      memory := Some (), queue := []\<rparr>" xs 0] assms by (simp add: the_items_def)
qed

section \<open>The invariant\<close>

definition seen :: "'o \<Rightarrow> ('o, 'f) queues \<Rightarrow> jstr \<rightharpoonup> 'f priv option" where
  "seen owner w = data_view owner (priv w)"

lemma seen_put:
  assumes "acceptData nt owner"
  shows "seen owner (put_priv nt owner n x w) = (seen owner w)(camelCase n \<mapsto> Some x)"
  using view_run [OF assms, of "SetOne n (Some x)" "priv w"]
  by (simp add: seen_def put_priv_def data_access_def)

lemma put_other: "o' \<noteq> owner \<Longrightarrow> priv (put_priv nt owner n x w) o' = priv w o'"
  using run_other [of o' owner nt "SetOne n (Some x)" "priv w"] by (simp add: put_priv_def data_access_def)

lemma put_refused:
  "\<not> acceptData nt owner \<Longrightarrow> priv w owner = None \<Longrightarrow> put_priv nt owner n x w = w"
  by (simp add: put_priv_def data_access_def data_set_refused)

lemma put_fields [simp]:
  "log (put_priv nt owner n x w) = log w" "waiting (put_priv nt owner n x w) = waiting w"
  "made (put_priv nt owner n x w) = made w"
  by (simp_all add: put_priv_def)

lemma happens_fields [simp]:
  "priv (happens h w) = priv w" "log (happens h w) = log w @ [h]" "seen owner (happens h w) = seen owner w"
  by (simp_all add: happens_def seen_def)

lemma stored_queue_seen: "stored_queue owner type w =
  (case seen owner w (queue_key type) of Some (Some (PQueue q)) \<Rightarrow> Some q | _ \<Rightarrow> None)"
  by (auto simp: stored_queue_def get_view seen_def queue_key_def split: option.splits priv.splits)

lemma stored_hooks_seen: "stored_hooks owner type w =
  (case seen owner w (queue_key type @ js ''Hooks'') of Some (Some (PHooks h)) \<Rightarrow> Some h | _ \<Rightarrow> None)"
  by (auto simp: stored_hooks_def get_view seen_def hooks_key [symmetric] split: option.splits priv.splits)

text \<open>
  What the private data may hold: a queue has the sentinel at its head only; \<open>hooks.empty\<close> has not been fired,
  and starts with the function that cleans up this very queue.
\<close>

definition queue_ok :: "'f item list \<Rightarrow> bool" where
  "queue_ok q \<longleftrightarrow> InProgress \<notin> set (tl q)"

definition hooks_ok :: "jstr \<Rightarrow> 'f hooks \<Rightarrow> bool" where
  "hooks_ok k h \<longleftrightarrow> idle (empty h) \<and> \<not> locked (empty h) \<and> memory (empty h) = None \<and> \<not> o_unique (empty h) \<and>
     (\<exists>t ps. items (empty h) = Some (Cleanup t # map Resolve ps) \<and> queue_key t = k)"

definition entry_ok :: "jstr \<Rightarrow> 'f priv option \<Rightarrow> bool" where
  "entry_ok n x \<longleftrightarrow> (\<exists>t q. n = queue_key t \<and> x = Some (PQueue q) \<and> queue_ok q) \<or>
     (\<exists>t h. n = queue_key t @ js ''Hooks'' \<and> x = Some (PHooks h) \<and> hooks_ok (queue_key t) h)"

definition entries_ok :: "(jstr \<rightharpoonup> 'f priv option) \<Rightarrow> bool" where
  "entries_ok m \<longleftrightarrow> (\<forall>n x. m n = Some x \<longrightarrow> entry_ok n x)"

lemma entry_ok_queue [simp]: "entry_ok (queue_key t) x \<longleftrightarrow> (\<exists>q. x = Some (PQueue q) \<and> queue_ok q)"
  by (auto simp: entry_ok_def)

lemma entry_ok_hooks [simp]:
  "entry_ok (queue_key t @ js ''Hooks'') x \<longleftrightarrow> (\<exists>h. x = Some (PHooks h) \<and> hooks_ok (queue_key t) h)"
  by (auto simp: entry_ok_def)

lemma entries_ok_upd: "entries_ok m \<Longrightarrow> entry_ok n x \<Longrightarrow> entries_ok (m(n \<mapsto> x))"
  by (simp add: entries_ok_def)

lemma entries_ok_restrict: "entries_ok m \<Longrightarrow> entries_ok (m |` A)"
  by (auto simp: entries_ok_def restrict_map_def)

lemma entries_okD: "entries_ok m \<Longrightarrow> m n = Some x \<Longrightarrow> entry_ok n x"
  by (simp add: entries_ok_def)

lemma new_hooks_ok: "hooks_ok (queue_key t) (new_hooks t)"
proof -
  have "words (js ''once memory'') = [js ''once'', js ''memory'']"
    by (simp add: js_def html_white_def)
  then show ?thesis
    by (auto simp: hooks_ok_def new_hooks_def cb_add_def Callbacks_def createOptions_def push_item_def the_items_def
        idle_def intro!: exI [of _ t] exI [of _ "[]"])
qed

section \<open>What the operations do\<close>

primrec tasks :: "'f item list \<Rightarrow> 'f list" where
  "tasks [] = []"
| "tasks (x # q) = (case x of InProgress \<Rightarrow> tasks q | Task f \<Rightarrow> f # tasks q)"

lemma tasks_append [simp]: "tasks (p @ q) = tasks p @ tasks q"
  by (induction p) (auto split: item.splits)

lemma tasks_Task [simp]: "tasks (map Task fs) = fs"
  by (induction fs) simp_all

lemma plain_items: "InProgress \<notin> set q \<Longrightarrow> q = map Task (tasks q)"
  by (induction q) (auto split: item.splits)

lemma queue_ok_cases:
  assumes "queue_ok q"
  obtains "q = map Task (tasks q)" | "q = InProgress # map Task (tasks q)"
proof (cases q)
  case Nil
  then show thesis using that(1) by simp
next
  case (Cons x r)
  with assms have "InProgress \<notin> set r" by (simp add: queue_ok_def)
  then have "r = map Task (tasks r)" by (rule plain_items)
  with Cons that show thesis by (cases x) auto
qed

text \<open>The private data of the other owners.\<close>

definition rest :: "'o \<Rightarrow> ('o, 'f) queues \<Rightarrow> ('o, 'f priv) data" where
  "rest owner w = (priv w)(owner := None)"

lemma rest_put [simp]: "rest owner (put_priv nt owner n x w) = rest owner w"
  by (auto simp: rest_def fun_eq_iff put_other)

lemma rest_happens [simp]: "rest owner (happens h w) = rest owner w"
  by (simp add: rest_def)

lemma mutate_fields [simp]:
  "log (mutate_queue nt owner t q w) = log w" "rest owner (mutate_queue nt owner t q w) = rest owner w"
  "log (mutate_hooks nt owner t h w) = log w" "rest owner (mutate_hooks nt owner t h w) = rest owner w"
  by (simp_all add: mutate_queue_def mutate_hooks_def)

lemma seen_mutate_queue: "acceptData nt owner \<Longrightarrow> seen owner (mutate_queue nt owner t q w) =
  (if stored_queue owner t w = None then seen owner w else (seen owner w)(queue_key t \<mapsto> Some (PQueue q)))"
  by (simp add: mutate_queue_def seen_put queue_key_def)

lemma seen_mutate_hooks: "acceptData nt owner \<Longrightarrow> seen owner (mutate_hooks nt owner t h w) =
  (if stored_hooks owner t w = None then seen owner w
   else (seen owner w)(queue_key t @ js ''Hooks'' \<mapsto> Some (PHooks h)))"
  by (simp add: mutate_hooks_def seen_put hooks_key)

lemma queueHooks_effect:
  assumes "acceptData nt owner" and "entries_ok (seen owner w)"
  obtains h w1 where "queueHooks nt owner t w = (h, w1)" and "hooks_ok (queue_key t) h"
    and "seen owner w1 = (seen owner w)(queue_key t @ js ''Hooks'' \<mapsto> Some (PHooks h))"
    and "rest owner w1 = rest owner w" and "log w1 = log w"
proof (cases "stored_hooks owner t w")
  case None
  then show thesis
    using that [of "new_hooks t"] assms(1)
    by (simp add: queueHooks_def new_hooks_ok seen_put hooks_key)
next
  case (Some h)
  then have "seen owner w (queue_key t @ js ''Hooks'') = Some (Some (PHooks h))"
    by (auto simp: stored_hooks_seen split: option.splits priv.splits)
  with entries_okD [OF assms(2) this] Some show thesis
    using that [of h w] by (simp add: queueHooks_def fun_upd_idem)
qed

lemma resolves_effect:
  "\<exists>rs. log (fold (run_notice owner) (map Resolve ps) w) = log w @ map Resolved rs \<and>
    priv (fold (run_notice owner) (map Resolve ps) w) = priv w"
proof (induction ps arbitrary: w)
  case Nil
  show ?case by (simp add: exI [of _ "[]"])
next
  case (Cons p ps)
  let ?w = "count_down p w"
  have "priv ?w = priv w" "log ?w = log w \<or> log ?w = log w @ map Resolved [p]"
    by (auto simp: count_down_def Let_def happens_def)
  moreover obtain rs where "log (fold (run_notice owner) (map Resolve ps) ?w) = log ?w @ map Resolved rs"
    "priv (fold (run_notice owner) (map Resolve ps) ?w) = priv ?w"
    using Cons [of ?w] by blast
  moreover have "fold (run_notice owner) (map Resolve (p # ps)) w = fold (run_notice owner) (map Resolve ps) ?w"
    by (simp add: run_notice_def)
  ultimately show ?case
    by (elim disjE) (simp_all add: exI [of _ rs] exI [of _ "p # rs"])
qed

lemma fire_empty_effect:
  assumes "hooks_ok k h"
  obtains w1 rs where "fire_empty owner h w = w1" and "rest owner w1 = rest owner w"
    and "seen owner w1 = (seen owner w) |` (- {k, k @ js ''Hooks''})" and "log w1 = log w @ map Resolved rs"
proof -
  from assms obtain t ps where its: "items (empty h) = Some (Cleanup t # map Resolve ps)" and k: "queue_key t = k"
    by (auto simp: hooks_ok_def)
  let ?c = "empty h\<lparr>queue := [()]\<rparr>"
  have "cb_fireWith () (empty h) = (True, ?c)"
    using assms by (auto simp: hooks_ok_def cb_fireWith_def idle_def Let_def)
  moreover have "drain (Suc (length (the_items ?c))) (fire_start ?c) = Cleanup t # map Resolve ps"
    using assms its by (intro drain_fire) (auto simp: hooks_ok_def idle_def)
  ultimately have f: "fire_empty owner h w = fold (run_notice owner) (map Resolve ps) (run_notice owner (Cleanup t) w)"
    by (simp add: fire_empty_def)
  let ?w = "run_notice owner (Cleanup t) w"
  have "seen owner ?w = (seen owner w) |` (- {k, k @ js ''Hooks''})"
    by (simp add: run_notice_def seen_def view_erase hooks_key k [symmetric])
       (simp add: queue_key_def)
  moreover have "rest owner ?w = rest owner w"
    by (auto simp: rest_def run_notice_def data_remove_def Let_def split: option.splits)
  moreover have "log ?w = log w" by (simp add: run_notice_def)
  moreover obtain rs where "log (fire_empty owner h w) = log ?w @ map Resolved rs" "priv (fire_empty owner h w) = priv ?w"
    using resolves_effect [of owner ps ?w] f by auto
  ultimately show thesis
    by (intro that [of "fire_empty owner h w"]) (simp_all add: seen_def rest_def)
qed

definition pending :: "'o \<Rightarrow> jstr \<Rightarrow> ('o, 'f) queues \<Rightarrow> 'f list" where
  "pending owner k w = (case seen owner w k of Some (Some (PQueue q)) \<Rightarrow> tasks q | _ \<Rightarrow> [])"

lemma or_fx_idem [simp]: "or_fx (or_fx t) = or_fx t"
  by (simp add: or_fx_def fx_def)

definition the_queue :: "'o \<Rightarrow> jstr \<Rightarrow> ('o, 'f) queues \<Rightarrow> 'f item list" where
  "the_queue owner t w = (case stored_queue owner t w of None \<Rightarrow> [] | Some q \<Rightarrow> q)"

lemma pending_queue: "pending owner (queue_key t) w = tasks (the_queue owner t w)"
  by (auto simp: pending_def the_queue_def stored_queue_seen split: option.splits priv.splits)

lemma stored_queue_ok: "entries_ok (seen owner w) \<Longrightarrow> stored_queue owner t w = Some q \<Longrightarrow> queue_ok q"
  by (auto simp: stored_queue_seen split: option.splits priv.splits dest: entries_okD)

lemma the_queue_ok: "entries_ok (seen owner w) \<Longrightarrow> queue_ok (the_queue owner t w)"
  by (auto simp: the_queue_def queue_ok_def [of "[]"] intro: stored_queue_ok split: option.splits)

text \<open>The part of \<open>dequeue\<close> before the call: the array without its first function, and the hooks.\<close>

lemma dequeue_start:
  assumes acc: "acceptData nt owner" and ok: "entries_ok (seen owner w)"
    and q1: "q1 = snd (take_next (the_queue owner t w))"
  obtains h w2 where "queueHooks nt owner t (mutate_queue nt owner t q1 w) = (h, w2)" and "hooks_ok (queue_key t) h"
    and "rest owner w2 = rest owner w" and "log w2 = log w"
    and "stored_queue owner t w2 = (if stored_queue owner t w = None then None else Some q1)"
    and "\<And>x. (seen owner w2)(queue_key t \<mapsto> x) =
      (seen owner w)(queue_key t \<mapsto> x, queue_key t @ js ''Hooks'' \<mapsto> Some (PHooks h))"
    and "\<And>A. queue_key t \<in> A \<Longrightarrow> queue_key t @ js ''Hooks'' \<in> A \<Longrightarrow>
      (seen owner w2) |` (- A) = (seen owner w) |` (- A)"
    and "seen owner w2 (queue_key t @ js ''Hooks'') = Some (Some (PHooks h))"
proof -
  let ?w1 = "mutate_queue nt owner t q1 w"
  have "queue_ok q1" using the_queue_ok [OF ok, of t] q1
    by (cases "the_queue owner t w"; cases "tl (the_queue owner t w)") (auto simp: queue_ok_def take_next_def)
  then have "entries_ok (seen owner ?w1)"
    using ok by (auto simp: seen_mutate_queue [OF acc] intro: entries_ok_upd)
  from queueHooks_effect [OF acc this, of t] obtain h w2 where h:
    "queueHooks nt owner t ?w1 = (h, w2)" "hooks_ok (queue_key t) h"
    "seen owner w2 = (seen owner ?w1)(queue_key t @ js ''Hooks'' \<mapsto> Some (PHooks h))"
    "rest owner w2 = rest owner ?w1" "log w2 = log ?w1" by metis
  show thesis
  proof (rule that [OF h(1,2)])
    show "stored_queue owner t w2 = (if stored_queue owner t w = None then None else Some q1)"
      by (simp add: stored_queue_seen [of owner t w2] h(3) seen_mutate_queue [OF acc])
         (simp add: stored_queue_seen split: option.splits priv.splits)
  qed (simp_all add: h(3-5) seen_mutate_queue [OF acc] fun_eq_iff restrict_map_def)
qed

lemma call_next_task:
  assumes acc: "acceptData nt owner" and n: "0 < n" and sq: "stored_queue owner t w \<noteq> None" and h: "hooks_ok (queue_key t) h"
    and sh: "seen owner w (queue_key t @ js ''Hooks'') = Some (Some (PHooks h))"
    and m: "\<And>x. (seen owner w)(queue_key t \<mapsto> x) = (m :: jstr \<rightharpoonup> 'f priv option)(queue_key t \<mapsto> x, queue_key t @ js ''Hooks'' \<mapsto> Some (PHooks h))"
  obtains h1 w1 where "call_next nt owner t h (Some (Task f)) q n w = (Inr (), w1)" and "hooks_ok (queue_key t) h1"
    and "seen owner w1 = m(queue_key t \<mapsto> Some (PQueue (if t = fx then InProgress # q else q)),
      queue_key t @ js ''Hooks'' \<mapsto> Some (PHooks h1))"
    and "rest owner w1 = rest owner w" and "log w1 = log w @ [Called owner (queue_key t) f]"
proof -
  let ?h = "h\<lparr>stop := None\<rparr>"
  let ?q = "if t = fx then InProgress # q else q"
  let ?w1 = "mutate_queue nt owner t ?q w"
  let ?w = "happens (Called owner (queue_key t) f) (mutate_hooks nt owner t ?h ?w1)"
  have s1: "seen owner ?w1 = m(queue_key t \<mapsto> Some (PQueue ?q), queue_key t @ js ''Hooks'' \<mapsto> Some (PHooks h))"
    using sq by (auto simp: seen_mutate_queue [OF acc] m)
  then have "stored_hooks owner t ?w1 = Some h" by (simp add: stored_hooks_seen)
  then have s: "seen owner ?w = m(queue_key t \<mapsto> Some (PQueue ?q), queue_key t @ js ''Hooks'' \<mapsto> Some (PHooks ?h))"
    using s1 by (simp add: seen_mutate_hooks [OF acc])
  have c: "call_next nt owner t h (Some (Task f)) q n w = (Inr (), ?w)"
    using n by (simp add: call_next_def Let_def queue_key_def)
  have "hooks_ok (queue_key t) ?h" using h by (simp add: hooks_ok_def)
  from that [OF c this s] show thesis by simp
qed

lemma call_next_none:
  assumes acc: "acceptData nt owner" and h: "hooks_ok (queue_key t) h"
    and m: "\<And>A. queue_key t \<in> A \<Longrightarrow> queue_key t @ js ''Hooks'' \<in> A \<Longrightarrow> (seen owner w) |` (- A) = m |` (- A)"
  obtains w1 rs where "call_next nt owner t h None q 0 w = (Inr (), w1)"
    and "seen owner w1 = m |` (- {queue_key t, queue_key t @ js ''Hooks''})"
    and "rest owner w1 = rest owner w" and "log w1 = log w @ map Resolved rs"
proof -
  obtain w1 rs where "fire_empty owner h w = w1" "rest owner w1 = rest owner w"
    "seen owner w1 = (seen owner w) |` (- {queue_key t, queue_key t @ js ''Hooks''})" "log w1 = log w @ map Resolved rs"
    using fire_empty_effect [OF h] by metis
  then show thesis
    using m [of "{queue_key t, queue_key t @ js ''Hooks''}"] by (intro that [of w1 rs]) (simp_all add: call_next_def)
qed

text \<open>Writing the array once more changes nothing else.\<close>

lemma mutate_queue_keeps:
  assumes "acceptData nt owner"
  shows "(seen owner (mutate_queue nt owner t q w))(queue_key t \<mapsto> x) = (seen owner w)(queue_key t \<mapsto> x)"
    and "seen owner (mutate_queue nt owner t q w) (queue_key t @ k) =
      (if k = [] \<and> stored_queue owner t w \<noteq> None then Some (Some (PQueue q)) else seen owner w (queue_key t @ k))"
    and "queue_key t \<in> A \<Longrightarrow> (seen owner (mutate_queue nt owner t q w)) |` (- A) = (seen owner w) |` (- A)"
    and "stored_queue owner t (mutate_queue nt owner t q w) = None \<longleftrightarrow> stored_queue owner t w = None"
proof -
  show "stored_queue owner t (mutate_queue nt owner t q w) = None \<longleftrightarrow> stored_queue owner t w = None"
    by (simp add: stored_queue_seen [of owner t "mutate_queue nt owner t q w"] seen_mutate_queue [OF assms])
       (simp add: stored_queue_seen split: option.splits priv.splits)
qed (auto simp: seen_mutate_queue [OF assms] fun_eq_iff restrict_map_def)

lemma queue_lookup: "fst (jq_queue nt owner (or_fx t) None w) = the_queue owner (or_fx t) w"
  by (simp add: jq_queue_def Let_def the_queue_def)

lemma dequeue_calls:
  assumes acc: "acceptData nt owner" and ok: "entries_ok (seen owner w)"
    and t: "t = or_fx type" and p: "pending owner (queue_key t) w = f # r"
  obtains h w1 where "dequeue nt owner type w = (Inr (), w1)" and "hooks_ok (queue_key t) h"
    and "seen owner w1 = (seen owner w)(queue_key t \<mapsto> Some (PQueue (if t = fx then InProgress # map Task r else map Task r)),
      queue_key t @ js ''Hooks'' \<mapsto> Some (PHooks h))"
    and "rest owner w1 = rest owner w" and "log w1 = log w @ [Called owner (queue_key t) f]"
proof -
  let ?q = "the_queue owner t w"
  have ts: "tasks ?q = f # r" using p by (simp add: pending_queue)
  then have st: "stored_queue owner t w \<noteq> None"
    by (auto simp: the_queue_def split: option.splits)
  obtain h w2 where h: "queueHooks nt owner t (mutate_queue nt owner t (snd (take_next ?q)) w) = (h, w2)"
    "hooks_ok (queue_key t) h" "rest owner w2 = rest owner w" "log w2 = log w"
    "stored_queue owner t w2 = (if stored_queue owner t w = None then None else Some (snd (take_next ?q)))"
    "\<And>x. (seen owner w2)(queue_key t \<mapsto> x) =
      (seen owner w)(queue_key t \<mapsto> x, queue_key t @ js ''Hooks'' \<mapsto> Some (PHooks h))"
    "seen owner w2 (queue_key t @ js ''Hooks'') = Some (Some (PHooks h))"
    using dequeue_start [OF acc ok refl, of t] by metis
  have q: "fst (jq_queue nt owner t None w) = ?q" using t by (simp add: queue_lookup)
  from the_queue_ok [OF ok, of t] show thesis
  proof (cases rule: queue_ok_cases)
    case 1
    with ts have "?q = Task f # map Task r" by simp
    then have "dequeue nt owner type w = call_next nt owner t h (Some (Task f)) (map Task r) (Suc (length r)) w2"
      using h(1) by (simp add: dequeue_def Let_def q t [symmetric] take_next_def)
    moreover obtain h1 w1 where "call_next nt owner t h (Some (Task f)) (map Task r) (Suc (length r)) w2 = (Inr (), w1)"
      "hooks_ok (queue_key t) h1" "seen owner w1 = (seen owner w)(queue_key t \<mapsto> Some (PQueue (if t = fx then InProgress # map Task r else map Task r)),
        queue_key t @ js ''Hooks'' \<mapsto> Some (PHooks h1))" "rest owner w1 = rest owner w2"
      "log w1 = log w2 @ [Called owner (queue_key t) f]"
      using call_next_task [OF acc _ _ h(2,7,6), of "Suc (length r)" f "map Task r"] st h(5) by (metis option.discI zero_less_Suc)
    ultimately show thesis using h(3,4) by (intro that) simp_all
  next
    case 2
    with ts have qq: "?q = InProgress # Task f # map Task r" by simp
    let ?w = "mutate_queue nt owner t (map Task r) w2"
    have "dequeue nt owner type w = call_next nt owner t h (Some (Task f)) (map Task r) (Suc (length r)) ?w"
      using h(1) qq by (simp add: dequeue_def Let_def q t [symmetric] take_next_def)
    moreover obtain h1 w1 where "call_next nt owner t h (Some (Task f)) (map Task r) (Suc (length r)) ?w = (Inr (), w1)"
      "hooks_ok (queue_key t) h1" "seen owner w1 = (seen owner w)(queue_key t \<mapsto> Some (PQueue (if t = fx then InProgress # map Task r else map Task r)),
        queue_key t @ js ''Hooks'' \<mapsto> Some (PHooks h1))" "rest owner w1 = rest owner ?w"
      "log w1 = log ?w @ [Called owner (queue_key t) f]"
    proof (rule call_next_task [OF acc _ _ h(2), of "Suc (length r)" ?w "seen owner w" f "map Task r"])
      show "stored_queue owner t ?w \<noteq> None" using st h(5) by (simp add: mutate_queue_keeps [OF acc])
      show "seen owner ?w (queue_key t @ js ''Hooks'') = Some (Some (PHooks h))"
        using h(7) by (simp add: mutate_queue_keeps [OF acc])
      show "(seen owner ?w)(queue_key t \<mapsto> x) =
          (seen owner w)(queue_key t \<mapsto> x, queue_key t @ js ''Hooks'' \<mapsto> Some (PHooks h))" for x
        using h(6) by (simp add: mutate_queue_keeps [OF acc])
    qed (auto intro: that)
    ultimately show thesis using h(3,4) by (intro that) simp_all
  qed
qed

lemma dequeue_ends:
  assumes acc: "acceptData nt owner" and ok: "entries_ok (seen owner w)"
    and t: "t = or_fx type" and p: "pending owner (queue_key t) w = []"
  obtains w1 rs where "dequeue nt owner type w = (Inr (), w1)"
    and "seen owner w1 = (seen owner w) |` (- {queue_key t, queue_key t @ js ''Hooks''})"
    and "rest owner w1 = rest owner w" and "log w1 = log w @ map Resolved rs"
proof -
  let ?q = "the_queue owner t w"
  have ts: "tasks ?q = []" using p by (simp add: pending_queue)
  obtain h w2 where h: "queueHooks nt owner t (mutate_queue nt owner t (snd (take_next ?q)) w) = (h, w2)"
    "hooks_ok (queue_key t) h" "rest owner w2 = rest owner w" "log w2 = log w"
    "\<And>A. queue_key t \<in> A \<Longrightarrow> queue_key t @ js ''Hooks'' \<in> A \<Longrightarrow>
      (seen owner w2) |` (- A) = (seen owner w) |` (- A)"
    using dequeue_start [OF acc ok refl, of t] by metis
  have q: "fst (jq_queue nt owner t None w) = ?q" using t by (simp add: queue_lookup)
  from the_queue_ok [OF ok, of t] show thesis
  proof (cases rule: queue_ok_cases)
    case 1
    with ts have "?q = []" by simp
    then have "dequeue nt owner type w = call_next nt owner t h None [] 0 w2"
      using h(1) by (simp add: dequeue_def Let_def q t [symmetric] take_next_def)
    with call_next_none [OF acc h(2,5)] h(3,4) that show thesis by metis
  next
    case 2
    with ts have qq: "?q = [InProgress]" by simp
    let ?w = "mutate_queue nt owner t [] w2"
    have "dequeue nt owner type w = call_next nt owner t h None [] 0 ?w"
      using h(1) qq by (simp add: dequeue_def Let_def q t [symmetric] take_next_def)
    moreover have "(seen owner ?w) |` (- A) = (seen owner w) |` (- A)"
      if "queue_key t \<in> A" "queue_key t @ js ''Hooks'' \<in> A" for A
      using h(5) that by (simp add: mutate_queue_keeps [OF acc])
    ultimately show thesis
      using call_next_none [OF acc h(2), of ?w "seen owner w"] h(3,4) that by (metis mutate_fields(1,2))
  qed
qed

section \<open>Queues are first in, first out\<close>

text \<open>What the log says is waiting in the queue with a key: None when a function was called out of turn.\<close>

fun expect :: "'o \<Rightarrow> jstr \<Rightarrow> ('o, 'f) happening \<Rightarrow> 'f list option \<Rightarrow> 'f list option" where
  "expect owner k (Queued o' k' f) fs = (if o' = owner \<and> k' = k then map_option (\<lambda>q. q @ [f]) fs else fs)"
| "expect owner k (Replaced o' k' its) fs = (if o' = owner \<and> k' = k then map_option (\<lambda>_. tasks its) fs else fs)"
| "expect owner k (Called o' k' f) fs = (if o' = owner \<and> k' = k
     then (case fs of Some (g # q) \<Rightarrow> if g = f then Some q else None | _ \<Rightarrow> None) else fs)"
| "expect owner k (Resolved p) fs = fs"

definition replay :: "'o \<Rightarrow> jstr \<Rightarrow> ('o, 'f) happening list \<Rightarrow> 'f list option" where
  "replay owner k hs = fold (expect owner k) hs (Some [])"

lemma replay_append [simp]: "replay owner k (hs @ gs) = fold (expect owner k) gs (replay owner k hs)"
  by (simp add: replay_def)

primrec about :: "'o \<Rightarrow> ('o, 'f) happening \<Rightarrow> bool" where
  "about owner (Queued o' k f) = (o' = owner)"
| "about owner (Replaced o' k q) = (o' = owner)"
| "about owner (Called o' k f) = (o' = owner)"
| "about owner (Resolved p) = False"

lemma expect_other: "\<not> about owner h \<Longrightarrow> expect owner k h fs = fs"
  by (cases h) auto

lemma expect_others: "\<forall>h \<in> set hs. \<not> about owner h \<Longrightarrow> fold (expect owner k) hs fs = fs"
  by (induction hs arbitrary: fs) (auto simp: expect_other)

lemma expect_resolved [simp]: "fold (expect owner k) (map Resolved rs) fs = fs"
  by (rule expect_others) auto

text \<open>A step on one element leaves the others alone.\<close>

definition affects :: "'o \<Rightarrow> ('o, 'f) queues \<Rightarrow> ('o, 'f) queues \<Rightarrow> bool" where
  "affects owner w w1 \<longleftrightarrow> rest owner w1 = rest owner w \<and>
     (\<exists>hs. log w1 = log w @ hs \<and> (\<forall>o' h. h \<in> set hs \<longrightarrow> about o' h \<longrightarrow> o' = owner))"

lemma affects_refl: "affects owner w w"
  by (simp add: affects_def)

lemma affects_trans: "affects owner w w1 \<Longrightarrow> affects owner w1 w2 \<Longrightarrow> affects owner w w2"
  unfolding affects_def by (elim conjE exE) (auto 0 4)

lemma affects_silent: "rest owner w1 = rest owner w \<Longrightarrow> log w1 = log w \<Longrightarrow> affects owner w w1"
  by (simp add: affects_def)

lemma affects_happens: "(\<And>o'. about o' h \<Longrightarrow> o' = owner) \<Longrightarrow> affects owner w (happens h w)"
  by (simp add: affects_def)

lemma affects_notice: "affects owner w (run_notice owner n w)"
  by (cases n)
     (auto simp: run_notice_def count_down_def Let_def affects_def rest_def happens_def data_remove_def split: option.splits)

lemma affects_notices: "affects owner w (fold (run_notice owner) ns w)"
  by (induction ns arbitrary: w) (auto intro: affects_refl affects_trans affects_notice)

lemma affects_fire_empty: "affects owner w (fire_empty owner h w)"
  by (simp add: fire_empty_def affects_refl affects_notices split: prod.splits)

lemma affects_queueHooks: "affects owner w (snd (queueHooks nt owner t w))"
  by (auto simp: queueHooks_def intro: affects_silent split: option.splits)

lemma affects_call_next: "affects owner w (snd (call_next nt owner t h fn q n w))"
proof -
  have "affects owner w (happens (Called owner k f) (mutate_hooks nt owner t h1 (mutate_queue nt owner t q1 w)))" for k f h1 q1
    by (intro affects_trans [OF affects_silent affects_happens]) auto
  then show ?thesis
    by (auto simp: call_next_def Let_def intro: affects_silent affects_refl affects_fire_empty
        affects_trans [OF _ affects_fire_empty] split: option.splits item.splits)
qed

lemma affects_dequeue: "affects owner w (snd (dequeue nt owner type w))"
proof -
  let ?t = "or_fx type"
  let ?q = "fst (jq_queue nt owner ?t None w)"
  let ?w = "mutate_queue nt owner ?t (snd (take_next ?q)) w"
  obtain h w2 where h: "queueHooks nt owner ?t ?w = (h, w2)" by (cases "queueHooks nt owner ?t ?w")
  have "affects owner w ?w" by (rule affects_silent) simp_all
  also note affects_queueHooks [of owner ?w nt ?t]
  finally (affects_trans) have w2: "affects owner w w2" by (simp add: h)
  have "affects owner w (mutate_queue nt owner ?t q w2)" for q
    by (rule affects_trans [OF w2 affects_silent]) simp_all
  with w2 show ?thesis
    by (auto simp: dequeue_def Let_def case_prod_beta h intro: affects_trans [OF _ affects_call_next])
qed

lemma affects_jq_queue: "affects owner w (snd (jq_queue nt owner t x w))"
proof -
  have a: "affects owner w (happens (queued_as owner t' y) w)" for t' y
    by (rule affects_happens) (auto simp: queued_as_def split: queued.splits)
  have "affects owner w (put_priv nt owner n z (happens (queued_as owner t' y) w))"
    "affects owner w (mutate_queue nt owner t' q (happens (queued_as owner t' y) w))" for n z t' y q
    by (rule affects_trans [OF a affects_silent]; simp)+
  then show ?thesis
    by (auto simp: jq_queue_def Let_def affects_refl split: option.splits queued.splits)
qed

lemma affects_queue_one: "affects owner w (snd (queue_one nt t x owner w))"
proof -
  obtain q w1 where q: "jq_queue nt owner t (Some x) w = (q, w1)" by (cases "jq_queue nt owner t (Some x) w")
  have "affects owner w w1" using affects_jq_queue [of owner w nt t "Some x"] q by simp
  then have "affects owner w (snd (queueHooks nt owner t w1))" by (rule affects_trans) (rule affects_queueHooks)
  then show ?thesis by (auto simp: queue_one_def q Let_def intro: affects_trans [OF _ affects_dequeue])
qed

lemma affects_add_notice: "affects owner w (add_notice nt t p owner w)"
proof (cases "stored_hooks owner t w")
  case None
  then show ?thesis by (simp add: add_notice_def affects_refl)
next
  case (Some h)
  have "affects owner w (mutate_hooks nt owner t h1 (w\<lparr>waiting := x\<rparr>))" for h1 x
    by (rule affects_silent) (simp_all add: rest_def [of _ w] rest_def [of _ "w\<lparr>waiting := x\<rparr>"])
  then show ?thesis
    by (auto simp: add_notice_def Some Let_def intro: affects_trans [OF _ affects_notices] split: prod.splits)
qed

text \<open>The invariant of one element: the shape of its private data, the order of its queues, and a busy fx queue.\<close>

definition busy :: "(jstr \<rightharpoonup> 'f priv option) \<Rightarrow> bool" where
  "busy m \<longleftrightarrow> (\<forall>q. m (queue_key fx) = Some (Some (PQueue q)) \<longrightarrow> q = [] \<or> hd q = InProgress)"

definition ordered :: "'o \<Rightarrow> ('o, 'f) queues \<Rightarrow> bool" where
  "ordered owner w \<longleftrightarrow> entries_ok (seen owner w) \<and> (\<forall>k. replay owner k (log w) = Some (pending owner k w))"

lemma rest_seen: "rest owner w1 = rest owner w \<Longrightarrow> o' \<noteq> owner \<Longrightarrow> seen o' w1 = seen o' w"
  by (metis (no_types) data_view_def fun_upd_other rest_def seen_def)

lemma ordered_other:
  assumes "affects owner w w1" and "o' \<noteq> owner" and "ordered o' w"
  shows "ordered o' w1 \<and> seen o' w1 = seen o' w"
proof -
  from assms(1) obtain hs where hs: "log w1 = log w @ hs" "\<forall>h \<in> set hs. about o' h \<longrightarrow> o' = owner"
    and r: "rest owner w1 = rest owner w" by (auto simp: affects_def)
  have s: "seen o' w1 = seen o' w" using r assms(2) by (rule rest_seen)
  moreover have "fold (expect o' k) hs fs = fs" for k fs
    using hs(2) assms(2) by (intro expect_others) auto
  ultimately show ?thesis using assms(3) hs(1) by (simp add: ordered_def pending_def)
qed

lemma orderedI:
  assumes "ordered owner w" and "log w1 = log w @ hs" and "entries_ok (seen owner w1)"
    and "\<And>k. fold (expect owner k) hs (Some (pending owner k w)) = Some (pending owner k w1)"
  shows "ordered owner w1"
  using assms by (simp add: ordered_def)

lemma expect_called: "expect owner k (Called owner k' f) fs = (if k' = k
     then (case fs of Some (g # q) \<Rightarrow> if g = f then Some q else None | _ \<Rightarrow> None) else fs)"
  by simp

lemma dequeue_ordered:
  assumes acc: "acceptData nt owner" and o: "ordered owner w" and b: "or_fx type = fx \<or> busy (seen owner w)"
    and fx: "queue_key (or_fx type) = queue_key fx \<Longrightarrow> or_fx type = fx"
  shows "fst (dequeue nt owner type w) = Inr () \<and> ordered owner (snd (dequeue nt owner type w)) \<and>
    busy (seen owner (snd (dequeue nt owner type w)))"
proof -
  let ?t = "or_fx type"
  have ok: "entries_ok (seen owner w)" using o by (simp add: ordered_def)
  show ?thesis
  proof (cases "pending owner (queue_key ?t) w")
    case Nil
    then obtain w1 rs where w: "dequeue nt owner type w = (Inr (), w1)" "log w1 = log w @ map Resolved rs"
      "seen owner w1 = (seen owner w) |` (- {queue_key ?t, queue_key ?t @ js ''Hooks''})"
      using dequeue_ends [OF acc ok refl] by metis
    have "pending owner k w1 = pending owner k w" for k
    proof (cases "k = queue_key ?t \<or> k = queue_key ?t @ js ''Hooks''")
      case True
      have "seen owner w (queue_key ?t @ js ''Hooks'') = Some x \<Longrightarrow> \<exists>h. x = Some (PHooks h)" for x
        using entries_okD [OF ok, of "queue_key ?t @ js ''Hooks''"] by auto
      with True Nil show ?thesis
        by (auto simp: pending_def [of owner _ w1] w(3)) (auto simp: pending_def split: option.splits)
    next
      case False
      then show ?thesis by (simp add: pending_def w(3))
    qed
    then have "ordered owner w1"
      using o w(2) by (intro orderedI [OF o w(2)]) (simp_all add: w(3) ok entries_ok_restrict)
    moreover have "busy (seen owner w1)"
      using b fx by (auto simp: busy_def w(3) restrict_map_def)
    ultimately show ?thesis by (simp add: w(1))
  next
    case (Cons f r)
    let ?q = "if ?t = fx then InProgress # map Task r else map Task r"
    obtain h w1 where w: "dequeue nt owner type w = (Inr (), w1)" "hooks_ok (queue_key ?t) h"
      "seen owner w1 = (seen owner w)(queue_key ?t \<mapsto> Some (PQueue ?q), queue_key ?t @ js ''Hooks'' \<mapsto> Some (PHooks h))"
      "log w1 = log w @ [Called owner (queue_key ?t) f]"
      using dequeue_calls [OF acc ok refl Cons] by metis
    have "queue_ok ?q" by (cases r) (auto simp: queue_ok_def)
    then have "entries_ok (seen owner w1)"
      using w(2) ok by (simp add: w(3) entries_ok_upd)
    moreover have "expect owner k (Called owner (queue_key ?t) f) (Some (pending owner k w)) = Some (pending owner k w1)" for k
    proof -
      have "seen owner w (queue_key ?t @ js ''Hooks'') = Some x \<Longrightarrow> \<exists>h. x = Some (PHooks h)" for x
        using entries_okD [OF ok, of "queue_key ?t @ js ''Hooks''"] by auto
      then show ?thesis
        using Cons by (auto simp: pending_def [of owner _ w1] w(3)) (auto simp: pending_def split: option.splits)
    qed
    ultimately have "ordered owner w1"
      by (intro orderedI [OF o w(4)]) simp_all
    moreover have "busy (seen owner w1)"
      using b fx by (auto simp: busy_def w(3))
    ultimately show ?thesis by (simp add: w(1))
  qed
qed

lemma hump_plain: "\<forall>c \<in> set (hump s). \<not> (65 \<le> c \<and> c \<le> 90) \<Longrightarrow> hump s = s"
proof (induction s rule: hump.induct)
  case (1 a b s)
  have "lower_letter b \<Longrightarrow> 65 \<le> b - 32 \<and> b - 32 \<le> 90"
    by (auto simp: lower_letter_def word_le_nat_alt unat_sub)
  with 1 show ?case using upper_letter [of b] by (auto split: if_splits)
qed simp_all

lemma fx_key: "queue_key t = queue_key fx \<Longrightarrow> t = fx"
proof -
  assume e: "queue_key t = queue_key fx"
  let ?s = "without_ms (t @ js ''queue'')"
  have k: "queue_key fx = js ''fxqueue''"
    by (simp add: queue_key_def queue_name_def fx_def camelCase_hump without_ms_def js_def lower_letter_def)
  with e have "hump ?s = js ''fxqueue''" by (simp add: queue_key_def queue_name_def camelCase_hump)
  moreover from this have "hump ?s = ?s" by (intro hump_plain) (simp add: js_def)
  ultimately have s: "?s = js ''fxqueue''" by simp
  have "t @ js ''queue'' = js ''fx'' @ js ''queue''"
  proof (cases "take 4 (t @ js ''queue'') = js ''-ms-''")
    case True
    then have "t @ js ''queue'' = js ''-ms-'' @ drop 4 (t @ js ''queue'')" by (metis append_take_drop_id)
    then have "drop 1 (t @ js ''queue'') = drop 1 (js ''-ms-'' @ drop 4 (t @ js ''queue''))" by simp
    with True s show ?thesis by (simp add: without_ms_def js_def)
  next
    case False
    with s show ?thesis by (simp add: without_ms_def js_def)
  qed
  then show "t = fx" by (simp add: fx_def)
qed

definition plain :: "'f queued \<Rightarrow> bool" where
  "plain x \<longleftrightarrow> (case x of One f \<Rightarrow> True | Many q \<Rightarrow> InProgress \<notin> set q)"

lemma upd_queue_ordered:
  assumes "acceptData nt owner" and o: "ordered owner w" and "queue_ok q"
    and "expect owner (queue_key t) h (Some (pending owner (queue_key t) w)) = Some (tasks q)"
    and "\<And>k. k \<noteq> queue_key t \<Longrightarrow> expect owner k h (Some (pending owner k w)) = Some (pending owner k w)"
    and l: "log w1 = log w @ [h]" and s: "seen owner w1 = (seen owner w)(queue_key t \<mapsto> Some (PQueue q))"
  shows "ordered owner w1"
proof (rule orderedI [OF o l])
  show "entries_ok (seen owner w1)" using o assms(3) by (simp add: s ordered_def entries_ok_upd)
  show "fold (expect owner k) [h] (Some (pending owner k w)) = Some (pending owner k w1)" for k
  proof -
    have "pending owner k w1 = (if k = queue_key t then tasks q else pending owner k w)"
      by (simp add: pending_def s)
    then show ?thesis using assms(4,5) by simp
  qed
qed

lemma in_tl: "x \<in> set (tl q) \<Longrightarrow> x \<in> set q"
  by (cases q) auto

lemma jq_queue_effect:
  assumes acc: "acceptData nt owner" and o: "ordered owner w" and p: "plain x"
  obtains q w1 where "jq_queue nt owner t (Some x) w = (q, w1)" and "ordered owner w1"
    and "seen owner w1 = (seen owner w)(queue_key (or_fx t) \<mapsto> Some (PQueue q))"
proof -
  let ?t = "or_fx t"
  let ?h = "queued_as owner ?t x"
  have ok: "entries_ok (seen owner w)" using o by (simp add: ordered_def)
  show thesis
  proof (cases "stored_queue owner ?t w")
    case None
    let ?w1 = "put_priv nt owner (queue_name ?t) (PQueue (queued_items x)) (happens ?h w)"
    have j: "jq_queue nt owner t (Some x) w = (queued_items x, ?w1)"
      using None by (simp add: jq_queue_def Let_def)
    have pe: "pending owner (queue_key ?t) w = []" using None by (simp add: pending_queue the_queue_def)
    have s: "seen owner ?w1 = (seen owner w)(queue_key ?t \<mapsto> Some (PQueue (queued_items x)))"
      by (simp add: seen_put [OF acc] queue_key_def)
    have "ordered owner ?w1"
    proof (rule upd_queue_ordered [OF acc o _ _ _ _ s])
      show "queue_ok (queued_items x)"
        using p by (auto simp: queue_ok_def queued_items_def plain_def split: queued.splits dest: in_tl)
    qed (use pe in \<open>auto simp: queued_as_def queue_key_def [symmetric] queued_items_def split: queued.splits\<close>)
    from that [OF j this s] show thesis .
  next
    case (Some q0)
    then have pe: "pending owner (queue_key ?t) w = tasks q0" and q0: "queue_ok q0"
      using stored_queue_ok [OF ok] by (simp_all add: pending_queue the_queue_def)
    show thesis
    proof (cases x)
      case (One f)
      let ?w1 = "mutate_queue nt owner ?t (q0 @ [Task f]) (happens ?h w)"
      have sq: "stored_queue owner ?t (happens ?h w) = Some q0" using Some by (simp add: stored_queue_seen)
      have j: "jq_queue nt owner t (Some x) w = (q0 @ [Task f], ?w1)"
        using Some One by (simp add: jq_queue_def Let_def)
      have s: "seen owner ?w1 = (seen owner w)(queue_key ?t \<mapsto> Some (PQueue (q0 @ [Task f])))"
        using sq by (simp add: seen_mutate_queue [OF acc])
      have "ordered owner ?w1"
        using q0 pe One by (intro upd_queue_ordered [OF acc o _ _ _ _ s])
          (auto simp: queue_ok_def queued_as_def queue_key_def [symmetric] tl_append split: list.splits)
      from that [OF j this s] show thesis .
    next
      case (Many q)
      let ?w1 = "put_priv nt owner (queue_name ?t) (PQueue q) (happens ?h w)"
      have j: "jq_queue nt owner t (Some x) w = (q, ?w1)"
        using Some Many by (simp add: jq_queue_def Let_def queued_items_def)
      have s: "seen owner ?w1 = (seen owner w)(queue_key ?t \<mapsto> Some (PQueue q))"
        by (simp add: seen_put [OF acc] queue_key_def)
      have "ordered owner ?w1"
        using p Many by (intro upd_queue_ordered [OF acc o _ _ _ _ s])
          (auto simp: queue_ok_def queued_as_def queue_key_def [symmetric] plain_def dest: in_tl)
      from that [OF j this s] show thesis .
    qed
  qed
qed

lemma upd_hooks_ordered:
  assumes o: "ordered owner w" and h: "hooks_ok (queue_key t) h" and l: "log w1 = log w"
    and s: "seen owner w1 = (seen owner w)(queue_key t @ js ''Hooks'' \<mapsto> Some (PHooks h))"
  shows "ordered owner w1 \<and> (busy (seen owner w) \<longrightarrow> busy (seen owner w1))"
proof -
  have ok: "entries_ok (seen owner w)" using o by (simp add: ordered_def)
  then have "seen owner w (queue_key t @ js ''Hooks'') = Some x \<Longrightarrow> \<exists>h. x = Some (PHooks h)" for x
    using entries_okD [OF ok, of "queue_key t @ js ''Hooks''"] by auto
  then have "pending owner k w1 = pending owner k w" for k
    by (auto simp: pending_def [of owner k w1] s) (auto simp: pending_def split: option.splits)
  then show ?thesis
    using o l h ok by (simp add: ordered_def s entries_ok_upd busy_def)
qed

lemma queue_one_ordered:
  assumes acc: "acceptData nt owner" and o: "ordered owner w" and b: "busy (seen owner w)" and p: "plain x" and t: "t \<noteq> []"
  shows "fst (queue_one nt t x owner w) = Inr () \<and> ordered owner (snd (queue_one nt t x owner w)) \<and>
    busy (seen owner (snd (queue_one nt t x owner w)))"
proof -
  have ot: "or_fx t = t" using t by (simp add: or_fx_def)
  obtain q w1 where w1: "jq_queue nt owner t (Some x) w = (q, w1)" "ordered owner w1"
    "seen owner w1 = (seen owner w)(queue_key t \<mapsto> Some (PQueue q))"
    using jq_queue_effect [OF acc o p, of t] ot by metis
  then have "entries_ok (seen owner w1)" by (simp add: ordered_def)
  from queueHooks_effect [OF acc this, of t] obtain h w2 where w2: "queueHooks nt owner t w1 = (h, w2)"
    "hooks_ok (queue_key t) h" "seen owner w2 = (seen owner w1)(queue_key t @ js ''Hooks'' \<mapsto> Some (PHooks h))"
    "log w2 = log w1" by metis
  have o2: "ordered owner w2" "busy (seen owner w1) \<Longrightarrow> busy (seen owner w2)"
    using upd_hooks_ordered [OF w1(2) w2(2,4,3)] by simp_all
  have one: "queue_one nt t x owner w =
      (if t = fx \<and> fst (take_next q) \<noteq> Some InProgress then dequeue nt owner t w2 else (Inr (), w2))"
    by (simp add: queue_one_def w1(1) w2(1))
  show ?thesis
  proof (cases "t = fx \<and> fst (take_next q) \<noteq> Some InProgress")
    case True
    then have "or_fx t = fx" using ot by simp
    with True show ?thesis using dequeue_ordered [OF acc o2(1), of t] unfolding one by simp
  next
    case False
    then have "queue_one nt t x owner w = (Inr (), w2)" unfolding one by auto
    moreover have "busy (seen owner w1)"
      using b False fx_key [of t] by (cases q) (auto simp: busy_def w1(3) take_next_def)
    ultimately show ?thesis using o2 by simp
  qed
qed

section \<open>Histories of queues\<close>

text \<open>
  The operations of a page: the methods on sets, with functions only in a queue that is given as a whole and no
  empty text as a type (\<open>queue\<close> would add to the fx queue for it without starting it), promises, and a function that
  sets \<open>hooks.stop\<close>.
\<close>

inductive queue_event :: "('o \<Rightarrow> int option) \<Rightarrow> ('o, 'f) queues \<Rightarrow> ('o, 'f) queues \<Rightarrow> bool"
  for nt :: "'o \<Rightarrow> int option" where
  adds: "plain x \<Longrightarrow> type \<noteq> Some [] \<Longrightarrow> queue_event nt w (snd (fn_queue nt es type (Some x) w))"
| takes: "queue_event nt w (snd (fn_dequeue nt es type w))"
| promises: "queue_event nt w (snd (fn_promise nt es type w))"
| stops: "stored_hooks owner t w = Some h \<Longrightarrow> queue_event nt w (mutate_hooks nt owner t (h\<lparr>stop := f\<rparr>) w)"

definition no_queues :: "('o, 'f) queues" where
  "no_queues = \<lparr>priv = \<lambda>_. None, waiting = \<lambda>_. 0, made = 0, log = []\<rparr>"

definition queues_inv :: "('o \<Rightarrow> int option) \<Rightarrow> ('o, 'f) queues \<Rightarrow> bool" where
  "queues_inv nt w \<longleftrightarrow> (\<forall>owner. acceptData nt owner \<longrightarrow> ordered owner w \<and> busy (seen owner w))"

lemma queues_invI:
  assumes "queues_inv nt w" and "affects owner w w1"
    and "acceptData nt owner \<Longrightarrow> ordered owner w1 \<and> busy (seen owner w1)"
  shows "queues_inv nt w1"
  unfolding queues_inv_def
proof (intro allI impI)
  fix o' assume "acceptData nt o'"
  with assms ordered_other [OF assms(2), of o'] show "ordered o' w1 \<and> busy (seen o' w1)"
    by (cases "o' = owner") (auto simp: queues_inv_def)
qed

lemma queues_invD: "queues_inv nt w \<Longrightarrow> acceptData nt owner \<Longrightarrow> ordered owner w \<and> busy (seen owner w)"
  by (simp add: queues_inv_def)

lemma keeps_dequeue [keeps_intros]: "keeps (queues_inv nt) (dequeue nt owner type :: (('a, 'b) queues, unit) handler)"
  unfolding keeps_def
proof (intro allI impI)
  fix w :: "('a, 'b) queues" assume i: "queues_inv nt w"
  show "queues_inv nt (snd (dequeue nt owner type w))"
    using queues_invD [OF i] dequeue_ordered [of nt owner w type] fx_key [of "or_fx type"]
    by (intro queues_invI [OF i affects_dequeue]) simp
qed

lemma keeps_queue_one [keeps_intros]:
  "plain x \<Longrightarrow> t \<noteq> [] \<Longrightarrow> keeps (queues_inv nt) (queue_one nt t x owner :: (('a, 'b) queues, unit) handler)"
  unfolding keeps_def
proof (intro allI impI)
  fix w :: "('a, 'b) queues" assume i: "queues_inv nt w" and x: "plain x" "t \<noteq> []"
  show "queues_inv nt (snd (queue_one nt t x owner w))"
    using queues_invD [OF i] queue_one_ordered [of nt owner w x t] x
    by (intro queues_invI [OF i affects_queue_one]) simp
qed

lemma keeps_methods:
  "plain x \<Longrightarrow> type \<noteq> Some [] \<Longrightarrow> keeps (queues_inv nt) (fn_queue nt es type (Some x))"
  "keeps (queues_inv nt) (fn_dequeue nt es t)"
  by (auto simp: fn_queue_def fn_dequeue_def fx_def split: option.splits intro!: keeps_intros)

lemma stored_hooks_ok: "entries_ok (seen owner w) \<Longrightarrow> stored_hooks owner t w = Some h \<Longrightarrow> hooks_ok (queue_key t) h"
  by (auto simp: stored_hooks_seen split: option.splits priv.splits dest: entries_okD)

lemma count_down_inv: "queues_inv nt w \<Longrightarrow> queues_inv nt (count_down p w)"
  by (auto simp: queues_inv_def ordered_def count_down_def Let_def happens_def seen_def pending_def)

lemma mutate_hooks_inv:
  assumes i: "queues_inv nt w" and s: "stored_hooks owner t w \<noteq> None"
    and h: "acceptData nt owner \<Longrightarrow> hooks_ok (queue_key t) h"
  shows "queues_inv nt (mutate_hooks nt owner t h w)"
proof (rule queues_invI [OF i affects_silent [of owner _ w]])
  assume acc: "acceptData nt owner"
  from upd_hooks_ordered [OF _ h [OF acc], of owner w "mutate_hooks nt owner t h w"] queues_invD [OF i acc] s
  show "ordered owner (mutate_hooks nt owner t h w) \<and> busy (seen owner (mutate_hooks nt owner t h w))"
    by (simp add: seen_mutate_hooks [OF acc])
qed simp_all

lemma add_notice_inv: "queues_inv nt w \<Longrightarrow> queues_inv nt (add_notice nt t p owner w)"
proof -
  assume i: "queues_inv nt w"
  show ?thesis
  proof (cases "stored_hooks owner t w")
    case None
    with i show ?thesis by (simp add: add_notice_def)
  next
    case (Some h)
    obtain go c where c: "cb_add [Fn (Resolve p)] (empty h) = (go, c)" by (cases "cb_add [Fn (Resolve p)] (empty h)")
    let ?w = "w\<lparr>waiting := (waiting w)(p := waiting w p + 1)\<rparr>"
    have iw: "queues_inv nt ?w" and sw: "stored_hooks owner t ?w = Some h"
      using i Some by (simp_all add: queues_inv_def ordered_def seen_def pending_def stored_hooks_def)
    show ?thesis
    proof (cases "acceptData nt owner")
      case True
      with queues_invD [OF i] Some have "hooks_ok (queue_key t) h" by (auto simp: ordered_def intro: stored_hooks_ok)
      then obtain t' ps where h: "items (empty h) = Some (Cleanup t' # map Resolve ps)" "queue_key t' = queue_key t"
        "idle (empty h)" "\<not> locked (empty h)" "memory (empty h) = None" "\<not> o_unique (empty h)"
        by (auto simp: hooks_ok_def)
      then have "go = False" "c = empty h\<lparr>items := Some (Cleanup t' # map Resolve (ps @ [p]))\<rparr>"
        using c by (simp_all add: cb_add_def idle_def push_item_def the_items_def)
      with h have "go = False \<and> hooks_ok (queue_key t) (h\<lparr>empty := c\<rparr>)"
        unfolding hooks_ok_def by (auto simp: idle_def simp del: map_append)
      with mutate_hooks_inv [OF iw, of owner t "h\<lparr>empty := c\<rparr>"] sw c Some show ?thesis
        by (simp add: add_notice_def Let_def)
    next
      case False
      with queues_invI [OF i affects_add_notice] show ?thesis by blast
    qed
  qed
qed

lemma fn_promise_inv:
  fixes w :: "('a, 'b) queues"
  shows "queues_inv nt w \<Longrightarrow> queues_inv nt (snd (fn_promise nt es t w))"
proof -
  assume i: "queues_inv nt w"
  then have "queues_inv nt (w\<lparr>made := m, waiting := x\<rparr>)" for m x
    by (simp add: queues_inv_def ordered_def seen_def pending_def)
  moreover have "queues_inv nt w \<Longrightarrow> queues_inv nt (fold (add_notice nt t p) es w)" for t p es and w :: "('a, 'b) queues"
    by (induction es arbitrary: w) (simp_all add: add_notice_inv)
  ultimately show ?thesis by (simp add: fn_promise_def Let_def count_down_inv)
qed

interpretation element_queues: machine "\<lambda>w. w = no_queues" "queue_event nt" "queues_inv nt"
proof
  fix s :: "('a, 'b) queues" assume "s = no_queues"
  then show "queues_inv nt s"
    by (simp add: queues_inv_def ordered_def no_queues_def seen_def data_view_def entries_ok_def pending_def replay_def
        busy_def)
next
  fix s t :: "('a, 'b) queues" assume i: "queues_inv nt s" and "queue_event nt s t"
  from this(2) show "queues_inv nt t"
  proof cases
    case (stops owner t h f)
    then show ?thesis
      using queues_invD [OF i] stored_hooks_ok [of owner s t h]
      by (auto simp: ordered_def hooks_ok_def intro!: mutate_hooks_inv [OF i])
  qed (use i keepsD [OF keeps_methods(1)] keepsD [OF keeps_methods(2)] fn_promise_inv in auto)
qed


text \<open>
  An fx queue never waits without a running function: in every history, when the fx queue of an element
  holds anything, the sentinel of a function in progress is at its head.
\<close>

theorem fx_queue_busy:
  assumes "reachable (\<lambda>w. w = no_queues) (queue_event nt) w" and "acceptData nt owner"
    and "stored_queue owner fx w = Some q" and "q \<noteq> []"
  shows "hd q = InProgress"
proof -
  have "queues_inv nt w" using assms(1) by (rule element_queues.always)
  then have "busy (seen owner w)" using assms(2) by (simp add: queues_inv_def)
  then show ?thesis
    using assms(3,4) by (auto simp: busy_def stored_queue_seen split: option.splits priv.splits)
qed

text \<open>Two functions are queued on one element: the first is called at once, the second waits.\<close>

definition two_queued :: "(nat, nat) queues" where
  "two_queued = snd (fn_queue (\<lambda>_. Some 1) [0] None (Some (One 2)) (snd (fn_queue (\<lambda>_. Some 1) [0] None (Some (One 1)) no_queues)))"

lemma two_queued_reachable: "reachable (\<lambda>w. w = no_queues) (queue_event (\<lambda>_. Some 1)) two_queued"
proof -
  have "reachable (\<lambda>w. w = no_queues) (queue_event (\<lambda>_. Some 1)) (no_queues :: (nat, nat) queues)"
    by (rule reachable.start) simp
  then have "reachable (\<lambda>w. w = no_queues) (queue_event (\<lambda>_. Some 1))
      (snd (fn_queue (\<lambda>_. Some 1) [0 :: nat] None (Some (One (1 :: nat))) no_queues))"
    by (rule reachable.event) (rule adds, simp_all add: plain_def)
  then show ?thesis
    unfolding two_queued_def by (rule reachable.event) (rule adds, simp_all add: plain_def)
qed

lemma fx_names: "camelCase (queue_name fx) = js ''fxqueue''" "camelCase (hooks_name fx) = js ''fxqueueHooks''"
  by (simp_all add: queue_name_def hooks_name_def fx_def camelCase_hump without_ms_def js_def lower_letter_def)

lemma two_queued_holds: "stored_queue 0 fx two_queued = Some [InProgress, Task 2]"
  "log two_queued = [Queued 0 (js ''fxqueue'') 1, Called 0 (js ''fxqueue'') 1, Queued 0 (js ''fxqueue'') 2]"
proof -
  have "or_fx fx = fx" "fx \<noteq> []" by (simp_all add: or_fx_def fx_def)
  note evals = this two_queued_def fn_queue_def queue_one_def jq_queue_def dequeue_def call_next_def queueHooks_def
    stored_queue_def stored_hooks_def data_get_def no_queues_def put_priv_def data_access_def data_set_def
    data_cache_def acceptData_def write_back_def cached_def mutate_queue_def mutate_hooks_def happens_def queued_as_def
    queued_items_def take_next_def fx_names Let_def
  show "stored_queue 0 fx two_queued = Some [InProgress, Task 2]"
    "log two_queued = [Queued 0 (js ''fxqueue'') 1, Called 0 (js ''fxqueue'') 1, Queued 0 (js ''fxqueue'') 2]"
    by (simp_all add: evals)
qed


theorem fx_queue_busy_witness:
  "stored_queue 0 fx two_queued = Some [InProgress, Task 2] \<and> hd [InProgress, Task (2 :: nat)] = InProgress"
  using fx_queue_busy [OF two_queued_reachable _ two_queued_holds(1)] two_queued_holds(1) by (simp add: acceptData_def)

end
