(* ===== verification/JqAttributes.thy ===== *)
theory JqAttributes
  imports JqData
begin

text \<open>
  \<open>html/jquery-3.6.1.js\<close>: attributes, properties, classes and values of elements (\<open>attr\<close>, \<open>prop\<close>,
  \<open>addClass\<close>, \<open>removeClass\<close>, \<open>toggleClass\<close>, \<open>hasClass\<close>, \<open>val\<close> and what they are made of).

  The document is a record of what the code changes: attributes, properties and the class texts that \<open>toggleClass\<close>
  keeps in the private data.  The environment has what it only reads.  Attribute names of elements outside XML are
  compared in lower case, as the DOM does; properties are a store of their own, so that the browser mirrors some
  attributes in properties, and selects an option when another is deselected, is not modelled.  A function given
  as a value is called through \<open>call\<close>, which may change the document and throw.
\<close>

section \<open>The document\<close>

record ('e, 'f) dom =
  attrs :: "'e \<Rightarrow> (jstr \<times> jstr) list"
  props :: "'e \<Rightarrow> (jstr \<times> 'f val) list"
  kept :: "('e, jstr) data"

record ('e, 'f) dom_env =
  nodeType :: "'e \<Rightarrow> int"
  nodeName :: "'e \<Rightarrow> jstr"
  has_attributes :: "'e \<Rightarrow> bool"
  isXMLDoc :: "'e \<Rightarrow> bool"
  valid_name :: "jstr \<Rightarrow> bool"
  options :: "'e \<Rightarrow> 'e list"
  parentNode :: "'e \<Rightarrow> 'e option"
  text_content :: "'e \<Rightarrow> jstr"
  radioValue :: bool
  checkOn :: bool
  text_host :: "'f val \<Rightarrow> jstr"
  call :: "'f \<Rightarrow> 'e \<Rightarrow> 'f val list \<Rightarrow> (('e, 'f) dom, 'f val) handler"

definition attr_name :: "('e, 'f) dom_env \<Rightarrow> 'e \<Rightarrow> jstr \<Rightarrow> jstr" where
  "attr_name env e name = (if isXMLDoc env e then name else lower name)"

definition getAttribute :: "('e, 'f) dom_env \<Rightarrow> 'e \<Rightarrow> jstr \<Rightarrow> ('e, 'f) dom \<Rightarrow> jstr option" where
  "getAttribute env e name w = map_of (attrs w e) (attr_name env e name)"

definition setAttribute :: "('e, 'f) dom_env \<Rightarrow> 'e \<Rightarrow> jstr \<Rightarrow> jstr \<Rightarrow> (('e, 'f) dom, unit) handler" where
  "setAttribute env e name v =
     (if valid_name env name
      then modify (\<lambda>w. w\<lparr>attrs := (attrs w)(e := set_prop (attrs w e) (attr_name env e name) v)\<rparr>)
      else throw InvalidCharacterError)"

definition removeAttribute :: "('e, 'f) dom_env \<Rightarrow> 'e \<Rightarrow> jstr \<Rightarrow> ('e, 'f) dom \<Rightarrow> ('e, 'f) dom" where
  "removeAttribute env e name w =
     w\<lparr>attrs := (attrs w)(e := filter (\<lambda>(k, v). k \<noteq> attr_name env e name) (attrs w e))\<rparr>"

definition prop_of :: "'e \<Rightarrow> jstr \<Rightarrow> ('e, 'f) dom \<Rightarrow> 'f val" where
  "prop_of e name w = (case map_of (props w e) name of None \<Rightarrow> VUndef | Some v \<Rightarrow> v)"

definition put_prop :: "'e \<Rightarrow> jstr \<Rightarrow> 'f val \<Rightarrow> ('e, 'f) dom \<Rightarrow> ('e, 'f) dom" where
  "put_prop e name v w = w\<lparr>props := (props w)(e := set_prop (props w e) name v)\<rparr>"

text \<open>A node that is not an element, the document or an object: text, comment, attribute.\<close>

definition skipped :: "('e, 'f) dom_env \<Rightarrow> 'e \<Rightarrow> bool" where
  "skipped env e \<longleftrightarrow> nodeType env e \<in> {3, 8, 2}"

section \<open>Attributes\<close>

definition booleans :: "jstr list" where
  "booleans = map js [''checked'', ''selected'', ''async'', ''autofocus'', ''autoplay'', ''controls'', ''defer'',
     ''disabled'', ''hidden'', ''ismap'', ''loop'', ''multiple'', ''open'', ''readonly'', ''required'', ''scoped'']"

text \<open>\<open>jQuery.expr.match.bool\<close>\<close>

definition is_boolean :: "jstr \<Rightarrow> bool" where
  "is_boolean name \<longleftrightarrow> lower name \<in> set booleans"

text \<open>
  \<open>jQuery.find.attr\<close> with the handlers for the boolean attributes, which read an attribute that is there as its
  own name.
\<close>

definition bool_handle :: "('e, 'f) dom_env \<Rightarrow> 'e \<Rightarrow> jstr \<Rightarrow> ('e, 'f) dom \<Rightarrow> 'f val" where
  "bool_handle env e name w =
     (if isXMLDoc env e then VUndef
      else case getAttribute env e name w of None \<Rightarrow> VNull | Some _ \<Rightarrow> VStr (lower name))"

definition find_attr :: "('e, 'f) dom_env \<Rightarrow> 'e \<Rightarrow> jstr \<Rightarrow> ('e, 'f) dom \<Rightarrow> 'f val" where
  "find_attr env e name w =
     (let val = (if is_boolean name then bool_handle env e name w else VUndef) in
      if is_undef val
      then (case getAttribute env e name w of None \<Rightarrow> VNull | Some v \<Rightarrow> VStr v) else val)"

definition removeAttr :: "('e, 'f) dom_env \<Rightarrow> jstr \<Rightarrow> 'e \<Rightarrow> ('e, 'f) dom \<Rightarrow> ('e, 'f) dom" where
  "removeAttr env value e w =
     (if nodeType env e = 1 then fold (removeAttribute env e) (words value) w else w)"

text \<open>\<open>boolHook.set\<close> and \<open>attrHooks.type.set\<close>: the result undefined says that the hook did nothing.\<close>

definition boolHook_set :: "('e, 'f) dom_env \<Rightarrow> 'e \<Rightarrow> 'f val \<Rightarrow> jstr \<Rightarrow> (('e, 'f) dom, 'f val) handler" where
  "boolHook_set env e value name =
     (case value of
        VBool False \<Rightarrow> seq (modify (removeAttr env name e)) (ret (VStr name))
      | _ \<Rightarrow> seq (setAttribute env e name name) (ret (VStr name)))"

definition type_hook_set :: "('e, 'f) dom_env \<Rightarrow> 'e \<Rightarrow> 'f val \<Rightarrow> (('e, 'f) dom, 'f val) handler" where
  "type_hook_set env e value =
     (case value of
        VStr s \<Rightarrow> (if \<not> radioValue env \<and> s = js ''radio'' \<and> lower (nodeName env e) = js ''input''
          then bnd (gets (prop_of e (js ''value''))) (\<lambda>val.
                 seq (setAttribute env e (js ''type'') s)
                  (seq (modify (\<lambda>w. if vtruthy val then put_prop e (js ''value'') val w else w)) (ret value)))
          else ret VUndef)
      | _ \<Rightarrow> ret VUndef)"

text \<open>Properties: the names that are fixed, and the hook for \<open>tabIndex\<close>.\<close>

definition propFix :: "jstr \<Rightarrow> jstr" where
  "propFix name =
     (case map_of ([(js ''for'', js ''htmlFor''), (js ''class'', js ''className'')]
        @ map (\<lambda>n. (lower n, n)) (map js [''tabIndex'', ''readOnly'', ''maxLength'', ''cellSpacing'', ''cellPadding'',
            ''rowSpan'', ''colSpan'', ''useMap'', ''frameBorder'', ''contentEditable''])) name of
        None \<Rightarrow> name | Some n \<Rightarrow> n)"

definition parseInt10 :: "jstr \<Rightarrow> jnum" where
  "parseInt10 s0 =
     (let s1 = dropWhile js_space s0;
          s2 = (if take 1 s1 = js ''-'' \<or> take 1 s1 = js ''+'' then drop 1 s1 else s1)
      in case parse_digits 10 s2 of NaN \<Rightarrow> NaN | Fin i \<Rightarrow> Fin (if take 1 s1 = js ''-'' then - i else i))"

definition tabIndex_get :: "('e, 'f) dom_env \<Rightarrow> 'e \<Rightarrow> ('e, 'f) dom \<Rightarrow> 'f val" where
  "tabIndex_get env e w =
     (case find_attr env e (js ''tabindex'') w of
        VStr t \<Rightarrow> (if t \<noteq> [] then VNum (parseInt10 t)
          else if lower (nodeName env e) \<in> set (map js [''input'', ''select'', ''textarea'', ''button''])
            \<or> lower (nodeName env e) \<in> set (map js [''a'', ''area'']) \<and> vtruthy (prop_of e (js ''href'') w)
          then VInt 0 else VInt (-1))
      | _ \<Rightarrow> (if lower (nodeName env e) \<in> set (map js [''input'', ''select'', ''textarea'', ''button''])
            \<or> lower (nodeName env e) \<in> set (map js [''a'', ''area'']) \<and> vtruthy (prop_of e (js ''href'') w)
          then VInt 0 else VInt (-1)))"

definition jq_prop :: "('e, 'f) dom_env \<Rightarrow> 'e \<Rightarrow> jstr \<Rightarrow> 'f val \<Rightarrow> (('e, 'f) dom, 'f val) handler" where
  "jq_prop env e name0 value =
     (if skipped env e then ret VUndef
      else let fixed = (nodeType env e \<noteq> 1 \<or> \<not> isXMLDoc env e); name = (if fixed then propFix name0 else name0) in
        if \<not> is_undef value then seq (modify (put_prop e name value)) (ret value)
        else if fixed \<and> name = js ''tabIndex'' then gets (tabIndex_get env e)
        else gets (prop_of e name))"

definition jq_attr :: "('e, 'f) dom_env \<Rightarrow> 'e \<Rightarrow> jstr \<Rightarrow> 'f val \<Rightarrow> (('e, 'f) dom, 'f val) handler" where
  "jq_attr env e name value =
     (if skipped env e then ret VUndef
      else if \<not> has_attributes env e then jq_prop env e name value
      else
        let hooked = (nodeType env e \<noteq> 1 \<or> \<not> isXMLDoc env e);
            hook = (if hooked \<and> lower name = js ''type'' then type_hook_set env e value
              else if hooked \<and> is_boolean name then boolHook_set env e value name
              else ret VUndef)
        in case value of
             VUndef \<Rightarrow> gets (\<lambda>w. let r = find_attr env e name w in if nullish r then VUndef else r)
           | VNull \<Rightarrow> seq (modify (removeAttr env name e)) (ret VUndef)
           | _ \<Rightarrow> bnd hook (\<lambda>r. if is_undef r
               then seq (setAttribute env e name (vstr (text_host env) value)) (ret value) else ret r))"

text \<open>The methods of sets.\<close>

definition no_bulk :: "'e list \<Rightarrow> 'f val \<Rightarrow> (('e, 'f) dom, 'f val) handler" where
  "no_bulk es v = ret VUndef"

definition fn_attr :: "('e, 'f) dom_env \<Rightarrow> 'e list \<Rightarrow> 'f access_key \<Rightarrow> 'f val option \<Rightarrow>
    (('e, 'f) dom, ('e, 'f) accessed) handler" where
  "fn_attr env es key value =
     jq_access (call env) (jq_attr env) no_bulk es key (unslot value) (value \<noteq> None) VUndef False"

definition fn_prop :: "('e, 'f) dom_env \<Rightarrow> 'e list \<Rightarrow> 'f access_key \<Rightarrow> 'f val option \<Rightarrow>
    (('e, 'f) dom, ('e, 'f) accessed) handler" where
  "fn_prop env es key value =
     jq_access (call env) (jq_prop env) no_bulk es key (unslot value) (value \<noteq> None) VUndef False"

definition fn_removeAttr :: "('e, 'f) dom_env \<Rightarrow> 'e list \<Rightarrow> jstr \<Rightarrow> ('e, 'f) dom \<Rightarrow> ('e, 'f) dom" where
  "fn_removeAttr env es name w = fold (removeAttr env name) es w"

definition removeProp :: "jstr \<Rightarrow> 'e \<Rightarrow> ('e, 'f) dom \<Rightarrow> ('e, 'f) dom" where
  "removeProp name e w = w\<lparr>props := (props w)(e := filter (\<lambda>(k, v). k \<noteq> propFix name) (props w e))\<rparr>"

definition fn_removeProp :: "'e list \<Rightarrow> jstr \<Rightarrow> ('e, 'f) dom \<Rightarrow> ('e, 'f) dom" where
  "fn_removeProp es name w = fold (removeProp name) es w"

section \<open>Classes\<close>

text \<open>\<open>String.prototype.indexOf\<close> and \<open>replace\<close> with a text: the first occurrence.\<close>

fun indexOf :: "jstr \<Rightarrow> jstr \<Rightarrow> nat option" where
  "indexOf p [] = (if p = [] then Some 0 else None)"
| "indexOf p (c # s) = (if prefix p (c # s) then Some 0 else map_option Suc (indexOf p s))"

definition replace_text :: "jstr \<Rightarrow> jstr \<Rightarrow> jstr \<Rightarrow> jstr" where
  "replace_text p r s = (case indexOf p s of None \<Rightarrow> s | Some i \<Rightarrow> take i s @ r @ drop (i + length p) s)"

abbreviation sp :: jstr where
  "sp \<equiv> [32]"

definition stripAndCollapse :: "jstr \<Rightarrow> jstr" where
  "stripAndCollapse value = join sp (words value)"

definition getClass :: "('e, 'f) dom_env \<Rightarrow> 'e \<Rightarrow> ('e, 'f) dom \<Rightarrow> jstr" where
  "getClass env e w = (if has_attributes env e
     then (case getAttribute env e (js ''class'') w of None \<Rightarrow> [] | Some v \<Rightarrow> v) else [])"

text \<open>The names as the texts that are put between spaces.\<close>

definition classesToArray :: "('e, 'f) dom_env \<Rightarrow> 'f val \<Rightarrow> jstr list" where
  "classesToArray env value = (case value of VArr vs \<Rightarrow> map (vstr (text_host env)) vs | VStr s \<Rightarrow> words s | _ \<Rightarrow> [])"

definition add_name :: "jstr \<Rightarrow> jstr \<Rightarrow> jstr" where
  "add_name className cur = (if indexOf (sp @ className @ sp) cur = None then cur @ className @ sp else cur)"

text \<open>Removing \<^emph>\<open>all\<close> instances: each replacement makes the text shorter.\<close>

lemma indexOf_bound: "indexOf p s = Some i \<Longrightarrow> i + length p \<le> length s"
  by (induction p s arbitrary: i rule: indexOf.induct) (auto dest: prefix_length_le split: if_splits)

lemma replace_shorter: "indexOf p s = Some i \<Longrightarrow> length r < length p \<Longrightarrow> length (replace_text p r s) < length s"
  using indexOf_bound [of p s i] by (simp add: replace_text_def)

function remove_name :: "jstr \<Rightarrow> jstr \<Rightarrow> jstr" where
  "remove_name className cur =
     (if indexOf (sp @ className @ sp) cur \<noteq> None
      then remove_name className (replace_text (sp @ className @ sp) sp cur) else cur)"
  by pat_completeness auto
termination
  by (relation "measure (\<lambda>(_, cur). length cur)") (auto intro: replace_shorter)

declare remove_name.simps [simp del]

definition update_class :: "('e, 'f) dom_env \<Rightarrow> (jstr \<Rightarrow> jstr) \<Rightarrow> 'e \<Rightarrow> (('e, 'f) dom, unit) handler" where
  "update_class env f e =
     bnd (gets (getClass env e)) (\<lambda>curValue.
       if nodeType env e = 1 then
         (let finalValue = stripAndCollapse (f (sp @ stripAndCollapse curValue @ sp)) in
          if curValue \<noteq> finalValue then setAttribute env e (js ''class'') finalValue else ret ())
       else ret ())"

definition add_names :: "('e, 'f) dom_env \<Rightarrow> jstr list \<Rightarrow> 'e list \<Rightarrow> (('e, 'f) dom, unit) handler" where
  "add_names env ns es = (if ns = [] then ret ()
     else bnd (each (update_class env (fold add_name ns)) es) (\<lambda>_. ret ()))"

definition remove_names :: "('e, 'f) dom_env \<Rightarrow> jstr list \<Rightarrow> 'e list \<Rightarrow> (('e, 'f) dom, unit) handler" where
  "remove_names env ns es = (if ns = [] then ret ()
     else bnd (each (update_class env (fold remove_name ns)) es) (\<lambda>_. ret ()))"

text \<open>
  A function as a value is called for each element and may return a function again, which is called in turn on
  that element: the nesting is bounded by the stack of the language, the number \<open>depth\<close>.
\<close>

definition class_calls :: "('e, 'f) dom_env \<Rightarrow> 'f \<Rightarrow> 'f val list \<Rightarrow>
    ('f val \<Rightarrow> 'e list \<Rightarrow> (('e, 'f) dom, unit) handler) \<Rightarrow> 'e list \<Rightarrow> (('e, 'f) dom, unit) handler" where
  "class_calls env f extra k es =
     bnd (each (\<lambda>(i, e). bnd (gets (getClass env e)) (\<lambda>c.
        bnd (call env f e ([VInt (int i), VStr c] @ extra)) (\<lambda>v. k v [e]))) (zip [0..<length es] es)) (\<lambda>_. ret ())"

definition stack_overflow :: "('s, 'a) handler" where
  "stack_overflow = throw (Thrown (js ''RangeError''))"

primrec addClass :: "('e, 'f) dom_env \<Rightarrow> nat \<Rightarrow> 'f val \<Rightarrow> 'e list \<Rightarrow> (('e, 'f) dom, unit) handler" where
  "addClass env 0 value es = stack_overflow"
| "addClass env (Suc depth) value es =
     (case value of VFun f \<Rightarrow> class_calls env f [] (addClass env depth) es
      | _ \<Rightarrow> add_names env (classesToArray env value) es)"

primrec removeClass :: "('e, 'f) dom_env \<Rightarrow> nat \<Rightarrow> 'f val \<Rightarrow> 'e list \<Rightarrow> (('e, 'f) dom, unit) handler" where
  "removeClass env 0 value es = stack_overflow"
| "removeClass env (Suc depth) value es =
     (case value of VFun f \<Rightarrow> class_calls env f [] (removeClass env depth) es
      | _ \<Rightarrow> remove_names env (classesToArray env value) es)"

text \<open>\<open>removeClass()\<close> without an argument.\<close>

definition removeClass_all :: "('e, 'f) dom_env \<Rightarrow> 'e list \<Rightarrow> (('e, 'f) dom, ('e, 'f) accessed) handler" where
  "removeClass_all env es = fn_attr env es (Key (js ''class'')) (Some (VStr []))"

definition hasClass :: "('e, 'f) dom_env \<Rightarrow> jstr \<Rightarrow> 'e list \<Rightarrow> ('e, 'f) dom \<Rightarrow> bool" where
  "hasClass env selector es w \<longleftrightarrow> list_ex (\<lambda>e. nodeType env e = 1 \<and>
     indexOf (sp @ selector @ sp) (sp @ stripAndCollapse (getClass env e w) @ sp) \<noteq> None) es"

text \<open>\<open>toggleClass\<close>: names one by one, or the whole class text, which is kept for the next time.\<close>

definition class_items :: "'f val \<Rightarrow> 'f val list" where
  "class_items value = (case value of VArr vs \<Rightarrow> vs | VStr s \<Rightarrow> map VStr (words s) | _ \<Rightarrow> [])"

definition toggle_name :: "('e, 'f) dom_env \<Rightarrow> 'e \<Rightarrow> 'f val \<Rightarrow> (('e, 'f) dom, unit) handler" where
  "toggle_name env e className =
     bnd (gets (hasClass env (vstr (text_host env) className) [e])) (\<lambda>there.
       if there then remove_names env (classesToArray env className) [e]
       else add_names env (classesToArray env className) [e])"

definition className_key :: jstr where
  "className_key = js ''__className__''"

definition toggle_whole :: "('e, 'f) dom_env \<Rightarrow> 'f val \<Rightarrow> 'e \<Rightarrow> (('e, 'f) dom, unit) handler" where
  "toggle_whole env value e =
     bnd (gets (getClass env e)) (\<lambda>className.
       seq (modify (\<lambda>w. if className \<noteq> []
              then w\<lparr>kept := snd (data_set (\<lambda>e. Some (nodeType env e)) e className_key (Some className) (kept w))\<rparr> else w))
         (if has_attributes env e
          then bnd (gets (\<lambda>w. if className \<noteq> [] \<or> (case value of VBool b \<Rightarrow> \<not> b | _ \<Rightarrow> False) then []
                 else case data_get e className_key (kept w) of None \<Rightarrow> [] | Some c \<Rightarrow> c))
               (\<lambda>v. setAttribute env e (js ''class'') v)
          else ret ()))"

definition toggle_plain :: "('e, 'f) dom_env \<Rightarrow> 'f val \<Rightarrow> 'e list \<Rightarrow> (('e, 'f) dom, unit) handler" where
  "toggle_plain env value es =
     (if isArray value \<or> typeof value = js ''string''
      then bnd (each (\<lambda>e. bnd (each (toggle_name env e) (class_items value)) (\<lambda>_. ret ())) es) (\<lambda>_. ret ())
      else if is_undef value \<or> typeof value = js ''boolean''
      then bnd (each (toggle_whole env value) es) (\<lambda>_. ret ())
      else ret ())"

primrec toggleClass :: "('e, 'f) dom_env \<Rightarrow> nat \<Rightarrow> 'f val \<Rightarrow> 'f val \<Rightarrow> 'e list \<Rightarrow> (('e, 'f) dom, unit) handler" where
  "toggleClass env 0 value stateVal es = stack_overflow"
| "toggleClass env (Suc depth) value stateVal es =
     (case value of
        VFun f \<Rightarrow> class_calls env f [stateVal] (\<lambda>v. toggleClass env depth v stateVal) es
      | _ \<Rightarrow> (if typeof stateVal = js ''boolean'' \<and> (isArray value \<or> typeof value = js ''string'')
          then (if vtruthy stateVal then add_names env (classesToArray env value) es
                else remove_names env (classesToArray env value) es)
          else toggle_plain env value es))"

section \<open>Values\<close>

text \<open>The options of a select element are option elements, and a selected index is one of an option or negative.\<close>

datatype val_hook = NoHook | OptionHook | SelectHook | CheckHook

definition hook_named :: "jstr \<Rightarrow> val_hook" where
  "hook_named s = (if s = js ''option'' then OptionHook else if s = js ''select'' then SelectHook
     else if s = js ''radio'' \<or> s = js ''checkbox'' then CheckHook else NoHook)"

definition val_hook :: "('e, 'f) dom_env \<Rightarrow> 'e \<Rightarrow> ('e, 'f) dom \<Rightarrow> val_hook" where
  "val_hook env e w =
     (let h = (case prop_of e (js ''type'') w of VStr t \<Rightarrow> hook_named t | _ \<Rightarrow> NoHook) in
      if h \<noteq> NoHook then h else hook_named (lower (nodeName env e)))"

definition option_get :: "('e, 'f) dom_env \<Rightarrow> 'e \<Rightarrow> ('e, 'f) dom \<Rightarrow> 'f val" where
  "option_get env e w = (let val = find_attr env e (js ''value'') w in
     if \<not> nullish val then val else VStr (stripAndCollapse (text_content env e)))"

definition select_get :: "('e, 'f) dom_env \<Rightarrow> 'e \<Rightarrow> ('e, 'f) dom \<Rightarrow> 'f val" where
  "select_get env e w =
     (let opts = options env e;
          index = (case prop_of e (js ''selectedIndex'') w of VNum (Fin n) \<Rightarrow> n | _ \<Rightarrow> -1);
          one = (prop_of e (js ''type'') w = VStr (js ''select-one''));
          top = (if one then index + 1 else int (length opts));
          start = (if index < 0 then top else if one then index else 0);
          chosen = filter (\<lambda>i. let opt = opts ! i in
              (vtruthy (prop_of opt (js ''selected'') w) \<or> int i = index) \<and> \<not> vtruthy (prop_of opt (js ''disabled'') w) \<and>
              (case parentNode env opt of None \<Rightarrow> True
               | Some g \<Rightarrow> \<not> vtruthy (prop_of g (js ''disabled'') w) \<or> lower (nodeName env g) \<noteq> js ''optgroup''))
            [nat start..<min (nat top) (length opts)];
          values = map (\<lambda>i. option_get env (opts ! i) w) chosen
      in if one then (case values of [] \<Rightarrow> VNull | v # _ \<Rightarrow> v) else VArr values)"

text \<open>\<open>val()\<close>; \<open>without_returns\<close> is the text without carriage returns.\<close>

definition without_returns :: "jstr \<Rightarrow> jstr" where
  "without_returns s = filter (\<lambda>c. c \<noteq> 13) s"

definition own_value :: "'e \<Rightarrow> ('e, 'f) dom \<Rightarrow> 'f val" where
  "own_value e w = (case prop_of e (js ''value'') w of
     VStr s \<Rightarrow> VStr (without_returns s) | VUndef \<Rightarrow> VStr [] | VNull \<Rightarrow> VStr [] | v \<Rightarrow> v)"

definition check_get :: "('e, 'f) dom_env \<Rightarrow> 'e \<Rightarrow> ('e, 'f) dom \<Rightarrow> 'f val" where
  "check_get env e w =
     (if checkOn env then VUndef
      else if getAttribute env e (js ''value'') w = None then VStr (js ''on'') else prop_of e (js ''value'') w)"

definition jq_val :: "('e, 'f) dom_env \<Rightarrow> 'e \<Rightarrow> ('e, 'f) dom \<Rightarrow> 'f val" where
  "jq_val env e w =
     (let r = (case val_hook env e w of OptionHook \<Rightarrow> option_get env e w | SelectHook \<Rightarrow> select_get env e w
          | CheckHook \<Rightarrow> check_get env e w | NoHook \<Rightarrow> VUndef)
      in if is_undef r then own_value e w else r)"

definition fn_val_get :: "('e, 'f) dom_env \<Rightarrow> 'e list \<Rightarrow> ('e, 'f) dom \<Rightarrow> 'f val" where
  "fn_val_get env es w = (case es of [] \<Rightarrow> VUndef | e # _ \<Rightarrow> jq_val env e w)"

text \<open>Membership with \<open>===\<close>; a value that is an object is a new one and equal to none.\<close>

fun same_primitive :: "'f val \<Rightarrow> 'f val \<Rightarrow> bool" where
  "same_primitive (VStr s) (VStr t) = (s = t)"
| "same_primitive (VNum m) (VNum n) = (m = n \<and> m \<noteq> NaN)"
| "same_primitive (VBool a) (VBool b) = (a = b)"
| "same_primitive VUndef VUndef = True"
| "same_primitive VNull VNull = True"
| "same_primitive _ _ = False"

definition select_set :: "('e, 'f) dom_env \<Rightarrow> 'e \<Rightarrow> 'f val \<Rightarrow> ('e, 'f) dom \<Rightarrow> ('e, 'f) dom" where
  "select_set env e value w =
     (let values = makeArray value [];
          chosen = (\<lambda>opt. inArray same_primitive (option_get env opt w) values 0 > -1);
          w1 = fold (\<lambda>opt. put_prop opt (js ''selected'') (VBool (chosen opt))) (rev (options env e)) w
      in if list_ex chosen (options env e) then w1 else put_prop e (js ''selectedIndex'') (VInt (-1)) w1)"

definition normal_value :: "('e, 'f) dom_env \<Rightarrow> 'f val \<Rightarrow> 'f val" where
  "normal_value env v =
     (case v of VUndef \<Rightarrow> VStr [] | VNull \<Rightarrow> VStr [] | VNum n \<Rightarrow> VStr (show_num n)
      | VArr vs \<Rightarrow> VArr (map (\<lambda>x. VStr (if nullish x then [] else vstr (text_host env) x)) vs) | _ \<Rightarrow> v)"

definition set_value :: "('e, 'f) dom_env \<Rightarrow> 'f val \<Rightarrow> 'e \<Rightarrow> ('e, 'f) dom \<Rightarrow> ('e, 'f) dom" where
  "set_value env v e w =
     (case val_hook env e w of
        SelectHook \<Rightarrow> select_set env e v w
      | CheckHook \<Rightarrow> (case v of
            VArr vs \<Rightarrow> put_prop e (js ''checked'') (VBool (inArray same_primitive (jq_val env e w) vs 0 > -1)) w
          | _ \<Rightarrow> put_prop e (js ''value'') v w)
      | _ \<Rightarrow> put_prop e (js ''value'') v w)"

definition fn_val :: "('e, 'f) dom_env \<Rightarrow> 'e list \<Rightarrow> 'f val \<Rightarrow> (('e, 'f) dom, unit) handler" where
  "fn_val env es value =
     bnd (each (\<lambda>(i, e).
        if nodeType env e \<noteq> 1 then ret ()
        else bnd (case value of
              VFun f \<Rightarrow> bnd (gets (jq_val env e)) (\<lambda>old. call env f e [VInt (int i), old])
            | _ \<Rightarrow> ret value)
          (\<lambda>v. modify (set_value env (normal_value env v) e))) (zip [0..<length es] es)) (\<lambda>_. ret ())"

section \<open>Class texts are lists of words\<close>

definition word :: "jstr \<Rightarrow> bool" where
  "word c \<longleftrightarrow> c \<noteq> [] \<and> (\<forall>d \<in> set c. \<not> html_white d)"

lemma word_space: "word c \<Longrightarrow> 32 \<notin> set c"
  by (auto simp: word_def html_white_def)

lemma html_white_space [simp]: "html_white 32"
  by (simp add: html_white_def)

lemma words_are_words: "c \<in> set (words s) \<Longrightarrow> word c"
proof (induction s rule: words.induct)
  case (2 d s)
  show ?case
  proof (cases "html_white d")
    case True
    with 2 show ?thesis by simp
  next
    case False
    with 2 have "c = d # takeWhile (\<lambda>d. \<not> html_white d) s \<or> word c" by auto
    with False show ?thesis by (auto simp: word_def dest: set_takeWhileD)
  qed
qed simp

lemma words_word_space: "word c \<Longrightarrow> words (c @ 32 # s) = c # words s"
  by (cases c) (auto simp: word_def html_white_def)

text \<open>Words between spaces, and what the searches in such a text find.\<close>

definition padded :: "jstr list \<Rightarrow> jstr" where
  "padded ws = 32 # concat (map (\<lambda>w. w @ [32]) ws)"

lemma padded_Cons: "padded (w # ws) = 32 # w @ padded ws"
  by (simp add: padded_def)

lemma padded_snoc: "padded (ws @ [w]) = padded ws @ w @ [32]"
  by (simp add: padded_def)

lemma words_padded: "\<forall>w \<in> set ws. word w \<Longrightarrow> words (padded ws) = ws"
  by (induction ws) (auto simp: padded_Cons words_word_space padded_def html_white_def)

lemma join_padded: "ws \<noteq> [] \<Longrightarrow> 32 # join [32] ws @ [32] = padded ws"
  by (induction ws rule: induct_list012) (simp_all add: padded_def join_def)

lemma indexOf_skip: "x \<notin> set w \<Longrightarrow> indexOf (x # p) (w @ s) = map_option (\<lambda>i. length w + i) (indexOf (x # p) s)"
  by (induction w) (auto simp: option.map_ident option.map_comp comp_def intro!: option.map_cong option.map_ident_strong [symmetric])

lemma word_prefix: "word c \<Longrightarrow> word w \<Longrightarrow> prefix (c @ [32]) (w @ 32 # s) \<longleftrightarrow> c = w"
proof
  assume c: "word c" "word w" and p: "prefix (c @ [32]) (w @ 32 # s)"
  then have "takeWhile (\<lambda>d. d \<noteq> 32) (c @ 32 # x) = takeWhile (\<lambda>d. d \<noteq> 32) (w @ 32 # s)" if "w @ 32 # s = c @ 32 # x" for x
    using that by simp
  moreover have "takeWhile (\<lambda>d. d \<noteq> 32) (c @ 32 # x) = c" "takeWhile (\<lambda>d. d \<noteq> 32) (w @ 32 # s) = w" for x
    using word_space [OF c(1)] word_space [OF c(2)] by (simp_all add: takeWhile_append2 takeWhile_tail) (metis takeWhile_eq_all_conv)+
  ultimately show "c = w" using p by (auto simp: prefix_def)
qed auto

lemma indexOf_padded_Cons:
  assumes "word c" and "word w"
  shows "indexOf (32 # c @ [32]) (padded (w # ws)) =
    (if w = c then Some 0 else map_option (\<lambda>i. Suc (length w + i)) (indexOf (32 # c @ [32]) (padded ws)))"
proof -
  have "prefix (c @ [32]) (w @ padded ws) \<longleftrightarrow> c = w"
    using word_prefix [OF assms] by (simp add: padded_def)
  then show ?thesis
    using word_space [OF assms(2)] by (auto simp: padded_Cons indexOf_skip option.map_comp comp_def)
qed

lemma indexOf_padded:
  assumes "word c"
  shows "\<forall>w \<in> set ws. word w \<Longrightarrow> indexOf (32 # c @ [32]) (padded ws) = None \<longleftrightarrow> c \<notin> set ws"
proof (induction ws)
  case Nil
  with assms show ?case by (cases c) (auto simp: padded_def)
next
  case (Cons w ws)
  with assms show ?case by (auto simp: indexOf_padded_Cons)
qed

declare indexOf.simps [simp del]

lemma replace_padded:
  assumes "word c"
  shows "\<forall>w \<in> set ws. word w \<Longrightarrow> c \<in> set ws \<Longrightarrow> replace_text (32 # c @ [32]) [32] (padded ws) = padded (remove1 c ws)"
proof (induction ws)
  case (Cons w ws)
  show ?case
  proof (cases "w = c")
    case True
    with assms Cons.prems show ?thesis
      by (simp add: replace_text_def indexOf_padded_Cons) (simp add: padded_def)
  next
    case False
    with Cons.prems have c: "c \<in> set ws" by simp
    with indexOf_padded [OF assms, of ws] Cons.prems obtain i where i: "indexOf (32 # c @ [32]) (padded ws) = Some i" by auto
    then have r: "take i (padded ws) @ 32 # drop (i + length c + 2) (padded ws) = padded (remove1 c ws)"
      using Cons.IH c Cons.prems by (simp add: replace_text_def)
    have "indexOf (32 # c @ [32]) (padded (w # ws)) = Some (Suc (length w + i))"
      using i False assms Cons.prems by (simp add: indexOf_padded_Cons)
    then have "replace_text (32 # c @ [32]) [32] (padded (w # ws)) =
        32 # w @ take i (padded ws) @ 32 # drop (i + length c + 2) (padded ws)"
      by (simp add: replace_text_def padded_Cons)
    with r False show ?thesis by (simp add: padded_Cons)
  qed
qed simp

text \<open>The text in the loops has one more space in front when the element had no class.\<close>

definition laid :: "jstr list \<Rightarrow> jstr \<Rightarrow> bool" where
  "laid ws cur \<longleftrightarrow> (\<forall>w \<in> set ws. word w) \<and> (cur = padded ws \<or> cur = 32 # padded ws)"

lemma words_laid: "laid ws cur \<Longrightarrow> words cur = ws"
  by (auto simp: laid_def words_padded)

lemma laid_start: "laid (words s) (sp @ stripAndCollapse s @ sp)"
proof (cases "words s = []")
  case True
  then show ?thesis by (simp add: laid_def stripAndCollapse_def padded_def)
next
  case False
  then show ?thesis by (auto simp: laid_def stripAndCollapse_def join_padded words_are_words)
qed

lemma indexOf_front: "word c \<Longrightarrow> indexOf (32 # c @ [32]) (32 # padded ws) = map_option Suc (indexOf (32 # c @ [32]) (padded ws))"
  by (cases c) (auto simp: padded_def word_def indexOf.simps(2))

lemma indexOf_laid: "word c \<Longrightarrow> laid ws cur \<Longrightarrow> indexOf (sp @ c @ sp) cur = None \<longleftrightarrow> c \<notin> set ws"
proof -
  assume c: "word c" and l: "laid ws cur"
  then have "cur = padded ws \<or> cur = 32 # padded ws" and w: "\<forall>w \<in> set ws. word w" by (auto simp: laid_def)
  then have "indexOf (32 # c @ [32]) cur = None \<longleftrightarrow> indexOf (32 # c @ [32]) (padded ws) = None"
    by (elim disjE) (simp_all add: indexOf_front [OF c])
  then show "indexOf (sp @ c @ sp) cur = None \<longleftrightarrow> c \<notin> set ws"
    using indexOf_padded [OF c w] by simp
qed

definition add_word :: "jstr \<Rightarrow> jstr list \<Rightarrow> jstr list" where
  "add_word c ws = (if c \<in> set ws then ws else ws @ [c])"

definition drop_word :: "jstr \<Rightarrow> jstr list \<Rightarrow> jstr list" where
  "drop_word c ws = filter (\<lambda>w. w \<noteq> c) ws"

lemma laid_add: "word c \<Longrightarrow> laid ws cur \<Longrightarrow> laid (add_word c ws) (add_name c cur)"
proof -
  assume c: "word c" and l: "laid ws cur"
  have "add_name c cur = (if c \<in> set ws then cur else cur @ c @ sp)"
    using indexOf_laid [OF c l] by (simp add: add_name_def)
  with c l show "laid (add_word c ws) (add_name c cur)"
    by (auto simp: add_word_def laid_def padded_snoc)
qed

lemma laid_remove: "word c \<Longrightarrow> laid ws cur \<Longrightarrow> laid (drop_word c ws) (remove_name c cur)"
proof (induction "length ws" arbitrary: ws cur rule: less_induct)
  case less
  show ?case
  proof (cases "c \<in> set ws")
    case False
    then have "drop_word c ws = ws" by (auto simp: drop_word_def filter_id_conv)
    moreover have "remove_name c cur = cur"
      using indexOf_laid [OF less.prems] False by (subst remove_name.simps) simp
    ultimately show ?thesis using less.prems by simp
  next
    case True
    let ?cur = "replace_text (sp @ c @ sp) sp cur"
    have "laid (remove1 c ws) ?cur"
    proof -
      have w: "\<forall>w \<in> set ws. word w" using less.prems by (simp add: laid_def)
      have r: "replace_text (32 # c @ [32]) [32] (padded ws) = padded (remove1 c ws)"
        using replace_padded [OF less.prems(1) w True] .
      then have "replace_text (32 # c @ [32]) [32] (32 # padded ws) = 32 # padded (remove1 c ws)"
        using indexOf_padded [OF less.prems(1) w] True
        by (auto simp: replace_text_def indexOf_front [OF less.prems(1)])
      with r less.prems(2) w show ?thesis
        by (auto simp: laid_def dest: notin_set_remove1 [rotated] elim: set_mp [OF set_remove1_subset])
    qed
    moreover have "length (remove1 c ws) < length ws"
      using True length_pos_if_in_set [OF True] by (simp add: length_remove1)
    moreover have "drop_word c (remove1 c ws) = drop_word c ws"
      by (induction ws) (auto simp: drop_word_def)
    moreover have "remove_name c cur = remove_name c ?cur"
      using indexOf_laid [OF less.prems] True by (subst remove_name.simps) simp
    ultimately show ?thesis using less by metis
  qed
qed

lemma laid_folds:
  assumes "\<And>c ws cur. word c \<Longrightarrow> laid ws cur \<Longrightarrow> laid (f c ws) (g c cur)"
  shows "\<forall>c \<in> set cs. word c \<Longrightarrow> laid ws cur \<Longrightarrow> laid (fold f cs ws) (fold g cs cur)"
  by (induction cs arbitrary: ws cur) (auto intro: assms)

text \<open>One element whose classes the methods may change.\<close>

definition class_element :: "('e, 'f) dom_env \<Rightarrow> 'e \<Rightarrow> bool" where
  "class_element env e \<longleftrightarrow> nodeType env e = 1 \<and> has_attributes env e \<and> valid_name env (js ''class'')"

lemma lower_class [simp]: "lower (js ''class'') = js ''class''"
  by (simp add: lower_def lower1_def js_def)

lemma attr_name_class [simp]: "attr_name env e (js ''class'') = js ''class''"
  by (simp add: attr_name_def)

definition same_elsewhere :: "'e \<Rightarrow> ('e, 'f) dom \<Rightarrow> ('e, 'f) dom \<Rightarrow> bool" where
  "same_elsewhere e w w1 \<longleftrightarrow> (\<forall>e' k. e' \<noteq> e \<or> k \<noteq> js ''class'' \<longrightarrow> map_of (attrs w1 e') k = map_of (attrs w e') k) \<and>
     props w1 = props w \<and> kept w1 = kept w"

lemma same_elsewhere_refl: "same_elsewhere e w w"
  by (simp add: same_elsewhere_def)

lemma same_elsewhere_trans: "same_elsewhere e w w1 \<Longrightarrow> same_elsewhere e w1 w2 \<Longrightarrow> same_elsewhere e w w2"
  by (simp add: same_elsewhere_def)

lemma set_class:
  assumes "class_element env e"
  obtains w1 where "setAttribute env e (js ''class'') v w = (Inr (), w1)" and "getClass env e w1 = v" and "same_elsewhere e w w1"
  using assms that
  by (simp add: setAttribute_def class_element_def getClass_def getAttribute_def same_elsewhere_def)

lemma update_class_effect:
  assumes e: "class_element env e" and f: "\<And>cur. laid (words (getClass env e w)) cur \<Longrightarrow> laid ws (f cur)"
  obtains w1 where "update_class env f e w = (Inr (), w1)" and "getClass env e w1 = join sp ws" and "same_elsewhere e w w1"
proof -
  let ?c = "getClass env e w"
  have "stripAndCollapse (f (sp @ stripAndCollapse ?c @ sp)) = join sp ws"
    using words_laid [OF f [OF laid_start]] by (simp add: stripAndCollapse_def)
  moreover obtain w1 where "setAttribute env e (js ''class'') (join sp ws) w = (Inr (), w1)"
    "getClass env e w1 = join sp ws" "same_elsewhere e w w1"
    using set_class [OF e] by blast
  ultimately show thesis
    using e that [of w1] that [of w] same_elsewhere_refl [of e w]
    by (cases "?c = join sp ws") (simp_all add: update_class_def class_element_def Let_def)
qed

lemma words_join: "\<forall>w \<in> set ws. word w \<Longrightarrow> words (join sp ws) = ws"
proof (cases "ws = []")
  case False
  assume "\<forall>w \<in> set ws. word w"
  moreover have "words (s @ [32]) = words s" for s
    by (induction s rule: words.induct) (auto simp: takeWhile_append dropWhile_append takeWhile_eq_all_conv [THEN iffD2] dropWhile_eq_Nil_conv [THEN iffD2])
  ultimately show ?thesis
    using words_padded [of ws] join_padded [OF False] by (metis append_Cons append_Nil html_white_space words.simps(2))
qed simp

lemma drop_words: "fold drop_word cs ws = filter (\<lambda>w. w \<notin> set cs) ws"
  by (induction cs arbitrary: ws) (auto simp: drop_word_def intro: filter_cong)

text \<open>What the class operations do to the list of words.\<close>

definition toggle_word :: "jstr \<Rightarrow> jstr list \<Rightarrow> jstr list" where
  "toggle_word c ws = (if c \<in> set ws then drop_word c ws else ws @ [c])"

datatype class_op = AddClass jstr | RemoveClass jstr | ToggleClass jstr

primrec run_class :: "('e, 'f) dom_env \<Rightarrow> 'e \<Rightarrow> class_op \<Rightarrow> (('e, 'f) dom, unit) handler" where
  "run_class env e (AddClass s) = addClass env 1 (VStr s) [e]"
| "run_class env e (RemoveClass s) = removeClass env 1 (VStr s) [e]"
| "run_class env e (ToggleClass s) = toggleClass env 1 (VStr s) VUndef [e]"

primrec spec_class :: "class_op \<Rightarrow> jstr list \<Rightarrow> jstr list" where
  "spec_class (AddClass s) ws = fold add_word (words s) ws"
| "spec_class (RemoveClass s) ws = filter (\<lambda>w. w \<notin> set (words s)) ws"
| "spec_class (ToggleClass s) ws = fold toggle_word (words s) ws"

lemma update_words:
  assumes e: "class_element env e" and f: "\<And>cur. laid (words (getClass env e w)) cur \<Longrightarrow> laid ws (f cur)"
  obtains w1 where "bnd (each (update_class env f) [e]) (\<lambda>_. ret ()) w = (Inr (), w1)"
    and "words (getClass env e w1) = ws" and "same_elsewhere e w w1"
proof -
  obtain w1 where w1: "update_class env f e w = (Inr (), w1)" "getClass env e w1 = join sp ws" "same_elsewhere e w w1"
    using update_class_effect [of env e w ws f] e f by metis
  moreover have "\<forall>w \<in> set ws. word w" using f [OF laid_start] by (auto simp: laid_def)
  ultimately show thesis by (intro that [of w1]) (simp_all add: words_join)
qed

lemma add_names_effect:
  assumes e: "class_element env e" and cs: "\<forall>c \<in> set cs. word c"
  obtains w1 where "add_names env cs [e] w = (Inr (), w1)"
    and "words (getClass env e w1) = fold add_word cs (words (getClass env e w))" and "same_elsewhere e w w1"
proof (cases "cs = []")
  case True
  then show thesis using that [of w] by (simp add: add_names_def same_elsewhere_refl)
next
  case False
  obtain w1 where "bnd (each (update_class env (fold add_name cs)) [e]) (\<lambda>_. ret ()) w = (Inr (), w1)"
    "words (getClass env e w1) = fold add_word cs (words (getClass env e w))" "same_elsewhere e w w1"
    using update_words [of env e w "fold add_word cs (words (getClass env e w))" "fold add_name cs"] e
      laid_folds [of add_word add_name, OF laid_add cs] by metis
  with False show thesis by (intro that [of w1]) (simp_all add: add_names_def)
qed

lemma remove_names_effect:
  assumes e: "class_element env e" and cs: "\<forall>c \<in> set cs. word c"
  obtains w1 where "remove_names env cs [e] w = (Inr (), w1)"
    and "words (getClass env e w1) = filter (\<lambda>w. w \<notin> set cs) (words (getClass env e w))" and "same_elsewhere e w w1"
proof (cases "cs = []")
  case True
  then show thesis using that [of w] by (simp add: remove_names_def same_elsewhere_refl)
next
  case False
  obtain w1 where "bnd (each (update_class env (fold remove_name cs)) [e]) (\<lambda>_. ret ()) w = (Inr (), w1)"
    "words (getClass env e w1) = fold drop_word cs (words (getClass env e w))" "same_elsewhere e w w1"
    using update_words [of env e w "fold drop_word cs (words (getClass env e w))" "fold remove_name cs"] e
      laid_folds [of drop_word remove_name, OF laid_remove cs] by metis
  with False show thesis by (intro that [of w1]) (simp_all add: remove_names_def drop_words)
qed

lemma hasClass_words:
  assumes "class_element env e" and "word c"
  shows "hasClass env c [e] w \<longleftrightarrow> c \<in> set (words (getClass env e w))"
  using assms(1) indexOf_laid [OF assms(2) laid_start, of "getClass env e w"]
  by (simp add: hasClass_def class_element_def del: not_None_eq)

lemma words_lone: "word c \<Longrightarrow> words c = [c]"
  using words_join [of "[c]"] by simp

lemma toggle_name_effect:
  assumes e: "class_element env e" and c: "word c"
  obtains w1 where "toggle_name env e (VStr c) w = (Inr (), w1)"
    and "words (getClass env e w1) = toggle_word c (words (getClass env e w))" and "same_elsewhere e w w1"
proof (cases "c \<in> set (words (getClass env e w))")
  case True
  obtain w1 where "remove_names env [c] [e] w = (Inr (), w1)"
    "words (getClass env e w1) = filter (\<lambda>w. w \<notin> set [c]) (words (getClass env e w))" "same_elsewhere e w w1"
    using remove_names_effect [OF e, of "[c]"] c by auto
  with True show thesis
    by (intro that [of w1])
       (simp_all add: toggle_name_def hasClass_words [OF e c] classesToArray_def words_lone c toggle_word_def drop_word_def)
next
  case False
  obtain w1 where "add_names env [c] [e] w = (Inr (), w1)"
    "words (getClass env e w1) = fold add_word [c] (words (getClass env e w))" "same_elsewhere e w w1"
    using add_names_effect [OF e, of "[c]"] c by auto
  with False show thesis
    by (intro that [of w1])
       (simp_all add: toggle_name_def hasClass_words [OF e c] classesToArray_def words_lone c toggle_word_def add_word_def)
qed

lemma toggle_names_effect:
  assumes e: "class_element env e" and cs: "\<forall>c \<in> set cs. word c"
  shows "\<exists>us w1. each (toggle_name env e) (map VStr cs) w = (Inr us, w1) \<and>
    words (getClass env e w1) = fold toggle_word cs (words (getClass env e w)) \<and> same_elsewhere e w w1"
  using cs
proof (induction cs arbitrary: w)
  case Nil
  show ?case by (simp add: same_elsewhere_refl)
next
  case (Cons c cs)
  obtain w1 where w1: "toggle_name env e (VStr c) w = (Inr (), w1)"
    "words (getClass env e w1) = toggle_word c (words (getClass env e w))" "same_elsewhere e w w1"
    using toggle_name_effect [OF e, of c w] Cons.prems by auto
  moreover obtain us w2 where "each (toggle_name env e) (map VStr cs) w1 = (Inr us, w2)"
    "words (getClass env e w2) = fold toggle_word cs (words (getClass env e w1))" "same_elsewhere e w1 w2"
    using Cons by (metis list.set_intros(2))
  ultimately show ?case by (auto intro: same_elsewhere_trans)
qed

lemma run_class_effect:
  assumes e: "class_element env e"
  shows "\<exists>w1. run_class env e op w = (Inr (), w1) \<and>
    words (getClass env e w1) = spec_class op (words (getClass env e w)) \<and> same_elsewhere e w w1"
proof (cases op)
  case (AddClass s)
  then show ?thesis
    using add_names_effect [OF e, of "words s" w] words_are_words by (fastforce simp: classesToArray_def)
next
  case (RemoveClass s)
  then show ?thesis
    using remove_names_effect [OF e, of "words s" w] words_are_words by (fastforce simp: classesToArray_def)
next
  case (ToggleClass s)
  obtain us w1 where "each (toggle_name env e) (map VStr (words s)) w = (Inr us, w1)"
    "words (getClass env e w1) = fold toggle_word (words s) (words (getClass env e w))" "same_elsewhere e w w1"
    using toggle_names_effect [OF e, of "words s" w] words_are_words by blast
  then show ?thesis
    using ToggleClass by (simp add: toggle_plain_def class_items_def typeof_def)
qed

text \<open>
  C20. On an element the class methods, which search and replace in the class text, do what the corresponding
  operations on the list of class names do: any sequence of additions, removals and togglings returns without an
  error and leaves the text of exactly the names that the list operations leave, in their order;
  \<open>hasClass\<close> tells whether a name is in that list, and nothing but the class text of the element changes.
\<close>

theorem class_methods_on_words:
  assumes "class_element env e"
  shows "\<exists>us w1. each (run_class env e) ops w = (Inr us, w1) \<and>
    words (getClass env e w1) = fold spec_class ops (words (getClass env e w)) \<and> same_elsewhere e w w1 \<and>
    (\<forall>c. word c \<longrightarrow> hasClass env c [e] w1 = (c \<in> set (fold spec_class ops (words (getClass env e w)))))"
proof -
  have "\<exists>us w1. each (run_class env e) ops w = (Inr us, w1) \<and>
      words (getClass env e w1) = fold spec_class ops (words (getClass env e w)) \<and> same_elsewhere e w w1"
  proof (induction ops arbitrary: w)
    case Nil
    show ?case by (simp add: same_elsewhere_refl)
  next
    case (Cons op ops)
    obtain w1 where "run_class env e op w = (Inr (), w1)"
      "words (getClass env e w1) = spec_class op (words (getClass env e w))" "same_elsewhere e w w1"
      using run_class_effect [OF assms] by blast
    with Cons [of w1] show ?case by (auto intro: same_elsewhere_trans)
  qed
  then show ?thesis using hasClass_words [OF assms] by metis
qed

text \<open>A page whose nodes are all HTML elements.\<close>

definition html_env :: "(nat, unit) dom_env" where
  "html_env = \<lparr>nodeType = \<lambda>_. 1, nodeName = \<lambda>_. js ''P'', has_attributes = \<lambda>_. True, isXMLDoc = \<lambda>_. False,
     valid_name = \<lambda>_. True, options = \<lambda>_. [], parentNode = \<lambda>_. None, text_content = \<lambda>_. [], radioValue = True,
     checkOn = True, text_host = \<lambda>_. [], call = \<lambda>_ _ _. ret VUndef\<rparr>"

definition classy_page :: "(nat, unit) dom" where
  "classy_page = \<lparr>attrs = (\<lambda>_. [])(0 := [(js ''class'', js ''a b'')]), props = \<lambda>_. [], kept = \<lambda>_. None\<rparr>"

theorem class_methods_on_words_witness:
  "\<exists>us w1. each (run_class html_env 0) [AddClass (js ''c a''), ToggleClass (js ''b'')] classy_page = (Inr us, w1) \<and>
    words (getClass html_env 0 w1) = [js ''a'', js ''c'']"
proof -
  have "class_element html_env 0" by (simp add: class_element_def html_env_def)
  from class_methods_on_words [OF this, of "[AddClass (js ''c a''), ToggleClass (js ''b'')]" classy_page]
  obtain us w1 where "each (run_class html_env 0) [AddClass (js ''c a''), ToggleClass (js ''b'')] classy_page = (Inr us, w1)"
    "words (getClass html_env 0 w1) =
       fold spec_class [AddClass (js ''c a''), ToggleClass (js ''b'')] (words (getClass html_env 0 classy_page))" by blast
  moreover have "words (getClass html_env 0 classy_page) = [js ''a'', js ''b'']"
    by (simp add: getClass_def getAttribute_def html_env_def classy_page_def) (simp add: js_def html_white_def)
  moreover have "words (js ''c a'') = [js ''c'', js ''a'']" "words (js ''b'') = [js ''b'']"
    by (simp_all add: js_def html_white_def)
  ultimately have "words (getClass html_env 0 w1) = [js ''a'', js ''c'']"
    by (simp add: add_word_def toggle_word_def drop_word_def)
  with \<open>each _ _ _ = _\<close> show ?thesis by blast
qed

section \<open>Reading back\<close>

text \<open>
  C33. An attribute that was set to a value is read back as the text of the value, under any capitalisation of
  the name; a boolean attribute reads as its own name, and as undefined when it was set to \<open>false\<close>.
\<close>

theorem attr_round_trip:
  assumes "nodeType env e = 1" and "has_attributes env e" and "\<not> isXMLDoc env e" and "radioValue env"
    and "valid_name env name" and "word name" and "lower name' = lower name"
    and "\<not> nullish v" and "\<not> isFunction v"
  shows "\<exists>w1. fn_attr env [e] (Key name) (Some v) w = (Inr (Chain [e]), w1) \<and>
    fn_attr env [e] (Key name') None w1 =
      (Inr (Got (if \<not> is_boolean name then VStr (vstr (text_host env) v)
                 else case v of VBool False \<Rightarrow> VUndef | _ \<Rightarrow> VStr (lower name))), w1)"
proof -
  have s: "\<not> skipped env e" using assms(1) by (simp add: skipped_def)
  have b: "is_boolean name' = is_boolean name" using assms(7) by (simp add: is_boolean_def)
  have u: "\<not> is_undef v" using assms(8) by (cases v) (simp_all add: nullish_def is_undef_def)
  let ?set = "\<lambda>t. w\<lparr>attrs := (attrs w)(e := set_prop (attrs w e) (lower name) t)\<rparr>"
  let ?cut = "w\<lparr>attrs := (attrs w)(e := filter (\<lambda>(k, v). k \<noteq> lower name) (attrs w e))\<rparr>"
  define w1 where "w1 = (if \<not> is_boolean name then ?set (vstr (text_host env) v)
      else case v of VBool False \<Rightarrow> ?cut | _ \<Rightarrow> ?set name)"
  have put: "fn_attr env [e] (Key name) (Some v) w = (Inr (Chain [e]), snd (jq_attr env e name v w))"
    if "fst (jq_attr env e name v w) = Inr r" for r
    using that u assms(9) by (cases "jq_attr env e name v w")
      (simp add: fn_attr_def jq_access_def access_one_def Let_def unslot_def store_value_def bnd_def)
  have none: "type_hook_set env e v = ret VUndef"
    using assms(4) by (cases v) (simp_all add: type_hook_set_def)
  have at: "\<exists>r. jq_attr env e name v w = (Inr r, w1)"
  proof -
    have cut: "removeAttr env name e w = ?cut"
      using assms(1,3,6) by (simp add: removeAttr_def words_lone removeAttribute_def attr_name_def)
    have nt: "lower name = js ''type'' \<Longrightarrow> \<not> is_boolean name" by (simp add: is_boolean_def booleans_def)
    show ?thesis
      using s assms(2,3,5) u none cut nt assms(8)
      by (cases v; cases "is_boolean name"; cases "lower name = js ''type''")
         (auto simp: jq_attr_def w1_def boolHook_set_def setAttribute_def attr_name_def nullish_def is_undef_def Let_def
            split: bool.splits)
  qed
  moreover have get: "fn_attr env [e] (Key name') None w1 = (Inr (Got (let r = find_attr env e name' w1 in
      if nullish r then VUndef else r)), w1)"
    using s assms(2) by (simp add: fn_attr_def jq_access_def access_one_def Let_def unslot_def is_undef_def jq_attr_def)
  moreover have "map_of (filter (\<lambda>(k, v). k \<noteq> lower name) kvs) (lower name) = None" for kvs :: "(jstr \<times> jstr) list"
    by (induction kvs) auto
  then have "(let r = find_attr env e name' w1 in if nullish r then VUndef else r) =
      (if \<not> is_boolean name then VStr (vstr (text_host env) v)
       else case v of VBool False \<Rightarrow> VUndef | _ \<Rightarrow> VStr (lower name))"
    using assms(3,7,8) b
    by (cases v) (auto simp: find_attr_def bool_handle_def getAttribute_def attr_name_def w1_def nullish_def is_undef_def
        split: bool.splits)
  ultimately show ?thesis using put by (intro exI [of _ w1]) auto
qed

theorem attr_round_trip_witness:
  "\<exists>w1. fn_attr html_env [0] (Key (js ''Title'')) (Some (VInt 5)) classy_page = (Inr (Chain [0]), w1) \<and>
    fn_attr html_env [0] (Key (js ''title'')) None w1 = (Inr (Got (VStr (js ''5''))), w1)"
proof -
  have l: "lower (js ''title'') = lower (js ''Title'')" "word (js ''Title'')" "\<not> is_boolean (js ''Title'')"
    by (simp_all add: lower_def lower1_def js_def word_def html_white_def is_boolean_def booleans_def)
  have "show_num (Fin 5) = js ''5''"
    by (simp add: show_num_def show_int_def) (subst show_nat.simps, simp add: js_def)
  with attr_round_trip [of html_env 0 "js ''Title''" "js ''title''" "VInt 5" classy_page] l show ?thesis
    by (simp add: html_env_def nullish_def isFunction_def)
qed

text \<open>
  \<open>toggleClass()\<close> without arguments takes the whole class text of an element away and brings the very same
  text back when it is called again.
\<close>

theorem toggle_restores_class:
  assumes "class_element env e" and "getClass env e w = c" and "c \<noteq> []"
  shows "\<exists>w1 w2. toggleClass env 1 VUndef VUndef [e] w = (Inr (), w1) \<and> getClass env e w1 = [] \<and>
    toggleClass env 1 VUndef VUndef [e] w1 = (Inr (), w2) \<and> getClass env e w2 = c"
proof -
  let ?k = "\<lambda>w. w\<lparr>kept := snd (data_set (\<lambda>e. Some (nodeType env e)) e className_key (Some c) (kept w))\<rparr>"
  have t: "toggleClass env (Suc 0) VUndef VUndef [e] = (\<lambda>w. bnd (toggle_whole env VUndef e) (\<lambda>_. ret ()) w)"
    by (simp add: fun_eq_iff toggle_plain_def isArray_def typeof_def is_undef_def bnd_def split: sum.split prod.split)
  have ha: "has_attributes env e" using assms(1) by (simp add: class_element_def)
  have gk: "getClass env e (?k w) = c" using assms(2) ha by (simp add: getClass_def getAttribute_def)
  obtain w1 where w1: "setAttribute env e (js ''class'') [] (?k w) = (Inr (), w1)" "getClass env e w1 = []"
    "same_elsewhere e (?k w) w1" using set_class [OF assms(1)] by blast
  have d: "data_get e className_key (kept w1) = Some c"
    using w1(3) assms(1) data_get_set [of "\<lambda>e. Some (nodeType env e)" e e className_key className_key]
    by (simp add: same_elsewhere_def class_element_def acceptData_def)
  obtain w2 where w2: "setAttribute env e (js ''class'') c w1 = (Inr (), w2)" "getClass env e w2 = c"
    using set_class [OF assms(1)] by blast
  have "toggleClass env 1 VUndef VUndef [e] w = (Inr (), w1)"
    using assms(2,3) ha w1(1) by (simp add: t toggle_whole_def del: toggleClass.simps)
  moreover have "toggleClass env 1 VUndef VUndef [e] w1 = (Inr (), w2)"
    using w1(2) ha d w2(1) by (simp add: t toggle_whole_def del: toggleClass.simps)
  ultimately show ?thesis using w1(2) w2(2) by blast
qed

theorem toggle_restores_class_witness:
  "\<exists>w1 w2. toggleClass html_env 1 VUndef VUndef [0] classy_page = (Inr (), w1) \<and> getClass html_env 0 w1 = [] \<and>
    toggleClass html_env 1 VUndef VUndef [0] w1 = (Inr (), w2) \<and> getClass html_env 0 w2 = js ''a b''"
proof -
  have "class_element html_env 0" by (simp add: class_element_def html_env_def)
  moreover have "getClass html_env 0 classy_page = js ''a b''"
    by (simp add: getClass_def getAttribute_def html_env_def classy_page_def)
  ultimately show ?thesis by (rule toggle_restores_class) simp
qed

end
