(* ===== verification/JqDeferred.thy ===== *)
theory JqDeferred
  imports JqCallbacks
begin

text \<open>
  \<open>html/jquery-3.6.1.js\<close>: \<open>jQuery.Deferred\<close> with \<open>then\<close> and \<open>pipe\<close>, \<open>jQuery.when\<close> and \<open>jQuery.ready\<close>, over
  the callback lists of theory \<open>JqCallbacks\<close>.

  Deferreds are numbers; all of them are there from the start, as \<open>jQuery.Deferred\<close> makes them, and
  \<open>next_id\<close> is the next one the library takes.  A machine runs the code: its stack holds what is left to
  run, among it the frames of the try statements, and a throw removes what is above the nearest frame.  The
  functions of the page are the parameter \<open>user\<close>: what a call does with deferreds before it ends, and how it
  ends.  Values are an arbitrary type; \<open>promise_of\<close> says which value is the promise of which deferred, and no
  value is a thenable of another kind.  The contexts \<open>this\<close> of the calls are left out.
\<close>

section \<open>Deferreds\<close>

datatype action = Notify | Fulfil | Reject

datatype list_kind = Callback_list | Handler_list

type_synonym dlist = "nat \<times> action \<times> list_kind"

text \<open>
  The function that \<open>resolve(depth, deferred, handler, special)\<close> of \<open>then\<close> returns, where \<open>special\<close> says whether
  \<open>special\<close> is \<open>notifyWith\<close>, and the handlers: \<open>Identity\<close>, \<open>Thrower\<close>, a function of the page, or such a function.
\<close>

datatype 'f then_fn = Then_fn (depth: nat) (target: nat) (handler: "'f handler_fn") (special: bool)
  and 'f handler_fn = Identity | Thrower | Page_fn 'f | Then_handler "'f then_fn"

text \<open>The functions in the lists.\<close>

datatype 'f dfun =
    Set_state nat action
  | Disable_list dlist
  | Lock_list dlist
  | Fire_list dlist
  | Then_cb "'f then_fn"
  | Pipe_cb nat action "'f option"
  | Update nat nat
  | User 'f

text \<open>What a function of the page may do with deferreds.\<close>

datatype ('f, 'v) api =
    Api_add nat action "'f list"
  | Api_fire nat action "'v list"
  | Api_then nat "'f option" "'f option" "'f option"
  | Api_pipe nat "'f option" "'f option" "'f option"
  | Api_when "'v list"

text \<open>What is left to run.\<close>

datatype ('f, 'v) dtask =
    DAdd dlist "'f dfun list"
  | DFire dlist "'v list"
  | DDisable dlist
  | DLock dlist
  | DSet nat action
  | DEnd dlist
  | DCall "'f dfun" "'v list"
  | DTimer "'f then_fn" "'v list"
  | DProcess "'f then_fn" "'v list"
  | DReturned "'f then_fn" "'v list" 'v
  | DCatch "'f then_fn" "'v list"
  | DCatch_adopt nat
  | DThrow 'v
  | DThen nat "'f handler_fn option" "'f handler_fn option" "'f handler_fn option"
  | DPipe nat "'f option" "'f option" "'f option"
  | DPiped nat action 'v
  | DWhen "'v list"
  | DWhen_rest nat "'v list"
  | DCount nat nat "'v list"

record ('f, 'v) dworld =
  dlists :: "dlist \<Rightarrow> ('f dfun, 'v list) cblist"
  dstate :: "nat \<Rightarrow> action option"
  maxDepth :: "nat \<Rightarrow> nat"
  timers :: "('f then_fn \<times> 'v list) list"
  next_id :: nat
  remaining :: "nat \<Rightarrow> int"
  resolveValues :: "nat \<Rightarrow> 'v list"
  history :: "(dlist \<times> 'f dfun \<times> 'v list) list"

record ('f, 'v) denv =
  user :: "'f \<Rightarrow> 'v list \<Rightarrow> ('f, 'v) api list \<times> ('v + 'v)"
  promise_of :: "'v \<Rightarrow> nat option"
  undef :: 'v
  typeError :: 'v
  array :: "'v list \<Rightarrow> 'v"

definition first_arg :: "('f, 'v) denv \<Rightarrow> 'v list \<Rightarrow> 'v" where
  "first_arg env a = (case a of [] \<Rightarrow> undef env | v # _ \<Rightarrow> v)"

text \<open>A new deferred: the lists with the functions that the loop over the tuples adds.\<close>

definition other :: "action \<Rightarrow> action" where
  "other act = (case act of Fulfil \<Rightarrow> Reject | Reject \<Rightarrow> Fulfil | Notify \<Rightarrow> Notify)"

definition state_fns :: "nat \<Rightarrow> action \<Rightarrow> 'f dfun list" where
  "state_fns d act =
     [Set_state d act, Disable_list (d, other act, Callback_list), Disable_list (d, other act, Handler_list),
      Lock_list (d, Notify, Callback_list), Lock_list (d, Notify, Handler_list)]"

definition list_options :: "action \<Rightarrow> jstr" where
  "list_options act = (if act = Notify then js ''memory'' else js ''once memory'')"

definition new_list :: "dlist \<Rightarrow> ('f dfun, 'v list) cblist" where
  "new_list l = (case l of (d, act, kind) \<Rightarrow>
     let c = Callbacks (createOptions (list_options act)) in
     case kind of
       Handler_list \<Rightarrow> c
     | Callback_list \<Rightarrow>
         let c1 = (if act \<noteq> Notify then snd (cb_add (map Fn (state_fns d act)) c) else c)
         in snd (cb_add [Fn (Fire_list (d, act, Handler_list))] c1))"

definition new_world :: "('f, 'v) dworld" where
  "new_world = \<lparr>dlists = new_list, dstate = \<lambda>_. None, maxDepth = \<lambda>_. 0, timers = [], next_id = 0,
     remaining = \<lambda>_. 0, resolveValues = \<lambda>_. [], history = []\<rparr>"

section \<open>Calls\<close>

primrec api_task :: "('f, 'v) api \<Rightarrow> ('f, 'v) dtask" where
  "api_task (Api_add d act fs) = DAdd (d, act, Callback_list) (map User fs)"
| "api_task (Api_fire d act a) = DFire (d, act, Callback_list) a"
| "api_task (Api_then d f g h) = DThen d (map_option Page_fn f) (map_option Page_fn g) (map_option Page_fn h)"
| "api_task (Api_pipe d f g h) = DPipe d f g h"
| "api_task (Api_when vs) = DWhen vs"

text \<open>\<open>always\<close>, \<open>catch\<close> and \<open>jQuery.fn.ready\<close> as calls of the others; \<open>n\<close> is the deferred that \<open>then\<close> makes.\<close>

definition always :: "nat \<Rightarrow> 'f list \<Rightarrow> ('f, 'v) api list" where
  "always d fs = [Api_add d Fulfil fs, Api_add d Reject fs]"

definition catch :: "nat \<Rightarrow> 'f \<Rightarrow> ('f, 'v) api" where
  "catch d f = Api_then d None (Some f) None"

definition fn_ready :: "nat \<Rightarrow> nat \<Rightarrow> 'f \<Rightarrow> 'f \<Rightarrow> ('f, 'v) api list" where
  "fn_ready readyList n f readyException = [Api_then readyList (Some f) None None, catch n readyException]"

text \<open>A call of a function of the page, and what follows it when it returns.\<close>

definition page_call :: "('f, 'v) denv \<Rightarrow> 'f \<Rightarrow> 'v list \<Rightarrow> ('v \<Rightarrow> ('f, 'v) dtask list) \<Rightarrow> ('f, 'v) dtask list" where
  "page_call env f a k = (case user env f a of (ops, r) \<Rightarrow>
     map api_task ops @ (case r of Inl e \<Rightarrow> [DThrow e] | Inr v \<Rightarrow> k v))"

definition then_call :: "'f then_fn \<Rightarrow> 'v list \<Rightarrow> ('f, 'v) dtask list" where
  "then_call tf a = (if depth tf > 0 then [DProcess tf a] else [DTimer tf a])"

primrec body :: "('f, 'v) denv \<Rightarrow> 'f dfun \<Rightarrow> 'v list \<Rightarrow> ('f, 'v) dtask list" where
  "body env (Set_state d act) a = [DSet d act]"
| "body env (Disable_list l) a = [DDisable l]"
| "body env (Lock_list l) a = [DLock l]"
| "body env (Fire_list l) a = [DFire l a]"
| "body env (Then_cb tf) a = then_call tf a"
| "body env (Pipe_cb n act f) a = (case f of None \<Rightarrow> [DFire (n, act, Callback_list) a]
     | Some g \<Rightarrow> page_call env g a (\<lambda>v. [DPiped n act v]))"
| "body env (Update p i) a = [DCount p i a]"
| "body env (User f) a = page_call env f a (\<lambda>v. [])"

text \<open>\<open>mightThrow\<close> up to the end of the handler, in the try statement of \<open>process\<close>.\<close>

definition process :: "('f, 'v) denv \<Rightarrow> 'f then_fn \<Rightarrow> 'v list \<Rightarrow> ('f, 'v) dworld \<Rightarrow> ('f, 'v) dtask list" where
  "process env tf a w =
     (if depth tf < maxDepth w (target tf) then []
      else (case handler tf of
          Identity \<Rightarrow> [DReturned tf a (first_arg env a)]
        | Thrower \<Rightarrow> [DThrow (first_arg env a)]
        | Page_fn f \<Rightarrow> page_call env f a (\<lambda>v. [DReturned tf a v])
        | Then_handler tf1 \<Rightarrow> then_call tf1 a @ [DReturned tf a (undef env)])
        @ (if special tf then [] else [DCatch tf a]))"

text \<open>
  The rest of \<open>mightThrow\<close>: a promise that was returned is waited for by another \<open>then\<close>, another value
  settles the new deferred.
\<close>

definition returned_value :: "('f, 'v) denv \<Rightarrow> 'f then_fn \<Rightarrow> 'v list \<Rightarrow> 'v \<Rightarrow> ('f, 'v) dworld \<Rightarrow>
    ('f, 'v) dtask list \<times> ('f, 'v) dworld" where
  "returned_value env tf a v w =
     (let d = target tf in
      case promise_of env v of
        Some d1 \<Rightarrow>
          if d1 = d then ([DThrow (typeError env)], w)
          else if special tf then
            (let n = maxDepth w d in
             ([DThen d1 (Some (Then_handler (Then_fn n d Identity True))) (Some (Then_handler (Then_fn n d Thrower True))) None], w))
          else
            (let n = Suc (maxDepth w d) in
             ([DThen d1 (Some (Then_handler (Then_fn n d Identity False))) (Some (Then_handler (Then_fn n d Thrower False)))
                 (Some (Then_handler (Then_fn n d Identity True)))], w\<lparr>maxDepth := (maxDepth w)(d := n)\<rparr>))
      | None \<Rightarrow>
          ([DFire (d, if special tf then Notify else Fulfil, Callback_list) (if handler tf = Identity then a else [v])], w))"

text \<open>The catch clause.\<close>

definition caught :: "'f then_fn \<Rightarrow> 'v list \<Rightarrow> 'v \<Rightarrow> ('f, 'v) dworld \<Rightarrow> ('f, 'v) dtask list" where
  "caught tf a e w =
     (if depth tf + 1 \<ge> maxDepth w (target tf)
      then [DFire (target tf, Reject, Callback_list) (if handler tf = Thrower then a else [e])] else [])"

text \<open>A throw with the rest of the stack.\<close>

fun unwind :: "'v \<Rightarrow> ('f, 'v) dworld \<Rightarrow> ('f, 'v) dtask list \<Rightarrow> ('f, 'v) dtask list" where
  "unwind e w [] = []"
| "unwind e w (t # ts) = (case t of
     DCatch tf a \<Rightarrow> caught tf a e w @ ts
   | DCatch_adopt p \<Rightarrow> DCall (Fire_list (p, Reject, Callback_list)) [e] # ts
   | _ \<Rightarrow> unwind e w ts)"

text \<open>\<open>then\<close> and \<open>pipe\<close>, with the new deferred \<open>n\<close>.\<close>

definition then_tasks :: "nat \<Rightarrow> nat \<Rightarrow> 'f handler_fn option \<Rightarrow> 'f handler_fn option \<Rightarrow> 'f handler_fn option \<Rightarrow>
    ('f, 'v) dtask list" where
  "then_tasks d n onFulfilled onRejected onProgress =
     [DAdd (d, Notify, Handler_list)
        [Then_cb (Then_fn 0 n (case onProgress of None \<Rightarrow> Identity | Some h \<Rightarrow> h) True)],
      DAdd (d, Fulfil, Handler_list)
        [Then_cb (Then_fn 0 n (case onFulfilled of None \<Rightarrow> Identity | Some h \<Rightarrow> h) False)],
      DAdd (d, Reject, Handler_list)
        [Then_cb (Then_fn 0 n (case onRejected of None \<Rightarrow> Thrower | Some h \<Rightarrow> h) False)]]"

definition pipe_tasks :: "nat \<Rightarrow> nat \<Rightarrow> 'f option \<Rightarrow> 'f option \<Rightarrow> 'f option \<Rightarrow> ('f, 'v) dtask list" where
  "pipe_tasks d n fnDone fnFail fnProgress =
     [DAdd (d, Notify, Callback_list) [Pipe_cb n Notify fnProgress],
      DAdd (d, Fulfil, Callback_list) [Pipe_cb n Fulfil fnDone],
      DAdd (d, Reject, Callback_list) [Pipe_cb n Reject fnFail]]"

definition piped :: "('f, 'v) denv \<Rightarrow> nat \<Rightarrow> action \<Rightarrow> 'v \<Rightarrow> ('f, 'v) dtask list" where
  "piped env n act v = (case promise_of env v of
       Some d \<Rightarrow> map (\<lambda>act. DAdd (d, act, Callback_list) [Fire_list (n, act, Callback_list)]) [Notify, Fulfil, Reject]
     | None \<Rightarrow> [DFire (n, act, Callback_list) [v]])"

section \<open>when\<close>

text \<open>\<open>adoptValue\<close>, with the function \<open>resolve\<close> and the deferred whose \<open>reject\<close> is handed over.\<close>

definition adoptValue :: "('f, 'v) denv \<Rightarrow> 'v \<Rightarrow> 'f dfun \<Rightarrow> nat \<Rightarrow> bool \<Rightarrow> ('f, 'v) dtask list" where
  "adoptValue env v res p noValue =
     (case promise_of env v of
        Some d \<Rightarrow> [DAdd (d, Fulfil, Callback_list) [res],
                   DAdd (d, Reject, Callback_list) [Fire_list (p, Reject, Callback_list)]]
      | None \<Rightarrow> [DCall res (if noValue then [] else [v])])
     @ [DCatch_adopt p]"

definition when_start :: "('f, 'v) denv \<Rightarrow> 'v list \<Rightarrow> nat \<Rightarrow> ('f, 'v) dtask list" where
  "when_start env vs p =
     (if length vs \<le> 1 then
        DAdd (p, Fulfil, Callback_list) [Update p (length vs)] #
        adoptValue env (first_arg env vs) (Fire_list (p, Fulfil, Callback_list)) p (vs = []) @ [DWhen_rest p vs]
      else [DWhen_rest p vs])"

text \<open>
  After the adoption of a single value: a \<open>then\<close> when the primary is pending or its value is a promise; otherwise,
  and for several values, all values are adopted, the last first.
\<close>

definition when_rest :: "('f, 'v) denv \<Rightarrow> nat \<Rightarrow> 'v list \<Rightarrow> ('f, 'v) dworld \<Rightarrow> ('f, 'v) dtask list" where
  "when_rest env p vs w =
     (if length vs \<le> 1 \<and> (dstate w p = None \<or>
          (length vs < length (resolveValues w p) \<and> promise_of env (resolveValues w p ! length vs) \<noteq> None))
      then [DThen p None None None]
      else concat (map (\<lambda>(i, v). adoptValue env v (Update p i) p False) (rev (zip [0..<length vs] vs))))"

text \<open>The function of \<open>updateFunc\<close>.\<close>

definition set_nth :: "'v \<Rightarrow> nat \<Rightarrow> 'v \<Rightarrow> 'v list \<Rightarrow> 'v list" where
  "set_nth u i v vs = (if i < length vs then vs[i := v] else vs @ replicate (i - length vs) u @ [v])"

definition update_value :: "('f, 'v) denv \<Rightarrow> nat \<Rightarrow> nat \<Rightarrow> 'v list \<Rightarrow> ('f, 'v) dworld \<Rightarrow>
    ('f, 'v) dtask list \<times> ('f, 'v) dworld" where
  "update_value env p i a w =
     (let v = (if length a > 1 then array env a else first_arg env a);
          w1 = w\<lparr>resolveValues := (resolveValues w)(p := set_nth (undef env) i v (resolveValues w p)),
                 remaining := (remaining w)(p := remaining w p - 1)\<rparr>
      in (if remaining w1 p = 0 then [DFire (p, Fulfil, Callback_list) (resolveValues w1 p)] else [], w1))"

section \<open>The machine\<close>

definition put_list :: "dlist \<Rightarrow> ('f dfun, 'v list) cblist \<Rightarrow> ('f, 'v) dworld \<Rightarrow> ('f, 'v) dworld" where
  "put_list l c w = w\<lparr>dlists := (dlists w)(l := c)\<rparr>"

text \<open>A firing goes on: the next call, or the end.  The lists of deferreds all fire with arguments.\<close>

definition go :: "('f, 'v) denv \<Rightarrow> dlist \<Rightarrow> ('f dfun \<times> 'v list option) option \<times> ('f dfun, 'v list) cblist \<Rightarrow>
    ('f, 'v) dworld \<Rightarrow> ('f, 'v) dtask list \<times> ('f, 'v) dworld" where
  "go env l r w = (case r of
       (Some (f, a), c) \<Rightarrow>
         let args = (case a of None \<Rightarrow> [] | Some x \<Rightarrow> x) in
         (body env f args @ [DEnd l], (put_list l c w)\<lparr>history := history w @ [(l, f, args)]\<rparr>)
     | (None, c) \<Rightarrow> ([], put_list l c w))"

definition start_or :: "('f, 'v) denv \<Rightarrow> dlist \<Rightarrow> bool \<times> ('f dfun, 'v list) cblist \<Rightarrow> ('f, 'v) dworld \<Rightarrow>
    ('f, 'v) dtask list \<times> ('f, 'v) dworld" where
  "start_or env l r w = (if fst r then go env l (fire_start (snd r)) w else ([], put_list l (snd r) w))"

fun run_task :: "('f, 'v) denv \<Rightarrow> ('f, 'v) dtask \<Rightarrow> ('f, 'v) dworld \<Rightarrow> ('f, 'v) dtask list \<times> ('f, 'v) dworld" where
  "run_task env (DAdd l fs) w = start_or env l (cb_add (map Fn fs) (dlists w l)) w"
| "run_task env (DFire l a) w = start_or env l (cb_fireWith a (dlists w l)) w"
| "run_task env (DDisable l) w = ([], put_list l (cb_disable (dlists w l)) w)"
| "run_task env (DLock l) w = ([], put_list l (cb_lock (dlists w l)) w)"
| "run_task env (DSet d act) w = ([], w\<lparr>dstate := (dstate w)(d := Some act)\<rparr>)"
| "run_task env (DEnd l) w = go env l (advance (dlists w l)) w"
| "run_task env (DCall f a) w = (body env f a, w)"
| "run_task env (DTimer tf a) w = ([], w\<lparr>timers := timers w @ [(tf, a)]\<rparr>)"
| "run_task env (DProcess tf a) w = (process env tf a w, w)"
| "run_task env (DReturned tf a v) w = returned_value env tf a v w"
| "run_task env (DThen d f g h) w = (then_tasks d (next_id w) f g h, w\<lparr>next_id := Suc (next_id w)\<rparr>)"
| "run_task env (DPipe d f g h) w = (pipe_tasks d (next_id w) f g h, w\<lparr>next_id := Suc (next_id w)\<rparr>)"
| "run_task env (DPiped n act v) w = (piped env n act v, w)"
| "run_task env (DWhen vs) w =
     (let p = next_id w in
      (when_start env vs p, w\<lparr>next_id := Suc p, remaining := (remaining w)(p := int (length vs)),
         resolveValues := (resolveValues w)(p := vs)\<rparr>))"
| "run_task env (DWhen_rest p vs) w = (when_rest env p vs w, w)"
| "run_task env (DCount p i a) w = update_value env p i a w"
| "run_task env (DCatch tf a) w = ([], w)"
| "run_task env (DCatch_adopt p) w = ([], w)"
| "run_task env (DThrow e) w = ([], w)"

fun dstep :: "('f, 'v) denv \<Rightarrow> ('f, 'v) dtask list \<times> ('f, 'v) dworld \<Rightarrow> ('f, 'v) dtask list \<times> ('f, 'v) dworld" where
  "dstep env ([], w) = ([], w)"
| "dstep env (t # ts, w) = (case t of
       DThrow e \<Rightarrow> (unwind e w ts, w)
     | _ \<Rightarrow> (case run_task env t w of (new, w1) \<Rightarrow> (new @ ts, w1)))"

text \<open>
  Histories: steps, and between the tasks of the page a timer that runs out or calls the page makes.
\<close>

inductive devent :: "('f, 'v) denv \<Rightarrow> ('f, 'v) dtask list \<times> ('f, 'v) dworld \<Rightarrow>
    ('f, 'v) dtask list \<times> ('f, 'v) dworld \<Rightarrow> bool"
  for env :: "('f, 'v) denv" where
  step: "devent env s (dstep env s)"
| page: "devent env ([], w) (map api_task ops, w)"
| timer: "timers w = p @ (tf, a) # q \<Longrightarrow> devent env ([], w) ([DProcess tf a], w\<lparr>timers := p @ q\<rparr>)"

section \<open>ready\<close>

text \<open>\<open>jQuery.ready(wait)\<close>: whether it resolves the deferred \<open>readyList\<close>.\<close>

record ready_state =
  isReady :: bool
  readyWait :: int

definition jq_ready :: "bool \<Rightarrow> ready_state \<Rightarrow> bool \<times> ready_state" where
  "jq_ready wait s =
     (let s1 = (if wait then s\<lparr>readyWait := readyWait s - 1\<rparr> else s) in
      if (if wait then readyWait s1 \<noteq> 0 else isReady s1) then (False, s1)
      else let s2 = s1\<lparr>isReady := True\<rparr> in
        if \<not> wait \<and> readyWait s2 - 1 > 0 then (False, s2\<lparr>readyWait := readyWait s2 - 1\<rparr>)
        else (True, if wait then s2 else s2\<lparr>readyWait := readyWait s2 - 1\<rparr>))"

definition ready_tasks :: "nat \<Rightarrow> 'v \<Rightarrow> bool \<Rightarrow> ready_state \<Rightarrow> ('f, 'v) dtask list \<times> ready_state" where
  "ready_tasks readyList jquery wait s = (case jq_ready wait s of (resolves, s1) \<Rightarrow>
     (if resolves then [DFire (readyList, Fulfil, Callback_list) [jquery]] else [], s1))"

end
