(* ===== verification/JqSettle.thy ===== *)
theory JqSettle
  imports JqDeferred
begin

text \<open>
  The deferreds of theory \<open>JqDeferred\<close> settle at most once: the lists of a deferred before, while and after its
  state is set, in every history.
\<close>

section \<open>A deferred settles at most once\<close>

text \<open>The two lists that decide: those with the functions that set the state.\<close>

definition core :: "dlist \<Rightarrow> bool" where
  "core l \<longleftrightarrow> (case l of (d, act, kind) \<Rightarrow> act \<noteq> Notify \<and> kind = Callback_list)"

text \<open>Functions and tasks that leave the deciding lists and the states alone.\<close>

primrec calm_fn :: "'f dfun \<Rightarrow> bool" where
  "calm_fn (Set_state d act) = False"
| "calm_fn (Disable_list l) = (\<not> core l)"
| "calm_fn (Lock_list l) = (\<not> core l)"
| "calm_fn (Fire_list l) = True"
| "calm_fn (Then_cb tf) = True"
| "calm_fn (Pipe_cb n act f) = True"
| "calm_fn (Update p i) = True"
| "calm_fn (User f) = True"

fun calm :: "('f, 'v) dtask \<Rightarrow> bool" where
  "calm (DAdd l fs) = (\<forall>f \<in> set fs. calm_fn f)"
| "calm (DDisable l) = (\<not> core l)"
| "calm (DLock l) = (\<not> core l)"
| "calm (DSet d act) = False"
| "calm (DCall f a) = calm_fn f"
| "calm _ = True"

definition calms :: "('f, 'v) dtask list \<Rightarrow> bool" where
  "calms ts \<longleftrightarrow> (\<forall>t \<in> set ts. calm t)"

lemma calms_simps [simp]:
  "calms []" "calms (t # ts) \<longleftrightarrow> calm t \<and> calms ts" "calms (ts @ us) \<longleftrightarrow> calms ts \<and> calms us"
  by (auto simp: calms_def)

lemma calm_api: "calm (api_task p)"
  by (cases p) auto

lemma calms_api: "calms (map api_task ops)"
  by (simp add: calms_def calm_api)

text \<open>No task that a function or a step pushes is the end of a call.\<close>

definition no_end :: "('f, 'v) dtask list \<Rightarrow> bool" where
  "no_end ts \<longleftrightarrow> (\<forall>l. DEnd l \<notin> set ts)"

lemma no_end_simps [simp]:
  "no_end []" "no_end (t # ts) \<longleftrightarrow> (\<forall>l. t \<noteq> DEnd l) \<and> no_end ts" "no_end (ts @ us) \<longleftrightarrow> no_end ts \<and> no_end us"
  by (auto simp: no_end_def)

definition quiet_tasks :: "('f, 'v) dtask list \<Rightarrow> bool" where
  "quiet_tasks ts \<longleftrightarrow> calms ts \<and> no_end ts"

lemma quiet_simps [simp]:
  "quiet_tasks []" "quiet_tasks (t # ts) \<longleftrightarrow> calm t \<and> (\<forall>l. t \<noteq> DEnd l) \<and> quiet_tasks ts"
  "quiet_tasks (ts @ us) \<longleftrightarrow> quiet_tasks ts \<and> quiet_tasks us"
  by (auto simp: quiet_tasks_def)

lemma quiet_api: "quiet_tasks (map api_task ops)"
proof -
  have "DEnd l \<noteq> api_task p" for p l by (cases p) auto
  then show ?thesis by (auto simp: quiet_tasks_def calms_api no_end_def)
qed

lemma quiet_page_call: "(\<And>v. quiet_tasks (k v)) \<Longrightarrow> quiet_tasks (page_call env f a k)"
  by (auto simp: page_call_def quiet_api split: prod.splits sum.splits)

lemma quiet_then_call: "quiet_tasks (then_call tf a)"
  by (simp add: then_call_def)

lemma quiet_body: "calm_fn f \<Longrightarrow> quiet_tasks (body env f a)"
  by (cases f) (auto simp: quiet_then_call quiet_page_call split: option.split)

lemma quiet_process: "quiet_tasks (process env tf a w)"
  by (auto simp: process_def quiet_then_call quiet_page_call split: handler_fn.split)

lemma quiet_returned: "quiet_tasks (fst (returned_value env tf a v w))"
  by (auto simp: returned_value_def Let_def split: option.split)

lemma quiet_caught: "quiet_tasks (caught tf a e w)"
  by (simp add: caught_def)

lemma quiet_then: "quiet_tasks (then_tasks d n f g h)" "quiet_tasks (pipe_tasks d n f' g' h')" "quiet_tasks (piped env n act v)"
  by (auto simp: then_tasks_def pipe_tasks_def piped_def split: option.split)

lemma quiet_adopt: "calm_fn res \<Longrightarrow> quiet_tasks (adoptValue env v res p b)"
  by (auto simp: adoptValue_def split: option.split)

lemma quiet_when: "quiet_tasks (when_start env vs p)" "quiet_tasks (when_rest env p vs w)"
proof -
  have "quiet_tasks (concat xs)" if "\<forall>x \<in> set xs. quiet_tasks x" for xs :: "('a, 'b) dtask list list"
    using that by (induction xs) auto
  then show "quiet_tasks (when_rest env p vs w)"
    by (simp add: when_rest_def quiet_adopt case_prod_beta)
qed (simp add: when_start_def quiet_adopt)

lemma quiet_update: "quiet_tasks (fst (update_value env p i a w))"
  by (simp add: update_value_def Let_def)

lemma unwind_tasks: "calms ts \<Longrightarrow> calms (unwind e w ts) \<and> (\<forall>l. DEnd l \<in> set (unwind e w ts) \<longrightarrow> DEnd l \<in> set ts)"
proof (induction ts)
  case (Cons t ts)
  have "quiet_tasks (caught tf a e w)" for tf :: "'a then_fn" and a by (rule quiet_caught)
  with Cons show ?case
    by (cases t) (auto simp: quiet_tasks_def no_end_def)
qed simp

section \<open>The lists of a deferred\<close>

definition once_list :: "('f dfun, 'v list) cblist \<Rightarrow> bool" where
  "once_list c \<longleftrightarrow> o_once c \<and> o_memory c \<and> \<not> o_unique c \<and> \<not> o_stopOnFalse c \<and> queue c = [] \<and> index c \<ge> -1"

text \<open>Before the firing.\<close>

definition waiting_list :: "nat \<Rightarrow> action \<Rightarrow> ('f dfun, 'v list) cblist \<Rightarrow> bool" where
  "waiting_list d act c \<longleftrightarrow> once_list c \<and> \<not> locked c \<and> \<not> firing c \<and> \<not> fired c \<and> memory c = None \<and> index c = -1 \<and>
     (\<exists>us. items c = Some (state_fns d act @ us) \<and> (\<forall>f \<in> set us. calm_fn f))"

text \<open>After its first functions were called: what is still to be called is calm.\<close>

definition calm_after :: "('f dfun, 'v list) cblist \<Rightarrow> bool" where
  "calm_after c \<longleftrightarrow> (\<forall>i < length (the_items c). index c < int i \<longrightarrow> calm_fn (the_items c ! i))"

definition won_list :: "('f dfun, 'v list) cblist \<Rightarrow> bool" where
  "won_list c \<longleftrightarrow> once_list c \<and> locked c \<and> memory c \<noteq> None \<and> calm_after c \<and> items c \<noteq> None"

definition lost_list :: "('f dfun, 'v list) cblist \<Rightarrow> bool" where
  "lost_list c \<longleftrightarrow> locked c \<and> items c = None \<and> \<not> fired c"

abbreviation cb :: "nat \<Rightarrow> action \<Rightarrow> dlist" where
  "cb d act \<equiv> (d, act, Callback_list)"

definition sets_of :: "nat \<Rightarrow> (dlist \<times> 'f dfun \<times> 'v list) list \<Rightarrow> nat" where
  "sets_of d hs = length (filter (\<lambda>(l, f, a). \<exists>act. f = Set_state d act) hs)"

definition called_from :: "dlist \<Rightarrow> (dlist \<times> 'f dfun \<times> 'v list) list \<Rightarrow> bool" where
  "called_from l hs \<longleftrightarrow> (\<exists>x \<in> set hs. fst x = l)"

lemma sets_simps [simp]: "sets_of d (hs @ gs) = sets_of d hs + sets_of d gs"
  "sets_of d [(l, f, a)] = (case f of Set_state d' act \<Rightarrow> if d' = d then 1 else 0 | _ \<Rightarrow> 0)" "sets_of d [] = 0"
  by (auto simp: sets_of_def split: dfun.split)

lemma called_simps [simp]: "called_from l (hs @ gs) \<longleftrightarrow> called_from l hs \<or> called_from l gs"
  "called_from l [(m, f, a)] \<longleftrightarrow> l = m" "\<not> called_from l []"
  by (auto simp: called_from_def)

lemma sets_calm: "calm_fn f \<Longrightarrow> sets_of d [(l, f, a)] = 0"
  by (cases f) auto

definition pend :: "nat \<Rightarrow> ('f, 'v) dworld \<Rightarrow> bool" where
  "pend d w \<longleftrightarrow> dstate w d = None \<and> sets_of d (history w) = 0 \<and>
     (\<forall>act \<in> {Fulfil, Reject}. waiting_list d act (dlists w (cb d act)) \<and> \<not> called_from (cb d act) (history w))"

definition won :: "nat \<Rightarrow> action \<Rightarrow> ('f, 'v) dworld \<Rightarrow> bool" where
  "won d act w \<longleftrightarrow> act \<noteq> Notify \<and> dstate w d = Some act \<and> sets_of d (history w) = 1 \<and> called_from (cb d act) (history w) \<and>
     won_list (dlists w (cb d act)) \<and> lost_list (dlists w (cb d (other act))) \<and>
     \<not> called_from (cb d (other act)) (history w)"

definition settled :: "nat \<Rightarrow> ('f, 'v) dworld \<Rightarrow> bool" where
  "settled d w \<longleftrightarrow> pend d w \<or> won d Fulfil w \<or> won d Reject w"

definition list_of :: "('f dfun \<Rightarrow> bool) \<Rightarrow> ('f dfun, 'v list) cblist \<Rightarrow> bool" where
  "list_of P c \<longleftrightarrow> index c \<ge> -1 \<and> (\<forall>f \<in> set (the_items c). P f)"

abbreviation calm_list :: "('f dfun, 'v list) cblist \<Rightarrow> bool" where
  "calm_list \<equiv> list_of calm_fn"

definition others_calm :: "('f, 'v) dworld \<Rightarrow> bool" where
  "others_calm w \<longleftrightarrow> (\<forall>l. \<not> core l \<longrightarrow> calm_list (dlists w l))"

definition ends_fired :: "('f, 'v) dtask list \<Rightarrow> ('f, 'v) dworld \<Rightarrow> bool" where
  "ends_fired ts w \<longleftrightarrow> (\<forall>l. DEnd l \<in> set ts \<longrightarrow> fired (dlists w l))"

text \<open>Between the call that sets the state and the one that disables the other list.\<close>

definition deciding :: "nat \<Rightarrow> action \<Rightarrow> ('f, 'v) dtask list \<Rightarrow> ('f, 'v) dworld \<Rightarrow> bool" where
  "deciding d act ts w \<longleftrightarrow> act \<noteq> Notify \<and> sets_of d (history w) = 1 \<and> called_from (cb d act) (history w) \<and>
     \<not> called_from (cb d (other act)) (history w) \<and> waiting_list d (other act) (dlists w (cb d (other act))) \<and>
     (let c = dlists w (cb d act) in once_list c \<and> locked c \<and> firing c \<and> fired c \<and> memory c \<noteq> None \<and>
        (\<exists>us. items c = Some (state_fns d act @ us) \<and> (\<forall>f \<in> set us. calm_fn f)) \<and>
        (index c = 0 \<and> dstate w d = None \<and> (\<exists>us. ts = DSet d act # DEnd (cb d act) # us \<and> calms us) \<or>
         index c = 0 \<and> dstate w d = Some act \<and> (\<exists>us. ts = DEnd (cb d act) # us \<and> calms us) \<or>
         index c = 1 \<and> dstate w d = Some act \<and>
           (\<exists>us. ts = DDisable (cb d (other act)) # DEnd (cb d act) # us \<and> calms us)))"

definition deferreds_ok :: "('f, 'v) dtask list \<times> ('f, 'v) dworld \<Rightarrow> bool" where
  "deferreds_ok s \<longleftrightarrow> (case s of (ts, w) \<Rightarrow> others_calm w \<and> ends_fired ts w \<and>
     (calms ts \<and> (\<forall>d. settled d w) \<or>
      (\<exists>d act. deciding d act ts w \<and> (\<forall>d'. d' \<noteq> d \<longrightarrow> settled d' w))))"

section \<open>Steps on one list\<close>

lemma advance_once: "queue c = [] \<Longrightarrow> advance c =
   (if index c + 1 < int (length (the_items c))
    then (Some (the_items c ! nat (index c + 1), memory c), c\<lparr>index := index c + 1\<rparr>)
    else (None, finish (c\<lparr>index := -1\<rparr>)))"
  by (subst advance.simps) (simp add: Let_def)

lemma finish_fields [simp]:
  "fired (finish c) = fired c" "locked (finish c) = locked c" "queue (finish c) = queue c" "index (finish c) = index c"
  "o_once (finish c) = o_once c" "o_memory (finish c) = o_memory c" "o_unique (finish c) = o_unique c"
  "o_stopOnFalse (finish c) = o_stopOnFalse c"
  by (simp_all add: finish_def Let_def)

lemma finish_items: "set (the_items (finish c)) \<subseteq> set (the_items c)"
  by (auto simp: finish_def Let_def the_items_def split: option.splits)

lemma advance_items:
  "set (the_items (snd (advance c))) \<subseteq> set (the_items c) \<and> fired (snd (advance c)) = fired c \<and>
   (\<forall>f a. fst (advance c) = Some (f, a) \<longrightarrow> index c \<ge> -1 \<longrightarrow> f \<in> set (the_items c))"
proof (induction c rule: advance.induct)
  case (1 c)
  show ?case
  proof (cases "index c + 1 < int (length (the_items c))")
    case True
    then have a: "advance c = (Some (the_items c ! nat (index c + 1), memory c), c\<lparr>index := index c + 1\<rparr>)"
      by (subst advance.simps) (simp add: Let_def)
    have "nat (index c + 1) < length (the_items c)" if "index c \<ge> -1" using True that by simp
    then have "the_items c ! nat (index c + 1) \<in> set (the_items c)" if "index c \<ge> -1" using that by (simp add: nth_mem)
    moreover have "the_items (c\<lparr>index := i\<rparr>) = the_items c" for i by (simp add: the_items_def)
    ultimately show ?thesis unfolding a by auto
  next
    case False
    show ?thesis
    proof (cases "queue c")
      case Nil
      with False show ?thesis
        using finish_items [of "c\<lparr>index := -1\<rparr>"] by (simp add: advance.simps [of c] the_items_def)
    next
      case (Cons a q)
      with False 1 [OF refl False Cons] show ?thesis by (simp add: advance.simps [of c] the_items_def)
    qed
  qed
qed

lemma won_advance:
  assumes "won_list c"
  shows "won_list (snd (advance c)) \<and> (\<forall>f a. fst (advance c) = Some (f, a) \<longrightarrow> calm_fn f)"
proof -
  have q: "queue c = []" "index c \<ge> -1" using assms by (simp_all add: won_list_def once_list_def)
  show ?thesis
  proof (cases "index c + 1 < int (length (the_items c))")
    case True
    moreover have "nat (index c + 1) < length (the_items c)" using True q by simp
    moreover have "calm_fn (the_items c ! nat (index c + 1))"
      using assms True q by (auto simp: won_list_def calm_after_def)
    ultimately show ?thesis
      using assms by (simp add: advance_once q) (auto simp: won_list_def once_list_def calm_after_def the_items_def)
  next
    case False
    with assms show ?thesis
      by (auto simp: advance_once q won_list_def once_list_def calm_after_def finish_def Let_def the_items_def)
  qed
qed

definition touches :: "dlist \<Rightarrow> ('f, 'v) dworld \<Rightarrow> ('f, 'v) dworld \<Rightarrow> bool" where
  "touches l w w1 \<longleftrightarrow> (\<forall>m. m \<noteq> l \<longrightarrow> dlists w1 m = dlists w m) \<and> dstate w1 = dstate w \<and>
     (\<exists>hs. history w1 = history w @ hs \<and> (\<forall>x \<in> set hs. fst x = l \<and> calm_fn (fst (snd x))))"

lemma sets_of_calms: "\<forall>x \<in> set hs. calm_fn (fst (snd x)) \<Longrightarrow> sets_of d hs = 0"
  by (auto simp: sets_of_def filter_empty_conv)

lemma touches_other:
  assumes "touches l w w1" and "l \<noteq> cb d Fulfil" and "l \<noteq> cb d Reject"
  shows "pend d w \<Longrightarrow> pend d w1" and "won d act w \<Longrightarrow> won d act w1"
proof -
  from assms(1) obtain hs where h: "history w1 = history w @ hs" "\<forall>x \<in> set hs. fst x = l \<and> calm_fn (fst (snd x))"
    and e: "dstate w1 = dstate w" "dlists w1 (cb d Fulfil) = dlists w (cb d Fulfil)"
      "dlists w1 (cb d Reject) = dlists w (cb d Reject)"
    using assms(2,3) by (auto simp: touches_def)
  have s: "sets_of d hs = 0" using h(2) by (intro sets_of_calms) auto
  have n: "\<not> called_from (cb d Fulfil) hs" "\<not> called_from (cb d Reject) hs"
    using h(2) assms(2,3) by (auto simp: called_from_def)
  show "pend d w \<Longrightarrow> pend d w1" using h(1) e s n by (simp add: pend_def)
  show "won d act w \<Longrightarrow> won d act w1" using h(1) e s n by (cases act) (auto simp: won_def other_def)
qed

lemma go_effect:
  assumes "\<forall>f a. fst r = Some (f, a) \<longrightarrow> calm_fn f" and "go env l r w = (new, w1)"
  shows "touches l w w1 \<and> dlists w1 l = snd r \<and> calms new \<and> (\<forall>m. DEnd m \<in> set new \<longrightarrow> m = l \<and> fst r \<noteq> None) \<and>
    (fst r = None \<longrightarrow> history w1 = history w)"
proof (cases r)
  case (Pair o1 c)
  show ?thesis
  proof (cases o1)
    case None
    with Pair assms(2) show ?thesis by (auto simp: go_def touches_def put_list_def)
  next
    case (Some fa)
    then obtain f a where o1: "o1 = Some (f, a)" by (cases fa) auto
    then have "calm_fn f" using assms(1) Pair by simp
    then have q: "quiet_tasks (body env f x)" for x by (rule quiet_body)
    with o1 Pair assms(2) \<open>calm_fn f\<close> show ?thesis
      by (auto simp: go_def touches_def put_list_def Let_def quiet_tasks_def no_end_def)
  qed
qed

definition fits :: "dlist \<Rightarrow> ('f dfun \<times> 'v list option) option \<times> ('f dfun, 'v list) cblist \<Rightarrow> ('f, 'v) dworld \<Rightarrow> bool" where
  "fits l r w \<longleftrightarrow> (\<forall>f a. fst r = Some (f, a) \<longrightarrow> calm_fn f) \<and> (fired (dlists w l) \<longrightarrow> fired (snd r)) \<and>
     (fst r \<noteq> None \<longrightarrow> fired (snd r)) \<and>
     (if core l then (\<exists>d act. l = cb d act \<and> act \<noteq> Notify \<and>
          (pend d w \<and> fst r = None \<and> waiting_list d act (snd r) \<or> won d act w \<and> won_list (snd r) \<or>
           won d (other act) w \<and> fst r = None \<and> lost_list (snd r)))
      else calm_list (snd r))"

definition good :: "('f, 'v) dtask list \<Rightarrow> ('f, 'v) dworld \<Rightarrow> ('f, 'v) dworld \<Rightarrow> bool" where
  "good new w w1 \<longleftrightarrow> calms new \<and> others_calm w1 \<and> (\<forall>d. settled d w1) \<and> ends_fired new w1 \<and>
     (\<forall>m. fired (dlists w m) \<longrightarrow> fired (dlists w1 m))"

lemma other_simps [simp]: "other Fulfil = Reject" "other Reject = Fulfil" "other (other act) = act"
  by (simp_all add: other_def split: action.split)

lemma go_fits:
  assumes "fits l r w" and "others_calm w" and "\<forall>d. settled d w" and g: "go env l r w = (new, w1)"
  shows "good new w w1"
proof -
  note e = go_effect [OF _ g]
  have c: "\<forall>f a. fst r = Some (f, a) \<longrightarrow> calm_fn f" using assms(1) by (simp add: fits_def)
  have t: "touches l w w1" and l: "dlists w1 l = snd r" and n: "calms new"
    "\<forall>m. DEnd m \<in> set new \<longrightarrow> m = l \<and> fst r \<noteq> None" "fst r = None \<longrightarrow> history w1 = history w"
    using e [OF c] by blast+
  have o: "m \<noteq> l \<Longrightarrow> dlists w1 m = dlists w m" for m using t by (cases m) (simp add: touches_def)
  have st: "settled d w1" for d
  proof (cases "l = cb d Fulfil \<or> l = cb d Reject")
    case False
    with touches_other [OF t] assms(3) show ?thesis by (metis settled_def)
  next
    case True
    then obtain act where act: "l = cb d act" "act \<noteq> Notify" by auto
    with assms(1) have f: "pend d w \<and> fst r = None \<and> waiting_list d act (snd r) \<or> won d act w \<and> won_list (snd r) \<or>
        won d (other act) w \<and> fst r = None \<and> lost_list (snd r)"
      by (auto simp: fits_def core_def)
    have ol: "dlists w1 (cb d (other act)) = dlists w (cb d (other act))"
      using act by (intro o) (auto simp: other_def split: action.splits)
    obtain hs where h: "history w1 = history w @ hs" "\<forall>x \<in> set hs. fst x = l \<and> calm_fn (fst (snd x))"
      and s2: "dstate w1 = dstate w"
      using t by (auto simp: touches_def)
    have "sets_of d hs = 0" using h(2) by (intro sets_of_calms) auto
    moreover have "\<not> called_from (cb d (other act)) hs"
      using h(2) act by (cases act) (auto simp: called_from_def)
    ultimately have s: "sets_of d (history w1) = sets_of d (history w)" "dstate w1 = dstate w"
      "called_from (cb d act) (history w) \<longrightarrow> called_from (cb d act) (history w1)"
      "called_from (cb d (other act)) (history w1) = called_from (cb d (other act)) (history w)"
      using h(1) s2 by auto
    from f show ?thesis
    proof (elim disjE conjE)
      assume "pend d w" "fst r = None" "waiting_list d act (snd r)"
      with act l ol s n(3) have "pend d w1" by (cases act) (auto simp: pend_def)
      then show ?thesis by (simp add: settled_def)
    next
      assume "won d act w" "won_list (snd r)"
      with act l ol s have "won d act w1" by (auto simp: won_def)
      then show ?thesis using act by (cases act) (auto simp: settled_def)
    next
      assume "won d (other act) w" "fst r = None" "lost_list (snd r)"
      with act l ol s n(3) have "won d (other act) w1" by (auto simp: won_def)
      then show ?thesis using act by (cases act) (auto simp: settled_def)
    qed
  qed
  have oc: "calm_list (dlists w1 m)" if "\<not> core m" for m
  proof (cases "m = l")
    case True
    with assms(1) l that show ?thesis by (auto simp: fits_def)
  next
    case False
    with assms(2) that show ?thesis unfolding o [OF False] others_calm_def by blast
  qed
  have "others_calm w1" using oc by (simp only: others_calm_def) blast
  moreover have "fired (dlists w m) \<Longrightarrow> fired (dlists w1 m)" for m
    using assms(1) o l by (cases "m = l") (auto simp: fits_def)
  moreover have "ends_fired new w1"
    using n(2) assms(1) l by (auto simp: ends_fired_def fits_def)
  ultimately show ?thesis using n(1) st by (auto simp: good_def)
qed

section \<open>The tasks\<close>

lemma push_items: "\<not> o_unique c \<Longrightarrow> fold push_item fs c = (if fs = [] then c else c\<lparr>items := Some (the_items c @ fs)\<rparr>)"
proof (induction fs arbitrary: c)
  case (Cons f fs)
  have p: "push_item f c = c\<lparr>items := Some (the_items c @ [f])\<rparr>" using Cons.prems by (simp add: push_item_def)
  have "the_items (push_item f c) = the_items c @ [f]" by (simp add: p the_items_def)
  with Cons show ?case by (simp add: p)
qed simp

lemma push_any: "set (the_items (fold push_item fs c)) \<subseteq> set (the_items c) \<union> set fs \<and> fired (fold push_item fs c) = fired c \<and>
   index (fold push_item fs c) = index c"
proof (induction fs arbitrary: c)
  case (Cons f fs)
  have "set (the_items (push_item f c)) \<subseteq> insert f (set (the_items c))" "fired (push_item f c) = fired c"
    "index (push_item f c) = index c"
    by (auto simp: push_item_def the_items_def)
  with Cons.IH [of "push_item f c"] show ?case by auto
qed simp

lemma fns_map [simp]: "fns_of (Args (map Fn fs)) = fs"
  by (induction fs) auto

lemma add_any:
  assumes "cb_add (map Fn fs) c = (b, c1)" and "list_of P c" and "\<forall>f \<in> set fs. P f"
  shows "list_of P c1 \<and> fired c1 = fired c"
proof (cases "items c")
  case None
  with assms show ?thesis by (simp add: cb_add_def)
next
  case (Some xs)
  then have x: "the_items c = xs" by (simp add: the_items_def)
  have t: "the_items (c\<lparr>index := i, queue := q\<rparr>) = the_items c" for i q by (simp add: the_items_def)
  show ?thesis
    using assms push_any [of fs c] push_any [of fs "c\<lparr>index := int (length xs) - 1, queue := queue c @ [the (memory c)]\<rparr>"] x t
    by (auto simp: cb_add_def Some Let_def list_of_def simp del: fns_of.simps split: option.splits if_splits)
qed

lemma advance_index: "index c \<ge> -1 \<Longrightarrow> index (snd (advance c)) \<ge> -1"
proof (induction c rule: advance.induct)
  case (1 c)
  show ?case
  proof (cases "index c + 1 < int (length (the_items c))")
    case True
    with 1(2) show ?thesis by (simp add: advance.simps [of c] Let_def)
  next
    case False
    show ?thesis
    proof (cases "queue c")
      case Nil
      with False show ?thesis by (simp add: advance.simps [of c])
    next
      case (Cons a q)
      with False 1(1) [OF refl False Cons] show ?thesis by (simp add: advance.simps [of c])
    qed
  qed
qed

lemma advance_any:
  assumes "list_of P c"
  shows "list_of P (snd (advance c)) \<and> fired (snd (advance c)) = fired c \<and>
    (\<forall>f a. fst (advance c) = Some (f, a) \<longrightarrow> P f)"
  using advance_items [of c] advance_index [of c] assms by (auto simp: list_of_def)

lemma start_any:
  assumes "list_of P c"
  shows "list_of P (snd (fire_start c)) \<and> fired (snd (fire_start c)) \<and>
    (\<forall>f a. fst (fire_start c) = Some (f, a) \<longrightarrow> P f)"
proof (cases "queue c")
  case Nil
  with assms show ?thesis
    using finish_items [of "c\<lparr>locked := locked c \<or> o_once c, fired := True, firing := True\<rparr>"]
    by (auto simp: fire_start_def list_of_def Let_def the_items_def)
next
  case (Cons a q)
  let ?c = "c\<lparr>locked := locked c \<or> o_once c, fired := True, firing := True, memory := Some a, queue := q\<rparr>"
  have "list_of P ?c" using assms by (simp add: list_of_def the_items_def)
  from advance_any [OF this] Cons show ?thesis by (simp add: fire_start_def Let_def)
qed

definition started :: "bool \<times> ('f dfun, 'v list) cblist \<Rightarrow> ('f dfun \<times> 'v list option) option \<times> ('f dfun, 'v list) cblist" where
  "started r = (if fst r then fire_start (snd r) else (None, snd r))"

lemma start_or_go: "start_or env l r w = go env l (started r) w"
  by (simp add: start_or_def started_def go_def)

lemma started_any:
  "list_of P (snd r) \<Longrightarrow> list_of P (snd (started r)) \<and> (fired (snd r) \<longrightarrow> fired (snd (started r))) \<and>
    (fst (started r) \<noteq> None \<longrightarrow> fired (snd (started r))) \<and> (\<forall>f a. fst (started r) = Some (f, a) \<longrightarrow> P f)"
  using start_any [of P "snd r"] by (simp add: started_def)

text \<open>What the operations keep of a list whose functions have a property.\<close>

definition keeps_list :: "('f dfun \<Rightarrow> bool) \<Rightarrow> ('f dfun, 'v list) cblist \<Rightarrow>
    ('f dfun \<times> 'v list option) option \<times> ('f dfun, 'v list) cblist \<Rightarrow> bool" where
  "keeps_list P c r \<longleftrightarrow> list_of P (snd r) \<and> (fired c \<longrightarrow> fired (snd r)) \<and> (\<forall>f a. fst r = Some (f, a) \<longrightarrow> P f)"

lemma list_operations:
  assumes c: "list_of P c"
  shows "\<forall>f \<in> set fs. P f \<Longrightarrow> keeps_list P c (started (cb_add (map Fn fs) c))"
    and "keeps_list P c (started (cb_fireWith a c))" and "keeps_list P c (None, cb_disable c)" and "keeps_list P c (None, cb_lock c)"
    and "keeps_list P c (advance c)"
proof -
  show "keeps_list P c (started (cb_add (map Fn fs) c))" if "\<forall>f \<in> set fs. P f"
  proof -
    have "list_of P (snd (cb_add (map Fn fs) c))" "fired (snd (cb_add (map Fn fs) c)) = fired c"
      using add_any [OF _ c that] by (metis prod.collapse)+
    with started_any [of P "cb_add (map Fn fs) c"] show ?thesis by (simp add: keeps_list_def)
  qed
  have "list_of P (snd (cb_fireWith a c))" "fired (snd (cb_fireWith a c)) = fired c"
    using c by (simp_all add: cb_fireWith_def list_of_def the_items_def Let_def)
  with started_any [of P "cb_fireWith a c"] show "keeps_list P c (started (cb_fireWith a c))"
    by (simp add: keeps_list_def)
  show "keeps_list P c (None, cb_disable c)" "keeps_list P c (None, cb_lock c)"
    using c by (simp_all add: keeps_list_def cb_disable_def cb_lock_def list_of_def the_items_def Let_def)
  show "keeps_list P c (advance c)"
    using advance_any [OF c] by (simp add: keeps_list_def)
qed

lemma start_fired: "fired (snd (fire_start c))"
proof -
  have "fired (snd (advance c)) = fired c" for c :: "('a, 'b) cblist" using advance_items [of c] by blast
  then show ?thesis by (simp add: fire_start_def Let_def split: list.split)
qed

text \<open>On the other lists.\<close>

lemma fits_other:
  assumes "\<not> core l" and "others_calm w"
  shows "\<forall>f \<in> set fs. calm_fn f \<Longrightarrow> fits l (started (cb_add (map Fn fs) (dlists w l))) w"
    and "fits l (started (cb_fireWith a (dlists w l))) w" and "fits l (None, cb_disable (dlists w l)) w"
    and "fits l (None, cb_lock (dlists w l)) w" and "fired (dlists w l) \<Longrightarrow> fits l (advance (dlists w l)) w"
proof -
  have c: "calm_list (dlists w l)" using assms unfolding others_calm_def by blast
  have k: "fits l r w" if "keeps_list calm_fn (dlists w l) r" "fst r \<noteq> None \<longrightarrow> fired (snd r)" for r
    using that assms(1) by (simp add: keeps_list_def fits_def)
  have s: "fst (started r) \<noteq> None \<longrightarrow> fired (snd (started r))" for r :: "bool \<times> ('a dfun, 'b list) cblist"
    by (simp add: started_def start_fired)
  show "fits l (started (cb_add (map Fn fs) (dlists w l))) w" if "\<forall>f \<in> set fs. calm_fn f"
    by (rule k [OF list_operations(1) [OF c that] s])
  show "fits l (started (cb_fireWith a (dlists w l))) w" by (rule k [OF list_operations(2) [OF c] s])
  show "fits l (None, cb_disable (dlists w l)) w" by (rule k [OF list_operations(3) [OF c]]) simp
  show "fits l (None, cb_lock (dlists w l)) w" by (rule k [OF list_operations(4) [OF c]]) simp
  show "fits l (advance (dlists w l)) w" if "fired (dlists w l)"
    using list_operations(5) [OF c] that by (intro k) (simp_all add: keeps_list_def)
qed

text \<open>On the lists that decide.\<close>

lemma fns_none [simp]: "fns_of (Args []) = []"
  by simp

lemma add_waiting:
  assumes "waiting_list d act c" and "\<forall>f \<in> set fs. calm_fn f"
  shows "\<exists>c1. cb_add (map Fn fs) c = (False, c1) \<and> waiting_list d act c1 \<and> fired c1 = fired c"
proof -
  from assms(1) obtain us where i: "items c = Some (state_fns d act @ us)" "\<forall>f \<in> set us. calm_fn f"
    and o: "once_list c" "\<not> locked c" "\<not> firing c" "\<not> fired c" "memory c = None" "index c = -1"
    by (auto simp: waiting_list_def)
  have u: "\<not> o_unique c" using o(1) by (simp add: once_list_def)
  have t: "the_items c = state_fns d act @ us" using i(1) by (simp add: the_items_def)
  have a: "cb_add (map Fn fs) c = (False, if fs = [] then c else c\<lparr>items := Some (state_fns d act @ us @ fs)\<rparr>)"
    using o(5) i(1) by (simp add: cb_add_def Let_def push_items [OF u] t del: fns_of.simps)
  show ?thesis
    unfolding a using assms o i by (auto simp: waiting_list_def once_list_def)
qed

lemma add_won:
  assumes "won_list c" and "\<forall>f \<in> set fs. calm_fn f"
  shows "won_list (snd (started (cb_add (map Fn fs) c))) \<and> (fired c \<longrightarrow> fired (snd (started (cb_add (map Fn fs) c)))) \<and>
    (fst (started (cb_add (map Fn fs) c)) \<noteq> None \<longrightarrow> fired (snd (started (cb_add (map Fn fs) c)))) \<and>
    (\<forall>f a. fst (started (cb_add (map Fn fs) c)) = Some (f, a) \<longrightarrow> calm_fn f)"
proof -
  from assms(1) obtain xs a where i: "items c = Some xs" "memory c = Some a" by (auto simp: won_list_def)
  have o: "o_once c" "o_memory c" "\<not> o_unique c" "\<not> o_stopOnFalse c" "queue c = []" "index c \<ge> -1" "locked c"
    and s: "calm_after c"
    using assms(1) by (simp_all add: won_list_def once_list_def)
  have t: "the_items c = xs" using i by (simp add: the_items_def)
  show ?thesis
  proof (cases "firing c")
    case True
    then have a: "started (cb_add (map Fn fs) c) = (None, if fs = [] then c else c\<lparr>items := Some (xs @ fs)\<rparr>)"
      using i by (simp add: started_def cb_add_def Let_def push_items [OF o(3)] t del: fns_of.simps)
    show ?thesis
      unfolding a using assms o i s t
      by (auto simp: won_list_def once_list_def calm_after_def the_items_def nth_append)
  next
    case False
    let ?c = "c\<lparr>index := int (length xs) - 1, items := Some (xs @ fs), locked := True, fired := True, firing := True,
      memory := Some a, queue := []\<rparr>"
    have b: "started (cb_add (map Fn fs) c) = advance ?c"
      using i o False
      by (cases c; cases "fs = []") (simp_all add: started_def cb_add_def Let_def push_items t the_items_def fire_start_def del: fns_of.simps)
    have "won_list ?c"
      using assms(2) o by (auto simp: won_list_def once_list_def calm_after_def the_items_def nth_append)
    from won_advance [OF this] advance_items [of ?c] show ?thesis unfolding b by simp
  qed
qed

lemma fits_deciding:
  assumes "act \<noteq> Notify" and "pend d w \<or> won d act w \<or> won d (other act) w"
  shows "\<forall>f \<in> set fs. calm_fn f \<Longrightarrow> fits (cb d act) (started (cb_add (map Fn fs) (dlists w (cb d act)))) w"
    and "\<not> pend d w \<Longrightarrow> fits (cb d act) (started (cb_fireWith a (dlists w (cb d act)))) w"
    and "fired (dlists w (cb d act)) \<Longrightarrow> fits (cb d act) (advance (dlists w (cb d act))) w"
proof -
  let ?l = "cb d act"
  let ?c = "dlists w ?l"
  have k: "core ?l" using assms(1) by (simp add: core_def)
  show "fits ?l (started (cb_add (map Fn fs) ?c)) w" if fs: "\<forall>f \<in> set fs. calm_fn f"
    using assms(2)
  proof (elim disjE)
    assume p: "pend d w"
    with assms(1) have "waiting_list d act ?c" by (cases act) (auto simp: pend_def)
    from add_waiting [OF this fs] obtain c1 where "cb_add (map Fn fs) ?c = (False, c1)" "waiting_list d act c1"
      "fired c1 = fired ?c" by blast
    with p k assms(1) show ?thesis by (auto simp: fits_def started_def)
  next
    assume p: "won d act w"
    then have "won_list ?c" by (simp add: won_def)
    from add_won [OF this fs] p k assms(1) show ?thesis by (auto simp: fits_def)
  next
    assume p: "won d (other act) w"
    then have "lost_list ?c" by (simp add: won_def)
    with p k assms(1) show ?thesis by (auto simp: fits_def started_def cb_add_def lost_list_def)
  qed
  show "fits ?l (started (cb_fireWith a ?c)) w" if "\<not> pend d w"
    using assms(2)
  proof (elim disjE)
    assume "pend d w" with that show ?thesis by simp
  next
    assume p: "won d act w"
    then have "won_list ?c" by (simp add: won_def)
    with p k assms(1) show ?thesis by (auto simp: fits_def started_def cb_fireWith_def won_list_def)
  next
    assume p: "won d (other act) w"
    then have "lost_list ?c" by (simp add: won_def)
    with p k assms(1) show ?thesis by (auto simp: fits_def started_def cb_fireWith_def lost_list_def)
  qed
  show "fits ?l (advance ?c) w" if f: "fired ?c"
    using assms(2)
  proof (elim disjE)
    assume p: "pend d w"
    with assms(1) f show ?thesis by (cases act) (auto simp: pend_def waiting_list_def)
  next
    assume p: "won d act w"
    then have "won_list ?c" by (simp add: won_def)
    from won_advance [OF this] advance_items [of ?c] p k f assms(1) show ?thesis by (auto simp: fits_def)
  next
    assume p: "won d (other act) w"
    with f show ?thesis by (simp add: won_def lost_list_def)
  qed
qed

lemma core_cases:
  assumes "core l" and "\<forall>d. settled d w"
  obtains d act where "l = cb d act" "act \<noteq> Notify" "pend d w \<or> won d act w \<or> won d (other act) w"
proof (cases l)
  case (fields d act k)
  with assms(1) have "l = cb d act" "act \<noteq> Notify" by (simp_all add: core_def)
  moreover have "pend d w \<or> won d act w \<or> won d (other act) w"
    using assms(2) \<open>act \<noteq> Notify\<close> by (cases act) (auto simp: settled_def)
  ultimately show thesis by (rule that)
qed

lemma fits_add:
  "others_calm w \<Longrightarrow> \<forall>d. settled d w \<Longrightarrow> \<forall>f \<in> set fs. calm_fn f \<Longrightarrow> fits l (started (cb_add (map Fn fs) (dlists w l))) w"
  by (cases "core l") (auto elim!: core_cases intro: fits_deciding(1) fits_other(1))

lemma fits_end:
  "others_calm w \<Longrightarrow> \<forall>d. settled d w \<Longrightarrow> fired (dlists w l) \<Longrightarrow> fits l (advance (dlists w l)) w"
  by (cases "core l") (auto elim!: core_cases intro: fits_deciding(3) fits_other(5))

lemma fits_fire:
  assumes "others_calm w" and "\<forall>d. settled d w"
  shows "fits l (started (cb_fireWith a (dlists w l))) w \<or> (\<exists>d act. l = cb d act \<and> act \<noteq> Notify \<and> pend d w)"
proof (cases "core l")
  case True
  from core_cases [OF this assms(2)] obtain d act where "l = cb d act" "act \<noteq> Notify" "pend d w \<or> won d act w \<or> won d (other act) w"
    by blast
  then show ?thesis using fits_deciding(2) [of act d w a] by blast
next
  case False
  with assms(1) show ?thesis by (blast intro: fits_other(2))
qed

section \<open>Steps\<close>

definition works_on_lists :: "('f, 'v) dtask \<Rightarrow> bool" where
  "works_on_lists t \<longleftrightarrow> (\<exists>l fs. t = DAdd l fs) \<or> (\<exists>l a. t = DFire l a) \<or> (\<exists>l. t = DEnd l \<or> t = DDisable l \<or> t = DLock l)"

lemma run_plain:
  assumes "calm t" and "\<not> works_on_lists t" and "run_task env t w = (new, w1)"
  shows "quiet_tasks new \<and> dlists w1 = dlists w \<and> dstate w1 = dstate w \<and> history w1 = history w"
proof (cases t)
  case (DReturned tf a v)
  have "dlists (snd (returned_value env tf a v w)) = dlists w" "dstate (snd (returned_value env tf a v w)) = dstate w"
    "history (snd (returned_value env tf a v w)) = history w"
    by (auto simp: returned_value_def Let_def split: option.split)
  with DReturned assms(3) quiet_returned [of env tf a v w] show ?thesis by simp
next
  case (DCount p i a)
  have "dlists (snd (update_value env p i a w)) = dlists w" "dstate (snd (update_value env p i a w)) = dstate w"
    "history (snd (update_value env p i a w)) = history w"
    by (auto simp: update_value_def Let_def)
  with DCount assms(3) quiet_update [of env p i a w] show ?thesis by simp
next
  case (DWhen vs)
  with assms(3) quiet_when(1) [of env vs "next_id w"] show ?thesis by (auto simp: Let_def)
qed (use assms in \<open>auto simp: works_on_lists_def quiet_body quiet_process quiet_then quiet_when\<close>)

lemma same_settled:
  "dlists w1 = dlists w \<Longrightarrow> dstate w1 = dstate w \<Longrightarrow> history w1 = history w \<Longrightarrow> settled d w1 = settled d w"
  by (simp add: settled_def pend_def won_def)

lemma good_plain:
  assumes "quiet_tasks new" and "dlists w1 = dlists w" "dstate w1 = dstate w" "history w1 = history w"
    and "others_calm w" and "\<forall>d. settled d w"
  shows "good new w w1"
  using assms same_settled [OF assms(2-4)]
  unfolding good_def quiet_tasks_def no_end_def ends_fired_def others_calm_def by simp

lemma good_ok:
  assumes "good new w w1" and "calms ts" and "ends_fired ts w"
  shows "deferreds_ok (new @ ts, w1)"
  using assms unfolding deferreds_ok_def good_def ends_fired_def by auto

lemma good_task:
  assumes "calm t" and "others_calm w" and "\<forall>d. settled d w" and "ends_fired (t # ts) w"
    and r: "run_task env t w = (new, w1)" and "\<nexists>d act a. t = DFire (cb d act) a \<and> act \<noteq> Notify \<and> pend d w"
  shows "good new w w1"
proof (cases "works_on_lists t")
  case False
  from run_plain [OF assms(1) False r] good_plain assms(2,3) show ?thesis by blast
next
  case True
  then consider l fs where "t = DAdd l fs" | l a where "t = DFire l a" | l where "t = DEnd l"
    | l where "t = DDisable l" | l where "t = DLock l"
    by (auto simp: works_on_lists_def)
  then show ?thesis
  proof cases
    case 1
    with r have "go env l (started (cb_add (map Fn fs) (dlists w l))) w = (new, w1)" by (simp add: start_or_go)
    with go_fits [OF fits_add assms(2,3)] assms(1-3) 1 show ?thesis by simp
  next
    case 2
    with r have g: "go env l (started (cb_fireWith a (dlists w l))) w = (new, w1)" by (simp add: start_or_go)
    from fits_fire [OF assms(2,3), of l a] assms(6) 2 have "fits l (started (cb_fireWith a (dlists w l))) w" by auto
    from go_fits [OF this assms(2,3) g] show ?thesis .
  next
    case 3
    with assms(4) have "fired (dlists w l)" unfolding ends_fired_def by (metis list.set_intros(1))
    from go_fits [OF fits_end [OF assms(2,3) this] assms(2,3)] r 3 show ?thesis by simp
  next
    case 4
    with r have "go env l (None, cb_disable (dlists w l)) w = (new, w1)" by (simp add: go_def)
    with go_fits [OF fits_other(3) assms(2,3)] assms(1,2) 4 show ?thesis by simp
  next
    case 5
    with r have "go env l (None, cb_lock (dlists w l)) w = (new, w1)" by (simp add: go_def)
    with go_fits [OF fits_other(4) assms(2,3)] assms(1,2) 5 show ?thesis by simp
  qed
qed

text \<open>The first call of a deciding list.\<close>

lemma frame_settled:
  assumes "\<forall>act. dlists w1 (cb d act) = dlists w (cb d act)" and "dstate w1 d = dstate w d"
    and "sets_of d (history w1) = sets_of d (history w)"
    and "\<forall>act. called_from (cb d act) (history w1) = called_from (cb d act) (history w)"
  shows "settled d w1 = settled d w"
  using assms by (simp add: settled_def pend_def won_def)

lemma fire_decides:
  assumes "pend d w" and "act \<noteq> Notify" and "others_calm w" and "\<forall>d. settled d w" and "calms ts" and "ends_fired ts w"
    and r: "run_task env (DFire (cb d act) a) w = (new, w1)"
  shows "deferreds_ok (new @ ts, w1)"
proof -
  let ?c = "dlists w (cb d act)"
  from assms(1,2) have wt: "waiting_list d act ?c" "waiting_list d (other act) (dlists w (cb d (other act)))"
    and h: "\<not> called_from (cb d (other act)) (history w)"
    by (cases act; simp add: pend_def)+
  from wt(1) obtain us where i: "items ?c = Some (state_fns d act @ us)" "\<forall>f \<in> set us. calm_fn f"
    and o: "once_list ?c" "\<not> locked ?c" "\<not> firing ?c" "\<not> fired ?c" "memory ?c = None" "index ?c = -1"
    by (auto simp: waiting_list_def)
  let ?c1 = "?c\<lparr>queue := [], locked := True, fired := True, firing := True, memory := Some a, index := 0\<rparr>"
  have q: "queue ?c = []" "o_once ?c" using o(1) by (simp_all add: once_list_def)
  have t: "the_items (?c\<lparr>locked := True, fired := True, firing := True, memory := Some a, queue := []\<rparr>) = state_fns d act @ us"
    using i(1) by (simp add: the_items_def)
  have "started (cb_fireWith a ?c) = (Some (Set_state d act, Some a), ?c1)"
    using o q t by (simp add: started_def cb_fireWith_def Let_def fire_start_def advance_once state_fns_def)
  with r have n: "new = [DSet d act, DEnd (cb d act)]"
    and w1: "w1 = (put_list (cb d act) ?c1 w)\<lparr>history := history w @ [(cb d act, Set_state d act, a)]\<rparr>"
    by (auto simp: start_or_go go_def)
  have "deciding d act (new @ ts) w1"
    using assms(1,2,5) wt(2) h i o unfolding n w1 deciding_def
    by (cases act) (auto simp: put_list_def Let_def once_list_def pend_def)
  moreover have "settled d' w1" if "d' \<noteq> d" for d'
    using frame_settled [of w1 d' w] assms(4) that unfolding w1 by (simp add: put_list_def)
  moreover have "others_calm w1"
    using assms(2,3) unfolding w1 others_calm_def by (auto simp: put_list_def core_def)
  moreover have "ends_fired (new @ ts) w1"
    using assms(6) unfolding n w1 by (auto simp: ends_fired_def put_list_def)
  ultimately show ?thesis unfolding deferreds_ok_def by auto
qed

lemma step_calm:
  assumes "others_calm w" and "\<forall>d. settled d w" and "calms ts" and "ends_fired ts w"
  shows "deferreds_ok (dstep env (ts, w))"
proof (cases ts)
  case Nil
  with assms show ?thesis by (simp add: deferreds_ok_def)
next
  case (Cons t us)
  have c: "calm t" "calms us" using assms(3) Cons by simp_all
  have e: "ends_fired us w" using assms(4) Cons unfolding ends_fired_def by simp
  show ?thesis
  proof (cases "\<exists>v. t = DThrow v")
    case True
    then obtain v where "t = DThrow v" by blast
    with Cons have s: "dstep env (ts, w) = (unwind v w us, w)" by simp
    from unwind_tasks [OF c(2), of v w] e have "calms (unwind v w us)" "ends_fired (unwind v w us) w"
      unfolding ends_fired_def by blast+
    with assms(1,2) show ?thesis unfolding s deferreds_ok_def by simp
  next
    case False
    obtain new w1 where r: "run_task env t w = (new, w1)" by (cases "run_task env t w")
    have s: "dstep env (ts, w) = (new @ us, w1)"
      using False r Cons by (cases t) auto
    show ?thesis
    proof (cases "\<exists>d act a. t = DFire (cb d act) a \<and> act \<noteq> Notify \<and> pend d w")
      case True
      with fire_decides [OF _ _ assms(1,2) c(2) e] r show ?thesis unfolding s by blast
    next
      case f: False
      from good_task [OF c(1) assms(1,2) _ r f] assms(4) Cons have "good new w w1" by simp
      from good_ok [OF this c(2) e] show ?thesis unfolding s .
    qed
  qed
qed

lemma deciding_fields:
  assumes "deciding d act ts w"
  shows "act \<noteq> Notify" "sets_of d (history w) = 1" "called_from (cb d act) (history w)"
    "\<not> called_from (cb d (other act)) (history w)" "waiting_list d (other act) (dlists w (cb d (other act)))"
    "once_list (dlists w (cb d act))" "locked (dlists w (cb d act))" "firing (dlists w (cb d act))"
    "fired (dlists w (cb d act))" "memory (dlists w (cb d act)) \<noteq> None"
  using assms unfolding deciding_def Let_def by simp_all

lemma deciding_items:
  assumes "deciding d act ts w"
  obtains us where "the_items (dlists w (cb d act)) = state_fns d act @ us" "items (dlists w (cb d act)) = Some (state_fns d act @ us)"
    "\<forall>f \<in> set us. calm_fn f"
  using assms unfolding deciding_def Let_def by (auto simp: the_items_def)

lemma deciding_phase:
  assumes "deciding d act ts w"
  obtains
    (state) us where "index (dlists w (cb d act)) = 0" "dstate w d = None" "ts = DSet d act # DEnd (cb d act) # us" "calms us"
  | (ended) us where "index (dlists w (cb d act)) = 0" "dstate w d = Some act" "ts = DEnd (cb d act) # us" "calms us"
  | (disable) us where "index (dlists w (cb d act)) = 1" "dstate w d = Some act"
      "ts = DDisable (cb d (other act)) # DEnd (cb d act) # us" "calms us"
proof -
  let ?i = "index (dlists w (cb d act))"
  from assms consider "?i = 0 \<and> dstate w d = None \<and> (\<exists>us. ts = DSet d act # DEnd (cb d act) # us \<and> calms us)"
    | "?i = 0 \<and> dstate w d = Some act \<and> (\<exists>us. ts = DEnd (cb d act) # us \<and> calms us)"
    | "?i = 1 \<and> dstate w d = Some act \<and> (\<exists>us. ts = DDisable (cb d (other act)) # DEnd (cb d act) # us \<and> calms us)"
    unfolding deciding_def Let_def by argo
  then show thesis
    by cases (elim conjE exE, erule state ended disable; assumption)+
qed

lemma other_neq: "act \<noteq> Notify \<Longrightarrow> other act \<noteq> act" "act \<noteq> Notify \<Longrightarrow> act \<noteq> other act" "act \<noteq> Notify \<Longrightarrow> other act \<noteq> Notify"
  by (cases act; simp)+

lemma step_state:
  assumes d: "deciding d act ts w" and ts: "ts = DSet d act # DEnd (cb d act) # us" "calms us"
    and p: "index (dlists w (cb d act)) = 0" and o: "others_calm w" "ends_fired ts w" "\<forall>d'. d' \<noteq> d \<longrightarrow> settled d' w"
  shows "deferreds_ok (dstep env (ts, w))"
proof -
  let ?w = "w\<lparr>dstate := (dstate w)(d := Some act)\<rparr>"
  have s: "dstep env (ts, w) = (DEnd (cb d act) # us, ?w)" by (simp add: ts)
  from deciding_items [OF d] obtain xs where "items (dlists w (cb d act)) = Some (state_fns d act @ xs)"
    "\<forall>f \<in> set xs. calm_fn f" by metis
  with deciding_fields [OF d] p ts(2) have "deciding d act (DEnd (cb d act) # us) ?w"
    unfolding deciding_def Let_def by simp
  moreover have "others_calm ?w" "ends_fired (DEnd (cb d act) # us) ?w"
    using o(1,2) unfolding others_calm_def ends_fired_def ts by simp_all
  moreover have "\<forall>d'. d' \<noteq> d \<longrightarrow> settled d' ?w"
    using o(3) frame_settled [of ?w _ w] by simp
  ultimately show ?thesis unfolding s deferreds_ok_def by blast
qed

lemma step_ended:
  assumes d: "deciding d act ts w" and ts: "ts = DEnd (cb d act) # us" "calms us"
    and p: "index (dlists w (cb d act)) = 0" "dstate w d = Some act"
    and o: "others_calm w" "ends_fired ts w" "\<forall>d'. d' \<noteq> d \<longrightarrow> settled d' w"
  shows "deferreds_ok (dstep env (ts, w))"
proof -
  let ?c = "dlists w (cb d act)"
  let ?f = "Disable_list (cb d (other act)) :: 'a dfun"
  note f = deciding_fields [OF d]
  from deciding_items [OF d] obtain xs where i: "the_items ?c = state_fns d act @ xs" "items ?c = Some (state_fns d act @ xs)"
    "\<forall>f \<in> set xs. calm_fn f" .
  have "advance ?c = (Some (?f, memory ?c), ?c\<lparr>index := 1\<rparr>)"
    using f(6) by (simp add: advance_once once_list_def i(1) p(1) state_fns_def)
  then obtain a where s: "dstep env (ts, w) = (DDisable (cb d (other act)) # DEnd (cb d act) # us,
      (put_list (cb d act) (?c\<lparr>index := 1\<rparr>) w)\<lparr>history := history w @ [(cb d act, ?f, a)]\<rparr>)" (is "_ = (?ts, ?w)")
    by (simp add: ts go_def)
  have l: "dlists ?w (cb d act) = ?c\<lparr>index := 1\<rparr>" "dlists ?w (cb d (other act)) = dlists w (cb d (other act))"
    using other_neq [OF f(1)] by (simp_all add: put_list_def)
  have h: "sets_of d (history ?w) = 1" "called_from (cb d act) (history ?w)" "\<not> called_from (cb d (other act)) (history ?w)"
    using f(2-4) other_neq [OF f(1)] by (simp_all add: put_list_def)
  have "dstate ?w d = Some act" using p(2) by (simp add: put_list_def)
  moreover have "\<exists>us'. ?ts = DDisable (cb d (other act)) # DEnd (cb d act) # us' \<and> calms us'" using ts(2) by blast
  moreover have "once_list (?c\<lparr>index := 1\<rparr>)" using f(6) by (simp add: once_list_def)
  moreover have "\<exists>us. items (?c\<lparr>index := 1\<rparr>) = Some (state_fns d act @ us) \<and> (\<forall>f \<in> set us. calm_fn f)"
    using i(2,3) by simp
  moreover have "index (?c\<lparr>index := 1\<rparr>) = 1" "locked (?c\<lparr>index := 1\<rparr>)" "firing (?c\<lparr>index := 1\<rparr>)" "fired (?c\<lparr>index := 1\<rparr>)"
    "memory (?c\<lparr>index := 1\<rparr>) \<noteq> None"
    using f(7-10) by simp_all
  ultimately have "deciding d act ?ts ?w"
    using f(1,5) h unfolding deciding_def Let_def l by (intro conjI disjI2) assumption+
  moreover have "others_calm ?w" "ends_fired ?ts ?w"
    using o(1,2) f(1) unfolding others_calm_def ends_fired_def ts by (auto simp: put_list_def core_def)
  moreover have "settled d' ?w" if "d' \<noteq> d" for d'
  proof -
    have "settled d' ?w = settled d' w"
      by (rule frame_settled) (use that in \<open>auto simp: put_list_def\<close>)
    with o(3) that show ?thesis by blast
  qed
  ultimately show ?thesis unfolding s deferreds_ok_def by blast
qed

lemma step_disable:
  assumes d: "deciding d act ts w" and ts: "ts = DDisable (cb d (other act)) # DEnd (cb d act) # us" "calms us"
    and p: "index (dlists w (cb d act)) = 1" "dstate w d = Some act"
    and o: "others_calm w" "ends_fired ts w" "\<forall>d'. d' \<noteq> d \<longrightarrow> settled d' w"
  shows "deferreds_ok (dstep env (ts, w))"
proof -
  let ?l = "cb d (other act)"
  let ?w = "put_list ?l (cb_disable (dlists w ?l)) w"
  note f = deciding_fields [OF d]
  have s: "dstep env (ts, w) = (DEnd (cb d act) # us, ?w)" by (simp add: ts)
  from deciding_items [OF d] obtain xs where i: "the_items (dlists w (cb d act)) = state_fns d act @ xs"
    "items (dlists w (cb d act)) = Some (state_fns d act @ xs)" "\<forall>f \<in> set xs. calm_fn f" .
  have "calm_fn ((state_fns d act @ xs) ! n)" if "1 < n" "n < length (state_fns d act @ xs)" for n
  proof (cases "n < 5")
    case True
    with that have "n = 2 \<or> n = 3 \<or> n = 4" by arith
    then show ?thesis by (auto simp: state_fns_def core_def)
  next
    case False
    with that i(3) show ?thesis by (simp add: nth_append state_fns_def)
  qed
  then have "calm_after (dlists w (cb d act))" unfolding calm_after_def i(1) p(1) by simp
  with f i(2) have "won_list (dlists w (cb d act))" by (simp add: won_list_def)
  moreover have "lost_list (cb_disable (dlists w ?l))"
    using f(5) by (simp add: lost_list_def cb_disable_def waiting_list_def)
  ultimately have "won d act ?w"
    using f(1-4) p(2) other_neq [OF f(1)] by (simp add: won_def put_list_def)
  then have "settled d ?w" using f(1) by (cases act) (simp_all add: settled_def)
  moreover have "settled d' ?w" if "d' \<noteq> d" for d'
  proof -
    have "settled d' ?w = settled d' w"
      by (rule frame_settled) (use that in \<open>auto simp: put_list_def\<close>)
    with o(3) that show ?thesis by blast
  qed
  ultimately have "\<forall>d. settled d ?w" by metis
  moreover have "others_calm ?w" "ends_fired (DEnd (cb d act) # us) ?w"
    using o(1,2) other_neq [OF f(1)] f(5) unfolding others_calm_def ends_fired_def ts
    by (auto simp: put_list_def core_def cb_disable_def waiting_list_def)
  ultimately show ?thesis unfolding s deferreds_ok_def using ts(2) by simp
qed

lemma step_ok:
  assumes "deferreds_ok s"
  shows "deferreds_ok (dstep env s)"
proof (cases s)
  case (Pair ts w)
  with assms have o: "others_calm w" "ends_fired ts w" by (simp_all add: deferreds_ok_def)
  from assms Pair consider "calms ts" "\<forall>d. settled d w"
    | d act where "deciding d act ts w" "\<forall>d'. d' \<noteq> d \<longrightarrow> settled d' w"
    by (auto simp: deferreds_ok_def)
  then show ?thesis
  proof cases
    case 1
    with step_calm [OF o(1)] o(2) Pair show ?thesis by simp
  next
    case 2
    from 2(1) show ?thesis
    proof (cases rule: deciding_phase)
      case (state us)
      from step_state [OF 2(1) state(3,4,1) o 2(2)] show ?thesis unfolding Pair .
    next
      case (ended us)
      from step_ended [OF 2(1) ended(3,4,1,2) o 2(2)] show ?thesis unfolding Pair .
    next
      case (disable us)
      from step_disable [OF 2(1) disable(3,4,1,2) o 2(2)] show ?thesis unfolding Pair .
    qed
  qed
qed

lemma event_ok:
  assumes "deferreds_ok s" and "devent env s t"
  shows "deferreds_ok t"
  using assms(2,1)
proof cases
  case step
  with step_ok [OF assms(1)] show ?thesis by simp
next
  case (page w ops)
  with assms(1) have "others_calm w" "\<forall>d. settled d w"
    by (auto simp: deferreds_ok_def deciding_def Let_def)
  then show ?thesis using page quiet_api [of ops]
    by (simp add: deferreds_ok_def quiet_tasks_def no_end_def ends_fired_def)
next
  case (timer w p tf a q)
  with assms(1) have "others_calm w" "\<forall>d. settled d w"
    by (auto simp: deferreds_ok_def deciding_def Let_def)
  moreover have "settled d (w\<lparr>timers := p @ q\<rparr>) = settled d w" for d by (rule same_settled) simp_all
  ultimately show ?thesis using timer
    by (simp add: deferreds_ok_def ends_fired_def others_calm_def)
qed

section \<open>The start\<close>

lemma once_memory:
  "createOptions (js ''once memory'') (js ''once'')" "createOptions (js ''once memory'') (js ''memory'')"
  "\<not> createOptions (js ''once memory'') (js ''unique'')" "\<not> createOptions (js ''once memory'') (js ''stopOnFalse'')"
  "\<not> createOptions (js ''memory'') (js ''unique'')"
  by code_simp+

lemma fns_one [simp]: "fns_of (Args [Fn f]) = [f]"
  by simp

lemma new_core: "act \<noteq> Notify \<Longrightarrow> waiting_list d act (new_list (cb d act))"
  by (simp add: new_list_def list_options_def Let_def cb_add_def Callbacks_def once_memory push_items the_items_def
      waiting_list_def once_list_def push_item_def del: fns_of.simps)

lemma new_other: "\<not> core l \<Longrightarrow> calm_list (new_list l)"
  by (cases l; cases "snd (snd l)")
    (auto simp: new_list_def list_options_def Let_def cb_add_def Callbacks_def once_memory push_items the_items_def
      list_of_def core_def push_item_def simp del: fns_of.simps)

text \<open>The new lists, computed.\<close>

lemma memory_options:
  "createOptions (js ''memory'') (js ''memory'')" "\<not> createOptions (js ''memory'') (js ''once'')"
  "\<not> createOptions (js ''memory'') (js ''stopOnFalse'')"
  by code_simp+

definition computed_list :: "bool \<Rightarrow> 'f dfun list \<Rightarrow> ('f dfun, 'v list) cblist" where
  "computed_list once fs = \<lparr>o_once = once, o_memory = True, o_unique = False, o_stopOnFalse = False, firing = False,
     memory = None, fired = False, locked = False, items = Some fs, queue = [], index = -1\<rparr>"

lemma new_list_code [code]:
  "new_list (d, act, kind) = computed_list (act \<noteq> Notify)
     (case kind of Handler_list \<Rightarrow> []
      | Callback_list \<Rightarrow> (if act \<noteq> Notify then state_fns d act else []) @ [Fire_list (d, act, Handler_list)])"
  by (cases kind; cases "act = Notify")
    (simp_all add: new_list_def list_options_def Let_def cb_add_def Callbacks_def once_memory memory_options push_items
      push_item_def the_items_def computed_list_def del: fns_of.simps)

lemma new_ok: "deferreds_ok ([], new_world)"
  by (simp add: deferreds_ok_def others_calm_def new_world_def new_other ends_fired_def settled_def pend_def new_core)

interpretation deferreds: machine "\<lambda>s. s = ([], new_world)" "devent env" deferreds_ok
  by unfold_locales (auto simp: new_ok intro: event_ok)

section \<open>Properties\<close>

lemma state_kept:
  assumes ok: "deferreds_ok s" and "devent env s t" and "dstate (snd s) d = Some act"
  shows "dstate (snd t) d = Some act"
proof (rule ccontr)
  assume n: "dstate (snd t) d \<noteq> Some act"
  have "dstate (snd (dstep env s)) = dstate (snd s) \<or> (\<exists>d act us. fst s = DSet d act # us)" for s :: "('a, 'b) dtask list \<times> ('a, 'b) dworld"
  proof (cases s)
    case (Pair ts w)
    have g: "go env l r w = (new, w1) \<Longrightarrow> dstate w1 = dstate w" for l r new w1
      by (auto simp: go_def put_list_def Let_def split: prod.splits option.splits)
    show ?thesis
    proof (cases ts)
      case (Cons u us)
      then show ?thesis unfolding Pair
        by (cases u) (auto simp: start_or_go put_list_def returned_value_def update_value_def Let_def dest: g split: prod.split option.split)
    qed (simp add: Pair)
  qed
  with assms(2,3) n obtain d' act' us where "fst s = DSet d' act' # us" "t = dstep env s"
    by (auto elim!: devent.cases) metis+
  with ok n assms(3) show False
    by (cases s) (auto simp: deferreds_ok_def deciding_def Let_def split: if_splits)
qed

lemma settled_facts:
  assumes "settled d w"
  shows "sets_of d (history w) \<le> 1 \<and> \<not> (called_from (cb d Fulfil) (history w) \<and> called_from (cb d Reject) (history w)) \<and>
    (dstate w d = Some act \<longrightarrow> called_from (cb d act) (history w))"
  using assms by (auto simp: settled_def pend_def won_def)

lemma deciding_facts:
  assumes "deciding d act' ts w"
  shows "sets_of d (history w) \<le> 1 \<and> \<not> (called_from (cb d Fulfil) (history w) \<and> called_from (cb d Reject) (history w)) \<and>
    (dstate w d = Some act \<longrightarrow> called_from (cb d act) (history w))"
  using deciding_fields(1-4) [OF assms] assms
  by (cases act') (auto simp: deciding_def Let_def)

lemma ok_facts:
  assumes "deferreds_ok s"
  shows "sets_of d (history (snd s)) \<le> 1 \<and>
    \<not> (called_from (cb d Fulfil) (history (snd s)) \<and> called_from (cb d Reject) (history (snd s))) \<and>
    (dstate (snd s) d = Some act \<longrightarrow> called_from (cb d act) (history (snd s)))"
proof (cases s)
  case (Pair ts w)
  with assms have "settled d w \<or> (\<exists>act. deciding d act ts w)" unfolding deferreds_ok_def by auto metis
  with Pair settled_facts deciding_facts show ?thesis by (metis snd_conv)
qed

text \<open>
  C5. In every history of deferreds, whatever the functions of the page do with them while lists fire, however
  calls nest, throw or wait for timers: the state of a deferred is set at most once and is kept from then on,
  no deferred has both callbacks of \<open>done\<close> and callbacks of \<open>fail\<close> called, and a state that is set is the one of
  the list that was fired.
\<close>

theorem deferred_settles_once:
  assumes "reachable (\<lambda>s. s = ([], new_world)) (devent env) s"
  shows "sets_of d (history (snd s)) \<le> 1 \<and>
    \<not> (called_from (cb d Fulfil) (history (snd s)) \<and> called_from (cb d Reject) (history (snd s))) \<and>
    (dstate (snd s) d = Some act \<longrightarrow> called_from (cb d act) (history (snd s)) \<and>
      (\<forall>t. devent env s t \<longrightarrow> dstate (snd t) d = Some act))"
proof -
  note ok = deferreds.always [OF assms]
  from ok_facts [OF ok] state_kept [OF ok] show ?thesis by blast
qed

text \<open>A page that adds a callback, resolves the deferred and then rejects it; the callback rejects it too.\<close>

definition settle_env :: "(nat, nat) denv" where
  "settle_env = \<lparr>user = \<lambda>f a. ([Api_fire 0 Reject [f]], Inr f), promise_of = \<lambda>_. None, undef = 0, typeError = 1,
     array = \<lambda>_. 2\<rparr>"

definition settle_sample :: "nat \<Rightarrow> (nat, nat) dtask list \<times> (nat, nat) dworld" where
  "settle_sample n = (dstep settle_env ^^ n)
     (map api_task [Api_add 0 Fulfil [7], Api_fire 0 Fulfil [5], Api_fire 0 Reject [6]], new_world)"

lemma sample_reachable: "reachable (\<lambda>s. s = ([], new_world)) (devent settle_env) (settle_sample n)"
proof (induction n)
  case 0
  have "reachable (\<lambda>s. s = ([], new_world)) (devent settle_env) ([], new_world)"
    by (rule reachable.start) simp
  from reachable.event [OF this devent.page] show ?case unfolding settle_sample_def funpow_0 .
next
  case (Suc n)
  from reachable.event [OF Suc devent.step] show ?case by (simp add: settle_sample_def)
qed

theorem deferred_settles_once_witness:
  "dstate (snd (settle_sample 18)) 0 = Some Fulfil \<and> fst (settle_sample 18) = [] \<and>
   sets_of 0 (history (snd (settle_sample 18))) \<le> 1 \<and> called_from (cb 0 Fulfil) (history (snd (settle_sample 18)))"
proof -
  have "case settle_sample 18 of (ts, w) \<Rightarrow> ts = [] \<and> dstate w 0 = Some Fulfil" by code_simp
  then have e: "dstate (snd (settle_sample 18)) 0 = Some Fulfil" "fst (settle_sample 18) = []" by (simp_all add: case_prod_beta)
  with deferred_settles_once [OF sample_reachable, of 0 18 Fulfil] show ?thesis by simp
qed

end
