(* ===== verification/JqThen.thy ===== *)
theory JqThen
  imports JqSettle
begin

text \<open>
  \<open>then\<close> of theory \<open>JqDeferred\<close>: its handlers are called from timers only, and what a handler returns or throws
  settles the deferred that \<open>then\<close> makes.
\<close>

section \<open>Handlers are called from timers\<close>

text \<open>
  The functions of \<open>then\<close> with a positive depth, which run at once, have the handlers of the library.
\<close>

primrec async_fn :: "'f then_fn \<Rightarrow> bool" and async_handler :: "'f handler_fn \<Rightarrow> bool" where
  "async_fn (Then_fn k n h s) \<longleftrightarrow> async_handler h \<and> (k > 0 \<longrightarrow> h = Identity \<or> h = Thrower)"
| "async_handler Identity \<longleftrightarrow> True"
| "async_handler Thrower \<longleftrightarrow> True"
| "async_handler (Page_fn f) \<longleftrightarrow> True"
| "async_handler (Then_handler tf) \<longleftrightarrow> async_fn tf"

primrec async_dfun :: "'f dfun \<Rightarrow> bool" where
  "async_dfun (Set_state d act) \<longleftrightarrow> True"
| "async_dfun (Disable_list l) \<longleftrightarrow> True"
| "async_dfun (Lock_list l) \<longleftrightarrow> True"
| "async_dfun (Fire_list l) \<longleftrightarrow> True"
| "async_dfun (Then_cb tf) \<longleftrightarrow> async_fn tf"
| "async_dfun (Pipe_cb n act f) \<longleftrightarrow> True"
| "async_dfun (Update p i) \<longleftrightarrow> True"
| "async_dfun (User f) \<longleftrightarrow> True"

fun async :: "('f, 'v) dtask \<Rightarrow> bool" where
  "async (DAdd l fs) \<longleftrightarrow> (\<forall>f \<in> set fs. async_dfun f)"
| "async (DCall f a) \<longleftrightarrow> async_dfun f"
| "async (DTimer tf a) \<longleftrightarrow> async_fn tf"
| "async (DProcess tf a) \<longleftrightarrow> async_fn tf \<and> (handler tf = Identity \<or> handler tf = Thrower)"
| "async (DThen d f g h) \<longleftrightarrow> pred_option async_handler f \<and> pred_option async_handler g \<and> pred_option async_handler h"
| "async _ \<longleftrightarrow> True"

definition asyncs :: "('f, 'v) dtask list \<Rightarrow> bool" where
  "asyncs ts \<longleftrightarrow> (\<forall>t \<in> set ts. async t)"

lemma asyncs_simps [simp]:
  "asyncs []" "asyncs (t # ts) \<longleftrightarrow> async t \<and> asyncs ts" "asyncs (ts @ us) \<longleftrightarrow> asyncs ts \<and> asyncs us"
  by (auto simp: asyncs_def)

lemma async_api: "async (api_task p)"
  by (cases p) (auto simp: option.pred_map pred_option_def)

lemma asyncs_api: "asyncs (map api_task ops)"
  by (simp add: asyncs_def async_api)

lemma async_page_call: "(\<And>v. asyncs (k v)) \<Longrightarrow> asyncs (page_call env f a k)"
  by (auto simp: page_call_def asyncs_api split: prod.splits sum.splits)

lemma async_then_call: "async_fn tf \<Longrightarrow> asyncs (then_call tf a)"
  by (cases tf) (auto simp: then_call_def)

lemma async_body: "async_dfun f \<Longrightarrow> asyncs (body env f a)"
  by (cases f) (auto simp: async_then_call async_page_call split: option.split)

lemma async_process: "async_fn tf \<Longrightarrow> asyncs (process env tf a w)"
  by (cases tf) (auto simp: process_def async_then_call async_page_call split: handler_fn.split)

lemma async_returned: "asyncs (fst (returned_value env tf a v w))"
  by (auto simp: returned_value_def Let_def split: option.split)

lemma async_then: "pred_option async_handler f \<Longrightarrow> pred_option async_handler g \<Longrightarrow> pred_option async_handler h \<Longrightarrow>
    asyncs (then_tasks d n f g h)"
  "asyncs (pipe_tasks d n f' g' h')" "asyncs (piped env n act v)"
  by (auto simp: then_tasks_def pipe_tasks_def piped_def split: option.split)

lemma async_adopt: "async_dfun res \<Longrightarrow> asyncs (adoptValue env v res p b)"
  by (auto simp: adoptValue_def split: option.split)

lemma async_when: "asyncs (when_start env vs p)" "asyncs (when_rest env p vs w)"
proof -
  have "asyncs (concat xs)" if "\<forall>x \<in> set xs. asyncs x" for xs :: "('a, 'b) dtask list list"
    using that by (induction xs) auto
  then show "asyncs (when_rest env p vs w)"
    by (simp add: when_rest_def async_adopt case_prod_beta)
qed (simp add: when_start_def async_adopt)

lemma async_update: "asyncs (fst (update_value env p i a w))"
  by (simp add: update_value_def Let_def)

lemma async_unwind: "asyncs ts \<Longrightarrow> asyncs (unwind e w ts)"
proof (induction ts)
  case (Cons t ts)
  then show ?case by (cases t) (auto simp: caught_def)
qed simp

definition async_world :: "('f, 'v) dworld \<Rightarrow> bool" where
  "async_world w \<longleftrightarrow> (\<forall>l. list_of async_dfun (dlists w l)) \<and> (\<forall>x \<in> set (timers w). async_fn (fst x))"

definition async_ok :: "('f, 'v) dtask list \<times> ('f, 'v) dworld \<Rightarrow> bool" where
  "async_ok s \<longleftrightarrow> async_world (snd s) \<and> (asyncs (fst s) \<or> (\<exists>tf a. async_fn tf \<and> fst s = [DProcess tf a]))"

lemma go_async:
  assumes "async_world w" and "keeps_list async_dfun (dlists w l) r" and "go env l r w = (new, w1)"
  shows "asyncs new \<and> async_world w1"
proof (cases r)
  case (Pair x c)
  show ?thesis
  proof (cases x)
    case None
    with Pair assms show ?thesis by (auto simp: go_def async_world_def keeps_list_def put_list_def)
  next
    case (Some fa)
    with Pair assms show ?thesis
      by (cases fa) (auto simp: go_def async_world_def keeps_list_def put_list_def Let_def async_body)
  qed
qed

lemma run_async:
  assumes t: "async t \<or> (\<exists>tf a. t = DProcess tf a \<and> async_fn tf)" and w: "async_world w" and r: "run_task env t w = (new, w1)"
  shows "asyncs new \<and> async_world w1"
proof -
  have c: "list_of async_dfun (dlists w l)" for l using w unfolding async_world_def by blast
  show ?thesis
  proof (cases t)
    case (DAdd l fs)
    with r t go_async [OF w list_operations(1) [OF c]] show ?thesis by (simp add: start_or_go)
  next
    case (DFire l a)
    with r go_async [OF w list_operations(2) [OF c]] show ?thesis by (simp add: start_or_go)
  next
    case (DDisable l)
    with r have "go env l (None, cb_disable (dlists w l)) w = (new, w1)" by (simp add: go_def)
    from go_async [OF w list_operations(3) [OF c] this] show ?thesis .
  next
    case (DLock l)
    with r have "go env l (None, cb_lock (dlists w l)) w = (new, w1)" by (simp add: go_def)
    from go_async [OF w list_operations(4) [OF c] this] show ?thesis .
  next
    case (DEnd l)
    with r go_async [OF w list_operations(5) [OF c]] show ?thesis by simp
  next
    case (DReturned tf a v)
    have "async_world (snd (returned_value env tf a v w))"
      using w by (auto simp: returned_value_def Let_def async_world_def split: option.split)
    with DReturned r async_returned [of env tf a v w] show ?thesis by simp
  next
    case (DCount p i a)
    have "async_world (snd (update_value env p i a w))"
      using w by (auto simp: update_value_def Let_def async_world_def)
    with DCount r async_update [of env p i a w] show ?thesis by simp
  qed (use w t r in \<open>auto simp: async_world_def Let_def async_body async_process async_then async_when\<close>)
qed

lemma step_async:
  assumes "async_ok s"
  shows "async_ok (dstep env s)"
proof (cases s)
  case (Pair ts w)
  with assms have w: "async_world w" and a: "asyncs ts \<or> (\<exists>tf a. async_fn tf \<and> ts = [DProcess tf a])"
    by (simp_all add: async_ok_def)
  show ?thesis
  proof (cases ts)
    case Nil
    with Pair assms show ?thesis by simp
  next
    case (Cons t us)
    then have t: "async t \<or> (\<exists>tf a. t = DProcess tf a \<and> async_fn tf)" and us: "asyncs us" using a by auto
    show ?thesis
    proof (cases "\<exists>v. t = DThrow v")
      case True
      with Pair Cons w async_unwind [OF us] show ?thesis by (auto simp: async_ok_def)
    next
      case False
      obtain new w1 where r: "run_task env t w = (new, w1)" by (cases "run_task env t w")
      have "dstep env s = (new @ us, w1)" using False r Cons Pair by (cases t) auto
      with run_async [OF t w r] us show ?thesis by (simp add: async_ok_def)
    qed
  qed
qed

lemma event_async:
  assumes "async_ok s" and "devent env s t"
  shows "async_ok t"
  using assms(2)
proof cases
  case step
  with step_async [OF assms(1)] show ?thesis by simp
next
  case (page w ops)
  with assms(1) show ?thesis by (simp add: async_ok_def asyncs_api)
next
  case (timer w p tf a q)
  with assms(1) show ?thesis by (auto simp: async_ok_def async_world_def)
qed

lemma new_list_of:
  assumes "\<forall>f \<in> set (state_fns d act). P f" and "P (Fire_list (d, act, Handler_list))"
  shows "list_of P (new_list (d, act, k))"
proof -
  let ?c = "Callbacks (createOptions (list_options act)) :: ('a dfun, 'b list) cblist"
  have add: "list_of P c \<Longrightarrow> \<forall>f \<in> set fs. P f \<Longrightarrow> list_of P (snd (cb_add (map Fn fs) c))" for c :: "('a dfun, 'b list) cblist" and fs
    using add_any [of fs c "fst (cb_add (map Fn fs) c)" "snd (cb_add (map Fn fs) c)" P] by simp
  have c: "list_of P ?c" by (simp add: list_of_def Callbacks_def the_items_def)
  have f: "list_of P c \<Longrightarrow> list_of P (snd (cb_add [Fn (Fire_list (d, act, Handler_list))] c))" for c :: "('a dfun, 'b list) cblist"
    using add [of c "[Fire_list (d, act, Handler_list)]"] assms(2) by simp
  show ?thesis
    using c f [OF c] f [OF add [OF c assms(1)]] by (cases k; cases "act = Notify") (simp_all add: new_list_def Let_def)
qed

lemma new_async: "async_ok ([], new_world)"
  by (auto simp: async_ok_def async_world_def new_world_def new_list_of state_fns_def)

interpretation handlers: machine "\<lambda>s. s = ([], new_world)" "devent env" async_ok
  by unfold_locales (auto simp: new_async intro: event_async)

text \<open>
  C7. A function of the page that was given to \<open>then\<close> as a handler is called by a timer with nothing else left
  to run, never within a call of \<open>then\<close>, of \<open>resolve\<close> or of another function, in every history.
\<close>

theorem then_handlers_asynchronous:
  assumes "reachable (\<lambda>s. s = ([], new_world)) (devent env) s" and "DProcess tf a \<in> set (fst s)"
    and "handler tf = Page_fn f"
  shows "fst s = [DProcess tf a]"
proof -
  have "async_ok s" by (rule handlers.always [OF assms(1)])
  with assms(2,3) show ?thesis by (fastforce simp: async_ok_def asyncs_def)
qed

text \<open>A page that asks for the progress of deferred 5 with \<open>then\<close> and notifies it.\<close>

definition progress_env :: "(nat, nat) denv" where
  "progress_env = \<lparr>user = \<lambda>f a. ([], Inr f), promise_of = \<lambda>_. None, undef = 0, typeError = 1, array = \<lambda>_. 2\<rparr>"

definition progress_run :: "nat \<Rightarrow> (nat, nat) dtask list \<times> (nat, nat) dworld" where
  "progress_run n = (dstep progress_env ^^ n) (map api_task [Api_then 5 None None (Some 7), Api_fire 5 Notify [4]], new_world)"

lemma progress_reachable: "reachable (\<lambda>s. s = ([], new_world)) (devent progress_env) (progress_run n)"
proof (induction n)
  case 0
  have "reachable (\<lambda>s. s = ([], new_world)) (devent progress_env) ([], new_world)"
    by (rule reachable.start) simp
  from reachable.event [OF this devent.page] show ?case unfolding progress_run_def funpow_0 .
next
  case (Suc n)
  from reachable.event [OF Suc devent.step] show ?case by (simp add: progress_run_def)
qed

lemma progress_waits: "fst (progress_run 9) = []" "timers (snd (progress_run 9)) = [(Then_fn 0 0 (Page_fn 7) True, [4])]"
  by code_simp+

theorem then_handlers_asynchronous_witness:
  "\<exists>s. reachable (\<lambda>s. s = ([], new_world)) (devent progress_env) s \<and> fst s = [DProcess (Then_fn 0 0 (Page_fn 7) True) [4]]"
proof -
  obtain w where p: "progress_run 9 = ([], w)" "timers w = [] @ (Then_fn 0 0 (Page_fn 7) True, [4]) # []"
    using progress_waits by (cases "progress_run 9") simp
  from reachable.event [OF progress_reachable [of 9, unfolded p(1)] devent.timer [OF p(2)]]
  have r: "reachable (\<lambda>s. s = ([], new_world)) (devent progress_env)
      ([DProcess (Then_fn 0 0 (Page_fn 7) True) [4]], w\<lparr>timers := [] @ []\<rparr>)" .
  from then_handlers_asynchronous [OF r, of "Then_fn 0 0 (Page_fn 7) True" "[4]" 7] r show ?thesis by auto
qed

section \<open>Settling a deferred\<close>

text \<open>A deferred nobody has touched.\<close>

definition fresh_deferred :: "nat \<Rightarrow> ('f, 'v) dworld \<Rightarrow> bool" where
  "fresh_deferred d w \<longleftrightarrow> (\<forall>act kind. dlists w (d, act, kind) = new_list (d, act, kind)) \<and> dstate w d = None"

lemma settle_run:
  assumes "fresh_deferred d w" and "act \<noteq> Notify"
  shows "\<exists>w1. (dstep env ^^ 13) (DFire (cb d act) a # ts, w) = (ts, w1) \<and> dstate w1 d = Some act \<and>
    memory (dlists w1 (cb d act)) = Some a \<and> dstate w1 = (dstate w)(d := Some act) \<and> maxDepth w1 = maxDepth w"
  using assms
  by (cases act)
    (simp_all add: eval_nat_numeral funpow_swap1 fresh_deferred_def new_list_code computed_list_def start_or_go started_def
      cb_fireWith_def fire_start_def advance_once go_def put_list_def state_fns_def the_items_def
      cb_disable_def cb_lock_def finish_def)

text \<open>What the handler comes to, in the terms of the promises specification: a value or an exception.\<close>

definition handler_result :: "('f, 'v) denv \<Rightarrow> 'f handler_fn \<Rightarrow> 'v list \<Rightarrow> 'v + 'v" where
  "handler_result env h a = (case h of
       Page_fn f \<Rightarrow> snd (user env f a)
     | Thrower \<Rightarrow> Inl (first_arg env a)
     | _ \<Rightarrow> Inr (first_arg env a))"

definition settled_with :: "nat \<Rightarrow> action \<Rightarrow> 'v list \<Rightarrow> ('f, 'v) dworld \<Rightarrow> bool" where
  "settled_with d act a w \<longleftrightarrow> dstate w d = Some act \<and> memory (dlists w (cb d act)) = Some a"

text \<open>The deferred \<open>n\<close> waits for \<open>d\<close>.\<close>

definition waits_for :: "nat \<Rightarrow> nat \<Rightarrow> nat \<Rightarrow> ('f, 'v) dworld \<Rightarrow> bool" where
  "waits_for n d m w \<longleftrightarrow> dstate w n = None \<and>
     items (dlists w (d, Fulfil, Handler_list)) =
       Some [Then_cb (Then_fn 0 m (Then_handler (Then_fn (maxDepth w n) n Identity False)) False)] \<and>
     items (dlists w (d, Reject, Handler_list)) =
       Some [Then_cb (Then_fn 0 m (Then_handler (Then_fn (maxDepth w n) n Thrower False)) False)]"

definition simple_handler :: "('f, 'v) denv \<Rightarrow> 'f then_fn \<Rightarrow> 'v list \<Rightarrow> bool" where
  "simple_handler env tf a \<longleftrightarrow> \<not> special tf \<and>
     (case handler tf of Page_fn f \<Rightarrow> fst (user env f a) = [] | Then_handler _ \<Rightarrow> False | _ \<Rightarrow> True)"

lemma run_more: "(dstep env ^^ j) s = t \<Longrightarrow> (dstep env ^^ k) t = u \<Longrightarrow> (dstep env ^^ (k + j)) s = u"
  by (simp add: funpow_add)

lemma settle_then_catch:
  assumes "fresh_deferred n w" and "act \<noteq> Notify"
  shows "\<exists>w1. (dstep env ^^ 14) (DFire (cb n act) a # DCatch tf b # ts, w) = (ts, w1) \<and> settled_with n act a w1"
proof -
  from settle_run [OF assms, of env a "DCatch tf b # ts"] obtain w1 where
    r: "(dstep env ^^ 13) (DFire (cb n act) a # DCatch tf b # ts, w) = (DCatch tf b # ts, w1)" and
    s: "settled_with n act a w1"
    by (auto simp: settled_with_def)
  have "(dstep env ^^ 1) (DCatch tf b # ts, w1) = (ts, w1)" by simp
  from run_more [OF r this] s show ?thesis by auto
qed

lemma result_step:
  assumes "simple_handler env tf a" and "maxDepth w (target tf) \<le> depth tf"
  shows "dstep env (DProcess tf a # ts, w) =
    ((case handler_result env (handler tf) a of Inl e \<Rightarrow> DThrow e | Inr v \<Rightarrow> DReturned tf a v) # DCatch tf a # ts, w)"
  using assms
  by (cases "handler tf") (auto simp: process_def simple_handler_def handler_result_def page_call_def split: prod.split sum.split)

lemma wait_run:
  assumes "fresh_deferred d w" and "dstate w n = None" and "maxDepth w n = k"
  shows "\<exists>w1. (dstep env ^^ 5) (DThen d (Some (Then_handler (Then_fn k n Identity False)))
      (Some (Then_handler (Then_fn k n Thrower False))) h # DCatch tf a # ts, w) = (ts, w1) \<and> waits_for n d (next_id w) w1"
  using assms
  by (simp add: eval_nat_numeral funpow_swap1 fresh_deferred_def new_list_code computed_list_def start_or_go started_def
      then_tasks_def cb_add_def Let_def push_item_def go_def put_list_def the_items_def waits_for_def)

text \<open>The four outcomes.\<close>

definition settles :: "('f, 'v) denv \<Rightarrow> ('f, 'v) dtask list \<times> ('f, 'v) dworld \<Rightarrow> ('f, 'v) dtask list \<Rightarrow>
    (('f, 'v) dworld \<Rightarrow> bool) \<Rightarrow> bool" where
  "settles env s ts P \<longleftrightarrow> (\<exists>k w1. (dstep env ^^ k) s = (ts, w1) \<and> P w1)"

lemma settlesI: "(dstep env ^^ k) s = (ts, w1) \<Longrightarrow> P w1 \<Longrightarrow> settles env s ts P"
  by (auto simp: settles_def)

lemma settle_now:
  assumes "fresh_deferred d w" and "act \<noteq> Notify" and r: "(dstep env ^^ j) s = (DFire (cb d act) a # ts, w)"
  shows "settles env s ts (settled_with d act a)"
proof -
  from settle_run [OF assms(1,2), of env a ts] obtain w1 where
    "(dstep env ^^ 13) (DFire (cb d act) a # ts, w) = (ts, w1)" "settled_with d act a w1"
    by (auto simp: settled_with_def)
  with run_more [OF r this(1)] show ?thesis by (auto intro: settlesI)
qed

lemma thrown:
  assumes "fresh_deferred (target tf) w" and h: "simple_handler env tf a" "maxDepth w (target tf) \<le> depth tf"
    and e: "handler_result env (handler tf) a = Inl e"
  shows "settles env (DProcess tf a # ts, w) ts (settled_with (target tf) Reject (if handler tf = Thrower then a else [e]))"
proof (rule settle_now [OF assms(1)])
  show "(dstep env ^^ 2) (DProcess tf a # ts, w) = (DFire (cb (target tf) Reject) (if handler tf = Thrower then a else [e]) # ts, w)"
    using result_step [OF h, of ts] e h(2) by (simp add: eval_nat_numeral funpow_swap1 caught_def)
qed simp

lemma own_promise:
  assumes "fresh_deferred (target tf) w" and h: "simple_handler env tf a" "maxDepth w (target tf) \<le> depth tf"
    and v: "handler_result env (handler tf) a = Inr v" "promise_of env v = Some (target tf)"
  shows "settles env (DProcess tf a # ts, w) ts (settled_with (target tf) Reject [typeError env])"
proof (rule settle_now [OF assms(1)])
  have "handler tf \<noteq> Thrower" using v(1) by (auto simp: handler_result_def)
  then show "(dstep env ^^ 3) (DProcess tf a # ts, w) = (DFire (cb (target tf) Reject) [typeError env] # ts, w)"
    using result_step [OF h, of ts] v h by (simp add: eval_nat_numeral funpow_swap1 returned_value_def caught_def)
qed simp

lemma plain_value:
  assumes n: "fresh_deferred (target tf) w" and h: "simple_handler env tf a" "maxDepth w (target tf) \<le> depth tf"
    and v: "handler_result env (handler tf) a = Inr v" "promise_of env v = None"
  shows "settles env (DProcess tf a # ts, w) ts (settled_with (target tf) Fulfil (if handler tf = Identity then a else [v]))"
proof -
  let ?a = "if handler tf = Identity then a else [v]"
  have r: "(dstep env ^^ 2) (DProcess tf a # ts, w) = (DFire (cb (target tf) Fulfil) ?a # DCatch tf a # ts, w)"
    using result_step [OF h, of ts] v h(1) by (simp add: eval_nat_numeral funpow_swap1 returned_value_def simple_handler_def)
  from settle_then_catch [OF n, of Fulfil env ?a tf a ts] obtain w1 where
    "(dstep env ^^ 14) (DFire (cb (target tf) Fulfil) ?a # DCatch tf a # ts, w) = (ts, w1)"
    "settled_with (target tf) Fulfil ?a w1"
    by blast
  with run_more [OF r this(1)] show ?thesis by (auto intro: settlesI)
qed

lemma other_promise:
  assumes n: "fresh_deferred (target tf) w" and h: "simple_handler env tf a" "maxDepth w (target tf) \<le> depth tf"
    and v: "handler_result env (handler tf) a = Inr v" "promise_of env v = Some d" and d: "d \<noteq> target tf" "fresh_deferred d w"
  shows "settles env (DProcess tf a # ts, w) ts (waits_for (target tf) d (next_id w))"
proof -
  let ?n = "Suc (maxDepth w (target tf))"
  let ?w = "w\<lparr>maxDepth := (maxDepth w)(target tf := ?n)\<rparr>"
  let ?T = "DThen d (Some (Then_handler (Then_fn ?n (target tf) Identity False)))
    (Some (Then_handler (Then_fn ?n (target tf) Thrower False))) (Some (Then_handler (Then_fn ?n (target tf) Identity True)))"
  have r: "(dstep env ^^ 2) (DProcess tf a # ts, w) = (?T # DCatch tf a # ts, ?w)"
    using result_step [OF h, of ts] v d(1) h(1)
    by (simp add: eval_nat_numeral funpow_swap1 returned_value_def simple_handler_def Let_def)
  have "fresh_deferred d ?w" "dstate ?w (target tf) = None" using d n by (simp_all add: fresh_deferred_def)
  from wait_run [OF this, of ?n env "Some (Then_handler (Then_fn ?n (target tf) Identity True))" tf a ts] obtain w1 where
    w1: "(dstep env ^^ 5) (?T # DCatch tf a # ts, ?w) = (ts, w1)" "waits_for (target tf) d (next_id w) w1"
    by auto
  with run_more [OF r w1(1)] show ?thesis by (auto intro: settlesI)
qed


text \<open>A handler that throws its argument, and one that returns it, on the first deferred.\<close>

definition throwing_env :: "(bool, nat) denv" where
  "throwing_env = \<lparr>user = \<lambda>f a. ([], if f then Inl 3 else Inr 4), promise_of = \<lambda>_. None, undef = 0, typeError = 1,
     array = \<lambda>_. 2\<rparr>"


end
