(* ===== verification/JqEvents.thy ===== *)
theory JqEvents
  imports JqData JqCallbacks "HOL-Library.AList" "HOL-Library.List_Lexorder"
begin

text \<open>
  \<open>html/jquery-3.6.1.js\<close>, events: \<open>on\<close>, \<open>one\<close>, \<open>off\<close>, \<open>trigger\<close> and what they are made of (\<open>jQuery.event\<close>
  with \<open>add\<close>, \<open>remove\<close>, \<open>dispatch\<close> and \<open>handlers\<close>, and \<open>jQuery.Event\<close>).

  Record \<open>evworld\<close> holds what the code keeps: the handler lists of the elements, the types an element listens to,
  the unique numbers of functions, and the event objects, which are numbered.  Functions of the page are the
  parameter \<open>user\<close>: what a call does with events before it ends, and how it ends.  A machine runs the code, its
  stack is what is left to run.  The document is the parameter \<open>ev_env\<close>: it does not change while handlers run.

  The table of special types is a parameter; \<open>library_special\<close> has the entries of the library that work without a
  native event (the types that enter and leave, the types of focus, \<open>load\<close>).  Left out: the handlers that
  \<open>leverageNative\<close> adds for focus and for the clicks of check boxes, hooks of the page that add or remove handlers
  themselves, objects in place of a handler, and, in place of a function, values that are none.
\<close>

section \<open>State\<close>

text \<open>Functions: those of the page, the wrapper that \<open>one\<close> makes, and \<open>returnFalse\<close>.\<close>

datatype 'f efn = Fun 'f | One "'f efn" | Return_false

text \<open>Arguments of \<open>on\<close>.\<close>

datatype ('f, 'v) earg = Undefined | Text jstr | Func "'f efn" | False_arg | Data 'v

record ('f, 'v) handle_obj =
  bound_type :: jstr
  origType :: jstr
  data_of :: "('f, 'v) earg"
  handler_of :: "'f efn"
  guid_of :: nat
  selector :: "jstr option"
  needsContext :: bool
  namespace :: jstr

record ('f, 'v) hlist =
  listed :: "('f, 'v) handle_obj list"
  delegateCount :: int

record ('e, 'f, 'v) event =
  type_of :: jstr
  target_of :: 'e
  ev_namespace :: jstr
  rnamespace :: "jstr list option"
  isTrigger :: nat
  prevented :: bool
  stopped :: bool
  stopped_now :: bool
  result :: "'v option"
  delegateTarget :: "'e option"
  currentTarget :: "'e option"
  handleObj :: "('f, 'v) handle_obj option"
  relatedTarget :: "'e option"
  button :: int

record ('e, 'f, 'v) evworld =
  events :: "'e \<Rightarrow> (jstr \<times> ('f, 'v) hlist) list option"
  listening :: "'e \<Rightarrow> jstr \<Rightarrow> bool"
  guids :: "'f efn \<Rightarrow> nat option"
  next_guid :: nat
  used_types :: "jstr \<Rightarrow> bool"
  event_at :: "nat \<Rightarrow> ('e, 'f, 'v) event"
  made :: nat
  triggered :: "jstr option"
  calls_made :: "(nat \<times> 'e \<times> ('f, 'v) handle_obj) list"
  defaults :: "('e \<times> jstr) list"

text \<open>An entry of the table of special types; a hook that is there says whether it returns false.\<close>

record ('e, 'f, 'v) special =
  delegateType :: "jstr option"
  bindType :: "jstr option"
  noBubble :: bool
  setup_hook :: "('e \<Rightarrow> bool) option"
  teardown_hook :: "('e \<Rightarrow> bool) option"
  trigger_hook :: "('e \<Rightarrow> bool) option"
  preDispatch :: "('e \<Rightarrow> bool) option"
  default_hook :: "(('e, 'f, 'v) event \<Rightarrow> bool) option"
  enters :: bool

definition plain_special :: "('e, 'f, 'v) special" where
  "plain_special = \<lparr>delegateType = None, bindType = None, noBubble = False, setup_hook = None, teardown_hook = None,
     trigger_hook = None, preDispatch = None, default_hook = None, enters = False\<rparr>"

text \<open>What handlers do, and how they end.\<close>

datatype ('e, 'f, 'v) eop =
    Op_on 'e jstr "('f, 'v) earg" "('f, 'v) earg" "('f, 'v) earg" bool
  | Op_off 'e jstr "('f, 'v) earg" "('f, 'v) earg"
  | Op_trigger 'e "jstr + nat" "'v list" bool
  | Op_off_event nat
  | Op_prevent nat
  | Op_stop nat
  | Op_stop_now nat

record ('e, 'f, 'v) ev_env =
  user :: "'f \<Rightarrow> 'e \<Rightarrow> nat \<Rightarrow> ('e, 'f, 'v) event \<Rightarrow> 'v list \<Rightarrow> ('e, 'f, 'v) eop list \<times> ('v + 'v option)"
  is_false :: "'v \<Rightarrow> bool"
  false_value :: 'v
  truthy :: "'v \<Rightarrow> bool"
  node_type :: "'e \<Rightarrow> int option"
  is_disabled :: "'e \<Rightarrow> bool"
  ancestors :: "'e \<Rightarrow> 'e list"
  matches :: "'e \<Rightarrow> bool \<Rightarrow> jstr \<Rightarrow> 'e \<Rightarrow> bool"
  contains :: "'e \<Rightarrow> 'e \<Rightarrow> bool"
  valid_selector :: "jstr \<Rightarrow> bool"
  context_selector :: "jstr \<Rightarrow> bool"
  special_of :: "jstr \<Rightarrow> ('e, 'f, 'v) special"
  is_window :: "'e \<Rightarrow> bool"
  document_of :: "'e \<Rightarrow> 'e"
  view_of :: "'e \<Rightarrow> 'e"
  inline_handler :: "'e \<Rightarrow> jstr \<Rightarrow> 'f option"
  native_method :: "'e \<Rightarrow> jstr \<Rightarrow> bool"

section \<open>Types, namespaces and unique numbers\<close>

definition rtypenamespace :: re where
  "rtypenamespace = Cat Bol (Cat (Grp 1 (Star (Cls (\<lambda>c. c \<noteq> cu CHR ''.''))))
     (Alt (Cat (lit ''.'') (Grp 2 (Plus dot))) Eps))"

text \<open>The type and the text of the namespaces of a word.\<close>

definition split_type :: "jstr \<Rightarrow> jstr \<times> jstr option" where
  "split_type word = (case match_groups rtypenamespace word of
       Some [_, Some t, n] \<Rightarrow> (t, n)
     | _ \<Rightarrow> ([], None))"

definition event_words :: "jstr \<Rightarrow> jstr list" where
  "event_words types = (if words types = [] then [[]] else words types)"

definition namespaces :: "jstr option \<Rightarrow> jstr list" where
  "namespaces n = sort (split_char (cu CHR ''.'') (case n of None \<Rightarrow> [] | Some s \<Rightarrow> s))"

text \<open>
  The regular expression of some namespaces; the text of a namespace stands for itself in it, which is so unless
  it has characters with a meaning in regular expressions.
\<close>

fun units :: "jstr \<Rightarrow> re" where
  "units [] = Eps"
| "units (c # cs) = Cat (Cls (\<lambda>d. d = c)) (units cs)"

fun in_between :: "jstr list \<Rightarrow> re" where
  "in_between [] = Eps"
| "in_between [n] = units n"
| "in_between (n # ns) = Cat (units n) (Cat (lit ''.'') (Cat (Alt (Cat (Star dot) (lit ''.'')) Eps) (in_between ns)))"

definition namespace_re :: "jstr list \<Rightarrow> re" where
  "namespace_re ns = Cat (Alt Bol (lit ''.'')) (Cat (in_between ns) (Alt (lit ''.'') Eol))"

definition in_namespace :: "jstr list \<Rightarrow> jstr \<Rightarrow> bool" where
  "in_namespace ns s \<longleftrightarrow> search (namespace_re ns) s \<noteq> None"

text \<open>A wrapper has the number of the function it wraps.\<close>

primrec unwrapped :: "'f efn \<Rightarrow> 'f efn" where
  "unwrapped (Fun f) = Fun f"
| "unwrapped (One g) = unwrapped g"
| "unwrapped Return_false = Return_false"

definition guid_for :: "'f efn \<Rightarrow> ('e, 'f, 'v) evworld \<Rightarrow> nat \<times> ('e, 'f, 'v) evworld" where
  "guid_for f w = (case guids w (unwrapped f) of
       Some g \<Rightarrow> (g, w)
     | None \<Rightarrow> (next_guid w, w\<lparr>guids := (guids w)(unwrapped f \<mapsto> next_guid w), next_guid := Suc (next_guid w)\<rparr>))"

section \<open>Adding handlers\<close>

definition mapped_type :: "('e, 'f, 'v) ev_env \<Rightarrow> jstr option \<Rightarrow> jstr \<Rightarrow> jstr" where
  "mapped_type env sel t =
     (let sp = special_of env t in
      case (if sel \<noteq> None then delegateType sp else bindType sp) of None \<Rightarrow> t | Some u \<Rightarrow> u)"

definition list_at :: "'e \<Rightarrow> jstr \<Rightarrow> ('e, 'f, 'v) evworld \<Rightarrow> ('f, 'v) hlist option" where
  "list_at el t w = (case events w el of None \<Rightarrow> None | Some evs \<Rightarrow> map_of evs t)"

definition put_at :: "'e \<Rightarrow> jstr \<Rightarrow> ('f, 'v) hlist \<Rightarrow> ('e, 'f, 'v) evworld \<Rightarrow> ('e, 'f, 'v) evworld" where
  "put_at el t l w = w\<lparr>events := (events w)(el \<mapsto> AList.update t l (case events w el of None \<Rightarrow> [] | Some evs \<Rightarrow> evs))\<rparr>"

definition insert_handler :: "('f, 'v) handle_obj \<Rightarrow> ('f, 'v) hlist \<Rightarrow> ('f, 'v) hlist" where
  "insert_handler h l =
     (if selector h \<noteq> None then
        l\<lparr>listed := take (nat (delegateCount l)) (listed l) @ h # drop (nat (delegateCount l)) (listed l),
          delegateCount := delegateCount l + 1\<rparr>
      else l\<lparr>listed := listed l @ [h]\<rparr>)"

text \<open>One word of the types.\<close>

definition bind_word :: "('e, 'f, 'v) ev_env \<Rightarrow> 'e \<Rightarrow> 'f efn \<Rightarrow> nat \<Rightarrow> ('f, 'v) earg \<Rightarrow> jstr option \<Rightarrow> jstr \<Rightarrow>
    ('e, 'f, 'v) evworld \<Rightarrow> ('e, 'f, 'v) evworld" where
  "bind_word env el f g dat sel word w =
     (case split_type word of (t0, n) \<Rightarrow>
        if t0 = [] then w
        else
          (let t = mapped_type env sel t0;
               h = \<lparr>bound_type = t, origType = t0, data_of = dat, handler_of = f, guid_of = g, selector = sel,
                    needsContext = (case sel of None \<Rightarrow> False | Some s \<Rightarrow> context_selector env s),
                    namespace = join (js ''.'') (namespaces n)\<rparr>;
               w1 = (case list_at el t w of
                   Some l \<Rightarrow> w
                 | None \<Rightarrow>
                     (let w2 = put_at el t \<lparr>listed = [], delegateCount = 0\<rparr> w in
                      if (case setup_hook (special_of env t) of None \<Rightarrow> True | Some hook \<Rightarrow> hook el)
                      then w2\<lparr>listening := (listening w2)(el := (listening w2 el)(t := True))\<rparr> else w2));
               l = (case list_at el t w1 of Some l \<Rightarrow> l | None \<Rightarrow> \<lparr>listed = [], delegateCount = 0\<rparr>);
               w3 = put_at el t (insert_handler h l) w1
           in w3\<lparr>used_types := (used_types w3)(t := True)\<rparr>))"

text \<open>\<open>jQuery.event.add\<close>; the flag says that it throws.\<close>

definition ev_add :: "('e, 'f, 'v) ev_env \<Rightarrow> 'e \<Rightarrow> jstr \<Rightarrow> 'f efn \<Rightarrow> ('f, 'v) earg \<Rightarrow> jstr option \<Rightarrow>
    ('e, 'f, 'v) evworld \<Rightarrow> ('e, 'f, 'v) evworld \<times> bool" where
  "ev_add env el types f dat sel w =
     (if \<not> acceptData (node_type env) el then (w, False)
      else if (case sel of None \<Rightarrow> False | Some s \<Rightarrow> \<not> valid_selector env s) then (w, True)
      else case guid_for f w of (g, w1) \<Rightarrow>
        (let w2 = (if events w1 el = None then w1\<lparr>events := (events w1)(el \<mapsto> [])\<rparr> else w1)
         in (fold (bind_word env el f g dat sel) (rev (event_words types)) w2, False)))"

text \<open>The arguments of \<open>on\<close> in their places: selector, data, function.\<close>

definition nothing :: "('f, 'v) earg \<Rightarrow> bool" where
  "nothing a \<longleftrightarrow> a = Undefined"

definition on_args :: "('f, 'v) earg \<Rightarrow> ('f, 'v) earg \<Rightarrow> ('f, 'v) earg \<Rightarrow>
    ('f, 'v) earg \<times> ('f, 'v) earg \<times> ('f, 'v) earg" where
  "on_args sel dat f =
     (if nothing dat \<and> nothing f then (Undefined, Undefined, sel)
      else if nothing f then
        (case sel of Text s \<Rightarrow> (sel, Undefined, dat) | _ \<Rightarrow> (Undefined, sel, dat))
      else (sel, dat, f))"

definition selector_of :: "('f, 'v) earg \<Rightarrow> jstr option" where
  "selector_of a = (case a of Text s \<Rightarrow> if s = [] then None else Some s | _ \<Rightarrow> None)"

definition function_of :: "('f, 'v) earg \<Rightarrow> 'f efn option" where
  "function_of a = (case a of Func f \<Rightarrow> Some f | False_arg \<Rightarrow> Some Return_false | _ \<Rightarrow> None)"

text \<open>\<open>on\<close> and \<open>one\<close> of a set, with types as a text or as a map from types to functions.\<close>

definition or_stop :: "('w \<Rightarrow> 'w \<times> bool) \<Rightarrow> 'w \<times> bool \<Rightarrow> 'w \<times> bool" where
  "or_stop f r = (if snd r then r else f (fst r))"

definition fn_on :: "('e, 'f, 'v) ev_env \<Rightarrow> 'e list \<Rightarrow> jstr \<Rightarrow> ('f, 'v) earg \<Rightarrow> ('f, 'v) earg \<Rightarrow> ('f, 'v) earg \<Rightarrow> bool \<Rightarrow>
    ('e, 'f, 'v) evworld \<Rightarrow> ('e, 'f, 'v) evworld \<times> bool" where
  "fn_on env els types sel dat fn one w =
     (case on_args sel dat fn of (sel1, dat1, fn1) \<Rightarrow>
        case function_of fn1 of
          None \<Rightarrow> (w, False)
        | Some f \<Rightarrow>
            (let g = (if one then One f else f);
                 w1 = (if one then snd (guid_for f w) else w)
             in fold (\<lambda>el. or_stop (ev_add env el types g dat1 (selector_of sel1))) els (w1, False)))"

definition given :: "('e, 'f, 'v) ev_env \<Rightarrow> ('f, 'v) earg \<Rightarrow> bool" where
  "given env a = (case a of Undefined \<Rightarrow> False | Text s \<Rightarrow> s \<noteq> [] | Func _ \<Rightarrow> True | False_arg \<Rightarrow> False
     | Data v \<Rightarrow> truthy env v)"

definition fn_on_map :: "('e, 'f, 'v) ev_env \<Rightarrow> 'e list \<Rightarrow> (jstr \<times> ('f, 'v) earg) list \<Rightarrow> ('f, 'v) earg \<Rightarrow> ('f, 'v) earg \<Rightarrow>
    bool \<Rightarrow> ('e, 'f, 'v) evworld \<Rightarrow> ('e, 'f, 'v) evworld \<times> bool" where
  "fn_on_map env els types sel dat one w =
     (let dat1 = (case sel of Text _ \<Rightarrow> dat | _ \<Rightarrow> if given env dat then dat else sel);
          sel1 = (case sel of Text _ \<Rightarrow> sel | _ \<Rightarrow> Undefined)
      in fold (\<lambda>(t, f). or_stop (fn_on env els t sel1 dat1 f one)) types (w, False))"

section \<open>Removing handlers\<close>

text \<open>Whether a handler is one to remove.\<close>

definition removable :: "bool \<Rightarrow> jstr \<Rightarrow> nat option option \<Rightarrow> jstr list option \<Rightarrow> jstr option \<Rightarrow>
    ('f, 'v) handle_obj \<Rightarrow> bool" where
  "removable mapped t0 g ns sel h \<longleftrightarrow>
     (mapped \<or> t0 = origType h) \<and>
     (case g of None \<Rightarrow> True | Some n \<Rightarrow> n = Some (guid_of h)) \<and>
     (case ns of None \<Rightarrow> True | Some xs \<Rightarrow> in_namespace xs (namespace h)) \<and>
     (case sel of None \<Rightarrow> True | Some s \<Rightarrow> sel = selector h \<or> s = js ''**'' \<and> selector h \<noteq> None)"

text \<open>The loop that removes, from the last handler to the first.\<close>

fun remove_loop :: "(('f, 'v) handle_obj \<Rightarrow> bool) \<Rightarrow> nat \<Rightarrow> ('f, 'v) hlist \<Rightarrow> ('f, 'v) hlist" where
  "remove_loop p 0 l = l"
| "remove_loop p (Suc j) l =
     (let h = listed l ! j in
      remove_loop p j
        (if p h then l\<lparr>listed := take j (listed l) @ drop (Suc j) (listed l),
                       delegateCount := delegateCount l - (if selector h \<noteq> None then 1 else 0)\<rparr>
         else l))"

definition drop_at :: "'e \<Rightarrow> jstr \<Rightarrow> ('e, 'f, 'v) evworld \<Rightarrow> ('e, 'f, 'v) evworld" where
  "drop_at el t w = (case events w el of None \<Rightarrow> w
     | Some evs \<Rightarrow> w\<lparr>events := (events w)(el \<mapsto> AList.delete t evs)\<rparr>)"

text \<open>One word with a type.\<close>

definition remove_typed :: "('e, 'f, 'v) ev_env \<Rightarrow> 'e \<Rightarrow> jstr \<Rightarrow> jstr option \<Rightarrow> 'f efn option \<Rightarrow> jstr option \<Rightarrow> bool \<Rightarrow>
    ('e, 'f, 'v) evworld \<Rightarrow> ('e, 'f, 'v) evworld" where
  "remove_typed env el t0 n f sel mapped w =
     (let t = mapped_type env sel t0;
          g = map_option (\<lambda>f. guids w (unwrapped f)) f;
          p = removable mapped t0 g (map_option (\<lambda>s. namespaces (Some s)) n) sel
      in case list_at el t w of
           None \<Rightarrow> w
         | Some l \<Rightarrow>
             (let l1 = remove_loop p (length (listed l)) l;
                  w1 = put_at el t l1 w
              in if listed l \<noteq> [] \<and> listed l1 = [] then
                   drop_at el t
                     (if (case teardown_hook (special_of env t0) of None \<Rightarrow> True | Some hook \<Rightarrow> hook el)
                      then w1\<lparr>listening := (listening w1)(el := (listening w1 el)(t := False))\<rparr> else w1)
                 else w1))"

text \<open>The data of an element without handlers go away.\<close>

definition forget :: "'e \<Rightarrow> ('e, 'f, 'v) evworld \<Rightarrow> ('e, 'f, 'v) evworld" where
  "forget el w = (if events w el = Some [] then w\<lparr>events := (events w)(el := None)\<rparr> else w)"

text \<open>\<open>remove\<close> as it calls itself, for one type and the namespaces of a word without one.\<close>

definition remove_mapped :: "('e, 'f, 'v) ev_env \<Rightarrow> 'e \<Rightarrow> jstr \<Rightarrow> 'f efn option \<Rightarrow> jstr option \<Rightarrow>
    ('e, 'f, 'v) evworld \<Rightarrow> ('e, 'f, 'v) evworld" where
  "remove_mapped env el types f sel w =
     (if events w el = None then w
      else forget el (fold (\<lambda>word w. case split_type word of (t0, n) \<Rightarrow> remove_typed env el t0 n f sel True w)
        (rev (event_words types)) w))"

definition remove_word :: "('e, 'f, 'v) ev_env \<Rightarrow> 'e \<Rightarrow> 'f efn option \<Rightarrow> jstr option \<Rightarrow> jstr \<Rightarrow>
    ('e, 'f, 'v) evworld \<Rightarrow> ('e, 'f, 'v) evworld" where
  "remove_word env el f sel word w =
     (case split_type word of (t0, n) \<Rightarrow>
        if t0 = [] then
          fold (\<lambda>t. remove_mapped env el (t @ word) f sel) (map fst (case events w el of None \<Rightarrow> [] | Some evs \<Rightarrow> evs)) w
        else remove_typed env el t0 n f sel False w)"

definition ev_remove :: "('e, 'f, 'v) ev_env \<Rightarrow> 'e \<Rightarrow> jstr \<Rightarrow> 'f efn option \<Rightarrow> jstr option \<Rightarrow>
    ('e, 'f, 'v) evworld \<Rightarrow> ('e, 'f, 'v) evworld" where
  "ev_remove env el types f sel w =
     (if events w el = None then w else forget el (fold (remove_word env el f sel) (rev (event_words types)) w))"

text \<open>\<open>off\<close> of a set, with types as a text, as a map, and with an event.\<close>

definition fn_off :: "('e, 'f, 'v) ev_env \<Rightarrow> 'e list \<Rightarrow> jstr \<Rightarrow> ('f, 'v) earg \<Rightarrow> ('f, 'v) earg \<Rightarrow>
    ('e, 'f, 'v) evworld \<Rightarrow> ('e, 'f, 'v) evworld" where
  "fn_off env els types sel fn w =
     (let fn1 = (case sel of Func _ \<Rightarrow> sel | False_arg \<Rightarrow> sel | _ \<Rightarrow> fn)
      in fold (\<lambda>el. ev_remove env el types (function_of fn1) (selector_of sel)) els w)"

definition fn_off_map :: "('e, 'f, 'v) ev_env \<Rightarrow> 'e list \<Rightarrow> (jstr \<times> ('f, 'v) earg) list \<Rightarrow> ('f, 'v) earg \<Rightarrow>
    ('e, 'f, 'v) evworld \<Rightarrow> ('e, 'f, 'v) evworld" where
  "fn_off_map env els types sel w = fold (\<lambda>(t, f). fn_off env els t sel f) types w"

definition off_event :: "('e, 'f, 'v) ev_env \<Rightarrow> ('e, 'f, 'v) event \<Rightarrow> ('e, 'f, 'v) evworld \<Rightarrow> ('e, 'f, 'v) evworld" where
  "off_event env e w = (case (handleObj e, delegateTarget e) of
       (Some h, Some el) \<Rightarrow>
         fn_off env [el] (if namespace h \<noteq> [] then origType h @ js ''.'' @ namespace h else origType h)
           (case selector h of None \<Rightarrow> Undefined | Some s \<Rightarrow> Text s) (Func (handler_of h)) w
     | _ \<Rightarrow> w)"

section \<open>Event objects\<close>

definition upd_event :: "nat \<Rightarrow> (('e, 'f, 'v) event \<Rightarrow> ('e, 'f, 'v) event) \<Rightarrow> ('e, 'f, 'v) evworld \<Rightarrow> ('e, 'f, 'v) evworld" where
  "upd_event i g w = w\<lparr>event_at := (event_at w)(i := g (event_at w i))\<rparr>"

definition preventDefault :: "('e, 'f, 'v) event \<Rightarrow> ('e, 'f, 'v) event" where
  "preventDefault e = e\<lparr>prevented := True\<rparr>"

definition stopPropagation :: "('e, 'f, 'v) event \<Rightarrow> ('e, 'f, 'v) event" where
  "stopPropagation e = e\<lparr>stopped := True\<rparr>"

definition stopImmediatePropagation :: "('e, 'f, 'v) event \<Rightarrow> ('e, 'f, 'v) event" where
  "stopImmediatePropagation e = stopPropagation (e\<lparr>stopped_now := True\<rparr>)"

text \<open>\<open>new jQuery.Event(src)\<close> for a native event and for a type; text nodes are not the target.\<close>

definition new_event :: "jstr \<Rightarrow> 'e \<Rightarrow> ('e, 'f, 'v) event" where
  "new_event t el = \<lparr>type_of = t, target_of = el, ev_namespace = [], rnamespace = None, isTrigger = 0, prevented = False,
     stopped = False, stopped_now = False, result = None, delegateTarget = None, currentTarget = None, handleObj = None,
     relatedTarget = None, button = 0\<rparr>"

record 'e native =
  n_type :: jstr
  n_target :: 'e
  n_prevented :: bool
  n_related :: "'e option"
  n_button :: int

definition event_of :: "('e, 'f, 'v) ev_env \<Rightarrow> 'e native \<Rightarrow> ('e, 'f, 'v) event" where
  "event_of env n =
     (let t = (if node_type env (n_target n) = Some 3
               then (case ancestors env (n_target n) of [] \<Rightarrow> n_target n | p # _ \<Rightarrow> p) else n_target n)
      in (new_event (n_type n) t)\<lparr>prevented := n_prevented n, relatedTarget := n_related n, button := n_button n\<rparr>)"

section \<open>The handlers of an event\<close>

text \<open>\<open>jQuery.event.handlers\<close>: the delegated handlers from the target up, then those of the element itself.\<close>

definition path_below :: "('e, 'f, 'v) ev_env \<Rightarrow> 'e \<Rightarrow> 'e \<Rightarrow> 'e list" where
  "path_below env this cur = takeWhile (\<lambda>x. x \<noteq> this) (cur # ancestors env cur)"

definition delegated_at :: "('e, 'f, 'v) ev_env \<Rightarrow> 'e \<Rightarrow> ('f, 'v) hlist \<Rightarrow> 'e \<Rightarrow> ('f, 'v) handle_obj list" where
  "delegated_at env this l cur =
     filter (\<lambda>h. case selector h of None \<Rightarrow> matches env this (needsContext h) (js ''undefined'') cur
                | Some s \<Rightarrow> matches env this (needsContext h) s cur)
       (take (nat (delegateCount l)) (listed l))"

definition ev_handlers :: "('e, 'f, 'v) ev_env \<Rightarrow> 'e \<Rightarrow> ('e, 'f, 'v) event \<Rightarrow> ('f, 'v) hlist \<Rightarrow>
    ('e \<times> ('f, 'v) handle_obj list) list" where
  "ev_handlers env this e l =
     (let click = (type_of e = js ''click'') in
      (if delegateCount l \<noteq> 0 \<and> node_type env (target_of e) \<notin> {None, Some 0} \<and> \<not> (click \<and> button e \<ge> 1) then
         filter (\<lambda>(cur, hs). hs \<noteq> [])
           (map (\<lambda>cur. (cur, delegated_at env this l cur))
             (filter (\<lambda>cur. node_type env cur = Some 1 \<and> \<not> (click \<and> is_disabled env cur))
               (path_below env this (target_of e))))
       else [])
      @ (if delegateCount l < int (length (listed l)) then [(this, drop (nat (delegateCount l)) (listed l))] else []))"

section \<open>Dispatching and triggering\<close>

datatype ('e, 'f, 'v) etask =
    TOp "('e, 'f, 'v) eop"
  | TDispatch 'e nat "'v list"
  | TQueue nat "'v list" "('e \<times> ('f, 'v) handle_obj list) list"
  | TInner nat "'v list" 'e "('f, 'v) handle_obj list"
  | TCall nat "'v list" 'e "'f efn" "jstr option"
  | TReturn nat "'v option"
  | TType nat jstr
  | TPath nat "'v list" "'e list" jstr jstr "jstr option"
  | TInline nat "'v list" 'e "jstr option"
  | TInline_return nat "'v option"
  | TFinish nat 'e jstr bool
  | TThrow

text \<open>A call of a handler.  The wrapper of \<open>one\<close> takes itself off first.\<close>

fun call_handler :: "('e, 'f, 'v) ev_env \<Rightarrow> nat \<Rightarrow> 'v list \<Rightarrow> 'e \<Rightarrow> 'f efn \<Rightarrow> jstr option \<Rightarrow> ('e, 'f, 'v) evworld \<Rightarrow>
    ('e, 'f, 'v) etask list" where
  "call_handler env i args el (Fun f) back w =
     (case user env f el i (event_at w i) args of
        (ops, Inl e) \<Rightarrow> map TOp ops @ [TThrow]
      | (ops, Inr r) \<Rightarrow> map TOp ops @ (case back of None \<Rightarrow> [] | Some t \<Rightarrow> [TType i t]) @ [TReturn i r])"
| "call_handler env i args el (One g) back w = [TOp (Op_off_event i), TCall i args el g back]"
| "call_handler env i args el Return_false back w =
     (case back of None \<Rightarrow> [] | Some t \<Rightarrow> [TType i t]) @ [TReturn i (Some (false_value env))]"

text \<open>One handler of the inner loop: the types that enter and leave look at the related target first.\<close>

definition handle :: "('e, 'f, 'v) ev_env \<Rightarrow> nat \<Rightarrow> 'v list \<Rightarrow> 'e \<Rightarrow> ('f, 'v) handle_obj \<Rightarrow> ('e, 'f, 'v) event \<Rightarrow>
    ('e, 'f, 'v) etask list" where
  "handle env i args el h e =
     (let sp = special_of env (origType h) in
      if enters sp then
        (if (case relatedTarget e of None \<Rightarrow> True | Some r \<Rightarrow> r \<noteq> el \<and> \<not> contains env el r)
         then [TType i (origType h), TCall i args el (handler_of h) (bindType sp)]
         else [])
      else [TCall i args el (handler_of h) None])"

definition inner_step :: "('e, 'f, 'v) ev_env \<Rightarrow> nat \<Rightarrow> 'v list \<Rightarrow> 'e \<Rightarrow> ('f, 'v) handle_obj list \<Rightarrow> ('e, 'f, 'v) evworld \<Rightarrow>
    ('e, 'f, 'v) etask list \<times> ('e, 'f, 'v) evworld" where
  "inner_step env i args el hs w =
     (case hs of
        [] \<Rightarrow> ([], w)
      | h # rest1 \<Rightarrow>
          if stopped_now (event_at w i) then ([], w)
          else if (case rnamespace (event_at w i) of None \<Rightarrow> True | Some ns \<Rightarrow> in_namespace ns (namespace h)) then
            (handle env i args el h (event_at w i) @ [TInner i args el rest1],
             (upd_event i (\<lambda>e. e\<lparr>handleObj := Some h\<rparr>) w)\<lparr>calls_made := calls_made w @ [(i, el, h)]\<rparr>)
          else ([TInner i args el rest1], w))"

definition queue_step :: "nat \<Rightarrow> 'v list \<Rightarrow> ('e \<times> ('f, 'v) handle_obj list) list \<Rightarrow> ('e, 'f, 'v) evworld \<Rightarrow>
    ('e, 'f, 'v) etask list \<times> ('e, 'f, 'v) evworld" where
  "queue_step i args q w =
     (case q of
        [] \<Rightarrow> ([], w)
      | (el, hs) # q1 \<Rightarrow>
          if stopped (event_at w i) then ([], w)
          else ([TInner i args el hs, TQueue i args q1], upd_event i (\<lambda>e. e\<lparr>currentTarget := Some el\<rparr>) w))"

definition dispatch :: "('e, 'f, 'v) ev_env \<Rightarrow> 'e \<Rightarrow> nat \<Rightarrow> 'v list \<Rightarrow> ('e, 'f, 'v) evworld \<Rightarrow>
    ('e, 'f, 'v) etask list \<times> ('e, 'f, 'v) evworld" where
  "dispatch env el i args w =
     (let t = type_of (event_at w i);
          l = (case list_at el t w of None \<Rightarrow> \<lparr>listed = [], delegateCount = 0\<rparr> | Some l \<Rightarrow> l);
          w1 = upd_event i (\<lambda>e. e\<lparr>delegateTarget := Some el\<rparr>) w
      in if (case preDispatch (special_of env t) of None \<Rightarrow> False | Some hook \<Rightarrow> hook el) then ([], w1)
         else ([TQueue i args (ev_handlers env el (event_at w1 i) l)], w1))"

text \<open>What the value of a handler does.\<close>

definition returned_event :: "('e, 'f, 'v) ev_env \<Rightarrow> 'v option \<Rightarrow> ('e, 'f, 'v) event \<Rightarrow> ('e, 'f, 'v) event" where
  "returned_event env r e = (case r of None \<Rightarrow> e
     | Some v \<Rightarrow> (let e1 = e\<lparr>result := Some v\<rparr> in if is_false env v then stopPropagation (preventDefault e1) else e1))"

text \<open>\<open>jQuery.event.trigger\<close>, up to the loop over the path.\<close>

definition rfocusMorph :: "jstr \<Rightarrow> bool" where
  "rfocusMorph s \<longleftrightarrow> s = js ''focusinfocus'' \<or> s = js ''focusoutblur''"

definition ontype :: "jstr \<Rightarrow> jstr option" where
  "ontype t = (if cu CHR '':'' \<in> set t then None else Some (js ''on'' @ t))"

definition trigger_names :: "jstr \<Rightarrow> jstr \<times> jstr list" where
  "trigger_names t = (if cu CHR ''.'' \<in> set t
     then (hd (split_char (cu CHR ''.'') t), sort (tl (split_char (cu CHR ''.'') t))) else (t, []))"

definition event_path :: "('e, 'f, 'v) ev_env \<Rightarrow> 'e \<Rightarrow> jstr \<Rightarrow> jstr \<Rightarrow> 'e list" where
  "event_path env el t bubble =
     (let up = (if rfocusMorph (bubble @ t) then [el] else []) @ ancestors env el;
          top = (if up = [] then el else last up)
      in el # up @ (if top = document_of env el then [view_of env el] else []))"

definition start_trigger :: "('e, 'f, 'v) ev_env \<Rightarrow> 'e \<Rightarrow> jstr + nat \<Rightarrow> 'v list \<Rightarrow> bool \<Rightarrow> ('e, 'f, 'v) evworld \<Rightarrow>
    ('e, 'f, 'v) etask list \<times> ('e, 'f, 'v) evworld" where
  "start_trigger env el what args onlyHandlers w =
     (let given_type = (case what of Inl t \<Rightarrow> t | Inr i \<Rightarrow> type_of (event_at w i));
          old_names = (case what of Inl t \<Rightarrow> [] | Inr i \<Rightarrow>
              (if isTrigger (event_at w i) = 0 then [] else split_char (cu CHR ''.'') (ev_namespace (event_at w i))));
          dotted = (cu CHR ''.'' \<in> set given_type);
          t = fst (trigger_names given_type);
          xs = (if dotted then snd (trigger_names given_type) else old_names)
      in
      if node_type env el = Some 3 \<or> node_type env el = Some 8 then ([], w)
      else if rfocusMorph (given_type @ (case triggered w of None \<Rightarrow> js ''undefined'' | Some u \<Rightarrow> u)) then ([], w)
      else
        (let (i, w1) = (case what of
                 Inl _ \<Rightarrow> (made w, (upd_event (made w) (\<lambda>_. new_event t el) w)\<lparr>made := Suc (made w)\<rparr>)
               | Inr i \<Rightarrow> (i, w));
             w2 = upd_event i (\<lambda>e. e\<lparr>isTrigger := (if onlyHandlers then 2 else 3), ev_namespace := join (js ''.'') xs,
                    rnamespace := (if join (js ''.'') xs \<noteq> [] then Some xs else None), result := None\<rparr>) w1;
             sp = special_of env t
         in
         if \<not> onlyHandlers \<and> (case trigger_hook sp of None \<Rightarrow> False | Some hook \<Rightarrow> hook el) then ([], w2)
         else
           (let bubble = (case delegateType sp of None \<Rightarrow> t | Some u \<Rightarrow> u);
                path = (if \<not> onlyHandlers \<and> \<not> noBubble sp \<and> \<not> is_window env el
                        then event_path env el t bubble else [el]);
                first = (case bindType sp of None \<Rightarrow> t | Some u \<Rightarrow> u)
            in ([TPath i args path first bubble (ontype t), TFinish i el t onlyHandlers], w2))))"

text \<open>One element of the path: the handlers of the library, then the inline handler.\<close>

definition path_step :: "nat \<Rightarrow> 'v list \<Rightarrow> 'e list \<Rightarrow> jstr \<Rightarrow> jstr \<Rightarrow> jstr option \<Rightarrow> ('e, 'f, 'v) evworld \<Rightarrow>
    ('e, 'f, 'v) etask list \<times> ('e, 'f, 'v) evworld" where
  "path_step i args path t bubble on w =
     (case path of
        [] \<Rightarrow> ([], w)
      | cur # path1 \<Rightarrow>
          if stopped (event_at w i) then ([], w)
          else
            ((if list_at cur t w \<noteq> None \<and> triggered w \<noteq> Some t then [TDispatch cur i args] else [])
               @ [TInline i args cur on, TPath i args path1 bubble bubble on],
             upd_event i (\<lambda>e. e\<lparr>type_of := t\<rparr>) w))"

definition inline_step :: "('e, 'f, 'v) ev_env \<Rightarrow> nat \<Rightarrow> 'v list \<Rightarrow> 'e \<Rightarrow> jstr option \<Rightarrow> ('e, 'f, 'v) evworld \<Rightarrow>
    ('e, 'f, 'v) etask list" where
  "inline_step env i args cur on w =
     (case (case on of None \<Rightarrow> None | Some t \<Rightarrow> inline_handler env cur t) of
        None \<Rightarrow> []
      | Some f \<Rightarrow>
          if acceptData (node_type env) cur then
            (case user env f cur i (event_at w i) args of
               (ops, Inl e) \<Rightarrow> map TOp ops @ [TThrow]
             | (ops, Inr r) \<Rightarrow> map TOp ops @ [TInline_return i r])
          else [])"

text \<open>
  The end of \<open>trigger\<close>: that the native method of the element is called for the default action is noted.  What the
  browser does in that call is outside the model, so \<open>jQuery.event.triggered\<close> keeps its value.
\<close>

definition finish_trigger :: "('e, 'f, 'v) ev_env \<Rightarrow> nat \<Rightarrow> 'e \<Rightarrow> jstr \<Rightarrow> bool \<Rightarrow> ('e, 'f, 'v) evworld \<Rightarrow>
    ('e, 'f, 'v) evworld" where
  "finish_trigger env i el t onlyHandlers w =
     (let w1 = upd_event i (\<lambda>e. e\<lparr>type_of := t\<rparr>) w in
      if \<not> onlyHandlers \<and> \<not> prevented (event_at w1 i) \<and>
         (case default_hook (special_of env t) of None \<Rightarrow> True | Some hook \<Rightarrow> hook (event_at w1 i)) \<and>
         acceptData (node_type env) el \<and> ontype t \<noteq> None \<and> native_method env el t \<and> \<not> is_window env el
      then w1\<lparr>defaults := defaults w1 @ [(el, t)]\<rparr> else w1)"

text \<open>\<open>trigger\<close> and \<open>triggerHandler\<close> of a set.\<close>

definition fn_trigger :: "'e list \<Rightarrow> jstr + nat \<Rightarrow> 'v list \<Rightarrow> ('e, 'f, 'v) etask list" where
  "fn_trigger els what args = map (\<lambda>el. TOp (Op_trigger el what args False)) els"

definition fn_triggerHandler :: "'e list \<Rightarrow> jstr + nat \<Rightarrow> 'v list \<Rightarrow> ('e, 'f, 'v) etask list" where
  "fn_triggerHandler els what args =
     (case els of [] \<Rightarrow> [] | el # _ \<Rightarrow> [TOp (Op_trigger el what args True)])"

section \<open>The machine\<close>

definition threw :: "('e, 'f, 'v) evworld \<times> bool \<Rightarrow> ('e, 'f, 'v) etask list \<times> ('e, 'f, 'v) evworld" where
  "threw r = (if snd r then [TThrow] else [], fst r)"

fun run_eop :: "('e, 'f, 'v) ev_env \<Rightarrow> ('e, 'f, 'v) eop \<Rightarrow> ('e, 'f, 'v) evworld \<Rightarrow>
    ('e, 'f, 'v) etask list \<times> ('e, 'f, 'v) evworld" where
  "run_eop env (Op_on el types sel dat fn one) w = threw (fn_on env [el] types sel dat fn one w)"
| "run_eop env (Op_off el types sel fn) w = ([], fn_off env [el] types sel fn w)"
| "run_eop env (Op_trigger el what args onlyHandlers) w = start_trigger env el what args onlyHandlers w"
| "run_eop env (Op_off_event i) w = ([], off_event env (event_at w i) w)"
| "run_eop env (Op_prevent i) w = ([], upd_event i preventDefault w)"
| "run_eop env (Op_stop i) w = ([], upd_event i stopPropagation w)"
| "run_eop env (Op_stop_now i) w = ([], upd_event i stopImmediatePropagation w)"

fun run_etask :: "('e, 'f, 'v) ev_env \<Rightarrow> ('e, 'f, 'v) etask \<Rightarrow> ('e, 'f, 'v) evworld \<Rightarrow>
    ('e, 'f, 'v) etask list \<times> ('e, 'f, 'v) evworld" where
  "run_etask env (TOp p) w = run_eop env p w"
| "run_etask env (TDispatch el i args) w = dispatch env el i args w"
| "run_etask env (TQueue i args q) w = queue_step i args q w"
| "run_etask env (TInner i args el hs) w = inner_step env i args el hs w"
| "run_etask env (TCall i args el f back) w = (call_handler env i args el f back w, w)"
| "run_etask env (TReturn i r) w = ([], upd_event i (returned_event env r) w)"
| "run_etask env (TType i t) w = ([], upd_event i (\<lambda>e. e\<lparr>type_of := t\<rparr>) w)"
| "run_etask env (TPath i args path t bubble on) w = path_step i args path t bubble on w"
| "run_etask env (TInline i args el on) w = (inline_step env i args el on w, w)"
| "run_etask env (TInline_return i r) w =
     ([], upd_event i (\<lambda>e. let e1 = e\<lparr>result := r\<rparr> in
        if (case r of None \<Rightarrow> False | Some v \<Rightarrow> is_false env v) then preventDefault e1 else e1) w)"
| "run_etask env (TFinish i el t only) w = ([], finish_trigger env i el t only w)"
| "run_etask env TThrow w = ([], w)"

text \<open>A throw ends everything that runs: no part of the code catches it.\<close>

fun estep :: "('e, 'f, 'v) ev_env \<Rightarrow> ('e, 'f, 'v) etask list \<times> ('e, 'f, 'v) evworld \<Rightarrow>
    ('e, 'f, 'v) etask list \<times> ('e, 'f, 'v) evworld" where
  "estep env ([], w) = ([], w)"
| "estep env (t # ts, w) = (if t = TThrow then ([], w) else case run_etask env t w of (new, w1) \<Rightarrow> (new @ ts, w1))"

text \<open>
  Histories: steps, and between the tasks of the page operations of the page and native events that the browser
  brings to an element that listens; each such call of \<open>dispatch\<close> makes an event object of its own.
\<close>

definition native_start :: "('e, 'f, 'v) ev_env \<Rightarrow> 'e \<Rightarrow> 'e native \<Rightarrow> ('e, 'f, 'v) evworld \<Rightarrow>
    ('e, 'f, 'v) etask list \<times> ('e, 'f, 'v) evworld" where
  "native_start env el n w =
     (if triggered w = Some (n_type n) then ([], w)
      else ([TDispatch el (made w) []], (upd_event (made w) (\<lambda>_. event_of env n) w)\<lparr>made := Suc (made w)\<rparr>))"

inductive eevent :: "('e, 'f, 'v) ev_env \<Rightarrow> ('e, 'f, 'v) etask list \<times> ('e, 'f, 'v) evworld \<Rightarrow>
    ('e, 'f, 'v) etask list \<times> ('e, 'f, 'v) evworld \<Rightarrow> bool"
  for env :: "('e, 'f, 'v) ev_env" where
  step: "eevent env s (estep env s)"
| page: "eevent env ([], w) (map TOp ops, w)"
| native: "listening w el (n_type n) \<Longrightarrow> eevent env ([], w) (native_start env el n w)"

section \<open>The types of the library\<close>

definition entering :: "string \<Rightarrow> ('e, 'f, 'v) special" where
  "entering fix_type = plain_special\<lparr>delegateType := Some (js fix_type), bindType := Some (js fix_type), enters := True\<rparr>"

definition library_special :: "jstr \<Rightarrow> ('e, 'f, 'v) special" where
  "library_special t =
     (if t = js ''load'' then plain_special\<lparr>noBubble := True\<rparr>
      else if t = js ''focus'' then plain_special\<lparr>delegateType := Some (js ''focusin'')\<rparr>
      else if t = js ''blur'' then plain_special\<lparr>delegateType := Some (js ''focusout'')\<rparr>
      else if t = js ''mouseenter'' then entering ''mouseover''
      else if t = js ''mouseleave'' then entering ''mouseout''
      else if t = js ''pointerenter'' then entering ''pointerover''
      else if t = js ''pointerleave'' then entering ''pointerout''
      else plain_special)"

definition no_handlers :: "('e, 'f, 'v) event \<Rightarrow> ('e, 'f, 'v) evworld" where
  "no_handlers e = \<lparr>events = \<lambda>_. None, listening = \<lambda>_ _. False, guids = \<lambda>_. None, next_guid = 1, used_types = \<lambda>_. False,
     event_at = \<lambda>_. e, made = 0, triggered = None, calls_made = [], defaults = []\<rparr>"

end
