(* ===== verification/JqEventLaws.thy ===== *)
theory JqEventLaws
  imports JqEvents
begin

text \<open>
  The laws of the handler lists of theory \<open>JqEvents\<close>: their shape in every history, what \<open>off\<close> leaves, what
  namespaces select, and the order in which a dispatch calls handlers.
\<close>

section \<open>The loop that removes is a filter\<close>

definition selected :: "('f, 'v) handle_obj list \<Rightarrow> int" where
  "selected hs = int (length (filter (\<lambda>h. selector h \<noteq> None) hs))"

lemma selected_simps [simp]: "selected [] = 0" "selected (hs @ gs) = selected hs + selected gs"
  "selected (h # hs) = (if selector h \<noteq> None then 1 else 0) + selected hs"
  by (simp_all add: selected_def)

lemma selected_bounds: "0 \<le> selected hs" "selected hs \<le> int (length hs)"
  by (simp_all add: selected_def)

lemma remove_loop_filter:
  "j \<le> length (listed l) \<Longrightarrow> remove_loop p j l =
     l\<lparr>listed := filter (\<lambda>h. \<not> p h) (take j (listed l)) @ drop j (listed l),
       delegateCount := delegateCount l - selected (filter p (take j (listed l)))\<rparr>"
proof (induction j arbitrary: l)
  case (Suc j)
  let ?hs = "listed l"
  have t: "take (Suc j) ?hs = take j ?hs @ [?hs ! j]" and d: "drop j ?hs = ?hs ! j # drop (Suc j) ?hs"
    using Suc.prems by (simp_all add: take_Suc_conv_app_nth Cons_nth_drop_Suc)
  have m: "min j (length ?hs) = j" using Suc.prems by simp
  show ?case
  proof (cases "p (?hs ! j)")
    case True
    with Suc m t show ?thesis by (simp add: Let_def)
  next
    case False
    with Suc m t d show ?thesis by (simp add: Let_def)
  qed
qed simp

section \<open>The shape of the lists\<close>

text \<open>Delegated handlers are in front, the count is theirs, and every handler is in the list of its type.\<close>

definition tidy :: "jstr \<Rightarrow> ('f, 'v) hlist \<Rightarrow> bool" where
  "tidy t l \<longleftrightarrow> (\<exists>ds hs. listed l = ds @ hs \<and> delegateCount l = int (length ds) \<and>
     (\<forall>h \<in> set ds. selector h \<noteq> None) \<and> (\<forall>h \<in> set hs. selector h = None)) \<and> (\<forall>h \<in> set (listed l). bound_type h = t)"

lemma tidyI:
  "listed l = ds @ hs \<Longrightarrow> delegateCount l = int (length ds) \<Longrightarrow> \<forall>h \<in> set ds. selector h \<noteq> None \<Longrightarrow>
    \<forall>h \<in> set hs. selector h = None \<Longrightarrow> \<forall>h \<in> set (ds @ hs). bound_type h = t \<Longrightarrow> tidy t l"
  unfolding tidy_def by auto

lemma tidyE:
  assumes "tidy t l"
  obtains ds hs where "listed l = ds @ hs" "delegateCount l = int (length ds)" "\<forall>h \<in> set ds. selector h \<noteq> None"
    "\<forall>h \<in> set hs. selector h = None" "\<forall>h \<in> set (ds @ hs). bound_type h = t"
  using assms unfolding tidy_def by auto

lemma tidy_insert:
  assumes "tidy t l" and "bound_type h = t"
  shows "tidy t (insert_handler h l)"
proof -
  from assms(1) obtain ds hs where l: "listed l = ds @ hs" "delegateCount l = int (length ds)"
    "\<forall>h \<in> set ds. selector h \<noteq> None" "\<forall>h \<in> set hs. selector h = None" "\<forall>h \<in> set (ds @ hs). bound_type h = t"
    by (rule tidyE)
  show ?thesis
  proof (cases "selector h = None")
    case True
    with l assms(2) show ?thesis by (intro tidyI [of _ ds "hs @ [h]"]) (auto simp: insert_handler_def)
  next
    case False
    with l assms(2) show ?thesis by (intro tidyI [of _ "ds @ [h]" hs]) (auto simp: insert_handler_def)
  qed
qed

lemma selected_all: "\<forall>h \<in> set hs. selector h \<noteq> None \<Longrightarrow> selected hs = int (length hs)"
  by (simp add: selected_def)

lemma selected_none: "\<forall>h \<in> set hs. selector h = None \<Longrightarrow> selected hs = 0"
  by (simp add: selected_def)

lemma length_filter_rest: "int (length hs) - int (length (filter p hs)) = int (length (filter (\<lambda>h. \<not> p h) hs))"
  using sum_length_filter_compl [of p hs] by simp

lemma tidy_remove:
  assumes "tidy t l"
  shows "tidy t (remove_loop p (length (listed l)) l) \<and>
    listed (remove_loop p (length (listed l)) l) = filter (\<lambda>h. \<not> p h) (listed l)"
proof -
  from assms obtain ds hs where l: "listed l = ds @ hs" "delegateCount l = int (length ds)"
    "\<forall>h \<in> set ds. selector h \<noteq> None" "\<forall>h \<in> set hs. selector h = None" "\<forall>h \<in> set (ds @ hs). bound_type h = t"
    by (rule tidyE)
  have r: "remove_loop p (length (listed l)) l = l\<lparr>listed := filter (\<lambda>h. \<not> p h) (ds @ hs),
      delegateCount := int (length (filter (\<lambda>h. \<not> p h) ds))\<rparr>"
    using l length_filter_rest [of ds p] by (simp add: remove_loop_filter selected_all selected_none)
  have "tidy t (remove_loop p (length (listed l)) l)"
    unfolding r using l by (intro tidyI [of _ "filter (\<lambda>h. \<not> p h) ds" "filter (\<lambda>h. \<not> p h) hs"]) auto
  moreover have "listed (remove_loop p (length (listed l)) l) = filter (\<lambda>h. \<not> p h) (listed l)"
    unfolding r using l(1) by simp
  ultimately show ?thesis by blast
qed

section \<open>All lists\<close>

definition handlers_at :: "'e \<Rightarrow> jstr \<Rightarrow> ('e, 'f, 'v) evworld \<Rightarrow> ('f, 'v) handle_obj list" where
  "handlers_at el t w = (case list_at el t w of None \<Rightarrow> [] | Some l \<Rightarrow> listed l)"

text \<open>Types whose hooks leave the listening to the library.\<close>

definition plain_type :: "('e, 'f, 'v) ev_env \<Rightarrow> 'e \<Rightarrow> jstr \<Rightarrow> bool" where
  "plain_type env el t \<longleftrightarrow>
     (case setup_hook (special_of env t) of None \<Rightarrow> True | Some hook \<Rightarrow> hook el) \<and>
     (\<forall>t0 sel. mapped_type env sel t0 = t \<longrightarrow>
        (case teardown_hook (special_of env t0) of None \<Rightarrow> True | Some hook \<Rightarrow> hook el))"

definition guids_ok :: "('e, 'f, 'v) evworld \<Rightarrow> bool" where
  "guids_ok w \<longleftrightarrow> (\<forall>f g. guids w f = Some g \<longrightarrow> 0 < g \<and> g < next_guid w) \<and> 0 < next_guid w \<and>
     (\<forall>f f' g. guids w f = Some g \<and> guids w f' = Some g \<longrightarrow> f = f') \<and>
     (\<forall>el t. \<forall>h \<in> set (handlers_at el t w). guids w (unwrapped (handler_of h)) = Some (guid_of h))"

definition handlers_ok :: "('e, 'f, 'v) ev_env \<Rightarrow> ('e, 'f, 'v) evworld \<Rightarrow> bool" where
  "handlers_ok env w \<longleftrightarrow> (\<forall>el t l. list_at el t w = Some l \<longrightarrow> tidy t l \<and> listed l \<noteq> []) \<and>
     (\<forall>el t. plain_type env el t \<longrightarrow> listening w el t = (list_at el t w \<noteq> None)) \<and> guids_ok w"

lemma list_put: "list_at el' t' (put_at el t l w) = (if el' = el \<and> t' = t then Some l else list_at el' t' w)"
  by (auto simp: list_at_def put_at_def update_conv split: option.split)

lemma handlers_put: "handlers_at el' t' (put_at el t l w) = (if el' = el \<and> t' = t then listed l else handlers_at el' t' w)"
  by (simp add: handlers_at_def list_put)

lemma list_drop: "list_at el' t' (drop_at el t w) = (if el' = el \<and> t' = t then None else list_at el' t' w)"
  by (auto simp: list_at_def drop_at_def delete_conv' split: option.split)

lemma put_at_fields [simp]: "listening (put_at el t l w) = listening w" "guids (put_at el t l w) = guids w"
  "next_guid (put_at el t l w) = next_guid w"
  by (simp_all add: put_at_def)

lemma drop_fields [simp]: "listening (drop_at el t w) = listening w" "guids (drop_at el t w) = guids w"
  "next_guid (drop_at el t w) = next_guid w"
  by (simp_all add: drop_at_def split: option.split)

lemma list_okD: "handlers_ok env w \<Longrightarrow> list_at el t w = Some l \<Longrightarrow> tidy t l \<and> listed l \<noteq> []"
  unfolding handlers_ok_def by blast

lemma guids_okD:
  assumes "guids_ok w"
  shows "guids w f = Some g \<Longrightarrow> 0 < g \<and> g < next_guid w" and "guids w f = Some g \<Longrightarrow> guids w f' = Some g \<Longrightarrow> f = f'"
    and "h \<in> set (handlers_at el t w) \<Longrightarrow> guids w (unwrapped (handler_of h)) = Some (guid_of h)" and "0 < next_guid w"
  using assms unfolding guids_ok_def by blast+

lemma guids_okI:
  assumes "\<And>f g. guids w f = Some g \<Longrightarrow> 0 < g \<and> g < next_guid w" and "0 < next_guid w"
    and "\<And>f f' g. guids w f = Some g \<Longrightarrow> guids w f' = Some g \<Longrightarrow> f = f'"
    and "\<And>el t h. h \<in> set (handlers_at el t w) \<Longrightarrow> guids w (unwrapped (handler_of h)) = Some (guid_of h)"
  shows "guids_ok w"
  using assms unfolding guids_ok_def by blast

text \<open>What fewer handlers keep.\<close>

lemma guids_fewer:
  assumes "guids_ok w" and "guids w1 = guids w" "next_guid w1 = next_guid w"
    and "\<And>el t. set (handlers_at el t w1) \<subseteq> set (handlers_at el t w)"
  shows "guids_ok w1"
proof (rule guids_okI)
  show "guids w1 (unwrapped (handler_of h)) = Some (guid_of h)" if "h \<in> set (handlers_at el t w1)" for el t h
    using guids_okD(3) [OF assms(1)] assms(2,4) that by (metis subsetD)
qed (use guids_okD [OF assms(1)] assms(2,3) in auto)

lemma guid_for_ok:
  assumes "handlers_ok env w" and "guid_for f w = (g, w1)"
  shows "handlers_ok env w1 \<and> guids w1 (unwrapped f) = Some g \<and> events w1 = events w"
proof (cases "guids w (unwrapped f)")
  case (Some a)
  with assms show ?thesis by (simp add: guid_for_def)
next
  case None
  let ?w = "w\<lparr>guids := (guids w)(unwrapped f \<mapsto> next_guid w), next_guid := Suc (next_guid w)\<rparr>"
  have l: "list_at el t ?w = list_at el t w" "handlers_at el t ?w = handlers_at el t w" for el t
    by (simp_all add: list_at_def handlers_at_def)
  have ok: "guids_ok w" using assms(1) by (simp add: handlers_ok_def)
  have "guids_ok ?w"
  proof (rule guids_okI)
    show "guids ?w (unwrapped (handler_of h)) = Some (guid_of h)" if "h \<in> set (handlers_at el t ?w)" for el t h
      using guids_okD(3) [OF ok, of h el t] that None by (auto simp: l)
    show "f1 = f2" if "guids ?w f1 = Some a" "guids ?w f2 = Some a" for f1 f2 a
      using guids_okD(1,2) [OF ok] that by (fastforce split: if_splits)
    show "0 < a \<and> a < next_guid ?w" if "guids ?w f1 = Some a" for f1 a
      using guids_okD(1,4) [OF ok] that by (fastforce split: if_splits)
  qed simp
  with assms(1) have "handlers_ok env ?w" by (simp add: handlers_ok_def l)
  with None assms(2) show ?thesis by (auto simp: guid_for_def)
qed

section \<open>Adding keeps the shape\<close>

lemma handlers_okI:
  assumes "\<And>el t l. list_at el t w = Some l \<Longrightarrow> tidy t l \<and> listed l \<noteq> []"
    and "\<And>el t. plain_type env el t \<Longrightarrow> listening w el t = (list_at el t w \<noteq> None)" and "guids_ok w"
  shows "handlers_ok env w"
  using assms unfolding handlers_ok_def by blast

lemma handlers_okD:
  assumes "handlers_ok env w"
  shows "plain_type env el t \<Longrightarrow> listening w el t = (list_at el t w \<noteq> None)" and "guids_ok w"
  using assms unfolding handlers_ok_def by blast+

lemma handlers_same:
  assumes "handlers_ok env w" and "events w1 = events w" "listening w1 = listening w" "guids w1 = guids w" "next_guid w1 = next_guid w"
  shows "handlers_ok env w1"
proof -
  have l: "list_at el t w1 = list_at el t w" "handlers_at el t w1 = handlers_at el t w" for el t
    using assms(2) by (simp_all add: list_at_def handlers_at_def)
  show ?thesis
    using assms(1,3-5) unfolding handlers_ok_def guids_ok_def l by simp
qed

lemma tidy_one: "bound_type h = t \<Longrightarrow> tidy t (insert_handler h \<lparr>listed = [], delegateCount = 0\<rparr>)"
  by (rule tidy_insert) (auto simp: tidy_def)

lemma insert_set: "tidy t l \<Longrightarrow> set (listed (insert_handler h l)) = insert h (set (listed l))"
  by (auto simp: insert_handler_def tidy_def)

text \<open>What adding one word does.\<close>

definition new_obj :: "('e, 'f, 'v) ev_env \<Rightarrow> 'f efn \<Rightarrow> nat \<Rightarrow> ('f, 'v) earg \<Rightarrow> jstr option \<Rightarrow> jstr \<Rightarrow> jstr option \<Rightarrow>
    ('f, 'v) handle_obj" where
  "new_obj env f g dat sel t0 n =
     \<lparr>bound_type = mapped_type env sel t0, origType = t0, data_of = dat, handler_of = f, guid_of = g, selector = sel,
      needsContext = (case sel of None \<Rightarrow> False | Some s \<Rightarrow> context_selector env s), namespace = join (js ''.'') (namespaces n)\<rparr>"

definition list_or_new :: "'e \<Rightarrow> jstr \<Rightarrow> ('e, 'f, 'v) evworld \<Rightarrow> ('f, 'v) hlist" where
  "list_or_new el t w = (case list_at el t w of None \<Rightarrow> \<lparr>listed = [], delegateCount = 0\<rparr> | Some l \<Rightarrow> l)"

lemma list_at_other [simp]: "list_at el t (w\<lparr>used_types := x\<rparr>) = list_at el t w" "list_at el t (w\<lparr>listening := y\<rparr>) = list_at el t w"
  by (simp_all add: list_at_def)

lemma add_word_lists:
  assumes "split_type word = (t0, n)" and "t0 \<noteq> []"
  shows "list_at el' t' (bind_word env el f g dat sel word w) =
      (if el' = el \<and> t' = mapped_type env sel t0
       then Some (insert_handler (new_obj env f g dat sel t0 n) (list_or_new el (mapped_type env sel t0) w))
       else list_at el' t' w)"
    and "guids (bind_word env el f g dat sel word w) = guids w" "next_guid (bind_word env el f g dat sel word w) = next_guid w"
    and "listening (bind_word env el f g dat sel word w) el' t' =
      (if el' = el \<and> t' = mapped_type env sel t0 \<and> list_at el t' w = None \<and>
          (case setup_hook (special_of env t') of None \<Rightarrow> True | Some hook \<Rightarrow> hook el)
       then True else listening w el' t')"
proof -
  show "list_at el' t' (bind_word env el f g dat sel word w) =
      (if el' = el \<and> t' = mapped_type env sel t0
       then Some (insert_handler (new_obj env f g dat sel t0 n) (list_or_new el (mapped_type env sel t0) w))
       else list_at el' t' w)"
    by (cases "list_at el (mapped_type env sel t0) w")
      (simp_all add: bind_word_def assms(1,2) Let_def list_put new_obj_def list_or_new_def)
  show "guids (bind_word env el f g dat sel word w) = guids w" "next_guid (bind_word env el f g dat sel word w) = next_guid w"
    by (simp_all add: bind_word_def assms(1,2) Let_def split: option.split)
  show "listening (bind_word env el f g dat sel word w) el' t' =
      (if el' = el \<and> t' = mapped_type env sel t0 \<and> list_at el t' w = None \<and>
          (case setup_hook (special_of env t') of None \<Rightarrow> True | Some hook \<Rightarrow> hook el)
       then True else listening w el' t')"
    by (cases "list_at el (mapped_type env sel t0) w"; cases "setup_hook (special_of env (mapped_type env sel t0))")
      (auto simp add: bind_word_def assms(1,2) Let_def)
qed

lemma bind_word_ok:
  assumes ok: "handlers_ok env w" and g: "guids w (unwrapped f) = Some g"
  shows "handlers_ok env (bind_word env el f g dat sel word w) \<and> guids (bind_word env el f g dat sel word w) = guids w"
proof (cases "split_type word")
  case (Pair t0 n)
  show ?thesis
  proof (cases "t0 = []")
    case True
    with Pair ok show ?thesis by (simp add: bind_word_def)
  next
    case False
    let ?w = "bind_word env el f g dat sel word w"
    let ?t = "mapped_type env sel t0"
    let ?h = "new_obj env f g dat sel t0 n"
    let ?l = "list_or_new el ?t w"
    note e = add_word_lists [OF Pair False]
    have td: "tidy ?t ?l" using list_okD [OF ok] by (auto simp: list_or_new_def tidy_def split: option.split)
    then have i: "tidy ?t (insert_handler ?h ?l)" "set (listed (insert_handler ?h ?l)) = insert ?h (set (listed ?l))"
      by (simp_all add: tidy_insert insert_set new_obj_def)
    have "handlers_ok env ?w"
    proof (rule handlers_okI)
      show "tidy t l \<and> listed l \<noteq> []" if "list_at el' t ?w = Some l" for el' t l
        using that list_okD [OF ok] i by (auto simp: e(1) split: if_splits)
      show "listening ?w el' t = (list_at el' t ?w \<noteq> None)" if "plain_type env el' t" for el' t
        using handlers_okD(1) [OF ok that] that by (auto simp: e(1) e(4) plain_type_def)
      have k: "guids_ok w" by (rule handlers_okD(2) [OF ok])
      show "guids_ok ?w"
      proof (rule guids_okI)
        show "guids ?w (unwrapped (handler_of h)) = Some (guid_of h)" if "h \<in> set (handlers_at el' t ?w)" for el' t h
        proof (cases "el' = el \<and> t = ?t \<and> h = ?h")
          case True
          with g show ?thesis by (simp add: e(2) new_obj_def)
        next
          case False
          with that i(2) have "h \<in> set (handlers_at el' t w)"
            by (auto simp: handlers_at_def e(1) list_or_new_def split: if_splits option.splits)
          with guids_okD(3) [OF k] show ?thesis by (simp add: e(2))
        qed
      qed (use guids_okD [OF k] in \<open>auto simp: e(2) e(3)\<close>)
    qed
    then show ?thesis by (simp add: e(2))
  qed
qed

lemma add_words_ok:
  "handlers_ok env w \<Longrightarrow> guids w (unwrapped f) = Some g \<Longrightarrow> handlers_ok env (fold (bind_word env el f g dat sel) ws w)"
proof (induction ws arbitrary: w)
  case (Cons word ws)
  with bind_word_ok [OF Cons.prems, of el dat sel word] show ?case by simp
qed simp

lemma ev_add_ok:
  assumes "handlers_ok env w"
  shows "handlers_ok env (fst (ev_add env el types f dat sel w))"
proof -
  obtain g w1 where g: "guid_for f w = (g, w1)" by (cases "guid_for f w")
  from guid_for_ok [OF assms g] have w1: "handlers_ok env w1" "guids w1 (unwrapped f) = Some g" by simp_all
  let ?w = "if events w1 el = None then w1\<lparr>events := (events w1)(el \<mapsto> [])\<rparr> else w1"
  have l: "list_at el' t ?w = list_at el' t w1" "handlers_at el' t ?w = handlers_at el' t w1" for el' t
    by (auto simp: list_at_def handlers_at_def)
  have "handlers_ok env ?w"
    using w1(1) unfolding handlers_ok_def guids_ok_def l by simp
  moreover have "guids ?w (unwrapped f) = Some g" using w1(2) by simp
  ultimately have "handlers_ok env (fold (bind_word env el f g dat sel) (rev (event_words types)) ?w)" by (rule add_words_ok)
  with assms g show ?thesis by (simp add: ev_add_def Let_def)
qed

lemma fold_or_stop:
  assumes "\<And>x w. P w \<Longrightarrow> P (fst (f x w))" and "P (fst r)"
  shows "P (fst (fold (\<lambda>x. or_stop (f x)) xs r))"
  using assms(2) by (induction xs arbitrary: r) (auto simp: or_stop_def assms(1))

lemma add_all_ok:
  "handlers_ok env (fst r) \<Longrightarrow> handlers_ok env (fst (fold (\<lambda>el. or_stop (ev_add env el types g dat sel)) els r))"
  by (rule fold_or_stop [where P = "handlers_ok env"]) (rule ev_add_ok)

lemma fn_on_ok:
  assumes "handlers_ok env w"
  shows "handlers_ok env (fst (fn_on env els types sel dat fn one w))"
proof -
  obtain sel1 dat1 fn1 where a: "on_args sel dat fn = (sel1, dat1, fn1)" by (cases "on_args sel dat fn")
  show ?thesis
  proof (cases "function_of fn1")
    case None
    with a assms show ?thesis by (simp add: fn_on_def)
  next
    case (Some f)
    have "handlers_ok env (snd (guid_for f w))"
      using guid_for_ok [OF assms, of f] by (cases "guid_for f w") simp
    with Some a assms add_all_ok [of env "(_, False)"] show ?thesis by (simp add: fn_on_def Let_def)
  qed
qed

section \<open>Removing keeps the shape\<close>

text \<open>What a word with a type selects among the handlers of an element.\<close>

definition picked :: "('e, 'f, 'v) ev_env \<Rightarrow> ('e, 'f, 'v) evworld \<Rightarrow> 'f efn option \<Rightarrow> jstr option \<Rightarrow> bool \<Rightarrow> jstr \<Rightarrow>
    jstr option \<Rightarrow> ('f, 'v) handle_obj \<Rightarrow> bool" where
  "picked env w f sel mapped t0 n =
     removable mapped t0 (map_option (\<lambda>f. guids w (unwrapped f)) f) (map_option (\<lambda>s. namespaces (Some s)) n) sel"

definition left_over :: "(('f, 'v) handle_obj \<Rightarrow> bool) \<Rightarrow> ('f, 'v) hlist option \<Rightarrow> ('f, 'v) hlist option" where
  "left_over p r = (case r of None \<Rightarrow> None
     | Some l \<Rightarrow> if filter (\<lambda>h. \<not> p h) (listed l) = [] then None else Some (remove_loop p (length (listed l)) l))"

lemma remove_typed_effect:
  assumes ok: "handlers_ok env w" and w1_def: "w1 = remove_typed env el t0 n f sel mapped w"
  shows "list_at el' t' w1 =
      (if el' = el \<and> t' = mapped_type env sel t0 then left_over (picked env w f sel mapped t0 n) (list_at el t' w)
       else list_at el' t' w)"
    and "guids w1 = guids w" "next_guid w1 = next_guid w"
    and "listening w1 el' t' =
      (if el' = el \<and> t' = mapped_type env sel t0 \<and> list_at el t' w \<noteq> None \<and>
          left_over (picked env w f sel mapped t0 n) (list_at el t' w) = None \<and>
          (case teardown_hook (special_of env t0) of None \<Rightarrow> True | Some hook \<Rightarrow> hook el)
       then False else listening w el' t')"
proof -
  let ?t = "mapped_type env sel t0"
  let ?p = "picked env w f sel mapped t0 n"
  have all: "(list_at el' t' w1 =
      (if el' = el \<and> t' = ?t then left_over ?p (list_at el t' w) else list_at el' t' w)) \<and>
     guids w1 = guids w \<and> next_guid w1 = next_guid w \<and>
     (listening w1 el' t' = (if el' = el \<and> t' = ?t \<and> list_at el t' w \<noteq> None \<and> left_over ?p (list_at el t' w) = None \<and>
          (case teardown_hook (special_of env t0) of None \<Rightarrow> True | Some hook \<Rightarrow> hook el)
       then False else listening w el' t'))"
  proof (cases "list_at el ?t w")
    case None
    then show ?thesis by (auto simp: w1_def remove_typed_def Let_def left_over_def)
  next
    case (Some l)
    from list_okD [OF ok Some] have l: "tidy ?t l" "listed l \<noteq> []" by simp_all
    from tidy_remove [OF l(1), of ?p] have r: "listed (remove_loop ?p (length (listed l)) l) = filter (\<lambda>h. \<not> ?p h) (listed l)"
      by blast
    have w1: "w1 = (let w2 = put_at el ?t (remove_loop ?p (length (listed l)) l) w in
        if filter (\<lambda>h. \<not> ?p h) (listed l) = [] then
          drop_at el ?t (if (case teardown_hook (special_of env t0) of None \<Rightarrow> True | Some hook \<Rightarrow> hook el)
            then w2\<lparr>listening := (listening w2)(el := (listening w2 el)(?t := False))\<rparr> else w2) else w2)"
      using Some l(2) r by (simp add: w1_def remove_typed_def Let_def picked_def)
    show ?thesis
    proof (cases "filter (\<lambda>h. \<not> ?p h) (listed l) = []")
      case True
      with Some show ?thesis
        by (cases "case teardown_hook (special_of env t0) of None \<Rightarrow> True | Some hook \<Rightarrow> hook el")
          (simp_all add: w1 left_over_def list_drop list_put)
    next
      case False
      with Some show ?thesis by (auto simp: w1 left_over_def list_put)
    qed
  qed
  then show "list_at el' t' w1 =
      (if el' = el \<and> t' = ?t then left_over ?p (list_at el t' w) else list_at el' t' w)"
    "guids w1 = guids w" "next_guid w1 = next_guid w"
    "listening w1 el' t' =
      (if el' = el \<and> t' = ?t \<and> list_at el t' w \<noteq> None \<and> left_over ?p (list_at el t' w) = None \<and>
          (case teardown_hook (special_of env t0) of None \<Rightarrow> True | Some hook \<Rightarrow> hook el)
       then False else listening w el' t')"
    by blast+
qed

lemma left_over_ok:
  assumes "handlers_ok env w" and "left_over p (list_at el t w) = Some l1"
  shows "tidy t l1 \<and> listed l1 \<noteq> [] \<and> listed l1 = filter (\<lambda>h. \<not> p h) (handlers_at el t w)"
proof (cases "list_at el t w")
  case None
  with assms(2) show ?thesis by (simp add: left_over_def)
next
  case (Some l)
  from list_okD [OF assms(1) Some] have "tidy t l" by simp
  from tidy_remove [OF this, of p] Some assms(2) show ?thesis
    by (auto simp: left_over_def handlers_at_def split: if_splits)
qed

lemma left_over_handlers:
  assumes "handlers_ok env w"
  shows "(case left_over p (list_at el t w) of None \<Rightarrow> [] | Some l \<Rightarrow> listed l) = filter (\<lambda>h. \<not> p h) (handlers_at el t w)"
proof (cases "left_over p (list_at el t w)")
  case None
  then show ?thesis by (auto simp: left_over_def handlers_at_def split: option.splits if_splits)
next
  case (Some l)
  with left_over_ok [OF assms Some] show ?thesis by simp
qed

lemma remove_typed_handlers:
  assumes "handlers_ok env w"
  shows "handlers_at el' t' (remove_typed env el t0 n f sel mapped w) =
      (if el' = el \<and> t' = mapped_type env sel t0 then filter (\<lambda>h. \<not> picked env w f sel mapped t0 n h) (handlers_at el t' w)
       else handlers_at el' t' w)"
  using left_over_handlers [OF assms] by (simp add: handlers_at_def remove_typed_effect(1) [OF assms refl])

lemma remove_typed_ok:
  assumes ok: "handlers_ok env w"
  shows "handlers_ok env (remove_typed env el t0 n f sel mapped w)"
proof (rule handlers_okI)
  note e = remove_typed_effect [OF ok refl]
  show "tidy t l \<and> listed l \<noteq> []" if "list_at el' t (remove_typed env el t0 n f sel mapped w) = Some l" for el' t l
  proof (cases "el' = el \<and> t = mapped_type env sel t0")
    case True
    with that have "left_over (picked env w f sel mapped t0 n) (list_at el t w) = Some l" by (simp add: e(1))
    from left_over_ok [OF ok this] show ?thesis by blast
  next
    case False
    with that have "list_at el' t w = Some l" by (simp only: e(1) if_False)
    from list_okD [OF ok this] show ?thesis .
  qed
  show "listening (remove_typed env el t0 n f sel mapped w) el' t = (list_at el' t (remove_typed env el t0 n f sel mapped w) \<noteq> None)"
    if "plain_type env el' t" for el' t
    using handlers_okD(1) [OF ok that] that
    by (cases "list_at el t w") (auto simp: e(1) e(4) plain_type_def left_over_def)
  show "guids_ok (remove_typed env el t0 n f sel mapped w)"
    by (rule guids_fewer [OF handlers_okD(2) [OF ok]])
      (auto simp: e(2,3) remove_typed_handlers [OF ok])
qed

lemma forget_lists [simp]: "list_at el' t (forget el w) = list_at el' t w" "listening (forget el w) = listening w"
  "guids (forget el w) = guids w" "next_guid (forget el w) = next_guid w"
  by (auto simp: forget_def list_at_def)

lemma forget_ok: "handlers_ok env w \<Longrightarrow> handlers_ok env (forget el w)"
  by (simp add: handlers_ok_def guids_ok_def handlers_at_def)

lemma fold_keeps: "(\<And>x w. P w \<Longrightarrow> P (f x w)) \<Longrightarrow> P w \<Longrightarrow> P (fold f xs w)"
  by (induction xs arbitrary: w) auto

lemma remove_mapped_ok: "handlers_ok env w \<Longrightarrow> handlers_ok env (remove_mapped env el types f sel w)"
  unfolding remove_mapped_def
  by (auto intro!: forget_ok fold_keeps [where P = "handlers_ok env"] remove_typed_ok split: prod.split)

lemma remove_word_ok: "handlers_ok env w \<Longrightarrow> handlers_ok env (remove_word env el f sel word w)"
  unfolding remove_word_def
  by (auto intro!: fold_keeps [where P = "handlers_ok env"] remove_mapped_ok remove_typed_ok split: prod.split)

lemma ev_remove_ok: "handlers_ok env w \<Longrightarrow> handlers_ok env (ev_remove env el types f sel w)"
  unfolding ev_remove_def
  by (auto intro!: forget_ok fold_keeps [where P = "handlers_ok env"] remove_word_ok)

lemma fn_off_ok: "handlers_ok env w \<Longrightarrow> handlers_ok env (fn_off env els types sel fn w)"
  unfolding fn_off_def Let_def by (intro fold_keeps [where P = "handlers_ok env"] ev_remove_ok)

lemma off_event_ok: "handlers_ok env w \<Longrightarrow> handlers_ok env (off_event env e w)"
  by (simp add: off_event_def fn_off_ok split: option.split)

section \<open>All histories\<close>

lemma upd_event_fields [simp]: "events (upd_event i g w) = events w" "listening (upd_event i g w) = listening w"
  "guids (upd_event i g w) = guids w" "next_guid (upd_event i g w) = next_guid w"
  by (simp_all add: upd_event_def)

definition same_lists :: "('e, 'f, 'v) evworld \<Rightarrow> ('e, 'f, 'v) evworld \<Rightarrow> bool" where
  "same_lists w w1 \<longleftrightarrow> events w1 = events w \<and> listening w1 = listening w \<and> guids w1 = guids w \<and> next_guid w1 = next_guid w"

lemma same_lists_ok: "handlers_ok env w \<Longrightarrow> same_lists w w1 \<Longrightarrow> handlers_ok env w1"
  unfolding same_lists_def by (blast intro: handlers_same)

lemma same_start_trigger: "same_lists w (snd (start_trigger env el what args only w))"
  by (auto simp: start_trigger_def same_lists_def Let_def split: sum.split)

lemma eop_ok: "handlers_ok env w \<Longrightarrow> handlers_ok env (snd (run_eop env p w))"
proof (cases p)
  case (Op_trigger el what args only)
  then show "handlers_ok env w \<Longrightarrow> ?thesis" using same_lists_ok [OF _ same_start_trigger] by simp
qed (auto simp: threw_def fn_on_ok fn_off_ok off_event_ok same_lists_def intro: same_lists_ok)

lemma task_ok: "handlers_ok env w \<Longrightarrow> handlers_ok env (snd (run_etask env t w))"
proof (cases t)
  case (TOp p)
  then show "handlers_ok env w \<Longrightarrow> ?thesis" using eop_ok by simp
next
  case (TDispatch el i args)
  have "same_lists w (snd (dispatch env el i args w))" by (simp add: dispatch_def same_lists_def Let_def)
  with TDispatch show "handlers_ok env w \<Longrightarrow> ?thesis" by (auto intro: same_lists_ok)
next
  case (TQueue i args q)
  have "same_lists w (snd (queue_step i args q w))"
    by (auto simp: queue_step_def same_lists_def split: list.split)
  with TQueue show "handlers_ok env w \<Longrightarrow> ?thesis" by (auto intro: same_lists_ok)
next
  case (TInner i args el hs)
  have "same_lists w (snd (inner_step env i args el hs w))"
    by (auto simp: inner_step_def same_lists_def split: list.split)
  with TInner show "handlers_ok env w \<Longrightarrow> ?thesis" by (auto intro: same_lists_ok)
next
  case (TPath i args path u b on)
  have "same_lists w (snd (path_step i args path u b on w))"
    by (auto simp: path_step_def same_lists_def split: list.split)
  with TPath show "handlers_ok env w \<Longrightarrow> ?thesis" by (auto intro: same_lists_ok)
next
  case (TFinish i el u only)
  have "same_lists w (finish_trigger env i el u only w)" by (simp add: finish_trigger_def same_lists_def Let_def)
  with TFinish show "handlers_ok env w \<Longrightarrow> ?thesis" by (auto intro: same_lists_ok)
qed (auto simp: same_lists_def intro: same_lists_ok)

lemma estep_ok: "handlers_ok env (snd s) \<Longrightarrow> handlers_ok env (snd (estep env s))"
proof (cases s)
  case (Pair ts w)
  assume ok: "handlers_ok env (snd s)"
  show ?thesis
  proof (cases ts)
    case (Cons t us)
    with Pair ok task_ok [of env w t] show ?thesis by (cases "run_etask env t w") simp
  qed (use Pair ok in simp)
qed

lemma eevent_ok: "handlers_ok env (snd s) \<Longrightarrow> eevent env s s1 \<Longrightarrow> handlers_ok env (snd s1)"
proof (erule eevent.cases, goal_cases)
  case (1 s)
  then show ?case by (simp add: estep_ok)
next
  case (2 w ops)
  then show ?case by simp
next
  case (3 w el n)
  have "same_lists w (snd (native_start env el n w))" by (simp add: native_start_def same_lists_def)
  with 3 show ?case by (auto intro: same_lists_ok)
qed

lemma no_handlers_ok: "handlers_ok env (no_handlers e)"
  by (simp add: handlers_ok_def guids_ok_def no_handlers_def list_at_def handlers_at_def)

interpretation event_lists: machine "\<lambda>s. s = ([], no_handlers e)" "eevent env" "\<lambda>s. handlers_ok env (snd s)"
  by unfold_locales (auto simp: no_handlers_ok intro: eevent_ok)

text \<open>
  C8. In every history of events, whatever handlers do while they run: the delegated handlers of an element stand
  in front of the others and the count is theirs, every list holds the handlers of one type, an element listens to a
  type exactly when it has handlers for it, and two handlers have one number exactly when they are one function,
  wrapped or not.
\<close>

theorem handler_lists_in_order:
  assumes "reachable (\<lambda>s. s = ([], no_handlers e)) (eevent env) (ts, w)"
  shows "(list_at el t w = Some l \<longrightarrow> listed l \<noteq> [] \<and> (\<forall>h \<in> set (listed l). bound_type h = t) \<and>
      (\<exists>ds hs. listed l = ds @ hs \<and> delegateCount l = int (length ds) \<and> (\<forall>h \<in> set ds. selector h \<noteq> None) \<and>
         (\<forall>h \<in> set hs. selector h = None))) \<and>
    (plain_type env el t \<longrightarrow> listening w el t = (list_at el t w \<noteq> None)) \<and>
    (h \<in> set (handlers_at el t w) \<and> h' \<in> set (handlers_at el' t' w) \<longrightarrow>
      (guid_of h = guid_of h') = (unwrapped (handler_of h) = unwrapped (handler_of h')))"
proof -
  have ok: "handlers_ok env w" using event_lists.always [OF assms] by simp
  note g = guids_okD [OF handlers_okD(2) [OF ok]]
  have "(guid_of h = guid_of h') = (unwrapped (handler_of h) = unwrapped (handler_of h'))"
    if "h \<in> set (handlers_at el t w)" "h' \<in> set (handlers_at el' t' w)"
    using g(3) [OF that(1)] g(3) [OF that(2)] g(2) by (metis option.inject)
  with list_okD [OF ok, of el t l] handlers_okD(1) [OF ok, of el t] show ?thesis by (auto simp: tidy_def)
qed

section \<open>What \<open>off\<close> removes\<close>

text \<open>The handlers of a type that a word, a function and a selector name.\<close>

definition chosen :: "('e, 'f, 'v) ev_env \<Rightarrow> 'f efn option \<Rightarrow> jstr option \<Rightarrow> jstr \<Rightarrow> jstr \<Rightarrow> ('f, 'v) handle_obj \<Rightarrow> bool" where
  "chosen env f sel word t h \<longleftrightarrow>
     t = mapped_type env sel (fst (split_type word)) \<and> origType h = fst (split_type word) \<and>
     (case f of None \<Rightarrow> True | Some g \<Rightarrow> unwrapped (handler_of h) = unwrapped g) \<and>
     (case snd (split_type word) of None \<Rightarrow> True | Some s \<Rightarrow> in_namespace (namespaces (Some s)) (namespace h)) \<and>
     (case sel of None \<Rightarrow> True | Some s \<Rightarrow> selector h = Some s \<or> s = js ''**'' \<and> selector h \<noteq> None)"

lemma picked_chosen:
  assumes "guids_ok w" and "h \<in> set (handlers_at el t w)" and "t = mapped_type env sel (fst (split_type word))"
  shows "picked env w f sel False (fst (split_type word)) (snd (split_type word)) h = chosen env f sel word t h"
proof -
  have g: "(guids w (unwrapped k) = Some (guid_of h)) = (unwrapped (handler_of h) = unwrapped k)" for k
    using guids_okD(2,3) [OF assms(1)] assms(2) by metis
  show ?thesis
    unfolding picked_def removable_def chosen_def using assms(3) g
    by (cases f; cases sel; cases "snd (split_type word)") auto
qed

lemma remove_word_handlers:
  assumes ok: "handlers_ok env w" and "fst (split_type word) \<noteq> []"
  shows "handlers_at el' t (remove_word env el f sel word w) =
    (if el' = el then filter (\<lambda>h. \<not> chosen env f sel word t h) (handlers_at el t w) else handlers_at el' t w)"
proof -
  let ?t0 = "fst (split_type word)"
  have r: "remove_word env el f sel word w = remove_typed env el ?t0 (snd (split_type word)) f sel False w"
    using assms(2) by (cases "split_type word") (simp add: remove_word_def)
  show ?thesis
  proof (cases "el' = el \<and> t = mapped_type env sel ?t0")
    case True
    then show ?thesis
      unfolding r remove_typed_handlers [OF ok]
      using picked_chosen [OF handlers_okD(2) [OF ok], of _ el t env sel word f] by (auto intro: filter_cong)
  next
    case False
    then show ?thesis
      unfolding r remove_typed_handlers [OF ok] by (auto simp: chosen_def)
  qed
qed

lemma remove_words_handlers:
  assumes "handlers_ok env w" and "\<forall>word \<in> set ws. fst (split_type word) \<noteq> []"
  shows "handlers_at el' t (fold (remove_word env el f sel) ws w) =
    (if el' = el then filter (\<lambda>h. \<not> (\<exists>word \<in> set ws. chosen env f sel word t h)) (handlers_at el t w) else handlers_at el' t w)"
  using assms
proof (induction ws arbitrary: w)
  case (Cons word ws)
  have "handlers_ok env (remove_word env el f sel word w)" by (rule remove_word_ok [OF Cons.prems(1)])
  from Cons.IH [OF this] Cons.prems remove_word_handlers [OF Cons.prems(1), of word]
  show ?case by (auto intro: filter_cong)
qed simp

text \<open>
  C10. When all types are named, \<open>off\<close> takes from an element exactly the handlers that one of the words, the function
  (wrapped or not) and the selector name, in whatever order the loops of the code find them; the others keep
  their order, and other elements their handlers.
\<close>

theorem off_removes_chosen:
  assumes "reachable (\<lambda>s. s = ([], no_handlers e)) (eevent env) (ts, w)"
    and "\<forall>word \<in> set (event_words types). fst (split_type word) \<noteq> []"
  shows "handlers_at el' t (ev_remove env el types f sel w) =
    (if el' = el then filter (\<lambda>h. \<not> (\<exists>word \<in> set (event_words types). chosen env f sel word t h)) (handlers_at el t w)
     else handlers_at el' t w)"
proof -
  have ok: "handlers_ok env w" using event_lists.always [OF assms(1)] by simp
  show ?thesis
  proof (cases "events w el = None")
    case True
    then have "handlers_at el t w = []" by (simp add: handlers_at_def list_at_def)
    with True show ?thesis by (simp add: ev_remove_def)
  next
    case False
    then have "ev_remove env el types f sel w = forget el (fold (remove_word env el f sel) (rev (event_words types)) w)"
      unfolding ev_remove_def by (rule if_not_P)
    then have "handlers_at el' t (ev_remove env el types f sel w) =
        handlers_at el' t (fold (remove_word env el f sel) (rev (event_words types)) w)"
      by (simp add: handlers_at_def)
    with remove_words_handlers [OF ok, of "rev (event_words types)"] assms(2) show ?thesis by simp
  qed
qed

section \<open>Samples\<close>

definition event_page :: "(nat, nat, nat) ev_env" where
  "event_page = \<lparr>user = \<lambda>f el i e args. ([Op_stop i], Inr None), is_false = \<lambda>v. v = 0, false_value = 0, truthy = \<lambda>v. v \<noteq> 0,
     node_type = \<lambda>_. Some 1, is_disabled = \<lambda>_. False, ancestors = \<lambda>el. rev [0..<el], matches = \<lambda>_ _ _ _. True,
     contains = \<lambda>a b. a < b, valid_selector = \<lambda>_. True, context_selector = \<lambda>_. False, special_of = library_special,
     is_window = \<lambda>_. False, document_of = \<lambda>_. 0, view_of = \<lambda>_. 0, inline_handler = \<lambda>_ _. None, native_method = \<lambda>_ _. False\<rparr>"

definition sample_ops :: "(nat, nat, nat) eop list" where
  "sample_ops = [Op_on 3 (js ''click.a'') (Text (js ''li'')) Undefined (Func (Fun 8)) True]"

definition sample_after :: "nat \<Rightarrow> (nat, nat, nat) etask list \<times> (nat, nat, nat) evworld" where
  "sample_after n = (estep event_page ^^ n) (map TOp sample_ops, no_handlers (new_event [] 0))"

lemma sample_events: "reachable (\<lambda>s. s = ([], no_handlers (new_event [] 0))) (eevent event_page) (sample_after n)"
proof (induction n)
  case 0
  have "reachable (\<lambda>s. s = ([], no_handlers (new_event [] 0))) (eevent event_page) ([], no_handlers (new_event [] 0))"
    by (rule reachable.start) simp
  from reachable.event [OF this eevent.page] show ?case unfolding sample_after_def funpow_0 .
next
  case (Suc n)
  from reachable.event [OF Suc eevent.step] show ?case by (simp add: sample_after_def)
qed


definition sample_obj :: "(nat, nat) handle_obj" where
  "sample_obj = new_obj event_page (One (Fun 8)) 1 Undefined (Some (js ''li'')) (js ''click'') (Some (js ''a''))"

lemma sample_handlers: "handlers_at 3 (js ''click'') (snd (sample_after 1)) = [sample_obj]"
  by code_simp

lemma sample_state:
  obtains ts w where "sample_after 1 = (ts, w)" "handlers_at 3 (js ''click'') w = [sample_obj]"
    "reachable (\<lambda>s. s = ([], no_handlers (new_event [] 0))) (eevent event_page) (ts, w)"
proof (cases "sample_after 1")
  case (Pair ts w)
  have "handlers_at 3 (js ''click'') w = [sample_obj]" using sample_handlers unfolding Pair snd_conv .
  moreover have "reachable (\<lambda>s. s = ([], no_handlers (new_event [] 0))) (eevent event_page) (ts, w)"
    using sample_events [of 1] unfolding Pair .
  ultimately show thesis using that [OF Pair] by blast
qed

theorem handler_lists_in_order_witness:
  "\<exists>l. list_at 3 (js ''click'') (snd (sample_after 1)) = Some l \<and> map handler_of (listed l) = [One (Fun 8)] \<and>
     (\<exists>ds hs. listed l = ds @ hs \<and> delegateCount l = int (length ds))"
proof -
  obtain ts w where s: "sample_after 1 = (ts, w)" "handlers_at 3 (js ''click'') w = [sample_obj]"
    "reachable (\<lambda>s. s = ([], no_handlers (new_event [] 0))) (eevent event_page) (ts, w)" by (rule sample_state)
  then obtain l where l: "list_at 3 (js ''click'') w = Some l" by (cases "list_at 3 (js ''click'') w") (auto simp: handlers_at_def)
  have m: "map handler_of (listed l) = [One (Fun 8)]" using s(2) l by (simp add: handlers_at_def sample_obj_def new_obj_def)
  have "\<exists>ds hs. listed l = ds @ hs \<and> delegateCount l = int (length ds)"
    using mp [OF conjunct1 [OF handler_lists_in_order [OF s(3)]] l] by blast
  with l m show ?thesis unfolding s(1) snd_conv by (intro exI [of _ l] conjI)
qed

theorem off_removes_chosen_witness:
  "handlers_at 3 (js ''click'') (ev_remove event_page 3 (js ''click'') (Some (Fun 8)) (Some (js ''**'')) (snd (sample_after 1))) = [] \<and>
   handlers_at 3 (js ''click'') (ev_remove event_page 3 (js ''click.b'') (Some (Fun 8)) (Some (js ''**'')) (snd (sample_after 1))) = [sample_obj]"
proof -
  obtain ts w where s: "sample_after 1 = (ts, w)" "handlers_at 3 (js ''click'') w = [sample_obj]"
    "reachable (\<lambda>s. s = ([], no_handlers (new_event [] 0))) (eevent event_page) (ts, w)" by (rule sample_state)
  have c: "\<exists>word \<in> set (event_words (js ''click'')). chosen event_page (Some (Fun 8)) (Some (js ''**'')) word (js ''click'') sample_obj"
    "\<not> (\<exists>word \<in> set (event_words (js ''click.b'')). chosen event_page (Some (Fun 8)) (Some (js ''**'')) word (js ''click'') sample_obj)"
    "\<forall>word \<in> set (event_words (js ''click'')). fst (split_type word) \<noteq> []"
    "\<forall>word \<in> set (event_words (js ''click.b'')). fst (split_type word) \<noteq> []"
    by code_simp+
  show ?thesis
    using off_removes_chosen [OF s(3) c(3), of 3 "js ''click''" 3 "Some (Fun 8)" "Some (js ''**'')"]
      off_removes_chosen [OF s(3) c(4), of 3 "js ''click''" 3 "Some (Fun 8)" "Some (js ''**'')"] c(1,2)
    unfolding s(1) snd_conv s(2) by simp
qed

end
