(* ===== verification/JqNamespaces.thy ===== *)
theory JqNamespaces
  imports JqEvents "HOL-Library.Sublist"
begin

text \<open>
  What the regular expression that \<open>JqEvents\<close> builds from the namespaces of an event matches: the handlers that have
  all of them.
\<close>

section \<open>Ways without captures\<close>

text \<open>The rests that a regular expression leaves.\<close>

definition rests :: "nat \<Rightarrow> re \<Rightarrow> jstr \<Rightarrow> jstr set" where
  "rests n0 r s = (\<Union>c. fst ` set (ways n0 r (s, c)))"

abbreviation dot_unit :: jschar where
  "dot_unit \<equiv> cu CHR ''.''"

lemma js_dot: "js ''.'' = [dot_unit]"
  by (simp add: js_def)

lemma rests_iff: "t \<in> rests n0 r s \<longleftrightarrow> (\<exists>c c1. (t, c1) \<in> set (ways n0 r (s, c)))"
  by (force simp: rests_def)

text \<open>Captures do not change how these expressions match.\<close>

primrec no_groups :: "re \<Rightarrow> bool" where
  "no_groups Eps = True"
| "no_groups (Cls p) = True"
| "no_groups (Cat r q) = (no_groups r \<and> no_groups q)"
| "no_groups (Alt r q) = (no_groups r \<and> no_groups q)"
| "no_groups (Star r) = (\<exists>p. r = Cls p)"
| "no_groups (Grp n r) = False"
| "no_groups Bol = True"
| "no_groups Eol = True"

lemma ways_captures: "no_groups r \<Longrightarrow> ways n0 r (s, c) = map (\<lambda>t. (t, c)) (map fst (ways n0 r (s, d)))"
proof (induction r arbitrary: s c d)
  case (Cls p)
  then show ?case by (cases s) auto
next
  case (Cat r q)
  define ts where "ts = map fst (ways n0 r (s, d))"
  have "ways n0 r (s, c) = map (\<lambda>t. (t, c)) ts" "ways n0 r (s, d) = map (\<lambda>t. (t, d)) ts"
    using Cat.IH(1) [of s c d] Cat.IH(1) [of s d d] Cat.prems unfolding ts_def no_groups.simps by blast+
  note r = this
  have "concat (map (ways n0 q) (map (\<lambda>t. (t, c)) ts)) = map (\<lambda>t. (t, c)) (map fst (concat (map (ways n0 q) (map (\<lambda>t. (t, d)) ts))))"
    using Cat.IH(2) Cat.prems by (induction ts) auto
  then show ?case by (simp only: ways.simps r)
next
  case (Star r)
  from Star.prems obtain p where "r = Cls p" by auto
  then show ?case by (simp add: ways_Star_Cls comp_def del: ways.simps upt_Suc)
qed auto

lemma rests_ways:
  assumes "no_groups r"
  shows "rests n0 r s = fst ` set (ways n0 r (s, c))"
proof -
  have "fst ` set (ways n0 r (s, d)) = fst ` set (ways n0 r (s, c))" for d
    using arg_cong [OF ways_captures [OF assms, of n0 s d c], of "\<lambda>xs. fst ` set xs"] by (simp add: image_image)
  then show ?thesis unfolding rests_def by blast
qed

lemma rests_Cat:
  assumes "no_groups q"
  shows "rests n0 (Cat r q) s = (\<Union>t \<in> rests n0 r s. rests n0 q t)"
proof -
  have "fst ` set (ways n0 q y) = rests n0 q (fst y)" for y
    using rests_ways [OF assms, of n0 "fst y" "snd y"] by simp
  moreover have "rests n0 (Cat r q) s = (\<Union>c. \<Union>y \<in> set (ways n0 r (s, c)). fst ` set (ways n0 q y))"
    by (simp add: rests_def image_UN)
  moreover have "(\<Union>t \<in> rests n0 r s. rests n0 q t) = (\<Union>c. \<Union>y \<in> set (ways n0 r (s, c)). rests n0 q (fst y))"
    by (simp add: rests_def [of n0 r] UN_UN_flatten)
  ultimately show ?thesis by simp
qed

lemma rests_simps [simp]:
  "rests n0 Eps s = {s}" "rests n0 (Cls p) s = (case s of [] \<Rightarrow> {} | d # ds \<Rightarrow> if p d then {ds} else {})"
  "rests n0 (Alt r q) s = rests n0 r s \<union> rests n0 q s" "rests n0 Bol s = (if length s = n0 then {s} else {})"
  "rests n0 Eol s = (if s = [] then {s} else {})"
  by (auto simp: rests_def split: list.split)

lemma rests_Star: "rests n0 (Star (Cls p)) s = {t. \<exists>x. s = x @ t \<and> (\<forall>d \<in> set x. p d)}"
proof -
  have "rests n0 (Star (Cls p)) s = (\<lambda>i. drop i s) ` {0..length (takeWhile p s)}"
    by (simp add: rests_def ways_Star_Cls image_image atLeast0LessThan lessThan_Suc_atMost atLeast0AtMost del: upt_Suc ways.simps)
  also have "\<dots> = {t. \<exists>x. s = x @ t \<and> (\<forall>d \<in> set x. p d)}"
  proof (intro set_eqI iffI)
    fix t assume "t \<in> (\<lambda>i. drop i s) ` {0..length (takeWhile p s)}"
    then obtain i where i: "i \<le> length (takeWhile p s)" "t = drop i s" by auto
    have "take i s = take i (takeWhile p s)"
      using i(1) by (subst takeWhile_eq_take) (simp add: min_absorb1)
    then have "\<forall>d \<in> set (take i s). p d" by (metis in_set_takeD set_takeWhileD)
    moreover have "s = take i s @ t" using i(2) by simp
    ultimately show "t \<in> {t. \<exists>x. s = x @ t \<and> (\<forall>d \<in> set x. p d)}" by blast
  next
    fix t assume "t \<in> {t. \<exists>x. s = x @ t \<and> (\<forall>d \<in> set x. p d)}"
    then obtain x where x: "s = x @ t" "\<forall>d \<in> set x. p d" by auto
    then have "length x \<le> length (takeWhile p s)" by (simp add: takeWhile_append2)
    with x(1) show "t \<in> (\<lambda>i. drop i s) ` {0..length (takeWhile p s)}" by (auto intro!: image_eqI [of _ _ "length x"])
  qed
  finally show ?thesis .
qed

lemma search_rests: "no_groups r \<Longrightarrow> search_from n0 r s \<noteq> None \<longleftrightarrow> (\<exists>t. suffix t s \<and> rests n0 r t \<noteq> {})"
proof (induction s)
  case Nil
  show ?case
    using rests_ways [OF Nil, of n0 "[]" "\<lambda>_. None"]
    by (subst search_from.simps) (auto split: list.splits)
next
  case (Cons d s)
  show ?case
  proof (cases "ways n0 r (d # s, \<lambda>_. None)")
    case Nil
    then have "rests n0 r (d # s) = {}" using rests_ways [OF Cons.prems, of n0 "d # s" "\<lambda>_. None"] by simp
    with Nil Cons show ?thesis
      by (subst search_from.simps) (auto simp: suffix_Cons split: option.splits)
  next
    case (Cons x xs)
    then have "rests n0 r (d # s) \<noteq> {}" using rests_ways [OF Cons.prems, of n0 "d # s" "\<lambda>_. None"] by simp
    with Cons show ?thesis by (subst search_from.simps) (auto split: prod.split)
  qed
qed

section \<open>The expression of some namespaces\<close>

lemma no_groups_units: "no_groups (units u)"
  by (induction u) auto

lemma no_groups_between: "no_groups (in_between ns)"
  by (induction ns rule: in_between.induct) (auto simp: no_groups_units dot_def chr_re_def)

lemma rests_units: "rests n0 (units u) s = {t. s = u @ t}"
proof (induction u arbitrary: s)
  case (Cons c u)
  then show ?case by (cases s) (auto simp: rests_Cat no_groups_units)
qed simp

lemma rests_dot: "rests n0 (lit ''.'') s = {t. s = dot_unit # t}" "rests n0 (chr_re CHR ''.'') s = {t. s = dot_unit # t}"
  by (cases s; auto simp: chr_re_def)+

definition lineless :: "jstr \<Rightarrow> bool" where
  "lineless s \<longleftrightarrow> (\<forall>c \<in> set s. \<not> line_end c)"

lemma lineless_append [simp]: "lineless (s @ t) \<longleftrightarrow> lineless s \<and> lineless t" "lineless (c # s) \<longleftrightarrow> \<not> line_end c \<and> lineless s"
  by (auto simp: lineless_def)

lemma rests_skip:
  assumes "lineless s"
  shows "rests n0 (Alt (Cat (Star dot) (lit ''.'')) Eps) s = {t. t = s \<or> (\<exists>x. s = x @ dot_unit # t)}"
proof -
  have "no_groups (lit ''.'')" by (simp add: chr_re_def)
  then have "rests n0 (Cat (Star dot) (lit ''.'')) s = {t. \<exists>x. s = x @ dot_unit # t \<and> lineless x}"
    by (auto simp: rests_Cat rests_dot rests_Star dot_def lineless_def)
  with assms show ?thesis by auto
qed

text \<open>Whether the expression matches at the start of a text.\<close>

definition starts :: "nat \<Rightarrow> jstr list \<Rightarrow> jstr \<Rightarrow> bool" where
  "starts n0 ns s \<longleftrightarrow> rests n0 (Cat (in_between ns) (Alt (lit ''.'') Eol)) s \<noteq> {}"

lemma no_groups_end: "no_groups (Alt (lit ''.'') Eol)" "no_groups (lit ''.'')" "no_groups (Alt (Cat (Star dot) (lit ''.'')) Eps)"
  by (auto simp: chr_re_def dot_def)

lemma starts_one: "starts n0 [n] s \<longleftrightarrow> s = n \<or> (\<exists>t. s = n @ dot_unit # t)"
  unfolding starts_def in_between.simps rests_Cat [OF no_groups_end(1)] rests_units rests_simps rests_dot by auto

lemma starts_more:
  assumes "lineless s"
  shows "starts n0 (n # m # ns) s \<longleftrightarrow>
    (\<exists>t. s = n @ dot_unit # t \<and> (starts n0 (m # ns) t \<or> (\<exists>x u. t = x @ dot_unit # u \<and> starts n0 (m # ns) u)))"
proof -
  let ?e = "Alt (lit ''.'') Eol"
  let ?k = "Cat (Alt (Cat (Star dot) (lit ''.'')) Eps) (in_between (m # ns))"
  have k: "no_groups ?k" "no_groups (Cat (lit ''.'') ?k)"
    using no_groups_end no_groups_between by (simp_all del: in_between.simps lit.simps)
  have "rests n0 (Cat (in_between (n # m # ns)) ?e) s =
      (\<Union>t \<in> {t. s = n @ dot_unit # t}. \<Union>u \<in> {u. u = t \<or> (\<exists>x. t = x @ dot_unit # u)}.
         rests n0 (Cat (in_between (m # ns)) ?e) u)"
  proof -
    have "rests n0 (Cat (in_between (n # m # ns)) ?e) s = (\<Union>t \<in> {t. s = n @ dot_unit # t}. \<Union>v \<in> rests n0 ?k t. rests n0 ?e v)"
      unfolding in_between.simps rests_Cat [OF no_groups_end(1)] rests_Cat [OF k(2)] rests_Cat [OF k(1)] rests_units rests_dot
      by auto
    also have "\<dots> = (\<Union>t \<in> {t. s = n @ dot_unit # t}. \<Union>u \<in> {u. u = t \<or> (\<exists>x. t = x @ dot_unit # u)}.
         rests n0 (Cat (in_between (m # ns)) ?e) u)"
    proof (rule SUP_cong [OF refl])
      fix t assume "t \<in> {t. s = n @ dot_unit # t}"
      with assms have "lineless t" by auto
      then have "rests n0 ?k t = (\<Union>u \<in> {u. u = t \<or> (\<exists>x. t = x @ dot_unit # u)}. rests n0 (in_between (m # ns)) u)"
        by (simp only: rests_Cat [OF no_groups_between] rests_skip)
      then show "(\<Union>v \<in> rests n0 ?k t. rests n0 ?e v) = (\<Union>u \<in> {u. u = t \<or> (\<exists>x. t = x @ dot_unit # u)}.
         rests n0 (Cat (in_between (m # ns)) ?e) u)"
        by (simp only: rests_Cat [OF no_groups_end(1)] UN_UN_flatten)
    qed
    finally show ?thesis .
  qed
  moreover have "(\<Union>t \<in> A. \<Union>u \<in> B t. R u) \<noteq> {} \<longleftrightarrow> (\<exists>t \<in> A. \<exists>u \<in> B t. R u \<noteq> {})" for A B and R :: "jstr \<Rightarrow> jstr set"
    by auto
  ultimately have "starts n0 (n # m # ns) s \<longleftrightarrow>
      (\<exists>t \<in> {t. s = n @ dot_unit # t}. \<exists>u \<in> {u. u = t \<or> (\<exists>x. t = x @ dot_unit # u)}. starts n0 (m # ns) u)"
    unfolding starts_def by (simp only:)
  then show ?thesis by blast
qed

section \<open>Lists of namespaces\<close>

definition components :: "jstr list \<Rightarrow> bool" where
  "components hs \<longleftrightarrow> hs \<noteq> [] \<and> (\<forall>h \<in> set hs. dot_unit \<notin> set h \<and> lineless h)"

abbreviation dotted :: "jstr list \<Rightarrow> jstr" where
  "dotted \<equiv> join (js ''.'')"

lemma dotted_Cons: "hs \<noteq> [] \<Longrightarrow> dotted (h # hs) = h @ dot_unit # dotted hs"
  by (cases hs) (simp_all add: join_def js_def)

lemma dotted_one [simp]: "dotted [h] = h"
  by simp

lemma components_Cons: "components (h # hs) \<longleftrightarrow> dot_unit \<notin> set h \<and> lineless h \<and> (hs = [] \<or> components hs)"
  by (auto simp: components_def)

lemma line_dot: "\<not> line_end dot_unit" "\<not> line_end 46"
  by (simp_all add: line_end_def)

lemma dotted_lineless: "components hs \<Longrightarrow> lineless (dotted hs)"
proof (induction hs)
  case (Cons h hs)
  then show ?case by (cases "hs = []") (auto simp: components_Cons dotted_Cons line_dot simp del: join_simps)
qed (simp add: components_def)

lemma cut_at_dot:
  assumes "dot_unit \<notin> set a" and "dot_unit \<notin> set b" and "a @ dot_unit # s = b @ dot_unit # t"
  shows "a = b \<and> s = t"
  using assms by (induction a arbitrary: b) (auto simp: Cons_eq_append_conv)

text \<open>A component at the start of a text, and the rests after a dot.\<close>

lemma dotted_start:
  assumes "components hs" and "dot_unit \<notin> set n"
  shows "dotted hs = n @ dot_unit # t \<longleftrightarrow> (\<exists>gs. hs = n # gs \<and> gs \<noteq> [] \<and> t = dotted gs)"
proof (cases hs)
  case (Cons h gs)
  show ?thesis
  proof (cases "gs = []")
    case True
    with assms Cons show ?thesis by (auto simp: components_Cons)
  next
    case False
    with assms Cons cut_at_dot [of h n "dotted gs" t] show ?thesis
      by (auto simp: components_Cons dotted_Cons simp del: join_simps)
  qed
qed (use assms in \<open>simp add: components_def\<close>)

lemma dotted_rest:
  assumes "components hs"
  shows "(\<exists>x. dotted hs = x @ dot_unit # t) \<longleftrightarrow> (\<exists>g gs. suffix (g # gs) hs \<and> g # gs \<noteq> hs \<and> t = dotted (g # gs))"
  using assms
proof (induction hs)
  case (Cons h hs)
  show ?case
  proof (cases "hs = []")
    case True
    with Cons.prems show ?thesis by (auto simp: components_Cons suffix_Cons)
  next
    case False
    with Cons.prems have h: "dot_unit \<notin> set h" "components hs" by (simp_all add: components_Cons)
    have d: "dotted (h # hs) = h @ dot_unit # dotted hs" by (rule dotted_Cons [OF False])
    have "(\<exists>x. h @ dot_unit # dotted hs = x @ dot_unit # t) \<longleftrightarrow> t = dotted hs \<or> (\<exists>x. dotted hs = x @ dot_unit # t)"
    proof
      assume "\<exists>x. h @ dot_unit # dotted hs = x @ dot_unit # t"
      then obtain x where x: "h @ dot_unit # dotted hs = x @ dot_unit # t" by blast
      show "t = dotted hs \<or> (\<exists>x. dotted hs = x @ dot_unit # t)"
      proof (cases "dot_unit \<in> set x")
        case False
        with cut_at_dot [OF h(1) _ x] show ?thesis by simp
      next
        case True
        then obtain y z where "x = y @ dot_unit # z" "dot_unit \<notin> set y" using split_list_first by fast
        with cut_at_dot [OF h(1), of y "dotted hs" "z @ dot_unit # t"] x show ?thesis by auto
      qed
    next
      assume "t = dotted hs \<or> (\<exists>x. dotted hs = x @ dot_unit # t)"
      then show "\<exists>x. h @ dot_unit # dotted hs = x @ dot_unit # t"
        by (metis append.assoc append_Cons)
    qed
    moreover have "(\<exists>g gs. suffix (g # gs) (h # hs) \<and> g # gs \<noteq> h # hs \<and> t = dotted (g # gs)) \<longleftrightarrow>
        t = dotted hs \<or> (\<exists>g gs. suffix (g # gs) hs \<and> g # gs \<noteq> hs \<and> t = dotted (g # gs))"
    proof
      assume "\<exists>g gs. suffix (g # gs) (h # hs) \<and> g # gs \<noteq> h # hs \<and> t = dotted (g # gs)"
      then obtain g gs where g: "suffix (g # gs) hs" "t = dotted (g # gs)" by (auto simp only: suffix_Cons)
      then show "t = dotted hs \<or> (\<exists>g gs. suffix (g # gs) hs \<and> g # gs \<noteq> hs \<and> t = dotted (g # gs))"
        by (cases "g # gs = hs") blast+
    next
      assume a: "t = dotted hs \<or> (\<exists>g gs. suffix (g # gs) hs \<and> g # gs \<noteq> hs \<and> t = dotted (g # gs))"
      have "\<exists>g gs. suffix (g # gs) hs \<and> t = dotted (g # gs)"
      proof (cases "t = dotted hs")
        case True
        with False show ?thesis by (cases hs) auto
      next
        case False
        with a show ?thesis by blast
      qed
      then obtain g gs where g: "suffix (g # gs) hs" "t = dotted (g # gs)" by blast
      then have "suffix (g # gs) (h # hs)" "length (g # gs) < length (h # hs)"
        using suffix_length_le [OF g(1)] by (simp_all add: suffix_ConsI)
      then show "\<exists>g gs. suffix (g # gs) (h # hs) \<and> g # gs \<noteq> h # hs \<and> t = dotted (g # gs)"
        using g(2) by (metis less_irrefl)
    qed
    ultimately show ?thesis using Cons.IH [OF h(2)] unfolding d by simp
  qed
qed (simp add: components_def)

lemma subseq_later: "subseq (m # ns) hs \<longleftrightarrow> (\<exists>gs. suffix (m # gs) hs \<and> subseq ns gs)"
proof
  assume "subseq (m # ns) hs"
  then obtain xs gs where "hs = xs @ m # gs" "subseq ns gs" by (auto simp: list_emb_ConsD dest: list_emb_ConsD)
  then show "\<exists>gs. suffix (m # gs) hs \<and> subseq ns gs" by (auto simp: suffix_def)
next
  assume "\<exists>gs. suffix (m # gs) hs \<and> subseq ns gs"
  then show "subseq (m # ns) hs" by (auto simp: suffix_def intro: list_emb_append2)
qed

lemma components_suffix: "components hs \<Longrightarrow> suffix (g # gs) hs \<Longrightarrow> components (g # gs)"
  by (auto simp: components_def suffix_def)

lemma starts_components:
  assumes "components hs" and "ns \<noteq> []" and "\<forall>n \<in> set ns. dot_unit \<notin> set n"
  shows "starts n0 ns (dotted hs) \<longleftrightarrow> (\<exists>gs. hs = hd ns # gs \<and> subseq (tl ns) gs)"
  using assms
proof (induction ns arbitrary: hs rule: in_between.induct)
  case (2 n)
  have "dotted hs = n \<longleftrightarrow> hs = [n]"
    using 2(1,3) dotted_Cons [of "tl hs" "hd hs"] by (cases hs; cases "tl hs = []") (auto simp: components_def simp del: join_simps)
  moreover have "(\<exists>t. dotted hs = n @ dot_unit # t) \<longleftrightarrow> (\<exists>gs. hs = n # gs \<and> gs \<noteq> [])"
    using dotted_start [OF 2(1)] 2(3) by auto
  ultimately show ?case by (auto simp: starts_one)
next
  case (3 n m ns)
  have n: "dot_unit \<notin> set n" using 3(4) by simp
  have ih: "starts n0 (m # ns) (dotted gs) \<longleftrightarrow> (\<exists>ks. gs = m # ks \<and> subseq ns ks)" if "components gs" for gs
    using 3(1) [OF that] 3(4) by simp
  have body: "(starts n0 (m # ns) (dotted gs) \<or> (\<exists>x u. dotted gs = x @ dot_unit # u \<and> starts n0 (m # ns) u)) \<longleftrightarrow> subseq (m # ns) gs"
    if c: "components gs" for gs
  proof
    assume "starts n0 (m # ns) (dotted gs) \<or> (\<exists>x u. dotted gs = x @ dot_unit # u \<and> starts n0 (m # ns) u)"
    then show "subseq (m # ns) gs"
    proof
      assume "starts n0 (m # ns) (dotted gs)"
      with ih [OF c] show ?thesis by auto
    next
      assume "\<exists>x u. dotted gs = x @ dot_unit # u \<and> starts n0 (m # ns) u"
      then obtain x u where u: "dotted gs = x @ dot_unit # u" "starts n0 (m # ns) u" by blast
      then obtain g ks where k: "suffix (g # ks) gs" "u = dotted (g # ks)" using dotted_rest [OF c, of u] by blast
      with ih [OF components_suffix [OF c k(1)]] u(2) have "g = m" "subseq ns ks" by simp_all
      with k(1) show ?thesis unfolding subseq_later by blast
    qed
  next
    assume "subseq (m # ns) gs"
    then obtain ks where k: "suffix (m # ks) gs" "subseq ns ks" unfolding subseq_later by blast
    have st: "starts n0 (m # ns) (dotted (m # ks))"
      using ih [OF components_suffix [OF c k(1)]] k(2) by blast
    show "starts n0 (m # ns) (dotted gs) \<or> (\<exists>x u. dotted gs = x @ dot_unit # u \<and> starts n0 (m # ns) u)"
    proof (cases "m # ks = gs")
      case True
      with st show ?thesis by simp
    next
      case False
      with k(1) dotted_rest [OF c, of "dotted (m # ks)"] obtain x where "dotted gs = x @ dot_unit # dotted (m # ks)" by blast
      with st show ?thesis by blast
    qed
  qed
  have "components gs" if "hs = n # gs" "gs \<noteq> []" for gs using 3(2) that by (simp add: components_Cons)
  note comp = this
  have more: "starts n0 (n # m # ns) (dotted hs) \<longleftrightarrow>
      (\<exists>t. (\<exists>gs. hs = n # gs \<and> gs \<noteq> [] \<and> t = dotted gs) \<and>
        (starts n0 (m # ns) t \<or> (\<exists>x u. t = x @ dot_unit # u \<and> starts n0 (m # ns) u)))"
    by (simp only: starts_more [OF dotted_lineless [OF 3(2)]] dotted_start [OF 3(2) n])
  show ?case
  proof
    assume "starts n0 (n # m # ns) (dotted hs)"
    then obtain gs where g: "hs = n # gs" "gs \<noteq> []"
      "starts n0 (m # ns) (dotted gs) \<or> (\<exists>x u. dotted gs = x @ dot_unit # u \<and> starts n0 (m # ns) u)"
      unfolding more by blast
    with body [OF comp [OF g(1,2)]] show "\<exists>gs. hs = hd (n # m # ns) # gs \<and> subseq (tl (n # m # ns)) gs" by simp
  next
    assume "\<exists>gs. hs = hd (n # m # ns) # gs \<and> subseq (tl (n # m # ns)) gs"
    then obtain gs where g: "hs = n # gs" "subseq (m # ns) gs" by auto
    then have "gs \<noteq> []" by auto
    with body [OF comp [OF g(1)]] g show "starts n0 (n # m # ns) (dotted hs)" unfolding more by blast
  qed
qed simp

lemma rests_start: "rests n0 (Alt Bol (lit ''.'')) s = (if length s = n0 then {s} else {}) \<union> {t. s = dot_unit # t}"
  by (simp only: rests_simps rests_dot)

lemma suffix_tail: "suffix t s \<Longrightarrow> length t = length s \<Longrightarrow> t = s"
  by (auto simp: suffix_def)

lemma in_namespace_subseq:
  assumes "ns \<noteq> []" and "\<forall>n \<in> set ns. dot_unit \<notin> set n" and "components hs"
  shows "in_namespace ns (dotted hs) \<longleftrightarrow> subseq ns hs"
proof -
  let ?s = "dotted hs"
  let ?tail = "Cat (in_between ns) (Alt (lit ''.'') Eol)"
  have g: "no_groups ?tail" "no_groups (namespace_re ns)"
    using no_groups_between no_groups_end by (simp_all add: namespace_re_def)
  have "in_namespace ns ?s \<longleftrightarrow> (\<exists>u. suffix u ?s \<and> rests (length ?s) (namespace_re ns) u \<noteq> {})"
    unfolding in_namespace_def search_def by (rule search_rests [OF g(2)])
  also have "\<dots> \<longleftrightarrow> (\<exists>u. suffix u ?s \<and> (\<exists>t. (length u = length ?s \<and> t = u \<or> u = dot_unit # t) \<and> starts (length ?s) ns t))"
    unfolding namespace_re_def rests_Cat [OF g(1)] rests_start starts_def by (auto split: if_splits)
  also have "\<dots> \<longleftrightarrow> starts (length ?s) ns ?s \<or> (\<exists>x t. ?s = x @ dot_unit # t \<and> starts (length ?s) ns t)"
    using suffix_tail by (auto simp: suffix_def)
  also have "\<dots> \<longleftrightarrow> subseq ns hs"
  proof -
    obtain m ms where ns: "ns = m # ms" using assms(1) by (cases ns) auto
    have st: "starts (length ?s) ns (dotted gs) \<longleftrightarrow> (\<exists>ks. gs = m # ks \<and> subseq ms ks)" if "components gs" for gs
      using starts_components [OF that assms(1,2)] ns by simp
    show ?thesis
    proof
      assume "starts (length ?s) ns ?s \<or> (\<exists>x t. ?s = x @ dot_unit # t \<and> starts (length ?s) ns t)"
      then show "subseq ns hs"
      proof
        assume "starts (length ?s) ns ?s"
        with st [OF assms(3)] ns show ?thesis by auto
      next
        assume "\<exists>x t. ?s = x @ dot_unit # t \<and> starts (length ?s) ns t"
        then obtain t where t: "\<exists>x. ?s = x @ dot_unit # t" "starts (length ?s) ns t" by blast
        then obtain g ks where k: "suffix (g # ks) hs" "t = dotted (g # ks)" using dotted_rest [OF assms(3), of t] by blast
        with st [OF components_suffix [OF assms(3) k(1)]] t(2) have "g = m" "subseq ms ks" by simp_all
        with k(1) show ?thesis unfolding ns subseq_later by blast
      qed
    next
      assume "subseq ns hs"
      then obtain ks where k: "suffix (m # ks) hs" "subseq ms ks" unfolding ns subseq_later by blast
      have s: "starts (length ?s) ns (dotted (m # ks))" using st [OF components_suffix [OF assms(3) k(1)]] k(2) by blast
      show "starts (length ?s) ns ?s \<or> (\<exists>x t. ?s = x @ dot_unit # t \<and> starts (length ?s) ns t)"
      proof (cases "m # ks = hs")
        case True
        with s show ?thesis by simp
      next
        case False
        with k(1) dotted_rest [OF assms(3), of "dotted (m # ks)"] obtain x where "?s = x @ dot_unit # dotted (m # ks)" by blast
        with s show ?thesis by blast
      qed
    qed
  qed
  finally show ?thesis .
qed

lemma sorted_subseq: "set ns \<subseteq> set hs \<Longrightarrow> sorted ns \<Longrightarrow> distinct ns \<Longrightarrow> sorted hs \<Longrightarrow> subseq ns hs" for ns hs :: "jstr list"
proof (induction hs arbitrary: ns)
  case (Cons h hs)
  show ?case
  proof (cases ns)
    case (Cons m ms)
    show ?thesis
    proof (cases "m = h")
      case True
      with Cons Cons.prems have "set ms \<subseteq> set hs" by auto
      with Cons.IH [of ms] Cons Cons.prems True show ?thesis by simp
    next
      case False
      have "h \<notin> set ns"
      proof
        assume "h \<in> set ns"
        with Cons Cons.prems(2) False have "m \<le> h" by auto
        moreover have "h \<le> m" using Cons Cons.prems(1,4) by auto
        ultimately show False using False by simp
      qed
      with Cons.prems have "set ns \<subseteq> set hs" by auto
      with Cons.IH [of ns] Cons.prems show ?thesis by (simp add: list_emb_Cons)
    qed
  qed simp
qed simp

lemma split_char_units: "set l \<subseteq> set s" if "l \<in> set (split_char c s)" for l
  using that
proof (induction s arbitrary: l)
  case (Cons x s)
  then show ?case by (cases "split_char c s") (fastforce split: if_splits)+
qed simp

lemma split_char_more: "c \<in> set s \<Longrightarrow> tl (split_char c s) \<noteq> []"
  by (induction s) (auto split: list.splits)

lemma namespaces_components:
  assumes "lineless s"
  shows "components (sort (split_char dot_unit s))"
proof -
  have "dot_unit \<notin> set l \<and> lineless l" if "l \<in> set (split_char dot_unit s)" for l
    using split_char_free [OF that] split_char_units [OF that] assms by (auto simp: lineless_def)
  moreover have "sort (split_char dot_unit s) \<noteq> []"
    using split_char_nonempty [of dot_unit s] by (metis set_empty set_sort)
  ultimately show ?thesis by (simp add: components_def)
qed



end
