(* ===== verification/JqDispatch.thy ===== *)
theory JqDispatch
  imports JqEventLaws JqNamespaces
begin

text \<open>
  The calls of a dispatch (theory \<open>JqEvents\<close>): which handlers are called, in which order, and where stopping an event
  ends them.
\<close>

section \<open>Runs\<close>

definition runs :: "('e, 'f, 'v) ev_env \<Rightarrow> ('e, 'f, 'v) etask list \<times> ('e, 'f, 'v) evworld \<Rightarrow>
    ('e, 'f, 'v) etask list \<times> ('e, 'f, 'v) evworld \<Rightarrow> bool" where
  "runs env s t \<longleftrightarrow> (\<exists>k. (estep env ^^ k) s = t)"

lemma runs_refl: "runs env s s"
  unfolding runs_def by (rule exI [of _ 0]) simp

lemma runs_step: "runs env (estep env s) t \<Longrightarrow> runs env s t"
  unfolding runs_def by (metis funpow_Suc_right comp_apply)

lemma runs_trans: "runs env s t \<Longrightarrow> runs env t u \<Longrightarrow> runs env s u"
  unfolding runs_def by (metis funpow_add comp_apply)

section \<open>Handlers that look and stop\<close>

text \<open>
  What the functions of the page do is given by \<open>beh\<close>: the marks they set on the event they get, and their value.
\<close>

datatype mark = Prevent | Stop | Stop_now

primrec mark_op :: "nat \<Rightarrow> mark \<Rightarrow> ('e, 'f, 'v) eop" where
  "mark_op i Prevent = Op_prevent i"
| "mark_op i Stop = Op_stop i"
| "mark_op i Stop_now = Op_stop_now i"

definition looking :: "('e, 'f, 'v) ev_env \<Rightarrow> ('f \<Rightarrow> mark list \<times> 'v option) \<Rightarrow> bool" where
  "looking env beh \<longleftrightarrow> is_false env (false_value env) \<and>
     (\<forall>f el i e args. user env f el i e args = (map (mark_op i) (fst (beh f)), Inr (snd (beh f))))"

text \<open>What a handler leaves: the marks and whether its value is false.\<close>

fun marks_of :: "('e, 'f, 'v) ev_env \<Rightarrow> ('f \<Rightarrow> mark list \<times> 'v option) \<Rightarrow> 'f efn \<Rightarrow> mark set" where
  "marks_of env beh (Fun f) = set (fst (beh f)) \<union>
     (case snd (beh f) of None \<Rightarrow> {} | Some v \<Rightarrow> if is_false env v then {Prevent, Stop} else {})"
| "marks_of env beh (One g) = {}"
| "marks_of env beh Return_false = {Prevent, Stop}"

definition plain_handler :: "('e, 'f, 'v) ev_env \<Rightarrow> ('f, 'v) handle_obj \<Rightarrow> bool" where
  "plain_handler env h \<longleftrightarrow> \<not> enters (special_of env (origType h)) \<and> (\<forall>g. handler_of h \<noteq> One g)"

text \<open>The state before and after some calls.\<close>

definition marked :: "nat \<Rightarrow> (nat \<times> 'e \<times> ('f, 'v) handle_obj) list \<Rightarrow> mark set \<Rightarrow> ('e, 'f, 'v) evworld \<Rightarrow>
    ('e, 'f, 'v) evworld \<Rightarrow> bool" where
  "marked i cs M w w1 \<longleftrightarrow> calls_made w1 = calls_made w @ cs \<and> rnamespace (event_at w1 i) = rnamespace (event_at w i) \<and>
     prevented (event_at w1 i) = (prevented (event_at w i) \<or> Prevent \<in> M) \<and>
     stopped (event_at w1 i) = (stopped (event_at w i) \<or> Stop \<in> M \<or> Stop_now \<in> M) \<and>
     stopped_now (event_at w1 i) = (stopped_now (event_at w i) \<or> Stop_now \<in> M)"

lemma marked_trans: "marked i cs M w w1 \<Longrightarrow> marked i ds N w1 w2 \<Longrightarrow> marked i (cs @ ds) (M \<union> N) w w2"
  by (auto simp: marked_def)

lemma marked_refl: "marked i [] {} w w"
  by (simp add: marked_def)

lemma marks_run: "\<exists>w1. runs env (map TOp (map (mark_op i) ms) @ ts, w) (ts, w1) \<and> marked i [] (set ms) w w1"
proof (induction ms arbitrary: w)
  case Nil
  show ?case using runs_refl marked_refl by fastforce
next
  case (Cons m ms)
  obtain w1 where s: "estep env (map TOp (map (mark_op i) (m # ms)) @ ts, w) = (map TOp (map (mark_op i) ms) @ ts, w1)"
    and m: "marked i [] {m} w w1"
    by (cases m) (auto simp: marked_def upd_event_def preventDefault_def stopPropagation_def stopImmediatePropagation_def)
  from Cons.IH [of w1] obtain w2 where "runs env (map TOp (map (mark_op i) ms) @ ts, w1) (ts, w2)" "marked i [] (set ms) w1 w2"
    by blast
  with s m marked_trans [OF m] show ?case by (force intro: runs_step)
qed

lemma handler_run:
  assumes "looking env beh" and "plain_handler env h"
  shows "\<exists>w1. runs env (TCall i args el (handler_of h) None # ts, w) (ts, w1) \<and>
    marked i [] (marks_of env beh (handler_of h)) w w1"
proof (cases "handler_of h")
  case (Fun f)
  have s: "estep env (TCall i args el (handler_of h) None # ts, w) =
      (map TOp (map (mark_op i) (fst (beh f))) @ TReturn i (snd (beh f)) # ts, w)"
    using assms(1) Fun by (simp add: looking_def)
  obtain w1 where r: "runs env (map TOp (map (mark_op i) (fst (beh f))) @ TReturn i (snd (beh f)) # ts, w)
      (TReturn i (snd (beh f)) # ts, w1)" "marked i [] (set (fst (beh f))) w w1"
    using marks_run [of env i "fst (beh f)" "TReturn i (snd (beh f)) # ts" w] by blast
  obtain w2 where t: "estep env (TReturn i (snd (beh f)) # ts, w1) = (ts, w2)"
    "marked i [] (case snd (beh f) of None \<Rightarrow> {} | Some v \<Rightarrow> if is_false env v then {Prevent, Stop} else {}) w1 w2"
    by (cases "snd (beh f)")
      (auto simp: marked_def upd_event_def returned_event_def Let_def preventDefault_def stopPropagation_def)
  have "runs env (TCall i args el (handler_of h) None # ts, w) (ts, w2)"
    using runs_step [of env "(TCall i args el (handler_of h) None # ts, w)"] runs_trans [OF r(1) runs_step] t(1) s runs_refl
    by (metis (no_types))
  with marked_trans [OF r(2) t(2)] Fun show ?thesis by (auto simp: Un_commute)
next
  case (One g)
  with assms(2) show ?thesis by (simp add: plain_handler_def)
next
  case Return_false
  obtain w2 where t: "estep env (TReturn i (Some (false_value env)) # ts, w) = (ts, w2)" "marked i [] {Prevent, Stop} w w2"
    using assms(1)
    by (auto simp: looking_def marked_def upd_event_def returned_event_def Let_def preventDefault_def stopPropagation_def)
  have s: "estep env (TCall i args el (handler_of h) None # ts, w) = (TReturn i (Some (false_value env)) # ts, w)"
    by (simp add: Return_false)
  have "runs env (TCall i args el (handler_of h) None # ts, w) (ts, w2)"
    by (rule runs_step, unfold s, rule runs_step, unfold t, rule runs_refl)
  with t(2) Return_false show ?thesis by auto
qed

section \<open>The loops\<close>

text \<open>A list up to and with its first element of a kind.\<close>

fun up_to :: "('a \<Rightarrow> bool) \<Rightarrow> 'a list \<Rightarrow> 'a list" where
  "up_to P [] = []"
| "up_to P (x # xs) = x # (if P x then [] else up_to P xs)"

definition selected :: "('e, 'f, 'v) event \<Rightarrow> ('f, 'v) handle_obj \<Rightarrow> bool" where
  "selected e h \<longleftrightarrow> (case rnamespace e of None \<Rightarrow> True | Some ns \<Rightarrow> in_namespace ns (namespace h))"

text \<open>The handlers of one element that are called, and the elements of the queue that are reached.\<close>

definition group_calls :: "('e, 'f, 'v) ev_env \<Rightarrow> ('f \<Rightarrow> mark list \<times> 'v option) \<Rightarrow> ('e, 'f, 'v) event \<Rightarrow>
    ('f, 'v) handle_obj list \<Rightarrow> ('f, 'v) handle_obj list" where
  "group_calls env beh e hs = up_to (\<lambda>h. Stop_now \<in> marks_of env beh (handler_of h)) (filter (selected e) hs)"

definition stops :: "('e, 'f, 'v) ev_env \<Rightarrow> ('f \<Rightarrow> mark list \<times> 'v option) \<Rightarrow> ('f, 'v) handle_obj \<Rightarrow> bool" where
  "stops env beh h \<longleftrightarrow> marks_of env beh (handler_of h) \<inter> {Stop, Stop_now} \<noteq> {}"

definition queue_calls :: "('e, 'f, 'v) ev_env \<Rightarrow> ('f \<Rightarrow> mark list \<times> 'v option) \<Rightarrow> ('e, 'f, 'v) event \<Rightarrow>
    ('e \<times> ('f, 'v) handle_obj list) list \<Rightarrow> ('e \<times> ('f, 'v) handle_obj list) list" where
  "queue_calls env beh e q =
     up_to (\<lambda>(x, hs). list_ex (stops env beh) hs) (map (\<lambda>(x, hs). (x, group_calls env beh e hs)) q)"

definition marks_all :: "('e, 'f, 'v) ev_env \<Rightarrow> ('f \<Rightarrow> mark list \<times> 'v option) \<Rightarrow> ('f, 'v) handle_obj list \<Rightarrow> mark set" where
  "marks_all env beh hs = (\<Union>h \<in> set hs. marks_of env beh (handler_of h))"

lemma selected_marked: "marked i cs M w w1 \<Longrightarrow> selected (event_at w1 i) = selected (event_at w i)"
  by (simp add: marked_def selected_def fun_eq_iff)

lemma inner_run:
  assumes "looking env beh" and "\<forall>h \<in> set hs. plain_handler env h"
  shows "\<exists>w1. runs env (TInner i args el hs # ts, w) (ts, w1) \<and>
    (let cs = (if stopped_now (event_at w i) then [] else group_calls env beh (event_at w i) hs) in
     marked i (map (\<lambda>h. (i, el, h)) cs) (marks_all env beh cs) w w1)"
  using assms(2)
proof (induction hs arbitrary: w)
  case Nil
  have s: "estep env (TInner i args el [] # ts, w) = (ts, w)"
    by (simp add: inner_step_def)
  have "runs env (TInner i args el [] # ts, w) (ts, w)"
    by (rule runs_step, unfold s, rule runs_refl)
  then show ?case
    by (intro exI [of _ w]) (simp add: marked_refl group_calls_def marks_all_def)
next
  case (Cons h hs)
  show ?case
  proof (cases "stopped_now (event_at w i)")
    case True
    then have s: "estep env (TInner i args el (h # hs) # ts, w) = (ts, w)"
      by (simp add: inner_step_def)
    have "runs env (TInner i args el (h # hs) # ts, w) (ts, w)"
      by (rule runs_step, unfold s, rule runs_refl)
    then show ?thesis
      using True by (intro exI [of _ w]) (simp add: marked_refl marks_all_def)
  next
    case go: False
    show ?thesis
    proof (cases "selected (event_at w i) h")
      case False
      then have s: "estep env (TInner i args el (h # hs) # ts, w) = (TInner i args el hs # ts, w)"
        using go by (simp add: inner_step_def selected_def)
      from Cons.IH [of w] Cons.prems obtain w1 where
        r: "runs env (TInner i args el hs # ts, w) (ts, w1)" and
        m: "marked i (map (\<lambda>h. (i, el, h)) (group_calls env beh (event_at w i) hs))
              (marks_all env beh (group_calls env beh (event_at w i) hs)) w w1"
        using go by (auto simp: Let_def)
      have "runs env (TInner i args el (h # hs) # ts, w) (ts, w1)"
        by (rule runs_step, unfold s, rule r)
      moreover have "group_calls env beh (event_at w i) (h # hs) = group_calls env beh (event_at w i) hs"
        using False by (simp add: group_calls_def)
      ultimately show ?thesis using m go by (intro exI [of _ w1]) (simp add: Let_def)
    next
      case True
      define w0 where "w0 = (upd_event i (\<lambda>e. e\<lparr>handleObj := Some h\<rparr>) w)\<lparr>calls_made := calls_made w @ [(i, el, h)]\<rparr>"
      have s: "estep env (TInner i args el (h # hs) # ts, w) =
          (TCall i args el (handler_of h) None # TInner i args el hs # ts, w0)"
        using go True Cons.prems
        by (simp add: inner_step_def selected_def w0_def handle_def plain_handler_def)
      have m0: "marked i [(i, el, h)] {} w w0"
        by (simp add: marked_def w0_def upd_event_def)
      from Cons.prems have "plain_handler env h" by simp
      from handler_run [OF assms(1) this, of i args el "TInner i args el hs # ts" w0] obtain w1 where
        r1: "runs env (TCall i args el (handler_of h) None # TInner i args el hs # ts, w0) (TInner i args el hs # ts, w1)" and
        m1: "marked i [] (marks_of env beh (handler_of h)) w0 w1" by blast
      define cs where "cs = (if stopped_now (event_at w1 i) then [] else group_calls env beh (event_at w1 i) hs)"
      from Cons.IH [of w1] Cons.prems obtain w2 where
        r2: "runs env (TInner i args el hs # ts, w1) (ts, w2)" and
        m2: "marked i (map (\<lambda>h. (i, el, h)) cs) (marks_all env beh cs) w1 w2"
        by (auto simp: Let_def cs_def)
      note m01 = marked_trans [OF m0 m1]
      have cs: "h # cs = group_calls env beh (event_at w i) (h # hs)"
        using go True m01 selected_marked [OF m01] by (auto simp: cs_def group_calls_def marked_def)
      have "runs env (TInner i args el (h # hs) # ts, w) (ts, w2)"
        by (rule runs_step, unfold s, rule runs_trans [OF r1 r2])
      moreover have "marked i (map (\<lambda>h. (i, el, h)) (h # cs)) (marks_all env beh (h # cs)) w w2"
        using marked_trans [OF m01 m2] by (simp add: marks_all_def)
      ultimately show ?thesis using go unfolding cs by (intro exI [of _ w2]) (simp add: Let_def)
    qed
  qed
qed

lemma stops_all: "list_ex (stops env beh) hs \<longleftrightarrow> Stop \<in> marks_all env beh hs \<or> Stop_now \<in> marks_all env beh hs"
  by (auto simp: list_ex_iff stops_def marks_all_def)

definition call_list :: "nat \<Rightarrow> ('e \<times> ('f, 'v) handle_obj list) list \<Rightarrow> (nat \<times> 'e \<times> ('f, 'v) handle_obj) list" where
  "call_list i q = concat (map (\<lambda>(x, hs). map (\<lambda>h. (i, x, h)) hs) q)"

lemma queue_run:
  assumes "looking env beh" and "\<forall>(x, hs) \<in> set q. \<forall>h \<in> set hs. plain_handler env h"
    and "stopped_now (event_at w i) \<Longrightarrow> stopped (event_at w i)"
  shows "\<exists>w1. runs env (TQueue i args q # ts, w) (ts, w1) \<and>
    (let q1 = (if stopped (event_at w i) then [] else queue_calls env beh (event_at w i) q) in
     marked i (call_list i q1) (marks_all env beh (concat (map snd q1))) w w1)"
  using assms(2,3)
proof (induction q arbitrary: w)
  case Nil
  have s: "estep env (TQueue i args [] # ts, w) = (ts, w)"
    by (simp add: queue_step_def)
  have "runs env (TQueue i args [] # ts, w) (ts, w)"
    by (rule runs_step, unfold s, rule runs_refl)
  then show ?case
    by (intro exI [of _ w]) (simp add: marked_refl queue_calls_def call_list_def marks_all_def)
next
  case (Cons g q)
  obtain x hs where g: "g = (x, hs)" by (cases g)
  show ?case
  proof (cases "stopped (event_at w i)")
    case True
    then have s: "estep env (TQueue i args (g # q) # ts, w) = (ts, w)"
      by (simp add: queue_step_def g)
    have "runs env (TQueue i args (g # q) # ts, w) (ts, w)"
      by (rule runs_step, unfold s, rule runs_refl)
    then show ?thesis
      using True by (intro exI [of _ w]) (simp add: marked_refl call_list_def marks_all_def)
  next
    case False
    define w0 where "w0 = upd_event i (\<lambda>e. e\<lparr>currentTarget := Some x\<rparr>) w"
    have s: "estep env (TQueue i args (g # q) # ts, w) = (TInner i args x hs # TQueue i args q # ts, w0)"
      using False by (simp add: queue_step_def g w0_def)
    have m0: "marked i [] {} w w0"
      by (simp add: marked_def w0_def upd_event_def)
    have now: "\<not> stopped_now (event_at w0 i)"
      using Cons.prems(2) False by (auto simp: w0_def upd_event_def)
    define cs where "cs = group_calls env beh (event_at w i) hs"
    have cs: "cs = group_calls env beh (event_at w0 i) hs"
      using selected_marked [OF m0] by (simp add: cs_def group_calls_def)
    have plain: "\<forall>h \<in> set hs. plain_handler env h"
      using Cons.prems(1) g by simp
    from inner_run [OF assms(1) plain, of i args x "TQueue i args q # ts" w0] now obtain w1 where
      r1: "runs env (TInner i args x hs # TQueue i args q # ts, w0) (TQueue i args q # ts, w1)" and
      m1: "marked i (map (\<lambda>h. (i, x, h)) cs) (marks_all env beh cs) w0 w1"
      unfolding cs by (auto simp: Let_def)
    note m01 = marked_trans [OF m0 m1]
    have inv: "stopped (event_at w1 i)" if "stopped_now (event_at w1 i)"
      using that m01 Cons.prems(2) by (auto simp: marked_def)
    define q1 where "q1 = (if stopped (event_at w1 i) then [] else queue_calls env beh (event_at w1 i) q)"
    from Cons.IH [OF _ inv] Cons.prems(1) obtain w2 where
      r2: "runs env (TQueue i args q # ts, w1) (ts, w2)" and
      m2: "marked i (call_list i q1) (marks_all env beh (concat (map snd q1))) w1 w2"
      by (auto simp: Let_def q1_def)
    have q1: "(x, cs) # q1 = queue_calls env beh (event_at w i) (g # q)"
      using False m01 selected_marked [OF m01] stops_all [of env beh cs]
      by (auto simp: q1_def queue_calls_def g marked_def cs_def group_calls_def)
    have "runs env (TQueue i args (g # q) # ts, w) (ts, w2)"
      by (rule runs_step, unfold s, rule runs_trans [OF r1 r2])
    moreover have "marked i (call_list i ((x, cs) # q1)) (marks_all env beh (concat (map snd ((x, cs) # q1)))) w w2"
      using marked_trans [OF m01 m2] by (simp add: call_list_def marks_all_def)
    ultimately show ?thesis
      using False unfolding q1 by (intro exI [of _ w2]) (simp add: Let_def)
  qed
qed

section \<open>Dispatch\<close>

lemma ev_handlers_listed: "(x, hs) \<in> set (ev_handlers env this e l) \<Longrightarrow> set hs \<subseteq> set (listed l)"
  by (auto simp: ev_handlers_def delegated_at_def Let_def dest: in_set_takeD in_set_dropD split: if_splits)

lemma marks_queue: "m \<in> marks_all env beh (concat (map snd q)) \<longleftrightarrow>
    (\<exists>(x, hs) \<in> set q. \<exists>h \<in> set hs. m \<in> marks_of env beh (handler_of h))"
  by (force simp: marks_all_def)

lemma stops_queue: "(\<exists>(x, hs) \<in> set q. \<exists>h \<in> set hs. stops env beh h) \<longleftrightarrow>
    Stop \<in> marks_all env beh (concat (map snd q)) \<or> Stop_now \<in> marks_all env beh (concat (map snd q))"
  by (force simp: marks_all_def stops_def)


definition sample_click :: "(nat, nat) handle_obj" where
  "sample_click = new_obj event_page (Fun 8) 1 Undefined (Some (js ''li'')) (js ''click'') None"

definition sample_below :: "(nat, nat, nat) evworld" where
  "sample_below = (no_handlers (new_event (js ''click'') 2))\<lparr>events :=
     (\<lambda>el. Some [(js ''click'', \<lparr>listed = [sample_click], delegateCount = 1\<rparr>)])\<rparr>"


end
