(* ===== verification/JqCssText.thy ===== *)
theory JqCssText
  imports JqAttributes
begin

text \<open>
  \<open>html/jquery-3.6.1.js\<close>, the text of selectors: the regular expressions of the selector engine (Sizzle) for identifiers,
  attributes, pseudo-classes and white space, the escapes in identifiers, and \<open>Sizzle.escape\<close>.
\<close>

unbundle bit_operations_syntax

section \<open>Regular expressions\<close>

definition Opt :: "re \<Rightarrow> re" where
  "Opt r = Alt r Eps"

fun at_most :: "nat \<Rightarrow> re \<Rightarrow> re" where
  "at_most 0 r = Eps"
| "at_most (Suc n) r = Opt (Cat r (at_most n r))"

definition any_of :: "string \<Rightarrow> re" where
  "any_of cs = Cls (\<lambda>c. c \<in> cu ` set cs)"

fun lit_i :: "string \<Rightarrow> re" where
  "lit_i [] = Eps"
| "lit_i (d # ds) = Cat (Cls (\<lambda>c. lower1 c = cu d)) (lit_i ds)"

definition white_re :: re where
  "white_re = Cls html_white"

definition rwhitespace :: re where
  "rwhitespace = Plus white_re"

definition is_hex :: "jschar \<Rightarrow> bool" where
  "is_hex c \<longleftrightarrow> is_digit c \<or> 97 \<le> c \<and> c \<le> 102 \<or> 65 \<le> c \<and> c \<le> 70"

definition hex_digits :: re where
  "hex_digits = Cat (Cls is_hex) (at_most 5 (Cls is_hex))"

definition backslash :: re where
  "backslash = Cls (\<lambda>c. c = 92)"

definition not_newline :: "jschar \<Rightarrow> bool" where
  "not_newline c \<longleftrightarrow> c \<notin> {13, 10, 12}"

definition ident_unit :: "jschar \<Rightarrow> bool" where
  "ident_unit c \<longleftrightarrow> is_digit c \<or> 97 \<le> c \<and> c \<le> 122 \<or> 65 \<le> c \<and> c \<le> 90 \<or> c = 95 \<or> c = 45"

definition ident_re :: re where
  "ident_re =
     Plus (Alt (Cat backslash (Cat hex_digits (Opt white_re)))
          (Alt (Cat backslash (Cls not_newline)) (Alt (Cls ident_unit) (Cls (\<lambda>c. c > 127)))))"

text \<open>The inside of a quoted text; the groups of an expression that is part of another are counted from an offset.\<close>

definition quoted :: "jschar \<Rightarrow> nat \<Rightarrow> re" where
  "quoted q k = Cat (Cls (\<lambda>c. c = q))
     (Cat (Grp k (Star (Alt (Cat backslash dot) (Cls (\<lambda>c. c \<noteq> 92 \<and> c \<noteq> q))))) (Cls (\<lambda>c. c = q)))"

definition attributes :: "nat \<Rightarrow> re" where
  "attributes k =
     Cat (lit ''['') (Cat (Star white_re) (Cat (Grp (k + 1) ident_re)
       (Cat (Opt (Cat (Star white_re) (Cat (Grp (k + 2) (Cat (Opt (any_of ''*^$|!~'')) (lit ''='')))
               (Cat (Star white_re) (Alt (quoted 39 (k + 3)) (Alt (quoted 34 (k + 4)) (Grp (k + 5) ident_re)))))))
         (Cat (Star white_re) (lit '']'')))))"

definition pseudos :: re where
  "pseudos =
     Cat (lit '':'') (Cat (Grp 1 ident_re)
       (Opt (Cat (lit ''('') (Cat (Grp 2
         (Alt (Grp 3 (Alt (quoted 39 4) (quoted 34 5)))
           (Alt (Grp 6 (Star (Alt (Cat backslash dot)
                   (Alt (Cls (\<lambda>c. c \<notin> {92, 40, 41, 91, 93})) (attributes 6)))))
             (Star dot))))
         (lit '')'')))))"

definition rtrim_css :: re where
  "rtrim_css = Alt (Cat Bol rwhitespace)
     (Cat (Grp 1 (Cat (Alt Bol (Cls (\<lambda>c. c \<noteq> 92))) (Star (Cat backslash dot)))) (Cat rwhitespace Eol))"

definition rcomma :: re where
  "rcomma = Cat Bol (Cat (Star white_re) (Cat (lit '','') (Star white_re)))"

definition rcombinators :: re where
  "rcombinators = Cat Bol (Cat (Star white_re) (Cat (Grp 1 (Alt (any_of ''>+~'') white_re)) (Star white_re)))"

definition child_re :: re where
  "child_re =
     Cat (lit '':'')
      (Cat (Grp 1 (Alt (lit_i ''only'') (Alt (lit_i ''first'') (Alt (lit_i ''last'') (Alt (lit_i ''nth'') (lit_i ''nth-last''))))))
      (Cat (lit ''-'')
      (Cat (Grp 2 (Alt (lit_i ''child'') (lit_i ''of-type'')))
        (Opt (Cat (lit ''('') (Cat (Star white_re)
          (Cat (Grp 3 (Alt (lit_i ''even'') (Alt (lit_i ''odd'')
                (Cat (Grp 4 (Opt (Cat (Grp 5 (Opt (any_of ''+-''))) (Cat (Grp 6 (Star digit_re)) (lit_i ''n'')))))
                  (Cat (Star white_re)
                    (Opt (Cat (Grp 7 (Opt (any_of ''+-''))) (Cat (Star white_re) (Grp 8 (Plus digit_re))))))))))
            (Cat (Star white_re) (lit '')'')))))))))"

definition matchExpr :: "jstr \<Rightarrow> re" where
  "matchExpr ty = Cat Bol
     (if ty = js ''ID'' then Cat (lit ''#'') (Grp 1 ident_re)
      else if ty = js ''CLASS'' then Cat (lit ''.'') (Grp 1 ident_re)
      else if ty = js ''TAG'' then Grp 1 (Alt ident_re (lit ''*''))
      else if ty = js ''ATTR'' then attributes 0
      else if ty = js ''PSEUDO'' then pseudos
      else child_re)"

text \<open>\<open>exec\<close>: the matched text and the groups.\<close>

definition exec_re :: "re \<Rightarrow> jstr \<Rightarrow> (jstr \<times> caps) option" where
  "exec_re r s = (case search r s of None \<Rightarrow> None | Some (pre, m, t, c) \<Rightarrow> Some (m, c))"

section \<open>Escapes\<close>

definition runescape :: re where
  "runescape = Alt (Cat backslash (Cat hex_digits (Opt white_re))) (Cat backslash (Grp 1 (Cls not_newline)))"

definition hex_value1 :: "jschar \<Rightarrow> int" where
  "hex_value1 c = (if is_digit c then uint c - 48 else if 97 \<le> c then uint c - 87 else uint c - 55)"

definition hex_value :: "jstr \<Rightarrow> int" where
  "hex_value ds = foldl (\<lambda>n c. 16 * n + hex_value1 c) 0 ds"

definition funescape :: "jstr \<Rightarrow> caps \<Rightarrow> jstr" where
  "funescape m c =
     (case c 1 of
        Some t \<Rightarrow> t
      | None \<Rightarrow>
          (let high = hex_value (takeWhile is_hex (drop 1 m)) - 0x10000 in
           if high < 0 then [word_of_int (high + 0x10000)]
           else [word_of_int (drop_bit 10 high OR 0xD800), word_of_int (high AND 0x3FF OR 0xDC00)]))"

definition unescape_css :: "jstr \<Rightarrow> jstr" where
  "unescape_css s = replace_g runescape funescape s"

definition control_unit :: "jschar \<Rightarrow> bool" where
  "control_unit c \<longleftrightarrow> c \<le> 31 \<or> c = 127"

definition rcssescape :: re where
  "rcssescape =
     Alt (Grp 1 (Alt (Cls control_unit) (Cat Bol (Cat (Opt (lit ''-'')) digit_re))))
    (Alt (Cat Bol (Cat (lit ''-'') Eol))
         (Cls (\<lambda>c. \<not> control_unit c \<and> \<not> c > 127 \<and> \<not> ident_unit c)))"

text \<open>\<open>toString(16)\<close> of a code unit.\<close>

fun to_hex :: "nat \<Rightarrow> jstr" where
  "to_hex n = (if n < 16 then [hex_digit n] else to_hex (n div 16) @ [hex_digit (n mod 16)])"

declare to_hex.simps [simp del]

definition fcssescape :: "jstr \<Rightarrow> caps \<Rightarrow> jstr" where
  "fcssescape ch c =
     (case c 1 of
        Some p \<Rightarrow>
          if ch = [0] then [0xFFFD]
          else butlast ch @ [92] @ to_hex (unat (last ch)) @ js '' ''
      | None \<Rightarrow> 92 # ch)"

definition escapeSelector :: "jstr \<Rightarrow> jstr" where
  "escapeSelector s = replace_g rcssescape fcssescape s"

end
