(* ===== verification/JqMatchers.thy ===== *)
theory JqMatchers
  imports JqCssText
begin

text \<open>
  \<open>html/jquery-3.6.1.js\<close>, the matchers of the selector engine (Sizzle): the filters of a compound selector, the
  combinators with their caches on the elements, \<open>matcherFromTokens\<close>, and the matcher of a list of selectors.

  A compiled matcher is a value of datatype \<open>matcher\<close>, run by \<open>run_matcher\<close>.  Record \<open>sworld\<close> holds what the runs
  write: the counters \<open>dirruns\<close> and \<open>done\<close>, the cached arrays (shared between elements, so they are cells with
  addresses), and the cached positions.  The document is the parameter \<open>sdom\<close>.  Left out: pseudo-classes of positions in
  a set, whose matchers take sets, and the runs that \<open>:not\<close> and \<open>:has\<close> nest in a run; other pseudo-classes are
  predicates of the document.
\<close>

section \<open>The document\<close>

datatype direction = ParentNode | PreviousSibling | NextSibling

text \<open>What an element's property of a direction, followed again and again, visits; and its other properties.\<close>

record 'n sdom =
  visits :: "direction \<Rightarrow> 'n \<Rightarrow> 'n list"
  kind_of :: "'n \<Rightarrow> nat"
  lower_name :: "'n \<Rightarrow> jstr"
  kids :: "'n \<Rightarrow> 'n list"
  attribute :: "'n \<Rightarrow> jstr \<Rightarrow> jstr option"
  class_text :: "'n \<Rightarrow> jstr"
  pseudo :: "jstr \<Rightarrow> jstr \<Rightarrow> 'n \<Rightarrow> bool"

definition parent_of :: "'n sdom \<Rightarrow> 'n \<Rightarrow> 'n option" where
  "parent_of env e = (case visits env ParentNode e of [] \<Rightarrow> None | p # _ \<Rightarrow> Some p)"

definition is_element :: "'n sdom \<Rightarrow> 'n \<Rightarrow> bool" where
  "is_element env e \<longleftrightarrow> kind_of env e = 1"

section \<open>What the runs write\<close>

text \<open>The key of a cached combinator is the name it skips or its direction.\<close>

datatype cache_key = Dir direction | Skip jstr

record 'n sworld =
  dirruns :: nat
  finished :: nat
  slots :: "'n \<Rightarrow> cache_key \<Rightarrow> nat option"
  cells :: "nat \<Rightarrow> nat \<times> nat \<times> bool option"
  next_cell :: nat
  positions :: "'n \<Rightarrow> (nat \<times> nat \<times> nat) option"
  counts :: "'n \<Rightarrow> (nat \<times> nat) option"

definition no_queries :: "'n sworld" where
  "no_queries = \<lparr>dirruns = 0, finished = 1, slots = \<lambda>_ _. None, cells = \<lambda>_. (0, 0, None), next_cell = 0,
     positions = \<lambda>_. None, counts = \<lambda>_. None\<rparr>"

text \<open>A new array of the cache, and its last place.\<close>

definition new_cache :: "nat \<Rightarrow> 'n sworld \<Rightarrow> nat \<times> 'n sworld" where
  "new_cache name w = (next_cell w, w\<lparr>cells := (cells w)(next_cell w := (dirruns w, name, None)), next_cell := Suc (next_cell w)\<rparr>)"

definition set_result :: "nat \<Rightarrow> bool option \<Rightarrow> 'n sworld \<Rightarrow> 'n sworld" where
  "set_result c r w = w\<lparr>cells := (cells w)(c := (fst (cells w c), fst (snd (cells w c)), r))\<rparr>"

definition put_slot :: "'n \<Rightarrow> cache_key \<Rightarrow> nat \<Rightarrow> 'n sworld \<Rightarrow> 'n sworld" where
  "put_slot e k c w = w\<lparr>slots := (slots w)(e := (slots w e)(k \<mapsto> c))\<rparr>"

section \<open>Combinators\<close>

record combinator =
  cdir :: direction
  cfirst :: bool
  cnext :: "jstr option"

definition key_of :: "combinator \<Rightarrow> cache_key" where
  "key_of r = (case cnext r of None \<Rightarrow> Dir (cdir r) | Some s \<Rightarrow> Skip s)"

definition checkNonElements :: "bool \<Rightarrow> combinator \<Rightarrow> bool" where
  "checkNonElements base r \<longleftrightarrow> base \<and> key_of r = Dir ParentNode"

definition eligible :: "'n sdom \<Rightarrow> bool \<Rightarrow> combinator \<Rightarrow> 'n \<Rightarrow> bool" where
  "eligible env base r e \<longleftrightarrow> is_element env e \<or> checkNonElements base r"

definition skipped :: "'n sdom \<Rightarrow> combinator \<Rightarrow> 'n \<Rightarrow> bool" where
  "skipped env r e \<longleftrightarrow> cnext r = Some (lower_name env e)"

text \<open>The closest element, all without a cache, all with the cache.\<close>

fun first_walk :: "('n \<Rightarrow> bool) \<Rightarrow> ('n \<Rightarrow> 'w \<Rightarrow> bool \<times> 'w) \<Rightarrow> 'n list \<Rightarrow> 'w \<Rightarrow> bool \<times> 'w" where
  "first_walk ok f [] w = (False, w)"
| "first_walk ok f (y # ys) w = (if ok y then f y w else first_walk ok f ys w)"

fun plain_walk :: "('n \<Rightarrow> bool) \<Rightarrow> ('n \<Rightarrow> 'w \<Rightarrow> bool \<times> 'w) \<Rightarrow> 'n list \<Rightarrow> 'w \<Rightarrow> bool \<times> 'w" where
  "plain_walk ok f [] w = (False, w)"
| "plain_walk ok f (y # ys) w =
     (if ok y then (case f y w of (b, w1) \<Rightarrow> if b then (True, w1) else plain_walk ok f ys w1)
      else plain_walk ok f ys w)"

definition old_cache :: "'n \<Rightarrow> cache_key \<Rightarrow> nat \<Rightarrow> 'n sworld \<Rightarrow> bool option option" where
  "old_cache e k name w = (case slots w e k of
       None \<Rightarrow> None
     | Some c \<Rightarrow> (case cells w c of (d, n, r) \<Rightarrow> if d = dirruns w \<and> n = name then Some r else None))"

fun cached_walk :: "('n \<Rightarrow> bool) \<Rightarrow> ('n \<Rightarrow> bool) \<Rightarrow> cache_key \<Rightarrow> nat \<Rightarrow> nat \<Rightarrow> ('n \<Rightarrow> 'n sworld \<Rightarrow> bool \<times> 'n sworld) \<Rightarrow>
    'n list \<Rightarrow> 'n sworld \<Rightarrow> bool \<times> 'n sworld" where
  "cached_walk ok skip k name c f [] w = (False, w)"
| "cached_walk ok skip k name c f (y # ys) w =
     (if \<not> ok y then cached_walk ok skip k name c f ys w
      else if skip y then cached_walk ok skip k name c f (tl ys) w
      else case old_cache y k name w of
        Some r \<Rightarrow> (r = Some True, set_result c r w)
      | None \<Rightarrow>
          (case f y (put_slot y k c w) of (b, w1) \<Rightarrow>
             if b then (True, set_result c (Some b) w1)
             else cached_walk ok skip k name c f ys (set_result c (Some b) w1)))"

definition addCombinator :: "'n sdom \<Rightarrow> bool \<Rightarrow> nat \<Rightarrow> combinator \<Rightarrow> bool \<Rightarrow> ('n \<Rightarrow> 'n sworld \<Rightarrow> bool \<times> 'n sworld) \<Rightarrow>
    'n \<Rightarrow> 'n sworld \<Rightarrow> bool \<times> 'n sworld" where
  "addCombinator env xml name r base f e w =
     (let ys = visits env (cdir r) e in
      if cfirst r then first_walk (eligible env base r) f ys w
      else if xml then plain_walk (eligible env base r) f ys w
      else case new_cache name w of (c, w1) \<Rightarrow>
        cached_walk (eligible env base r) (skipped env r) (key_of r) name c f ys w1)"

section \<open>Filters of one element\<close>

definition tag_filter :: "'n sdom \<Rightarrow> jstr \<Rightarrow> 'n \<Rightarrow> bool" where
  "tag_filter env t e \<longleftrightarrow> t = js ''*'' \<or> lower_name env e = lower (unescape_css t)"

definition id_filter :: "'n sdom \<Rightarrow> jstr \<Rightarrow> 'n \<Rightarrow> bool" where
  "id_filter env i e \<longleftrightarrow> attribute env e (js ''id'') = Some (unescape_css i)"

text \<open>The class name stands for itself in the pattern.\<close>

fun exactly :: "jstr \<Rightarrow> re" where
  "exactly [] = Eps"
| "exactly (c # cs) = Cat (Cls (\<lambda>d. d = c)) (exactly cs)"

definition class_re :: "jstr \<Rightarrow> re" where
  "class_re className = Cat (Alt Bol white_re) (Cat (exactly className) (Alt white_re Eol))"

definition class_filter :: "'n sdom \<Rightarrow> jstr \<Rightarrow> 'n \<Rightarrow> bool" where
  "class_filter env className e \<longleftrightarrow> search (class_re className) (class_text env e) \<noteq> None"

definition attr_filter :: "'n sdom \<Rightarrow> jstr \<Rightarrow> jstr \<Rightarrow> jstr \<Rightarrow> 'n \<Rightarrow> bool" where
  "attr_filter env name operator check e =
     (case attribute env e name of
        None \<Rightarrow> operator = js ''!=''
      | Some r \<Rightarrow>
          if operator = [] then True
          else if operator = js ''='' then r = check
          else if operator = js ''!='' then r \<noteq> check
          else if operator = js ''^='' then check \<noteq> [] \<and> indexOf check r = Some 0
          else if operator = js ''*='' then check \<noteq> [] \<and> indexOf check r \<noteq> None
          else if operator = js ''$='' then check \<noteq> [] \<and> drop (length r - length check) r = check
          else if operator = js ''~='' then
            indexOf check (js '' '' @ replace_g rwhitespace (\<lambda>_ _. js '' '') r @ js '' '') \<noteq> None
          else if operator = js ''|='' then r = check \<or> take (length check + 1) r = check @ js ''-''
          else False)"

section \<open>Positions among the children\<close>

datatype edge = First_child | Last_child | Only_child

datatype child = Edge edge bool | Nth bool bool int int

text \<open>Nodes that count: elements, or those of the same name.\<close>

definition counted :: "'n sdom \<Rightarrow> bool \<Rightarrow> 'n \<Rightarrow> 'n \<Rightarrow> bool" where
  "counted env ofType e n \<longleftrightarrow> (if ofType then lower_name env n = lower_name env e else is_element env n)"

definition edge_filter :: "'n sdom \<Rightarrow> edge \<Rightarrow> bool \<Rightarrow> 'n \<Rightarrow> bool" where
  "edge_filter env t ofType e =
     (let none = (\<lambda>d. \<not> list_ex (counted env ofType e) (visits env d e)) in
      case t of
        First_child \<Rightarrow> none PreviousSibling
      | Last_child \<Rightarrow> none NextSibling
      | Only_child \<Rightarrow> none PreviousSibling \<and> none NextSibling)"

text \<open>
  The loop that seeks an element: through the nodes to come, and then once from the start.  Its value is the index among
  the child nodes and the number of elements up to the element.
\<close>

function seek :: "('n \<Rightarrow> bool) \<Rightarrow> 'n \<Rightarrow> 'n list \<Rightarrow> 'n list option \<Rightarrow> nat \<Rightarrow> nat \<Rightarrow> (nat \<times> nat) option" where
  "seek ok e (y # ys) start i diff =
     (let d = (if ok y then Suc diff else diff) in
      if ok y \<and> y = e then Some (i, d) else seek ok e ys start (Suc i) d)"
| "seek ok e [] (Some zs) i diff = seek ok e zs None 0 0"
| "seek ok e [] None i diff = None"
  by pat_completeness auto
termination
  by (relation "measure (\<lambda>(_, _, ys, start, _, _). length ys + (case start of None \<Rightarrow> 0 | Some zs \<Rightarrow> Suc (length zs)))") auto

text \<open>The same loop where it notes the number at every element it passes.\<close>

definition put_count :: "'n \<Rightarrow> nat \<Rightarrow> 'n sworld \<Rightarrow> 'n sworld" where
  "put_count e d w = w\<lparr>counts := (counts w)(e \<mapsto> (dirruns w, d))\<rparr>"

function seek_noting :: "('n \<Rightarrow> bool) \<Rightarrow> bool \<Rightarrow> 'n \<Rightarrow> 'n list \<Rightarrow> 'n list option \<Rightarrow> nat \<Rightarrow> 'n sworld \<Rightarrow> nat \<times> 'n sworld" where
  "seek_noting ok useCache e (y # ys) start diff w =
     (if ok y then
        (let w1 = (if useCache then put_count y (Suc diff) w else w) in
         if y = e then (Suc diff, w1) else seek_noting ok useCache e ys start (Suc diff) w1)
      else seek_noting ok useCache e ys start diff w)"
| "seek_noting ok useCache e [] (Some zs) diff w = seek_noting ok useCache e zs None 0 w"
| "seek_noting ok useCache e [] None diff w = (0, w)"
  by pat_completeness auto
termination
  by (relation "measure (\<lambda>(_, _, _, ys, start, _, _). length ys + (case start of None \<Rightarrow> 0 | Some zs \<Rightarrow> Suc (length zs)))") auto

text \<open>The number of an element: through the place kept at the parent, or the number kept at the element.\<close>

definition nth_forward :: "'n sdom \<Rightarrow> 'n \<Rightarrow> 'n \<Rightarrow> 'n sworld \<Rightarrow> nat \<times> 'n sworld" where
  "nth_forward env p e w =
     (let (nodeIndex, diff) = (case positions w p of
            None \<Rightarrow> (0, 0) | Some (d, i, n) \<Rightarrow> if d = dirruns w then (i, n) else (0, 0));
          rest1 = (if nodeIndex = 0 then [] else drop (Suc nodeIndex) (kids env p))
      in case seek (is_element env) e rest1 (Some (kids env p)) (Suc nodeIndex) diff of
           Some (i, n) \<Rightarrow> (n, w\<lparr>positions := (positions w)(p \<mapsto> (dirruns w, i, n))\<rparr>)
         | None \<Rightarrow> (0, w))"

definition nth_other :: "'n sdom \<Rightarrow> bool \<Rightarrow> bool \<Rightarrow> bool \<Rightarrow> 'n \<Rightarrow> 'n \<Rightarrow> 'n sworld \<Rightarrow> nat \<times> 'n sworld" where
  "nth_other env useCache forward ofType p e w =
     (let start = (if forward then kids env p else rev (kids env p)) in
      case (if useCache then counts w e else None) of
        Some (d, n) \<Rightarrow>
          if d = dirruns w then (n, w)
          else seek_noting (counted env ofType e) useCache e (visits env PreviousSibling e) (Some start) 0 w
      | None \<Rightarrow>
          seek_noting (counted env ofType e) useCache e (if useCache then visits env PreviousSibling e else [])
            (Some start) 0 w)"

definition in_cycle :: "int \<Rightarrow> int \<Rightarrow> int \<Rightarrow> bool" where
  "in_cycle first lst n \<longleftrightarrow> (let diff = n - lst in diff = first \<or> (first \<noteq> 0 \<and> diff mod first = 0 \<and> diff div first \<ge> 0))"

definition child_filter :: "'n sdom \<Rightarrow> bool \<Rightarrow> child \<Rightarrow> 'n \<Rightarrow> 'n sworld \<Rightarrow> bool \<times> 'n sworld" where
  "child_filter env xml t e w =
     (case parent_of env e of
        None \<Rightarrow> (False, w)
      | Some p \<Rightarrow>
          (case t of
             Edge g ofType \<Rightarrow> (edge_filter env g ofType e, w)
           | Nth forward ofType first lst \<Rightarrow>
               if first = 1 \<and> lst = 0 then (True, w)
               else
                 (let useCache = (\<not> xml \<and> \<not> ofType);
                      (n, w1) = (if forward \<and> useCache then nth_forward env p e w
                                 else nth_other env useCache forward ofType p e w)
                  in (in_cycle first lst (int n), w1))))"

section \<open>Compiled matchers\<close>

datatype 'n contexts = One_node 'n | Nodes "'n list"

text \<open>What stays the same in a run: the context, whether it is the outermost one, and whether the document is XML.\<close>

record 'n query =
  context_of :: "'n contexts"
  outermost :: bool
  xml :: bool

datatype 'n matcher =
    Test "'n \<Rightarrow> bool"
  | Child child
  | Comb nat combinator "'n matcher"
  | Every "'n matcher list"
  | Reach bool nat nat combinator

definition reach :: "'n sdom \<Rightarrow> 'n query \<Rightarrow> bool \<Rightarrow> nat \<Rightarrow> nat \<Rightarrow> combinator \<Rightarrow> 'n \<Rightarrow> 'n sworld \<Rightarrow> bool \<times> 'n sworld" where
  "reach env q leading n1 n2 r e w =
     (if \<not> leading \<and> (xml q \<or> \<not> outermost q) then (True, w)
      else (case context_of q of
              One_node c \<Rightarrow> addCombinator env (xml q) n1 r True (\<lambda>x w. (x = c, w)) e w
            | Nodes cs \<Rightarrow> addCombinator env (xml q) n2 r True (\<lambda>x w. (x \<in> set cs, w)) e w))"

text \<open>\<open>elementMatcher\<close> runs its matchers from the last to the first.\<close>

fun every :: "('n \<Rightarrow> 'w \<Rightarrow> bool \<times> 'w) list \<Rightarrow> 'n \<Rightarrow> 'w \<Rightarrow> bool \<times> 'w" where
  "every [] e w = (True, w)"
| "every (f # fs) e w = (case f e w of (b, w1) \<Rightarrow> if b then every fs e w1 else (False, w1))"

primrec run_matcher :: "'n sdom \<Rightarrow> 'n query \<Rightarrow> 'n matcher \<Rightarrow> 'n \<Rightarrow> 'n sworld \<Rightarrow> bool \<times> 'n sworld" where
  "run_matcher env q (Test p) = (\<lambda>e w. (p e, w))"
| "run_matcher env q (Child t) = child_filter env (xml q) t"
| "run_matcher env q (Comb n r m) = addCombinator env (xml q) n r False (run_matcher env q m)"
| "run_matcher env q (Every ms) = every (rev (map (run_matcher env q) ms))"
| "run_matcher env q (Reach leading n1 n2 r) = reach env q leading n1 n2 r"

definition elementMatcher :: "'n matcher list \<Rightarrow> 'n matcher" where
  "elementMatcher ms = (if length ms > 1 then Every ms else hd ms)"

section \<open>Compiling\<close>

datatype token = Relative combinator | TAG jstr | ID jstr | CLASS jstr | ATTR jstr jstr jstr | CHILD child | PSEUDO jstr jstr

definition expr_filter :: "'n sdom \<Rightarrow> token \<Rightarrow> 'n matcher" where
  "expr_filter env t = (case t of
       TAG n \<Rightarrow> Test (tag_filter env n)
     | ID i \<Rightarrow> Test (id_filter env i)
     | CLASS c \<Rightarrow> Test (class_filter env c)
     | ATTR n operator v \<Rightarrow> Test (attr_filter env n operator v)
     | CHILD c \<Rightarrow> Child c
     | PSEUDO n a \<Rightarrow> Test (pseudo env n a)
     | Relative r \<Rightarrow> Test (\<lambda>_. False))"

fun from_tokens :: "'n sdom \<Rightarrow> 'n matcher list \<Rightarrow> token list \<Rightarrow> nat \<Rightarrow> 'n matcher list \<times> nat" where
  "from_tokens env ms [] done1 = (ms, done1)"
| "from_tokens env ms (Relative r # ts) done1 = from_tokens env [Comb done1 r (elementMatcher ms)] ts (Suc done1)"
| "from_tokens env ms (t # ts) done1 = from_tokens env (ms @ [expr_filter env t]) ts done1"

definition descendant :: combinator where
  "descendant = \<lparr>cdir = ParentNode, cfirst = False, cnext = None\<rparr>"

definition relative :: "jstr \<Rightarrow> combinator option" where
  "relative = map_of
     [(js ''>'', \<lparr>cdir = ParentNode, cfirst = True, cnext = None\<rparr>), (js '' '', descendant),
      (js ''+'', \<lparr>cdir = PreviousSibling, cfirst = True, cnext = None\<rparr>),
      (js ''~'', \<lparr>cdir = PreviousSibling, cfirst = False, cnext = None\<rparr>)]"

definition matcherFromTokens :: "'n sdom \<Rightarrow> token list \<Rightarrow> nat \<Rightarrow> 'n matcher \<times> nat" where
  "matcherFromTokens env tokens done1 =
     (let (leading, r, ts) = (case tokens of Relative r # ts \<Rightarrow> (True, r, ts) | _ \<Rightarrow> (False, descendant, tokens));
          (ms, done2) = from_tokens env [Reach leading done1 (Suc done1) r] ts (done1 + 2)
      in (elementMatcher ms, done2))"

text \<open>\<open>compile\<close>: the matchers of the selectors of a list, from the last to the first.\<close>

fun compile_all :: "'n sdom \<Rightarrow> token list list \<Rightarrow> nat \<Rightarrow> 'n matcher list \<times> nat" where
  "compile_all env [] done1 = ([], done1)"
| "compile_all env (ts # tss) done1 =
     (case matcherFromTokens env ts done1 of (m, d1) \<Rightarrow> case compile_all env tss d1 of (ms, d2) \<Rightarrow> (m # ms, d2))"

definition compile :: "'n sdom \<Rightarrow> token list list \<Rightarrow> 'n sworld \<Rightarrow> 'n matcher list \<times> 'n sworld" where
  "compile env groups1 w = (case compile_all env (rev groups1) (finished w) of (ms, d) \<Rightarrow> (ms, w\<lparr>finished := d\<rparr>))"

section \<open>The matcher of a list\<close>

text \<open>An element is a result when one of the matchers takes it; the others do not run then.\<close>

fun some_matcher :: "'n sdom \<Rightarrow> 'n query \<Rightarrow> 'n matcher list \<Rightarrow> 'n \<Rightarrow> 'n sworld \<Rightarrow> bool \<times> 'n sworld" where
  "some_matcher env q [] e w = (False, w)"
| "some_matcher env q (m # ms) e w =
     (case run_matcher env q m e w of (b, w1) \<Rightarrow> if b then (True, w1) else some_matcher env q ms e w1)"

fun over_elements :: "'n sdom \<Rightarrow> 'n query \<Rightarrow> 'n matcher list \<Rightarrow> nat \<Rightarrow> 'n list \<Rightarrow> 'n sworld \<Rightarrow> 'n list \<times> 'n sworld" where
  "over_elements env q ms runs1 [] w = ([], w)"
| "over_elements env q ms runs1 (e # es) w =
     (case some_matcher env q ms e w of (b, w1) \<Rightarrow>
        case over_elements env q ms runs1 es (w1\<lparr>dirruns := runs1\<rparr>) of (res, w2) \<Rightarrow>
          (if b then e # res else res, w2))"

text \<open>
  A run that is not inside another; without a context the document is it, and a context that is the document is not
  the outermost one for the matchers.
\<close>

definition superMatcher :: "'n sdom \<Rightarrow> 'n \<Rightarrow> bool \<Rightarrow> 'n matcher list \<Rightarrow> 'n list \<Rightarrow> 'n option \<Rightarrow> 'n sworld \<Rightarrow> 'n list \<times> 'n sworld" where
  "superMatcher env doc is_xml ms seeds ctx w =
     (let runs1 = Suc (dirruns w);
          q = \<lparr>context_of = One_node (case ctx of None \<Rightarrow> doc | Some c \<Rightarrow> c),
               outermost = (ctx \<noteq> None \<and> ctx \<noteq> Some doc), xml = is_xml\<rparr>
      in over_elements env q ms runs1 seeds (w\<lparr>dirruns := runs1\<rparr>))"

end
