(* ===== verification/JqMatcherLaws.thy ===== *)
theory JqMatcherLaws
  imports JqMatchers
begin

text \<open>
  The matchers of theory \<open>JqMatchers\<close> against what selectors mean.  The caches of the combinators and of the positions
  never change a result: the invariant says what an entry of the current run must hold, and every matcher keeps it,
  for its own entries and for those of the others.
\<close>

section \<open>Documents\<close>

text \<open>
  What the DOM says of its trees: what follows a node in a direction is what that direction visits from it, child nodes are
  distinct, and a node is a child of its parent.
\<close>

definition tree_like :: "'n sdom \<Rightarrow> bool" where
  "tree_like env \<longleftrightarrow> (\<forall>d x y ys. visits env d x = y # ys \<longrightarrow> visits env d y = ys) \<and> (\<forall>p. distinct (kids env p)) \<and>
     (\<forall>e p. parent_of env e = Some p \<longrightarrow> e \<in> set (kids env p))"

text \<open>A part of a path that is closed under the direction.\<close>

definition path :: "'n sdom \<Rightarrow> direction \<Rightarrow> 'n list \<Rightarrow> bool" where
  "path env d ys \<longleftrightarrow> (\<forall>xs y zs. ys = xs @ y # zs \<longrightarrow> visits env d y = zs)"

lemma path_Cons: "path env d (y # ys) \<longleftrightarrow> visits env d y = ys \<and> path env d ys"
proof
  assume p: "path env d (y # ys)"
  have "visits env d y = ys" using p unfolding path_def by (metis append_Nil)
  moreover have "path env d ys"
    unfolding path_def
  proof (intro allI impI)
    fix xs z zs assume "ys = xs @ z # zs"
    then have "y # ys = (y # xs) @ z # zs" by simp
    with p show "visits env d z = zs" unfolding path_def by blast
  qed
  ultimately show "visits env d y = ys \<and> path env d ys" ..
next
  assume p: "visits env d y = ys \<and> path env d ys"
  show "path env d (y # ys)"
    unfolding path_def
  proof (intro allI impI)
    fix xs z zs assume "y # ys = xs @ z # zs"
    with p show "visits env d z = zs" unfolding path_def by (cases xs) auto
  qed
qed

lemma path_Nil [simp]: "path env d []"
  by (simp add: path_def)

lemma path_visits:
  assumes "tree_like env"
  shows "path env d (visits env d x)"
proof -
  have "visits env d x = ys \<Longrightarrow> path env d ys" for ys
  proof (induction ys arbitrary: x)
    case (Cons y ys)
    then have "visits env d y = ys" using assms unfolding tree_like_def by blast
    with Cons.IH [OF this] show ?case by (simp add: path_Cons)
  qed simp
  then show ?thesis by simp
qed

lemma path_distinct: "path env d ys \<Longrightarrow> distinct ys"
proof (induction ys)
  case (Cons y ys)
  have "y \<notin> set ys"
  proof
    assume "y \<in> set ys"
    then obtain xs zs where z: "ys = xs @ y # zs" by (auto dest: split_list)
    with Cons.prems have "visits env d y = zs" by (auto simp: path_Cons path_def)
    with Cons.prems z show False by (simp add: path_Cons)
  qed
  with Cons show ?case by (simp add: path_Cons)
qed simp

section \<open>What selectors mean\<close>

fun tested :: "('n \<Rightarrow> bool) \<Rightarrow> ('n \<Rightarrow> bool) \<Rightarrow> 'n list \<Rightarrow> 'n list" where
  "tested ok skip [] = []"
| "tested ok skip (y # ys) =
     (if \<not> ok y then tested ok skip ys else if skip y then tested ok skip (tl ys) else y # tested ok skip ys)"

definition related :: "'n sdom \<Rightarrow> bool \<Rightarrow> bool \<Rightarrow> combinator \<Rightarrow> ('n \<Rightarrow> bool) \<Rightarrow> 'n \<Rightarrow> bool" where
  "related env is_xml base r P e =
     (let ys = visits env (cdir r) e in
      if cfirst r then (case filter (eligible env base r) ys of [] \<Rightarrow> False | y # _ \<Rightarrow> P y)
      else if is_xml then list_ex P (filter (eligible env base r) ys)
      else list_ex P (tested (eligible env base r) (skipped env r) ys))"

text \<open>The position of an element among the children that count, from one end.\<close>

definition nth_of :: "'n sdom \<Rightarrow> bool \<Rightarrow> bool \<Rightarrow> 'n \<Rightarrow> 'n \<Rightarrow> nat" where
  "nth_of env forward ofType p e =
     Suc (length (filter (counted env ofType e)
       (takeWhile (\<lambda>x. x \<noteq> e) (if forward then kids env p else rev (kids env p)))))"

definition is_child :: "'n sdom \<Rightarrow> child \<Rightarrow> 'n \<Rightarrow> bool" where
  "is_child env t e = (case parent_of env e of None \<Rightarrow> False | Some p \<Rightarrow>
     (case t of
        Edge g ofType \<Rightarrow> edge_filter env g ofType e
      | Nth forward ofType first lst \<Rightarrow> \<exists>k. int (nth_of env forward ofType p e) = first * int k + lst))"

definition in_context :: "'n query \<Rightarrow> 'n \<Rightarrow> bool" where
  "in_context q x \<longleftrightarrow> (case context_of q of One_node c \<Rightarrow> x = c | Nodes cs \<Rightarrow> x \<in> set cs)"

primrec holds :: "'n sdom \<Rightarrow> 'n query \<Rightarrow> 'n matcher \<Rightarrow> 'n \<Rightarrow> bool" where
  "holds env q (Test p) = p"
| "holds env q (Child t) = is_child env t"
| "holds env q (Comb n r m) = related env (xml q) False r (holds env q m)"
| "holds env q (Every ms) = (\<lambda>e. list_all (\<lambda>h. h e) (map (holds env q) ms))"
| "holds env q (Reach leading n1 n2 r) = (\<lambda>e. \<not> leading \<and> (xml q \<or> \<not> outermost q) \<or> related env (xml q) True r (in_context q) e)"

section \<open>The invariant of the caches\<close>

text \<open>
  \<open>Q\<close> says, for the name of a combinator, what the array in the slot of a node may hold; every stamp is of this
  run or of an earlier one.
\<close>

type_synonym 'n meaning = "nat \<Rightarrow> 'n \<Rightarrow> nat \<Rightarrow> bool option \<Rightarrow> bool"

definition slots_ok :: "'n meaning \<Rightarrow> 'n sworld \<Rightarrow> bool" where
  "slots_ok Q w \<longleftrightarrow> (\<forall>x k c. slots w x k = Some c \<longrightarrow> c < next_cell w \<and> fst (cells w c) \<le> dirruns w \<and>
     (fst (cells w c) = dirruns w \<longrightarrow> Q (fst (snd (cells w c))) x c (snd (snd (cells w c)))))"

lemma slots_okD:
  assumes "slots_ok Q w" and "slots w x k = Some c"
  shows "c < next_cell w" and "fst (cells w c) \<le> dirruns w"
    and "fst (cells w c) = dirruns w \<Longrightarrow> Q (fst (snd (cells w c))) x c (snd (snd (cells w c)))"
  using assms unfolding slots_ok_def by blast+

lemma slots_okI:
  assumes "\<And>x k c. slots w x k = Some c \<Longrightarrow> c < next_cell w \<and> fst (cells w c) \<le> dirruns w"
    and "\<And>x k c. slots w x k = Some c \<Longrightarrow> fst (cells w c) = dirruns w \<Longrightarrow>
      Q (fst (snd (cells w c))) x c (snd (snd (cells w c)))"
  shows "slots_ok Q w"
  using assms unfolding slots_ok_def by blast

definition positions_ok :: "'n sdom \<Rightarrow> 'n sworld \<Rightarrow> bool" where
  "positions_ok env w \<longleftrightarrow> (\<forall>p d i n. positions w p = Some (d, i, n) \<longrightarrow> d \<le> dirruns w \<and>
     (d = dirruns w \<longrightarrow> i < length (kids env p) \<and> is_element env (kids env p ! i) \<and>
        n = length (filter (is_element env) (take (Suc i) (kids env p)))))"

definition caches_ok :: "'n sdom \<Rightarrow> 'n meaning \<Rightarrow> 'n sworld \<Rightarrow> bool" where
  "caches_ok env Q w \<longleftrightarrow> slots_ok Q w \<and> positions_ok env w"

text \<open>What a run leaves alone.\<close>

definition later :: "'n sworld \<Rightarrow> 'n sworld \<Rightarrow> bool" where
  "later w w1 \<longleftrightarrow> dirruns w1 = dirruns w \<and> next_cell w \<le> next_cell w1 \<and> (\<forall>c < next_cell w. cells w1 c = cells w c)"

lemma later_refl: "later w w"
  by (simp add: later_def)

lemma later_trans: "later w w1 \<Longrightarrow> later w1 w2 \<Longrightarrow> later w w2"
  by (auto simp: later_def)

text \<open>A function of the machine computes a predicate on some nodes.\<close>

definition computes :: "'n sdom \<Rightarrow> 'n meaning \<Rightarrow> ('n \<Rightarrow> bool) \<Rightarrow> ('n \<Rightarrow> 'n sworld \<Rightarrow> bool \<times> 'n sworld) \<Rightarrow> ('n \<Rightarrow> bool) \<Rightarrow> bool" where
  "computes env Q ok f h \<longleftrightarrow> (\<forall>e w b w1. ok e \<longrightarrow> caches_ok env Q w \<longrightarrow> f e w = (b, w1) \<longrightarrow>
     b = h e \<and> caches_ok env Q w1 \<and> later w w1)"

lemma computesD:
  assumes "computes env Q ok f h" and "ok e" and "caches_ok env Q w" and "f e w = (b, w1)"
  shows "b = h e" and "caches_ok env Q w1" and "later w w1"
  using assms unfolding computes_def by blast+

lemma computes_pure: "computes env Q ok (\<lambda>e w. (h e, w)) h"
  by (simp add: computes_def later_refl)

section \<open>Combinators\<close>

lemma first_walk_ok:
  assumes f: "computes env Q ok f h"
    and "caches_ok env Q w" and "first_walk ok f ys w = (b, w1)"
  shows "b = (case filter ok ys of [] \<Rightarrow> False | y # _ \<Rightarrow> h y) \<and> caches_ok env Q w1 \<and> later w w1"
  using assms(2,3)
proof (induction ys)
  case (Cons y ys)
  then show ?case
    using computesD [OF f, of y w b w1] by (cases "ok y") auto
qed (simp add: later_refl)

lemma plain_walk_ok:
  assumes f: "computes env Q ok f h"
    and "caches_ok env Q w" and "plain_walk ok f ys w = (b, w1)"
  shows "b = list_ex h (filter ok ys) \<and> caches_ok env Q w1 \<and> later w w1"
  using assms(2,3)
proof (induction ys arbitrary: w)
  case (Cons y ys)
  show ?case
  proof (cases "ok y")
    case True
    obtain b2 w2 where r: "f y w = (b2, w2)" by (cases "f y w")
    note f2 = computesD [OF f True Cons.prems(1) r]
    show ?thesis
    proof (cases b2)
      case True
      with r \<open>ok y\<close> Cons.prems(2) f2 show ?thesis by simp
    next
      case False
      with r \<open>ok y\<close> Cons.prems(2) have "plain_walk ok f ys w2 = (b, w1)" by simp
      from Cons.IH [OF f2(2) this] False f2 \<open>ok y\<close> later_trans [OF f2(3)] show ?thesis by auto
    qed
  next
    case False
    with Cons show ?thesis by simp
  qed
qed (simp add: later_refl)

text \<open>While a walk is under way its own array holds what was found so far.\<close>

definition during :: "'n meaning \<Rightarrow> nat \<Rightarrow> nat \<Rightarrow> ('n \<Rightarrow> bool) \<Rightarrow> 'n set \<Rightarrow> 'n meaning" where
  "during Q name c S V = Q(name := (\<lambda>x d r. if d = c then x \<in> V else r = Some (S x)))"

definition own :: "nat \<Rightarrow> nat \<Rightarrow> bool option \<Rightarrow> 'n sworld \<Rightarrow> bool" where
  "own name c r w \<longleftrightarrow> cells w c = (dirruns w, name, r) \<and> c < next_cell w"

lemma own_later: "own name c r w \<Longrightarrow> later w w1 \<Longrightarrow> own name c r w1"
  by (auto simp: own_def later_def)

lemma own_result: "own name c r w \<Longrightarrow> own name c r1 (set_result c r1 w)"
  by (simp add: own_def set_result_def)

lemma own_slot [simp]: "own name c r (put_slot y k c1 w) = own name c r w"
  by (simp add: own_def put_slot_def)

lemma slots_set_result:
  assumes ok: "slots_ok (during Q name c S V) w" and own: "own name c r0 w"
  shows "slots_ok (during Q name c S V) (set_result c r w)"
proof (rule slots_okI)
  fix x k c1 assume s: "slots (set_result c r w) x k = Some c1"
  then have s1: "slots w x k = Some c1" by (simp add: set_result_def)
  note d = slots_okD [OF ok s1]
  show "c1 < next_cell (set_result c r w) \<and> fst (cells (set_result c r w) c1) \<le> dirruns (set_result c r w)"
    using d(1,2) by (auto simp: set_result_def)
  assume "fst (cells (set_result c r w) c1) = dirruns (set_result c r w)"
  then have t: "fst (cells w c1) = dirruns w" by (simp add: set_result_def split: if_splits)
  show "during Q name c S V (fst (snd (cells (set_result c r w) c1))) x c1 (snd (snd (cells (set_result c r w) c1)))"
    using d(3) [OF t] own by (cases "c1 = c") (simp_all add: set_result_def own_def during_def)
qed

lemma caches_set_result:
  assumes "caches_ok env (during Q name c S V) w" and "own name c r0 w"
  shows "caches_ok env (during Q name c S V) (set_result c r w)"
  using assms slots_set_result [of Q name c S V w r0 r]
  by (simp add: caches_ok_def positions_ok_def set_result_def)

lemma slots_put_slot:
  assumes ok: "slots_ok (during Q name c S V) w" and own: "own name c r w"
  shows "slots_ok (during Q name c S (insert y V)) (put_slot y k c w)"
proof (rule slots_okI)
  fix x k1 c1 assume s: "slots (put_slot y k c w) x k1 = Some c1"
  have same: "cells (put_slot y k c w) = cells w" "dirruns (put_slot y k c w) = dirruns w"
    "next_cell (put_slot y k c w) = next_cell w" by (simp_all add: put_slot_def)
  show "c1 < next_cell (put_slot y k c w) \<and> fst (cells (put_slot y k c w) c1) \<le> dirruns (put_slot y k c w)"
  proof (cases "x = y \<and> k1 = k")
    case True
    with s own show ?thesis by (simp add: put_slot_def own_def)
  next
    case False
    with s have "slots w x k1 = Some c1" by (auto simp: put_slot_def split: if_splits)
    with slots_okD(1,2) [OF ok this] show ?thesis unfolding same by simp
  qed
  assume t: "fst (cells (put_slot y k c w) c1) = dirruns (put_slot y k c w)"
  show "during Q name c S (insert y V) (fst (snd (cells (put_slot y k c w) c1))) x c1
      (snd (snd (cells (put_slot y k c w) c1)))"
  proof (cases "x = y \<and> k1 = k")
    case True
    with s own show ?thesis by (simp add: put_slot_def own_def during_def)
  next
    case False
    with s have "slots w x k1 = Some c1" by (auto simp: put_slot_def split: if_splits)
    from slots_okD(3) [OF ok this] t show ?thesis unfolding same by (auto simp: during_def)
  qed
qed

lemma caches_put_slot:
  assumes "caches_ok env (during Q name c S V) w" and "own name c r w"
  shows "caches_ok env (during Q name c S (insert y V)) (put_slot y k c w)"
  using assms slots_put_slot [of Q name c S V w r y k]
  by (simp add: caches_ok_def positions_ok_def put_slot_def)

text \<open>The end of a walk: its array holds the result for all nodes it passed.\<close>

lemma caches_end:
  assumes ok: "caches_ok env (during Q name c S V) w" and own: "own name c r w"
    and q: "\<And>x d r. Q name x d r = (r = Some (S x))" and r: "V \<noteq> {} \<Longrightarrow> r = Some b" and v: "\<And>x. x \<in> V \<Longrightarrow> S x = b"
  shows "caches_ok env Q w"
proof -
  have sl: "slots_ok (during Q name c S V) w" using ok by (simp add: caches_ok_def)
  have "slots_ok Q w"
  proof (rule slots_okI)
    fix x k c1 assume s: "slots w x k = Some c1"
    show "c1 < next_cell w \<and> fst (cells w c1) \<le> dirruns w" using slots_okD(1,2) [OF sl s] ..
    assume "fst (cells w c1) = dirruns w"
    note d = slots_okD(3) [OF sl s this]
    show "Q (fst (snd (cells w c1))) x c1 (snd (snd (cells w c1)))"
    proof (cases "fst (snd (cells w c1)) = name")
      case name: True
      show ?thesis
      proof (cases "c1 = c")
        case True
        with d name have "x \<in> V" by (simp add: during_def)
        with r v [OF this] own True name show ?thesis by (auto simp: q own_def)
      next
        case False
        with d name show ?thesis by (simp add: during_def q)
      qed
    next
      case False
      with d show ?thesis by (simp add: during_def)
    qed
  qed
  with ok show ?thesis by (simp add: caches_ok_def)
qed

lemma old_cache_slot:
  assumes "old_cache y k name w = Some r"
  shows "\<exists>c. slots w y k = Some c \<and> fst (cells w c) = dirruns w \<and> fst (snd (cells w c)) = name \<and> snd (snd (cells w c)) = r"
  using assms by (auto simp: old_cache_def split: option.splits prod.splits if_splits)

lemma later_put_slot: "later w (put_slot y k c w)"
  by (simp add: later_def put_slot_def)

text \<open>All that a walk leaves alone but its own array.\<close>

definition besides :: "nat \<Rightarrow> 'n sworld \<Rightarrow> 'n sworld \<Rightarrow> bool" where
  "besides c w w1 \<longleftrightarrow> dirruns w1 = dirruns w \<and> next_cell w \<le> next_cell w1 \<and>
     (\<forall>d < next_cell w. d \<noteq> c \<longrightarrow> cells w1 d = cells w d)"

lemma besides_refl: "besides c w w"
  by (simp add: besides_def)

lemma besides_trans: "besides c w w1 \<Longrightarrow> besides c w1 w2 \<Longrightarrow> besides c w w2"
  by (auto simp: besides_def)

lemma besides_later: "later w w1 \<Longrightarrow> besides c w w1"
  by (simp add: besides_def later_def)

lemma besides_result: "besides c w (set_result c r w)"
  by (simp add: besides_def set_result_def)

lemma cached_walk_ok:
  fixes S :: "'n \<Rightarrow> bool"
  assumes f: "\<And>V. computes env (during Q name c S V) ok f h"
    and q: "\<And>x d r. Q name x d r = (r = Some (S x))"
    and S: "\<And>x. S x = (h x \<or> list_ex h (tested ok skip (visits env d x)))"
  shows "path env d ys \<Longrightarrow> V \<inter> set ys = {} \<Longrightarrow> caches_ok env (during Q name c S V) w \<Longrightarrow> own name c r w \<Longrightarrow>
    (V \<noteq> {} \<Longrightarrow> r = Some False) \<Longrightarrow> (\<And>x. x \<in> V \<Longrightarrow> S x = list_ex h (tested ok skip ys)) \<Longrightarrow>
    cached_walk ok skip k name c f ys w = (b, w1) \<Longrightarrow>
    b = list_ex h (tested ok skip ys) \<and> caches_ok env Q w1 \<and> besides c w w1"
proof (induction ys arbitrary: V w r rule: length_induct)
  case (1 ys)
  note IH = 1(1) [rule_format] and p = 1(2) and V = 1(3) and ok = 1(4) and own = 1(5) and r = 1(6) and v = 1(7) and run = 1(8)
  show ?case
  proof (cases ys)
    case Nil
    have "caches_ok env Q w"
      by (rule caches_end [OF ok own q r]) (use v Nil in auto)
    with run Nil show ?thesis by (simp add: besides_refl)
  next
    case (Cons y zs)
    have pz: "path env d zs" "visits env d y = zs" using p Cons by (simp_all add: path_Cons)
    have y: "y \<notin> V" "V \<inter> set zs = {}" using V Cons by auto
    show ?thesis
    proof (cases "ok y")
      case False
      have "cached_walk ok skip k name c f zs w = (b, w1)" using run Cons False by simp
      from IH [of zs V w r, OF _ pz(1) y(2) ok own r _ this] v Cons False show ?thesis by simp
    next
      case oky: True
      show ?thesis
      proof (cases "skip y")
        case True
        have run1: "cached_walk ok skip k name c f (tl zs) w = (b, w1)" using run Cons oky True by simp
        have "path env d (tl zs)" using pz(1) by (cases zs) (simp_all add: path_Cons)
        moreover have "V \<inter> set (tl zs) = {}" using y(2) by (cases zs) auto
        moreover have "length (tl zs) < length ys" using Cons by simp
        ultimately show ?thesis
          using IH [of "tl zs" V w r, OF _ _ _ ok own r _ run1] v Cons oky True by simp
      next
        case False
        have Sy: "S y = list_ex h (tested ok skip ys)" using S [of y] pz(2) Cons oky False by simp
        show ?thesis
        proof (cases "old_cache y k name w")
          case (Some r1)
          have run1: "b = (r1 = Some True)" "w1 = set_result c r1 w" using run Cons oky False Some by auto
          obtain c1 where c1: "slots w y k = Some c1" "fst (cells w c1) = dirruns w" "fst (snd (cells w c1)) = name"
            "snd (snd (cells w c1)) = r1" using old_cache_slot [OF Some] by blast
          have "slots_ok (during Q name c S V) w" using ok by (simp add: caches_ok_def)
          from slots_okD(3) [OF this c1(1,2)] c1(3,4) y(1) have r1: "r1 = Some (S y)"
            by (auto simp: during_def split: if_splits)
          have "caches_ok env Q w1"
            unfolding run1(2)
            by (rule caches_end [OF caches_set_result [OF ok own] own_result [OF own] q]) (use r1 v Sy in auto)
          with run1 r1 Sy show ?thesis by (simp add: besides_result)
        next
          case None
          obtain b2 w2 where r2: "f y (put_slot y k c w) = (b2, w2)" by (cases "f y (put_slot y k c w)")
          have ok1: "caches_ok env (during Q name c S (insert y V)) (put_slot y k c w)"
            by (rule caches_put_slot [OF ok own])
          note f2 = computesD [OF f oky ok1 r2]
          have own2: "own name c r w2" using own_later [OF _ f2(3)] own by simp
          define w3 where "w3 = set_result c (Some b2) w2"
          have ok3: "caches_ok env (during Q name c S (insert y V)) w3"
            unfolding w3_def by (rule caches_set_result [OF f2(2) own2])
          have own3: "own name c (Some b2) w3" unfolding w3_def by (rule own_result [OF own2])
          have b3: "besides c w w3"
            unfolding w3_def
            using besides_trans [OF besides_later [OF later_trans [OF later_put_slot f2(3)]] besides_result] .
          show ?thesis
          proof (cases b2)
            case True
            have run1: "b" "w1 = w3" using run Cons oky False None r2 True by (simp_all add: w3_def)
            have t: "list_ex h (tested ok skip ys)" using Cons oky False f2(1) True by simp
            have "caches_ok env Q w3"
              by (rule caches_end [OF ok3 own3 q, where b = True]) (use True t v Sy in auto)
            with run1 t b3 show ?thesis by simp
          next
            case nb: False
            have run1: "cached_walk ok skip k name c f zs w3 = (b, w1)"
              using run Cons oky False None r2 nb by (simp add: w3_def)
            have e: "list_ex h (tested ok skip ys) = list_ex h (tested ok skip zs)"
              using Cons oky False f2(1) nb by simp
            have d: "distinct ys" by (rule path_distinct [OF p])
            have V1: "insert y V \<inter> set zs = {}" using y(2) d Cons by auto
            have "b = list_ex h (tested ok skip zs) \<and> caches_ok env Q w1 \<and> besides c w3 w1"
              using IH [of zs "insert y V" w3 "Some b2", OF _ pz(1) V1 ok3 own3 _ _ run1] v Sy e nb Cons by auto
            with e besides_trans [OF b3] show ?thesis by blast
          qed
        qed
      qed
    qed
  qed
qed

lemma new_cache_ok:
  assumes "caches_ok env Q w" and "new_cache name w = (c, w1)" and "\<And>x d r. Q name x d r = (r = Some (S x))"
  shows "caches_ok env (during Q name c S {}) w1 \<and> own name c None w1 \<and> later w w1 \<and> c = next_cell w"
proof -
  have w1: "c = next_cell w" "w1 = w\<lparr>cells := (cells w)(c := (dirruns w, name, None)), next_cell := Suc (next_cell w)\<rparr>"
    using assms(2) by (auto simp: new_cache_def)
  have sl: "slots_ok Q w" and po: "positions_ok env w" using assms(1) by (simp_all add: caches_ok_def)
  have "slots_ok (during Q name c S {}) w1"
  proof (rule slots_okI)
    fix x k c1 assume "slots w1 x k = Some c1"
    then have s: "slots w x k = Some c1" by (simp add: w1(2))
    note d = slots_okD [OF sl s]
    have c1: "c1 \<noteq> c" using d(1) w1(1) by simp
    show "c1 < next_cell w1 \<and> fst (cells w1 c1) \<le> dirruns w1" using d(1,2) c1 by (simp add: w1(2))
    assume "fst (cells w1 c1) = dirruns w1"
    with d(3) c1 show "during Q name c S {} (fst (snd (cells w1 c1))) x c1 (snd (snd (cells w1 c1)))"
      using assms(3) [of x c1 "snd (snd (cells w c1))"] by (auto simp: w1(2) during_def)
  qed
  moreover have "positions_ok env w1" using po by (simp add: w1(2) positions_ok_def)
  ultimately show ?thesis by (simp add: caches_ok_def own_def later_def w1)
qed

lemma addCombinator_ok:
  assumes tree: "tree_like env"
    and f: "\<And>Q1. (\<And>n. n \<noteq> name \<Longrightarrow> Q1 n = Q n) \<Longrightarrow> computes env Q1 (eligible env base r) f h"
    and q: "\<And>x d v. Q name x d v = (v = Some (S x))"
    and S: "\<And>x. S x = (h x \<or> list_ex h (tested (eligible env base r) (skipped env r) (visits env (cdir r) x)))"
  shows "computes env Q ok (addCombinator env is_xml name r base f) (related env is_xml base r h)"
  unfolding computes_def
proof (intro allI impI)
  fix e w b w1 assume ok: "caches_ok env Q w" and run: "addCombinator env is_xml name r base f e w = (b, w1)"
  have fQ: "computes env Q (eligible env base r) f h" by (rule f) simp
  show "b = related env is_xml base r h e \<and> caches_ok env Q w1 \<and> later w w1"
  proof (cases "cfirst r")
    case True
    with run have "first_walk (eligible env base r) f (visits env (cdir r) e) w = (b, w1)" by (simp add: addCombinator_def)
    from first_walk_ok [OF fQ ok this] True show ?thesis by (simp add: related_def Let_def)
  next
    case nf: False
    show ?thesis
    proof (cases is_xml)
      case True
      with run nf have "plain_walk (eligible env base r) f (visits env (cdir r) e) w = (b, w1)"
        by (simp add: addCombinator_def)
      from plain_walk_ok [OF fQ ok this] True nf show ?thesis by (simp add: related_def Let_def)
    next
      case False
      obtain c w2 where c: "new_cache name w = (c, w2)" by (cases "new_cache name w")
      note n = new_cache_ok [where S = S, OF ok c q]
      have run1: "cached_walk (eligible env base r) (skipped env r) (key_of r) name c f (visits env (cdir r) e) w2 = (b, w1)"
        using run nf False c by (simp add: addCombinator_def Let_def)
      have "b = list_ex h (tested (eligible env base r) (skipped env r) (visits env (cdir r) e)) \<and>
          caches_ok env Q w1 \<and> besides c w2 w1"
      proof (rule cached_walk_ok [where S = S and V = "{}" and d = "cdir r" and r = None])
        show "computes env (during Q name c S V) (eligible env base r) f h" for V
          by (rule f) (simp add: during_def)
      qed (use n run1 q S path_visits [OF tree] in auto)
      moreover have "later w w1" if "besides c w2 w1"
        using that n by (auto simp: besides_def later_def)
      ultimately show ?thesis using nf False by (simp add: related_def Let_def)
    qed
  qed
qed

section \<open>Positions\<close>

lemma seek_absent: "e \<notin> set ys \<Longrightarrow> seek ok e ys (Some zs) i n = seek ok e zs None 0 0"
  by (induction ys arbitrary: i n) (auto simp: Let_def)

lemma seek_found:
  "e \<in> set ys \<Longrightarrow> ok e \<Longrightarrow> seek ok e ys start i n =
    Some (i + length (takeWhile (\<lambda>x. x \<noteq> e) ys), n + Suc (length (filter ok (takeWhile (\<lambda>x. x \<noteq> e) ys))))"
  by (induction ys arbitrary: i n) (auto simp: Let_def)

lemma seek_noting_absent:
  "e \<notin> set ys \<Longrightarrow> seek_noting ok False e ys (Some zs) n w = seek_noting ok False e zs None 0 w"
  by (induction ys arbitrary: n) (auto simp: Let_def)

lemma seek_noting_found:
  "e \<in> set ys \<Longrightarrow> ok e \<Longrightarrow>
    seek_noting ok False e ys start n w = (n + Suc (length (filter ok (takeWhile (\<lambda>x. x \<noteq> e) ys))), w)"
  by (induction ys arbitrary: n) (auto simp: Let_def)

text \<open>The part before an element, and the number of elements up to it.\<close>

lemma takeWhile_nth:
  "e \<in> set xs \<Longrightarrow> length (takeWhile (\<lambda>x. x \<noteq> e) xs) < length xs \<and> xs ! length (takeWhile (\<lambda>x. x \<noteq> e) xs) = e \<and>
    take (Suc (length (takeWhile (\<lambda>x. x \<noteq> e) xs))) xs = takeWhile (\<lambda>x. x \<noteq> e) xs @ [e]"
  by (induction xs) auto

lemma takeWhile_drop:
  "e \<in> set (drop j xs) \<Longrightarrow> distinct xs \<Longrightarrow>
    takeWhile (\<lambda>x. x \<noteq> e) xs = take j xs @ takeWhile (\<lambda>x. x \<noteq> e) (drop j xs)"
proof -
  assume e: "e \<in> set (drop j xs)" and d: "distinct xs"
  have "set (take j xs) \<inter> set (drop j xs) = {}" using d by (metis append_take_drop_id distinct_append)
  with e have "e \<notin> set (take j xs)" by blast
  then have "takeWhile (\<lambda>x. x \<noteq> e) (take j xs @ drop j xs) = take j xs @ takeWhile (\<lambda>x. x \<noteq> e) (drop j xs)"
    by (intro takeWhile_append2) auto
  then show "takeWhile (\<lambda>x. x \<noteq> e) xs = take j xs @ takeWhile (\<lambda>x. x \<noteq> e) (drop j xs)"
    unfolding append_take_drop_id .
qed

lemma nth_forward_ok:
  assumes tree: "tree_like env" and p: "parent_of env e = Some p" and e: "is_element env e"
    and ok: "caches_ok env Q w" and run: "nth_forward env p e w = (n, w1)"
  shows "n = nth_of env True False p e \<and> caches_ok env Q w1 \<and> later w w1"
proof -
  let ?xs = "kids env p" and ?el = "is_element env"
  let ?b = "takeWhile (\<lambda>x. x \<noteq> e) ?xs"
  have dist: "distinct ?xs" and mem: "e \<in> set ?xs" using tree p by (auto simp: tree_like_def)
  have po: "positions_ok env w" and sl: "slots_ok Q w" using ok by (simp_all add: caches_ok_def)
  obtain i m where im: "(case positions w p of None \<Rightarrow> (0, 0) | Some (d, i, n) \<Rightarrow> if d = dirruns w then (i, n) else (0, 0)) = (i, m)"
    by (cases "case positions w p of None \<Rightarrow> (0, 0) | Some (d, i, n) \<Rightarrow> if d = dirruns w then (i, n) else (0, 0)")
  let ?rest = "if i = 0 then [] else drop (Suc i) ?xs"
  have m: "m = length (filter ?el (take (Suc i) ?xs))" if "i \<noteq> 0"
    using im that po unfolding positions_ok_def by (auto split: option.splits if_splits)
  have found: "seek ?el e ?rest (Some ?xs) (Suc i) m = Some (length ?b, Suc (length (filter ?el ?b)))"
  proof (cases "e \<in> set ?rest")
    case True
    then have i: "i \<noteq> 0" "e \<in> set (drop (Suc i) ?xs)" by (auto split: if_splits)
    have "Suc i \<le> length ?xs" using i(2) by (cases "Suc i \<le> length ?xs") auto
    then show ?thesis
      using seek_found [where ok = ?el and i = "Suc i" and n = m and start = "Some ?xs", OF i(2) e]
        takeWhile_drop [OF i(2) dist] m [OF i(1)] i(1) by simp
  next
    case False
    from seek_absent [OF this] seek_found [where ok = ?el and i = 0 and n = 0 and start = None, OF mem e]
    show ?thesis by simp
  qed
  have res: "n = Suc (length (filter ?el ?b))" "w1 = w\<lparr>positions := (positions w)(p \<mapsto> (dirruns w, length ?b, n))\<rparr>"
    using run im found by (auto simp: nth_forward_def Let_def)
  have c: "counted env False e = ?el" by (simp add: counted_def fun_eq_iff)
  have "positions_ok env w1"
    using po takeWhile_nth [OF mem] e unfolding positions_ok_def res by auto
  moreover have "slots_ok Q w1" using sl by (simp add: slots_ok_def res)
  ultimately show ?thesis by (simp add: caches_ok_def nth_of_def c res later_def)
qed

lemma nth_other_ok:
  assumes tree: "tree_like env" and p: "parent_of env e = Some p" and e: "is_element env e"
    and run: "nth_other env False forward ofType p e w = (n, w1)"
  shows "n = nth_of env forward ofType p e \<and> w1 = w"
proof -
  have mem: "e \<in> set (if forward then kids env p else rev (kids env p))" using tree p by (auto simp: tree_like_def)
  have "counted env ofType e e" using e by (simp add: counted_def)
  from seek_noting_found [where ok = "counted env ofType e" and start = None and n = 0 and w = w, OF mem this] run show ?thesis
    by (simp add: nth_other_def nth_of_def Let_def)
qed

lemma in_cycle_iff: "in_cycle a b n \<longleftrightarrow> (\<exists>k. n = a * int k + b)"
proof
  assume c: "in_cycle a b n"
  show "\<exists>k. n = a * int k + b"
  proof (cases "n - b = a")
    case True
    then show ?thesis by (intro exI [of _ 1]) simp
  next
    case False
    with c have k: "a \<noteq> 0" "(n - b) mod a = 0" "(n - b) div a \<ge> 0" by (auto simp: in_cycle_def Let_def)
    then have "n - b = a * int (nat ((n - b) div a))" by (metis int_nat_eq mult.commute mult_div_mod_eq add.right_neutral)
    then show ?thesis by (intro exI [of _ "nat ((n - b) div a)"]) simp
  qed
next
  assume "\<exists>k. n = a * int k + b"
  then obtain k where "n = a * int k + b" ..
  then have "n - b = a * int k" by simp
  then show "in_cycle a b n" by (cases "a = 0") (auto simp: in_cycle_def Let_def)
qed

text \<open>A position from the end is kept at the elements; the others are safe.\<close>

definition safe_child :: "bool \<Rightarrow> child \<Rightarrow> bool" where
  "safe_child is_xml t \<longleftrightarrow> (case t of Edge _ _ \<Rightarrow> True | Nth forward ofType _ _ \<Rightarrow> forward \<or> ofType \<or> is_xml)"

lemma child_filter_ok:
  assumes tree: "tree_like env" and safe: "safe_child is_xml t"
  shows "computes env Q (is_element env) (child_filter env is_xml t) (is_child env t)"
  unfolding computes_def
proof (intro allI impI)
  fix e w b w1 assume e: "is_element env e" and ok: "caches_ok env Q w" and run: "child_filter env is_xml t e w = (b, w1)"
  show "b = is_child env t e \<and> caches_ok env Q w1 \<and> later w w1"
  proof (cases "parent_of env e")
    case None
    with run ok show ?thesis by (simp add: child_filter_def is_child_def later_refl)
  next
    case (Some p)
    show ?thesis
    proof (cases t)
      case (Edge g ofType)
      with run ok Some show ?thesis by (simp add: child_filter_def is_child_def later_refl)
    next
      case (Nth forward ofType a d)
      show ?thesis
      proof (cases "a = 1 \<and> d = 0")
        case True
        with run ok Some Nth show ?thesis by (auto simp: child_filter_def is_child_def later_refl)
      next
        case False
        let ?use = "\<not> is_xml \<and> \<not> ofType"
        obtain n w2 where n: "(if forward \<and> ?use then nth_forward env p e w else nth_other env ?use forward ofType p e w) = (n, w2)"
          by fastforce
        have r: "b = in_cycle a d (int n)" "w1 = w2" using run Some Nth False n by (auto simp: child_filter_def Let_def)
        have "n = nth_of env forward ofType p e \<and> caches_ok env Q w2 \<and> later w w2"
        proof (cases "forward \<and> ?use")
          case True
          with n nth_forward_ok [OF tree Some e ok, of n w2] show ?thesis by simp
        next
          case False
          have "\<not> ?use" using safe Nth False by (auto simp: safe_child_def)
          with n nth_other_ok [OF tree Some e, of forward ofType w n w2] ok later_refl show ?thesis by auto
        qed
        with r Some Nth show ?thesis by (simp add: is_child_def in_cycle_iff)
      qed
    qed
  qed
qed

section \<open>Compiled matchers\<close>

text \<open>The names a matcher caches under, with what an entry for a node says.\<close>

definition reaches :: "'n sdom \<Rightarrow> bool \<Rightarrow> combinator \<Rightarrow> ('n \<Rightarrow> bool) \<Rightarrow> 'n \<Rightarrow> bool" where
  "reaches env base r h x \<longleftrightarrow>
     h x \<or> list_ex h (tested (eligible env base r) (skipped env r) (visits env (cdir r) x))"

primrec sems :: "'n sdom \<Rightarrow> 'n query \<Rightarrow> 'n matcher \<Rightarrow> (nat \<times> ('n \<Rightarrow> bool)) list" where
  "sems env q (Test p) = []"
| "sems env q (Child t) = []"
| "sems env q (Comb n r m) = (n, reaches env False r (holds env q m)) # sems env q m"
| "sems env q (Every ms) = concat (map (sems env q) ms)"
| "sems env q (Reach leading n1 n2 r) = [(n1, reaches env True r (in_context q)), (n2, reaches env True r (in_context q))]"

primrec safe :: "bool \<Rightarrow> 'n matcher \<Rightarrow> bool" where
  "safe x (Test p) = True"
| "safe x (Child t) = safe_child x t"
| "safe x (Comb n r m) = safe x m"
| "safe x (Every ms) = list_all (safe x) ms"
| "safe x (Reach leading n1 n2 r) = True"

definition agrees :: "'n meaning \<Rightarrow> (nat \<times> ('n \<Rightarrow> bool)) list \<Rightarrow> bool" where
  "agrees Q L \<longleftrightarrow> (\<forall>n S. (n, S) \<in> set L \<longrightarrow> (\<forall>x d v. Q n x d v = (v = Some (S x))))"

lemma agreesD: "agrees Q L \<Longrightarrow> (n, S) \<in> set L \<Longrightarrow> Q n x d v = (v = Some (S x))"
  by (simp add: agrees_def)

lemma agrees_subset: "agrees Q L \<Longrightarrow> set M \<subseteq> set L \<Longrightarrow> agrees Q M"
  unfolding agrees_def by blast

lemma agrees_other:
  assumes "agrees Q L" and "\<And>n. n \<noteq> name \<Longrightarrow> Q1 n = Q n" and "name \<notin> fst ` set L"
  shows "agrees Q1 L"
  unfolding agrees_def
proof (intro allI impI)
  fix n S x d v assume m: "(n, S) \<in> set L"
  with assms(3) have "n \<noteq> name" by force
  from assms(2) [OF this] agreesD [OF assms(1) m] show "Q1 n x d v = (v = Some (S x))" by simp
qed

lemma every_ok:
  "list_all2 (computes env Q ok) fs hs \<Longrightarrow> computes env Q ok (every fs) (\<lambda>e. list_all (\<lambda>h. h e) hs)"
proof (induction fs hs rule: list_all2_induct)
  case Nil
  show ?case by (simp add: computes_def later_refl)
next
  case (Cons f fs h hs)
  show ?case
    unfolding computes_def
  proof (intro allI impI)
    fix e w b w1 assume e: "ok e" and c: "caches_ok env Q w" and run: "every (f # fs) e w = (b, w1)"
    obtain b2 w2 where r: "f e w = (b2, w2)" by (cases "f e w")
    note f2 = computesD [OF Cons(1) e c r]
    show "b = list_all (\<lambda>h. h e) (h # hs) \<and> caches_ok env Q w1 \<and> later w w1"
    proof (cases b2)
      case True
      with run r have "every fs e w2 = (b, w1)" by simp
      from computesD [OF Cons(3) e f2(2) this] f2 True later_trans [OF f2(3)] show ?thesis by simp
    next
      case False
      with run r f2 show ?thesis by auto
    qed
  qed
qed

lemma reach_ok:
  assumes tree: "tree_like env" and a: "agrees Q (sems env q (Reach leading n1 n2 r))"
  shows "computes env Q ok (reach env q leading n1 n2 r) (holds env q (Reach leading n1 n2 r))"
proof -
  have comb: "computes env Q ok (addCombinator env (xml q) n r True (\<lambda>x w. (in_context q x, w)))
      (related env (xml q) True r (in_context q))" if "n \<in> {n1, n2}" for n
  proof (rule addCombinator_ok [OF tree computes_pure])
    show "Q n x d v = (v = Some (reaches env True r (in_context q) x))" for x d v
      using agreesD [OF a] that by auto
  qed (simp add: reaches_def)
  show ?thesis
  proof (cases "\<not> leading \<and> (xml q \<or> \<not> outermost q)")
    case True
    then show ?thesis by (simp add: computes_def reach_def later_refl)
  next
    case False
    have "computes env Q ok (reach env q leading n1 n2 r) (related env (xml q) True r (in_context q))"
    proof (cases "context_of q")
      case (One_node c)
      then have "reach env q leading n1 n2 r = addCombinator env (xml q) n1 r True (\<lambda>x w. (in_context q x, w))"
        using False by (auto simp: reach_def in_context_def fun_eq_iff)
      with comb [of n1] show ?thesis by simp
    next
      case (Nodes cs)
      then have "reach env q leading n1 n2 r = addCombinator env (xml q) n2 r True (\<lambda>x w. (in_context q x, w))"
        using False by (auto simp: reach_def in_context_def fun_eq_iff)
      with comb [of n2] show ?thesis by simp
    qed
    moreover have "holds env q (Reach leading n1 n2 r) = related env (xml q) True r (in_context q)"
      using False by (auto simp: fun_eq_iff)
    ultimately show ?thesis by simp
  qed
qed

lemma run_matcher_ok:
  assumes tree: "tree_like env"
  shows "safe (xml q) m \<Longrightarrow> distinct (map fst (sems env q m)) \<Longrightarrow> agrees Q (sems env q m) \<Longrightarrow>
    computes env Q (is_element env) (run_matcher env q m) (holds env q m)"
proof (induction m arbitrary: Q)
  case (Test p)
  show ?case by (simp add: computes_def later_refl)
next
  case (Child t)
  then show ?case using child_filter_ok [OF tree] by simp
next
  case (Comb n r m)
  have el: "eligible env False r = is_element env" by (simp add: eligible_def checkNonElements_def fun_eq_iff)
  have "computes env Q (is_element env) (addCombinator env (xml q) n r False (run_matcher env q m))
      (related env (xml q) False r (holds env q m))"
  proof (rule addCombinator_ok [OF tree])
    fix Q1 :: "'a meaning" assume other: "\<And>k. k \<noteq> n \<Longrightarrow> Q1 k = Q k"
    have "agrees Q (sems env q m)" by (rule agrees_subset [OF Comb.prems(3)]) auto
    then have "agrees Q1 (sems env q m)"
      by (rule agrees_other [OF _ other]) (use Comb.prems(2) in auto)
    from Comb.IH [OF _ _ this] Comb.prems(1,2) show "computes env Q1 (eligible env False r) (run_matcher env q m) (holds env q m)"
      unfolding el by simp
  next
    show "Q n x d v = (v = Some (reaches env False r (holds env q m) x))" for x d v
      using agreesD [OF Comb.prems(3)] by simp
  qed (simp add: reaches_def)
  then show ?case by simp
next
  case (Every ms)
  have part: "computes env Q (is_element env) (run_matcher env q m) (holds env q m)" if m: "m \<in> set ms" for m
  proof (rule Every.IH [OF m])
    show "safe (xml q) m" using Every.prems(1) m by (simp add: list_all_iff)
    show "distinct (map fst (sems env q m))"
      using Every.prems(2) m by (auto simp: map_concat distinct_concat_iff)
    show "agrees Q (sems env q m)" by (rule agrees_subset [OF Every.prems(3)]) (use m in auto)
  qed
  have "list_all2 (computes env Q (is_element env)) (rev (map (run_matcher env q) ms)) (rev (map (holds env q) ms))"
    using part by (simp add: list_all2_rev list_all2_map1 list_all2_map2 list.rel_refl_strong)
  from every_ok [OF this] show ?case by (simp add: list_all_iff)
next
  case (Reach leading n1 n2 r)
  from reach_ok [OF tree Reach.prems(3)] show ?case by simp
qed

section \<open>Runs over elements\<close>

text \<open>Stamps are never of a later run, so no entry counts when a run starts, even if the document has changed.\<close>

definition bounded :: "'n sworld \<Rightarrow> bool" where
  "bounded w \<longleftrightarrow> (\<forall>x k c. slots w x k = Some c \<longrightarrow> c < next_cell w) \<and> (\<forall>c. c < next_cell w \<longrightarrow> fst (cells w c) \<le> dirruns w) \<and>
     (\<forall>p d i n. positions w p = Some (d, i, n) \<longrightarrow> d \<le> dirruns w)"

definition keeps_bounds :: "('n \<Rightarrow> 'n sworld \<Rightarrow> bool \<times> 'n sworld) \<Rightarrow> bool" where
  "keeps_bounds f \<longleftrightarrow> (\<forall>e w. bounded w \<longrightarrow> bounded (snd (f e w)) \<and> dirruns (snd (f e w)) = dirruns w \<and>
     next_cell w \<le> next_cell (snd (f e w)))"

lemma keeps_boundsD:
  assumes "keeps_bounds f" and "bounded w" and "f e w = (b, w1)"
  shows "bounded w1 \<and> dirruns w1 = dirruns w \<and> next_cell w \<le> next_cell w1"
  using assms unfolding keeps_bounds_def by (metis snd_conv)

lemma bounded_result [simp]: "bounded (set_result c r w) = bounded w"
  by (auto simp: bounded_def set_result_def)

lemma bounded_slot: "bounded w \<Longrightarrow> c < next_cell w \<Longrightarrow> bounded (put_slot e k c w)"
  by (auto simp: bounded_def put_slot_def)

lemma bounded_new: "bounded w \<Longrightarrow> bounded (snd (new_cache name w))"
  by (fastforce simp: bounded_def new_cache_def less_Suc_eq)

lemma world_fields [simp]:
  "dirruns (set_result c r w) = dirruns w" "next_cell (set_result c r w) = next_cell w"
  "dirruns (put_slot e k c w) = dirruns w" "next_cell (put_slot e k c w) = next_cell w"
  by (simp_all add: set_result_def put_slot_def)

lemma first_walk_bounds:
  "keeps_bounds f \<Longrightarrow> bounded w \<Longrightarrow> first_walk ok f ys w = (b, w1) \<Longrightarrow>
    bounded w1 \<and> dirruns w1 = dirruns w \<and> next_cell w \<le> next_cell w1"
  by (induction ys) (auto split: if_splits dest: keeps_boundsD)

lemma plain_walk_bounds:
  assumes f: "keeps_bounds f"
  shows "bounded w \<Longrightarrow> plain_walk ok f ys w = (b, w1) \<Longrightarrow>
    bounded w1 \<and> dirruns w1 = dirruns w \<and> next_cell w \<le> next_cell w1"
proof (induction ys arbitrary: w)
  case (Cons y ys)
  show ?case
  proof (cases "ok y")
    case True
    obtain b2 w2 where r: "f y w = (b2, w2)" by (cases "f y w")
    note f2 = keeps_boundsD [OF f Cons.prems(1) r]
    show ?thesis
    proof (cases b2)
      case True
      with r \<open>ok y\<close> Cons.prems(2) f2 show ?thesis by simp
    next
      case False
      with r \<open>ok y\<close> Cons.prems(2) have "plain_walk ok f ys w2 = (b, w1)" by simp
      from Cons.IH [OF _ this] f2 show ?thesis by simp
    qed
  next
    case False
    with Cons show ?thesis by simp
  qed
qed simp

lemma cached_walk_bounds:
  assumes f: "keeps_bounds f"
  shows "bounded w \<Longrightarrow> c < next_cell w \<Longrightarrow> cached_walk ok skip k name c f ys w = (b, w1) \<Longrightarrow>
    bounded w1 \<and> dirruns w1 = dirruns w \<and> next_cell w \<le> next_cell w1"
proof (induction ys arbitrary: w rule: length_induct)
  case (1 ys)
  note IH = 1(1) [rule_format] and bd = 1(2) and c = 1(3) and run = 1(4)
  show ?case
  proof (cases ys)
    case Nil
    with run bd show ?thesis by simp
  next
    case (Cons y zs)
    show ?thesis
    proof (cases "ok y")
      case False
      with run Cons IH [of zs w, OF _ bd c] show ?thesis by simp
    next
      case oky: True
      show ?thesis
      proof (cases "skip y")
        case True
        with run Cons oky IH [of "tl zs" w, OF _ bd c] show ?thesis by simp
      next
        case False
        show ?thesis
        proof (cases "old_cache y k name w")
          case (Some r)
          with run Cons oky False bd show ?thesis by auto
        next
          case None
          obtain b2 w2 where r: "f y (put_slot y k c w) = (b2, w2)" by (cases "f y (put_slot y k c w)")
          have f2: "bounded w2" "dirruns w2 = dirruns w" "next_cell w \<le> next_cell w2"
            using keeps_boundsD [OF f bounded_slot [OF bd c] r] by simp_all
          show ?thesis
          proof (cases b2)
            case True
            with run Cons oky False None r f2 show ?thesis by auto
          next
            case nb: False
            with run Cons oky False None r have "cached_walk ok skip k name c f zs (set_result c (Some False) w2) = (b, w1)"
              by simp
            from IH [OF _ _ _ this] f2 c Cons show ?thesis by simp
          qed
        qed
      qed
    qed
  qed
qed

lemma addCombinator_bounds:
  assumes f: "keeps_bounds f"
  shows "keeps_bounds (addCombinator env x name r base f)"
  unfolding keeps_bounds_def
proof (intro allI impI)
  fix e :: 'a and w :: "'a sworld" assume bd: "bounded w"
  obtain b w1 where run: "addCombinator env x name r base f e w = (b, w1)" by (cases "addCombinator env x name r base f e w")
  obtain c w2 where c: "new_cache name w = (c, w2)" by (cases "new_cache name w")
  have w2: "bounded w2" "dirruns w2 = dirruns w" "c < next_cell w2" "next_cell w \<le> next_cell w2"
    using bounded_new [OF bd, of name] c by (auto simp: new_cache_def)
  have "bounded w1 \<and> dirruns w1 = dirruns w \<and> next_cell w \<le> next_cell w1"
    using run bd c w2 first_walk_bounds [OF f bd] plain_walk_bounds [OF f bd] cached_walk_bounds [OF f w2(1) w2(3)]
    unfolding addCombinator_def Let_def by (auto split: if_splits) (metis le_trans)+
  with run show "bounded (snd (addCombinator env x name r base f e w)) \<and>
      dirruns (snd (addCombinator env x name r base f e w)) = dirruns w \<and>
      next_cell w \<le> next_cell (snd (addCombinator env x name r base f e w))" by simp
qed

lemma put_count_bounds [simp]:
  "bounded (put_count e d w) = bounded w" "dirruns (put_count e d w) = dirruns w" "next_cell (put_count e d w) = next_cell w"
  by (simp_all add: put_count_def bounded_def)

lemma seek_noting_bounds:
  "bounded w \<Longrightarrow> bounded (snd (seek_noting ok u e ys start n w)) \<and>
    dirruns (snd (seek_noting ok u e ys start n w)) = dirruns w \<and>
    next_cell (snd (seek_noting ok u e ys start n w)) = next_cell w"
  by (induction ok u e ys start n w rule: seek_noting.induct) (auto simp: Let_def)

lemma child_filter_bounds: "keeps_bounds (child_filter env x t)"
  unfolding keeps_bounds_def
proof (intro allI impI)
  fix e :: 'a and w :: "'a sworld" assume bd: "bounded w"
  have fw: "bounded (snd (nth_forward env p e w)) \<and> dirruns (snd (nth_forward env p e w)) = dirruns w \<and>
      next_cell w \<le> next_cell (snd (nth_forward env p e w))" for p
    using bd by (auto simp: nth_forward_def Let_def bounded_def split: prod.splits option.splits)
  have ot: "bounded (snd (nth_other env u fwd ofType p e w)) \<and> dirruns (snd (nth_other env u fwd ofType p e w)) = dirruns w \<and>
      next_cell w \<le> next_cell (snd (nth_other env u fwd ofType p e w))" for p u fwd ofType
    using bd by (auto simp: nth_other_def Let_def seek_noting_bounds split: prod.splits option.splits)
  show "bounded (snd (child_filter env x t e w)) \<and> dirruns (snd (child_filter env x t e w)) = dirruns w \<and>
      next_cell w \<le> next_cell (snd (child_filter env x t e w))"
    using bd fw ot unfolding child_filter_def Let_def
    by (simp split: option.split child.split prod.split) (metis snd_conv)
qed

lemma every_bounds: "list_all keeps_bounds fs \<Longrightarrow> keeps_bounds (every fs)"
proof (induction fs)
  case (Cons f fs)
  show ?case
    unfolding keeps_bounds_def
  proof (intro allI impI)
    fix e :: 'a and w :: "'a sworld" assume bd: "bounded w"
    obtain b w1 where r: "f e w = (b, w1)" by (cases "f e w")
    have f1: "bounded w1 \<and> dirruns w1 = dirruns w \<and> next_cell w \<le> next_cell w1"
      using keeps_boundsD [of f w e b w1] bd r Cons.prems by simp
    obtain b2 w2 where r2: "every fs e w1 = (b2, w2)" by (cases "every fs e w1")
    have "bounded w2 \<and> dirruns w2 = dirruns w1 \<and> next_cell w1 \<le> next_cell w2"
      using keeps_boundsD [of "every fs" w1 e b2 w2] r2 Cons f1 by simp
    with f1 r r2 show "bounded (snd (every (f # fs) e w)) \<and> dirruns (snd (every (f # fs) e w)) = dirruns w \<and>
        next_cell w \<le> next_cell (snd (every (f # fs) e w))" by simp
  qed
qed (simp add: keeps_bounds_def)

lemma pure_bounds: "keeps_bounds (\<lambda>e w. (p e, w))"
  by (simp add: keeps_bounds_def)

lemma run_matcher_bounds: "keeps_bounds (run_matcher env q m)"
proof (induction m)
  case (Test p)
  show ?case using pure_bounds [of p] by simp
next
  case (Child t)
  show ?case using child_filter_bounds by simp
next
  case (Comb n r m)
  then show ?case using addCombinator_bounds by simp
next
  case (Every ms)
  then have "list_all keeps_bounds (rev (map (run_matcher env q) ms))" by (simp add: list_all_iff)
  from every_bounds [OF this] show ?case by simp
next
  case (Reach leading n1 n2 r)
  have n1: "keeps_bounds (addCombinator env (xml q) n1 r True (\<lambda>x w. (x = c, w)))" for c
    by (rule addCombinator_bounds [OF pure_bounds])
  have n2: "keeps_bounds (addCombinator env (xml q) n2 r True (\<lambda>x w. (x \<in> set cs, w)))" for cs
    by (rule addCombinator_bounds [OF pure_bounds])
  have "keeps_bounds (reach env q leading n1 n2 r)"
  proof (cases "\<not> leading \<and> (xml q \<or> \<not> outermost q)")
    case True
    then have "reach env q leading n1 n2 r = (\<lambda>e w. (True, w))" by (simp add: reach_def fun_eq_iff)
    with pure_bounds [of "\<lambda>_. True"] show ?thesis by simp
  next
    case False
    show ?thesis
    proof (cases "context_of q")
      case (One_node c)
      with False have "reach env q leading n1 n2 r = addCombinator env (xml q) n1 r True (\<lambda>x w. (x = c, w))"
        by (auto simp: reach_def fun_eq_iff)
      with n1 show ?thesis by simp
    next
      case (Nodes cs)
      with False have "reach env q leading n1 n2 r = addCombinator env (xml q) n2 r True (\<lambda>x w. (x \<in> set cs, w))"
        by (auto simp: reach_def fun_eq_iff)
      with n2 show ?thesis by simp
    qed
  qed
  then show ?case by simp
qed

lemma some_matcher_bounds: "keeps_bounds (some_matcher env q ms)"
proof (induction ms)
  case (Cons m ms)
  show ?case
    unfolding keeps_bounds_def
  proof (intro allI impI)
    fix e :: 'a and w :: "'a sworld" assume bd: "bounded w"
    obtain b w1 where r: "run_matcher env q m e w = (b, w1)" by (cases "run_matcher env q m e w")
    note f1 = keeps_boundsD [OF run_matcher_bounds bd r]
    obtain b2 w2 where r2: "some_matcher env q ms e w1 = (b2, w2)" by (cases "some_matcher env q ms e w1")
    have "bounded w2 \<and> dirruns w2 = dirruns w1 \<and> next_cell w1 \<le> next_cell w2"
      using keeps_boundsD [of "some_matcher env q ms" w1 e b2 w2] Cons r2 f1 by simp
    with f1 r r2 show "bounded (snd (some_matcher env q (m # ms) e w)) \<and>
        dirruns (snd (some_matcher env q (m # ms) e w)) = dirruns w \<and>
        next_cell w \<le> next_cell (snd (some_matcher env q (m # ms) e w))" by simp
  qed
qed (simp add: keeps_bounds_def)

lemma over_elements_bounds:
  "bounded w \<Longrightarrow> dirruns w = runs1 \<Longrightarrow> bounded (snd (over_elements env q ms runs1 es w))"
proof (induction es arbitrary: w)
  case (Cons e es)
  obtain b w1 where r: "some_matcher env q ms e w = (b, w1)" by (cases "some_matcher env q ms e w")
  note f1 = keeps_boundsD [OF some_matcher_bounds Cons.prems(1) r]
  have same: "w1\<lparr>dirruns := runs1\<rparr> = w1" using f1 Cons.prems(2) by simp
  obtain res w2 where r2: "over_elements env q ms runs1 es w1 = (res, w2)" by (cases "over_elements env q ms runs1 es w1")
  from Cons.IH [of w1] f1 Cons.prems(2) r2 have "bounded w2" by simp
  then show ?case by (simp add: r same r2)
qed simp

section \<open>Selectors\<close>

text \<open>What one token asks of an element, and what a selector asks: the tokens are read from the right.\<close>

fun accepts :: "'n sdom \<Rightarrow> token \<Rightarrow> 'n \<Rightarrow> bool" where
  "accepts env (TAG n) e = tag_filter env n e"
| "accepts env (ID i) e = id_filter env i e"
| "accepts env (CLASS c) e = class_filter env c e"
| "accepts env (ATTR n operator v) e = attr_filter env n operator v e"
| "accepts env (CHILD c) e = is_child env c e"
| "accepts env (PSEUDO n a) e = pseudo env n a e"
| "accepts env (Relative r) e = False"

fun selects :: "'n sdom \<Rightarrow> 'n query \<Rightarrow> token list \<Rightarrow> 'n \<Rightarrow> bool" where
  "selects env q [] e \<longleftrightarrow> xml q \<or> \<not> outermost q \<or> related env (xml q) True descendant (in_context q) e"
| "selects env q [Relative r] e \<longleftrightarrow> related env (xml q) True r (in_context q) e"
| "selects env q (Relative r # ts) e \<longleftrightarrow> related env (xml q) False r (selects env q ts) e"
| "selects env q (t # ts) e \<longleftrightarrow> accepts env t e \<and> selects env q ts e"

definition safe_token :: "bool \<Rightarrow> token \<Rightarrow> bool" where
  "safe_token x t \<longleftrightarrow> (case t of CHILD c \<Rightarrow> safe_child x c | _ \<Rightarrow> True)"

text \<open>A list of matchers that stands for some tokens, with names from a range.\<close>

definition all_hold :: "'n sdom \<Rightarrow> 'n query \<Rightarrow> 'n matcher list \<Rightarrow> 'n \<Rightarrow> bool" where
  "all_hold env q ms e \<longleftrightarrow> list_all (\<lambda>m. holds env q m e) ms"

definition sems_all :: "'n sdom \<Rightarrow> 'n query \<Rightarrow> 'n matcher list \<Rightarrow> (nat \<times> ('n \<Rightarrow> bool)) list" where
  "sems_all env q ms = concat (map (sems env q) ms)"

definition well_named :: "'n sdom \<Rightarrow> 'n query \<Rightarrow> nat \<Rightarrow> nat \<Rightarrow> 'n matcher list \<Rightarrow> bool" where
  "well_named env q lo hi ms \<longleftrightarrow> lo \<le> hi \<and> distinct (map fst (sems_all env q ms)) \<and>
     fst ` set (sems_all env q ms) \<subseteq> {lo..<hi} \<and> list_all (safe (xml q)) ms"

lemma elementMatcher_holds: "ms \<noteq> [] \<Longrightarrow> holds env q (elementMatcher ms) e = all_hold env q ms e"
  by (cases ms) (auto simp: elementMatcher_def all_hold_def list_all_iff)

lemma elementMatcher_sems: "ms \<noteq> [] \<Longrightarrow> sems env q (elementMatcher ms) = sems_all env q ms"
  by (cases ms) (auto simp: elementMatcher_def sems_all_def)

lemma elementMatcher_named:
  assumes "ms \<noteq> []" and "well_named env q lo hi ms"
  shows "well_named env q lo hi [elementMatcher ms]"
proof -
  have "sems_all env q [elementMatcher ms] = sems_all env q ms"
    using elementMatcher_sems [OF assms(1), of env q] by (simp add: sems_all_def)
  moreover have "safe (xml q) (elementMatcher ms)"
    using assms by (cases ms) (auto simp: elementMatcher_def well_named_def)
  ultimately show ?thesis using assms(2) by (simp add: well_named_def)
qed

lemma expr_filter_holds: "\<not> (\<exists>r. t = Relative r) \<Longrightarrow> holds env q (expr_filter env t) e = accepts env t e"
  by (cases t) (simp_all add: expr_filter_def)

lemma expr_filter_sems: "sems env q (expr_filter env t) = []"
  by (cases t) (simp_all add: expr_filter_def)

lemma expr_filter_safe: "safe_token x t \<Longrightarrow> safe x (expr_filter env t)"
  by (cases t) (simp_all add: expr_filter_def safe_token_def)

lemma from_tokens_ok:
  assumes "ms \<noteq> []" and "well_named env q lo d ms" and "\<forall>t \<in> set ts. safe_token (xml q) t"
    and "\<And>e. all_hold env q ms e = selects env q pre e" and "pre = [] \<Longrightarrow> \<not> (\<exists>r ts1. ts = Relative r # ts1)"
    and "from_tokens env ms ts d = (ms1, d1)"
  shows "ms1 \<noteq> [] \<and> well_named env q lo d1 ms1 \<and> (\<forall>e. all_hold env q ms1 e = selects env q (rev ts @ pre) e)"
  using assms
proof (induction ts arbitrary: ms d pre)
  case (Cons t ts)
  show ?case
  proof (cases "\<exists>r. t = Relative r")
    case True
    then obtain r where t: "t = Relative r" ..
    let ?m = "Comb d r (elementMatcher ms)"
    have pre: "pre \<noteq> []" using Cons.prems(5) t by blast
    have "holds env q (elementMatcher ms) = selects env q pre"
      using elementMatcher_holds [OF Cons.prems(1)] Cons.prems(4) by (simp add: fun_eq_iff)
    then have h: "all_hold env q [?m] e = selects env q (t # pre) e" for e
      using pre t by (cases pre) (simp_all add: all_hold_def)
    have s: "sems_all env q [?m] = (d, reaches env False r (holds env q (elementMatcher ms))) # sems_all env q ms"
      using elementMatcher_sems [OF Cons.prems(1), of env q] by (simp add: sems_all_def)
    have "well_named env q lo (Suc d) [?m]"
      using Cons.prems(2) elementMatcher_named [OF Cons.prems(1,2)] unfolding well_named_def s
      by (auto simp: less_Suc_eq)
    from Cons.IH [OF _ this _ h] Cons.prems t show ?thesis by simp
  next
    case False
    let ?ms = "ms @ [expr_filter env t]"
    have "from_tokens env ms (t # ts) d = from_tokens env ?ms ts d"
      using False by (cases t) simp_all
    with Cons.prems(6) have run: "from_tokens env ?ms ts d = (ms1, d1)" by simp
    have h: "all_hold env q ?ms e = selects env q (t # pre) e" for e
      using Cons.prems(4) [of e] expr_filter_holds [OF False, of env q e] False
      by (cases t) (auto simp: all_hold_def)
    have "well_named env q lo d ?ms"
      using Cons.prems(2,3) expr_filter_sems [of env q t] expr_filter_safe [of "xml q" t env]
      by (simp add: well_named_def sems_all_def)
    from Cons.IH [OF _ this _ h _ run] Cons.prems(3) show ?thesis by simp
  qed
qed simp

lemma matcherFromTokens_ok:
  assumes "\<forall>t \<in> set ts. safe_token (xml q) t" and "matcherFromTokens env ts d = (m, d1)"
  shows "well_named env q d d1 [m] \<and> (\<forall>e. holds env q m e = selects env q (rev ts) e)"
proof -
  obtain leading r ts1 pre where split: "(case ts of Relative r # ts \<Rightarrow> (True, r, ts) | _ \<Rightarrow> (False, descendant, ts)) = (leading, r, ts1)"
    and pre: "ts = rev pre @ ts1" "pre = (if leading then [Relative r] else [])" "\<not> leading \<Longrightarrow> r = descendant"
      "pre = [] \<Longrightarrow> \<not> (\<exists>r ts2. ts1 = Relative r # ts2)"
    by (cases ts; cases "hd ts") auto
  let ?m = "Reach leading d (Suc d) r"
  obtain ms d2 where run: "from_tokens env [?m] ts1 (d + 2) = (ms, d2)" by (cases "from_tokens env [?m] ts1 (d + 2)")
  have m: "m = elementMatcher ms" "d1 = d2" using assms(2) split run by (auto simp: matcherFromTokens_def)
  have h: "all_hold env q [?m] e = selects env q pre e" for e
    using pre(2,3) by (auto simp: all_hold_def)
  have n: "well_named env q d (d + 2) [?m]" by (simp add: well_named_def sems_all_def)
  from from_tokens_ok [OF _ n _ h pre(4) run] assms(1) pre(1)
  have "ms \<noteq> [] \<and> well_named env q d d2 ms \<and> (\<forall>e. all_hold env q ms e = selects env q (rev ts) e)" by simp
  with elementMatcher_named [of ms env q d d2] elementMatcher_holds [of ms env q] m show ?thesis by simp
qed

lemma well_named_Cons:
  assumes "well_named env q lo mid [m]" and "well_named env q mid hi ms"
  shows "well_named env q lo hi (m # ms)"
proof -
  have "sems_all env q (m # ms) = sems_all env q [m] @ sems_all env q ms" by (simp add: sems_all_def)
  moreover have "fst ` set (sems_all env q [m]) \<inter> fst ` set (sems_all env q ms) = {}"
    using assms unfolding well_named_def by fastforce
  moreover have "fst ` set (sems_all env q [m]) \<subseteq> {lo..<hi}" "fst ` set (sems_all env q ms) \<subseteq> {lo..<hi}"
    using assms unfolding well_named_def by fastforce+
  ultimately show ?thesis using assms by (simp add: well_named_def image_Un)
qed

lemma compile_all_ok:
  assumes "\<forall>ts \<in> set tss. \<forall>t \<in> set ts. safe_token (xml q) t" and "compile_all env tss d = (ms, d1)"
  shows "well_named env q d d1 ms \<and> (\<forall>e. list_ex (\<lambda>m. holds env q m e) ms = (\<exists>ts \<in> set tss. selects env q (rev ts) e))"
  using assms
proof (induction tss arbitrary: d ms)
  case Nil
  then show ?case by (simp add: well_named_def sems_all_def)
next
  case (Cons ts tss)
  obtain m d2 where m: "matcherFromTokens env ts d = (m, d2)" by (cases "matcherFromTokens env ts d")
  obtain ms2 d3 where ms: "compile_all env tss d2 = (ms2, d3)" by (cases "compile_all env tss d2")
  have r: "ms = m # ms2" "d1 = d3" using Cons.prems(2) m ms by auto
  have 1: "well_named env q d d2 [m]" "\<forall>e. holds env q m e = selects env q (rev ts) e"
    using matcherFromTokens_ok [OF _ m, of q] Cons.prems(1) by simp_all
  have 2: "well_named env q d2 d3 ms2" "\<forall>e. list_ex (\<lambda>m. holds env q m e) ms2 = (\<exists>ts \<in> set tss. selects env q (rev ts) e)"
    using Cons.IH [OF _ ms [unfolded r(2) [symmetric]]] Cons.prems(1) r(2) by simp_all
  have "well_named env q d d3 (m # ms2)"
    by (rule well_named_Cons [OF 1(1) 2(1)])
  with 1(2) 2(2) r show ?case by simp
qed

section \<open>Queries\<close>

lemma some_matcher_ok:
  assumes "\<forall>m \<in> set ms. computes env Q ok (run_matcher env q m) (holds env q m)"
  shows "computes env Q ok (some_matcher env q ms) (\<lambda>e. list_ex (\<lambda>m. holds env q m e) ms)"
  using assms
proof (induction ms)
  case (Cons m ms)
  show ?case
    unfolding computes_def
  proof (intro allI impI)
    fix e w b w1 assume e: "ok e" and c: "caches_ok env Q w" and run: "some_matcher env q (m # ms) e w = (b, w1)"
    obtain b2 w2 where r: "run_matcher env q m e w = (b2, w2)" by (cases "run_matcher env q m e w")
    have m: "computes env Q ok (run_matcher env q m) (holds env q m)" using Cons.prems by simp
    note f2 = computesD [OF m e c r]
    show "b = list_ex (\<lambda>m. holds env q m e) (m # ms) \<and> caches_ok env Q w1 \<and> later w w1"
    proof (cases b2)
      case True
      with run r f2 show ?thesis by auto
    next
      case False
      with run r have "some_matcher env q ms e w2 = (b, w1)" by simp
      from computesD [OF Cons.IH e f2(2) this] Cons.prems f2 False later_trans [OF f2(3)] show ?thesis by simp
    qed
  qed
qed (simp add: computes_def later_refl)

lemma over_elements_ok:
  assumes c: "computes env Q ok (some_matcher env q ms) h"
  shows "caches_ok env Q w \<Longrightarrow> dirruns w = runs1 \<Longrightarrow> \<forall>e \<in> set es. ok e \<Longrightarrow>
    fst (over_elements env q ms runs1 es w) = filter h es"
proof (induction es arbitrary: w)
  case (Cons e es)
  obtain b w1 where r: "some_matcher env q ms e w = (b, w1)" by (cases "some_matcher env q ms e w")
  note f1 = computesD [OF c _ Cons.prems(1) r]
  have same: "w1\<lparr>dirruns := runs1\<rparr> = w1" using f1 Cons.prems(2,3) by (simp add: later_def)
  obtain res w2 where r2: "over_elements env q ms runs1 es w1 = (res, w2)" by (cases "over_elements env q ms runs1 es w1")
  have "dirruns w1 = runs1" using f1(3) Cons.prems(2,3) by (simp add: later_def)
  with Cons.IH [of w1] f1 Cons.prems r2 have "res = filter h es" by simp
  with f1 Cons.prems(3) show ?case by (simp add: r same r2)
qed simp

text \<open>One query: a list of selectors is compiled and run over some elements.\<close>

definition query_of :: "'n \<Rightarrow> bool \<Rightarrow> 'n option \<Rightarrow> 'n query" where
  "query_of doc is_xml ctx = \<lparr>context_of = One_node (case ctx of None \<Rightarrow> doc | Some c \<Rightarrow> c),
     outermost = (ctx \<noteq> None \<and> ctx \<noteq> Some doc), xml = is_xml\<rparr>"

definition ask :: "'n sdom \<Rightarrow> 'n \<Rightarrow> bool \<Rightarrow> token list list \<Rightarrow> 'n list \<Rightarrow> 'n option \<Rightarrow> 'n sworld \<Rightarrow> 'n list \<times> 'n sworld" where
  "ask env doc is_xml tss seeds ctx w =
     (case compile env tss w of (ms, w1) \<Rightarrow> superMatcher env doc is_xml ms seeds ctx w1)"

inductive asked :: "'n sworld \<Rightarrow> 'n sworld \<Rightarrow> bool" where
  "ask env doc is_xml tss seeds ctx w = (res, w1) \<Longrightarrow> asked w w1"

lemma bounded_next_run: "bounded w \<Longrightarrow> bounded (w\<lparr>dirruns := Suc (dirruns w)\<rparr>)"
  by (auto simp: bounded_def le_SucI)

lemma ask_bounded:
  assumes "bounded w" and "ask env doc is_xml tss seeds ctx w = (res, w1)"
  shows "bounded w1"
proof -
  obtain ms d where c: "compile_all env (rev tss) (finished w) = (ms, d)" by (cases "compile_all env (rev tss) (finished w)")
  let ?w = "w\<lparr>finished := d\<rparr>"
  have "bounded ?w" using assms(1) by (simp add: bounded_def)
  from over_elements_bounds [OF bounded_next_run [OF this], of _ env "query_of doc is_xml ctx" ms seeds] assms(2) c show ?thesis
    by (simp add: ask_def compile_def superMatcher_def query_of_def Let_def)
qed

lemma no_queries_bounded: "bounded no_queries"
  by (simp add: bounded_def no_queries_def)

interpretation queries: machine "\<lambda>w. w = no_queries" asked bounded
  by unfold_locales (auto simp: no_queries_bounded elim!: asked.cases intro: ask_bounded)

text \<open>At the start of a run nothing is cached for it.\<close>

lemma caches_start:
  assumes "bounded w"
  shows "caches_ok env Q (w\<lparr>dirruns := Suc (dirruns w)\<rparr>)"
proof -
  have s: "c < next_cell w \<and> fst (cells w c) \<le> dirruns w" if "slots w x k = Some c" for x k c
    using assms that unfolding bounded_def by blast
  have "slots_ok Q (w\<lparr>dirruns := Suc (dirruns w)\<rparr>)"
    by (rule slots_okI) (use s in \<open>fastforce\<close>)+
  moreover have "positions_ok env (w\<lparr>dirruns := Suc (dirruns w)\<rparr>)"
    using assms by (fastforce simp: positions_ok_def bounded_def)
  ultimately show ?thesis by (simp add: caches_ok_def)
qed

lemma ask_selects:
  assumes "reachable (\<lambda>w. w = no_queries) asked w" and "tree_like env"
    and "\<forall>ts \<in> set tss. \<forall>t \<in> set ts. safe_token is_xml t" and "\<forall>e \<in> set seeds. is_element env e"
  shows "fst (ask env doc is_xml tss seeds ctx w) =
    filter (\<lambda>e. \<exists>ts \<in> set tss. selects env (query_of doc is_xml ctx) (rev ts) e) seeds"
proof -
  let ?q = "query_of doc is_xml ctx"
  have x: "xml ?q = is_xml" by (simp add: query_of_def)
  obtain ms d where c: "compile_all env (rev tss) (finished w) = (ms, d)" by (cases "compile_all env (rev tss) (finished w)")
  have ms: "well_named env ?q (finished w) d ms"
    "\<forall>e. list_ex (\<lambda>m. holds env ?q m e) ms = (\<exists>ts \<in> set tss. selects env ?q (rev ts) e)"
    using compile_all_ok [OF _ c, of ?q] assms(3) x by simp_all
  define Q :: "'a meaning" where "Q n x c v \<longleftrightarrow> (\<forall>S. (n, S) \<in> set (sems_all env ?q ms) \<longrightarrow> v = Some (S x))" for n x c v
  have Q: "agrees Q (sems_all env ?q ms)"
    unfolding agrees_def
  proof (intro allI impI)
    fix n S x c v assume m: "(n, S) \<in> set (sems_all env ?q ms)"
    have "T = S" if "(n, T) \<in> set (sems_all env ?q ms)" for T
      using ms(1) m that eq_key_imp_eq_value unfolding well_named_def by metis
    with m show "Q n x c v = (v = Some (S x))" unfolding Q_def by blast
  qed
  have "computes env Q (is_element env) (run_matcher env ?q m) (holds env ?q m)" if m: "m \<in> set ms" for m
  proof (rule run_matcher_ok [OF assms(2)])
    show "safe (xml ?q) m" using ms(1) m by (simp add: well_named_def list_all_iff)
    show "distinct (map fst (sems env ?q m))"
      using ms(1) m by (auto simp: well_named_def sems_all_def map_concat distinct_concat_iff)
    show "agrees Q (sems env ?q m)" by (rule agrees_subset [OF Q]) (use m in \<open>auto simp: sems_all_def\<close>)
  qed
  then have comp: "computes env Q (is_element env) (some_matcher env ?q ms) (\<lambda>e. list_ex (\<lambda>m. holds env ?q m e) ms)"
    by (intro some_matcher_ok) simp
  have b: "bounded (w\<lparr>finished := d\<rparr>)" using queries.always [OF assms(1)] by (simp add: bounded_def)
  from over_elements_ok [OF comp caches_start [OF b], of "Suc (dirruns w)" seeds] assms(4) ms(2) c show ?thesis
    by (simp add: ask_def compile_def superMatcher_def query_of_def Let_def)
qed

text \<open>
  C12. Whatever queries ran before, on whatever states of the document, a list of selectors takes exactly the elements
  that one of its selectors accepts, read from the right over the document: the caches that a run shares between elements and
  combinators never change a result.  Positions from the end are the exception, and left out here.
\<close>

theorem queries_select:
  assumes "reachable (\<lambda>w. w = no_queries) asked w" and "tree_like env"
    and "\<forall>ts \<in> set tss. \<forall>t \<in> set ts. safe_token is_xml t" and "\<forall>e \<in> set seeds. is_element env e"
  shows "fst (ask env doc is_xml tss seeds ctx w) =
    filter (\<lambda>e. \<exists>ts \<in> set tss. selects env (query_of doc is_xml ctx) (rev ts) e) seeds"
  by (rule ask_selects [OF assms])

lemma is_child_code [code]:
  "is_child env t e = (case parent_of env e of None \<Rightarrow> False | Some p \<Rightarrow>
     (case t of
        Edge g ofType \<Rightarrow> edge_filter env g ofType e
      | Nth forward ofType first lst \<Rightarrow> in_cycle first lst (int (nth_of env forward ofType p e))))"
  by (simp add: is_child_def in_cycle_iff split: option.split child.split)

text \<open>A list of four items in a document, with the list as the context.\<close>

definition sample_doc :: "nat sdom" where
  "sample_doc = \<lparr>visits = (\<lambda>d x. case d of
       ParentNode \<Rightarrow> if x = 1 then [0] else if x \<in> {2, 3, 4, 5} then [1, 0] else []
     | PreviousSibling \<Rightarrow> if x \<in> {2, 3, 4, 5} then rev [2..<x] else []
     | NextSibling \<Rightarrow> if x \<in> {2, 3, 4, 5} then [Suc x..<6] else []),
     kind_of = (\<lambda>x. if x = 0 then 9 else 1), lower_name = (\<lambda>x. if x = 1 then js ''ul'' else js ''li''),
     kids = (\<lambda>x. if x = 0 then [1] else if x = 1 then [2, 3, 4, 5] else []),
     attribute = \<lambda>_ _. None, class_text = \<lambda>_. [], pseudo = \<lambda>_ _ _. False\<rparr>"

lemma sample_tree: "tree_like sample_doc"
  unfolding tree_like_def
proof (intro conjI allI impI)
  fix d :: direction and x y ys assume v: "visits sample_doc d x = y # ys"
  have "x = 1 \<or> x = 2 \<or> x = 3 \<or> x = 4 \<or> x = 5"
    using v by (auto simp: sample_doc_def split: direction.splits if_splits)
  with v show "visits sample_doc d y = ys"
    by (cases d) (auto simp: sample_doc_def upt_rec)
qed (auto simp: sample_doc_def parent_of_def split: if_splits)

definition next_item :: "token list" where
  "next_item = [TAG (js ''ul''), Relative descendant, TAG (js ''li''),
     Relative \<lparr>cdir = PreviousSibling, cfirst = True, cnext = None\<rparr>, TAG (js ''li'')]"

theorem queries_select_witness:
  "\<exists>w. asked no_queries w \<and> fst (ask sample_doc 0 False [next_item] [1, 2, 3, 4, 5] None w) = [3, 4, 5]"
proof -
  obtain res w where a: "ask sample_doc 0 False [next_item] [5] None no_queries = (res, w)"
    by (cases "ask sample_doc 0 False [next_item] [5] None no_queries")
  then have s: "asked no_queries w" by (rule asked.intros)
  have r: "reachable (\<lambda>w. w = no_queries) asked w"
    by (rule reachable.event [where s = no_queries], rule reachable.start, rule refl, rule s)
  have f: "filter (\<lambda>e. \<exists>ts \<in> set [next_item]. selects sample_doc (query_of 0 False None) (rev ts) e) [1, 2, 3, 4, 5] = [3, 4, 5]"
    by code_simp
  have t: "\<forall>ts \<in> set [next_item]. \<forall>t \<in> set ts. safe_token False t"
    by (simp add: next_item_def safe_token_def)
  have e: "\<forall>e \<in> set [1, 2, 3, 4, 5]. is_element sample_doc e"
    by (simp add: is_element_def sample_doc_def)
  have "fst (ask sample_doc 0 False [next_item] [1, 2, 3, 4, 5] None w) = [3, 4, 5]"
    by (rule trans [OF queries_select [OF r sample_tree t e] f])
  with s show ?thesis by blast
qed

section \<open>Positions from the end\<close>

text \<open>
  C36. The numbers that \<open>:nth-last-child\<close> keeps at elements are wrong after it was asked of a later sibling: the loop
  starts at the sibling before the element and notes numbers counted from there.  So of two items asked in
  reverse order both are the last but one.
\<close>

theorem nth_last_child_misled:
  assumes "kids env p = [a, b, c, d]" and "distinct [a, b, c, d]" and "\<forall>x \<in> {a, b, c, d}. is_element env x"
    and "parent_of env a = Some p" and "parent_of env c = Some p" and "visits env PreviousSibling c = [b, a]"
  shows "fst (ask env doc False [[CHILD (Nth False False 0 2)]] [c, a] None no_queries) = [c, a] \<and>
    is_child env (Nth False False 0 2) c \<and> \<not> is_child env (Nth False False 0 2) a"
proof -
  have n: "counted env False x = is_element env" for x by (simp add: counted_def fun_eq_iff)
  have "fst (ask env doc False [[CHILD (Nth False False 0 2)]] [c, a] None no_queries) = [c, a]"
    using assms not_sym [of c d]
    by (simp add: ask_def compile_def no_queries_def matcherFromTokens_def expr_filter_def elementMatcher_def
        superMatcher_def Let_def reach_def child_filter_def nth_other_def n put_count_def in_cycle_def)
  moreover have "is_child env (Nth False False 0 2) c" "\<not> is_child env (Nth False False 0 2) a"
    using assms by (auto simp: is_child_def nth_of_def n)
  ultimately show ?thesis by blast
qed

theorem nth_last_child_misled_witness:
  "fst (ask sample_doc 0 False [[CHILD (Nth False False 0 2)]] [4, 2] None no_queries) = [4, 2]"
proof -
  have h: "kids sample_doc 1 = [2, 3, 4, 5]" "distinct [2, 3, 4, 5 :: nat]" "\<forall>x \<in> {2, 3, 4, 5}. is_element sample_doc x"
    "parent_of sample_doc 2 = Some 1" "parent_of sample_doc 4 = Some 1" "visits sample_doc PreviousSibling 4 = [3, 2]"
    by (simp_all add: sample_doc_def is_element_def parent_of_def upt_rec)
  from nth_last_child_misled [OF h, of 0] show ?thesis by simp
qed

end
