(* ===== verification/JqTokens.thy ===== *)
theory JqTokens
  imports JqCssText
begin

text \<open>
  \<open>html/jquery-3.6.1.js\<close>, reading selectors: \<open>tokenize\<close> with its cache, and the \<open>preFilter\<close>s of \<open>Expr\<close>.  The
  regular expressions are those of theory \<open>JqCssText\<close>.

  A run of \<open>tokenize\<close> takes fuel, one for each round and each nested run, so that \<open>None\<close> is a run that does not end;
  theory \<open>JqTokenLaws\<close> shows that the fuel given suffices.  A thrown error is \<open>Inl\<close> with its message.  Numbers of \<open>CHILD\<close> are
  unbounded.
\<close>

section \<open>Tokens\<close>

datatype targ = No_arg | Text jstr | Number int

record css_token =
  token_value :: jstr
  token_type :: jstr
  token_args :: "targ list"

type_synonym groups_read = "css_token list list"

text \<open>What a run that may throw, or not end, gives.\<close>

type_synonym 'a parse = "(jstr + 'a) option"

definition sizzle_error :: "jstr \<Rightarrow> jstr" where
  "sizzle_error msg = js ''Syntax error, unrecognized expression: '' @ msg"

definition targ_of :: "jstr option \<Rightarrow> targ" where
  "targ_of t = (case t of None \<Rightarrow> No_arg | Some s \<Rightarrow> Text s)"

text \<open>An undefined or an empty text.\<close>

definition falsy :: "jstr option \<Rightarrow> bool" where
  "falsy t \<longleftrightarrow> t = None \<or> t = Some []"

definition or_else :: "jstr option \<Rightarrow> jstr \<Rightarrow> jstr" where
  "or_else t d = (case t of None \<Rightarrow> d | Some s \<Rightarrow> if s = [] then d else s)"

definition preFilter_ATTR :: "caps \<Rightarrow> targ list" where
  "preFilter_ATTR c =
     (let v = unescape_css (or_else (c 3) (or_else (c 4) (or_else (c 5) [])))
      in [Text (unescape_css (or_else (c 1) [])), targ_of (c 2),
          Text (if c 2 = Some (js ''~='') then js '' '' @ v @ js '' '' else v)])"

definition signed :: "jstr \<Rightarrow> int" where
  "signed s = (case s of
       [] \<Rightarrow> 0
     | d # ds \<Rightarrow> if d = cu CHR ''-'' then - int (read_nat ds) else if d = cu CHR ''+'' then int (read_nat ds) else int (read_nat s))"

definition preFilter_CHILD :: "jstr \<Rightarrow> caps \<Rightarrow> jstr + targ list" where
  "preFilter_CHILD m c =
     (let t = lower (or_else (c 1) []) in
      if take 3 t = js ''nth'' then
        (if falsy (c 3) then Inl (sizzle_error m)
         else
           (let x = (if falsy (c 4) then (if c 3 = Some (js ''even'') \<or> c 3 = Some (js ''odd'') then 2 else 0)
                     else signed (or_else (c 5) [] @ or_else (c 6) (js ''1'')));
                y = (case (c 7, c 8) of
                       (Some g, Some n) \<Rightarrow> signed (g @ n)
                     | _ \<Rightarrow> if c 3 = Some (js ''odd'') then 1 else 0)
            in Inr ([Text t, targ_of (c 2), targ_of (c 3), Number x, Number y] @ map (targ_of \<circ> c) [6, 7, 8])))
      else if \<not> falsy (c 3) then Inl (sizzle_error m)
      else Inr (Text t # map (targ_of \<circ> c) [2, 3, 4, 5, 6, 7, 8]))"

text \<open>The place of the first closing parenthesis from a place on.\<close>

definition close_from :: "nat \<Rightarrow> jstr \<Rightarrow> nat option" where
  "close_from i s = (case indexOf (js '')'') (drop i s) of None \<Rightarrow> None | Some j \<Rightarrow> Some (i + j))"

definition drop_last :: "nat \<Rightarrow> jstr \<Rightarrow> jstr" where
  "drop_last k s = take (length s - k) s"

text \<open>\<open>PSEUDO\<close>, given the length that a nested run leaves over; \<open>None\<close> inside is the rejection of the match.\<close>

definition preFilter_PSEUDO :: "(jstr \<Rightarrow> nat parse) \<Rightarrow> jstr \<Rightarrow> caps \<Rightarrow> (jstr \<times> targ list) option parse" where
  "preFilter_PSEUDO excess_of m c =
     (let unquoted = (if falsy (c 6) then c 2 else None);
          as_it_is = Some (Inr (Some (m, [targ_of (c 1), targ_of (c 2)])))
      in
      if search (matchExpr (js ''CHILD'')) m \<noteq> None then Some (Inr None)
      else if \<not> falsy (c 3) then Some (Inr (Some (m, [targ_of (c 1), Text (or_else (c 4) (or_else (c 5) []))])))
      else (case unquoted of
          None \<Rightarrow> as_it_is
        | Some u \<Rightarrow>
            if u = [] \<or> search pseudos u = None then as_it_is
            else (case excess_of u of
                None \<Rightarrow> None
              | Some (Inl err) \<Rightarrow> Some (Inl err)
              | Some (Inr n) \<Rightarrow>
                  if n = 0 then as_it_is
                  else (let k = (case close_from (length u - n) u of None \<Rightarrow> Suc (length u) | Some p \<Rightarrow> length u - p)
                        in Some (Inr (Some (drop_last k m, [targ_of (c 1), Text (drop_last k u)])))))))"

definition preFilter :: "(jstr \<Rightarrow> nat parse) \<Rightarrow> jstr \<Rightarrow> jstr \<Rightarrow> caps \<Rightarrow> (jstr \<times> targ list) option parse" where
  "preFilter excess_of ty m c =
     (if ty = js ''ATTR'' then Some (Inr (Some (m, preFilter_ATTR c)))
      else if ty = js ''CHILD'' then
        (case preFilter_CHILD m c of Inl e \<Rightarrow> Some (Inl e) | Inr args \<Rightarrow> Some (Inr (Some (m, args))))
      else if ty = js ''PSEUDO'' then preFilter_PSEUDO excess_of m c
      else Some (Inr (Some (m, [targ_of (c 1)]))))"

text \<open>The types in the order of \<open>Expr.filter\<close>, where \<open>ID\<close> is added last.\<close>

definition filter_types :: "jstr list" where
  "filter_types = map js [''TAG'', ''CLASS'', ''ATTR'', ''CHILD'', ''PSEUDO'', ''ID'']"

fun filters_run :: "(jstr \<Rightarrow> nat parse) \<Rightarrow> jstr list \<Rightarrow> jstr \<Rightarrow> bool \<Rightarrow> css_token list \<Rightarrow> (jstr \<times> bool \<times> css_token list) parse" where
  "filters_run excess_of [] soFar matched ts = Some (Inr (soFar, matched, ts))"
| "filters_run excess_of (ty # tys) soFar matched ts =
     (case exec_re (matchExpr ty) soFar of
        None \<Rightarrow> filters_run excess_of tys soFar matched ts
      | Some (m, c) \<Rightarrow>
          (case preFilter excess_of ty m c of
             None \<Rightarrow> None
           | Some (Inl e) \<Rightarrow> Some (Inl e)
           | Some (Inr None) \<Rightarrow> filters_run excess_of tys soFar matched ts
           | Some (Inr (Some (v, args))) \<Rightarrow>
               filters_run excess_of tys (drop (length v) soFar) (v \<noteq> [])
                 (ts @ [\<lparr>token_value = v, token_type = ty, token_args = args\<rparr>])))"

definition comma :: "bool \<Rightarrow> jstr \<Rightarrow> groups_read \<Rightarrow> jstr \<times> groups_read" where
  "comma matched soFar gs =
     (if \<not> matched then (soFar, gs @ [[]])
      else case exec_re rcomma soFar of
        None \<Rightarrow> (soFar, gs)
      | Some (m, c) \<Rightarrow>
          (let rest = drop (length m) soFar in (if rest = [] then soFar else rest, gs @ [[]])))"

definition push_token :: "css_token list \<Rightarrow> groups_read \<Rightarrow> groups_read" where
  "push_token ts gs = butlast gs @ [last gs @ ts]"

definition combinator_run :: "jstr \<Rightarrow> jstr \<times> bool \<times> css_token list" where
  "combinator_run soFar =
     (case exec_re rcombinators soFar of
        None \<Rightarrow> (soFar, False, [])
      | Some (m, c) \<Rightarrow>
          (drop (length m) soFar, m \<noteq> [],
           [\<lparr>token_value = m, token_type = replace_g rtrim_css (\<lambda>_ _. js '' '') (or_else (c 1) []), token_args = []\<rparr>]))"

text \<open>The cache: at most 50 selectors, the oldest goes first.\<close>

record css_cache =
  cache_keys :: "jstr list"
  cache_table :: "jstr \<Rightarrow> groups_read option"

definition no_tokens :: css_cache where
  "no_tokens = \<lparr>cache_keys = [], cache_table = \<lambda>_. None\<rparr>"

definition cacheLength :: nat where
  "cacheLength = 50"

definition cache_put :: "jstr \<Rightarrow> groups_read \<Rightarrow> css_cache \<Rightarrow> css_cache" where
  "cache_put key v c =
     (let k = key @ js '' ''; ks = cache_keys c @ [k];
          (ks1, tab) = (if length ks > cacheLength then (tl ks, (cache_table c)(hd ks := None)) else (ks, cache_table c))
      in \<lparr>cache_keys = ks1, cache_table = tab(k \<mapsto> v)\<rparr>)"

definition excess_left :: "(jstr \<times> groups_read) parse \<Rightarrow> nat parse" where
  "excess_left r = map_option (map_sum id (\<lambda>(rest, gs). length rest)) r"

primrec tokenize_run :: "(jstr \<Rightarrow> groups_read option) \<Rightarrow> nat \<Rightarrow> jstr \<Rightarrow> bool \<Rightarrow> groups_read \<Rightarrow> (jstr \<times> groups_read) parse" where
  "tokenize_run tab 0 soFar matched gs = None"
| "tokenize_run tab (Suc n) soFar matched gs =
     (if soFar = [] then Some (Inr (soFar, gs))
      else
        (case comma matched soFar gs of (s1, gs1) \<Rightarrow> case combinator_run s1 of (s2, m2, ts2) \<Rightarrow>
           case filters_run
               (\<lambda>u. if tab (u @ js '' '') \<noteq> None then Some (Inr 0) else excess_left (tokenize_run tab n u False []))
               filter_types s2 m2 ts2 of
             None \<Rightarrow> None
           | Some (Inl e) \<Rightarrow> Some (Inl e)
           | Some (Inr (s3, m3, ts3)) \<Rightarrow>
               (if \<not> m3 then Some (Inr (s3, push_token ts3 gs1))
                else tokenize_run tab n s3 True (push_token ts3 gs1))))"

datatype tokenized = Excess nat | Groups groups_read

definition tokenize :: "jstr \<Rightarrow> bool \<Rightarrow> css_cache \<Rightarrow> tokenized parse \<times> css_cache" where
  "tokenize selector parseOnly w =
     (case cache_table w (selector @ js '' '') of
        Some gs \<Rightarrow> (Some (Inr (if parseOnly then Excess 0 else Groups gs)), w)
      | None \<Rightarrow>
          (case tokenize_run (cache_table w) (Suc (length selector)) selector False [] of
             None \<Rightarrow> (None, w)
           | Some (Inl e) \<Rightarrow> (Some (Inl e), w)
           | Some (Inr (rest, gs)) \<Rightarrow>
               if parseOnly then (Some (Inr (Excess (length rest))), w)
               else if rest \<noteq> [] then (Some (Inl (sizzle_error selector)), w)
               else (Some (Inr (Groups gs)), cache_put selector gs w)))"

definition toSelector :: "css_token list \<Rightarrow> jstr" where
  "toSelector ts = concat (map token_value ts)"

end
