(* ===== verification/JqTokenLaws.thy ===== *)
theory JqTokenLaws
  imports JqTokens
begin

text \<open>
  Laws of theory \<open>JqTokens\<close>: every run of \<open>tokenize\<close> ends, the tokens and the commas between the groups are the selector
  again, the cache never changes a result and stays small, and an escaped text is read as one token that stands for
  the text.
\<close>

section \<open>Anchored matches\<close>

lemma search_later: "length s < n0 \<Longrightarrow> search_from n0 (Cat Bol r) s = None"
  by (induction s) (simp_all add: search_from.simps)

lemma exec_anchored:
  "exec_re (Cat Bol r) s =
    (case ways (length s) r (s, \<lambda>_. None) of
       [] \<Rightarrow> None
     | (t, c) # _ \<Rightarrow> Some (take (length s - length t) s, c))"
proof (cases s)
  case Nil
  then show ?thesis by (simp add: exec_re_def search_def search_from.simps split: list.split)
next
  case (Cons d ds)
  have "search_from (Suc (length ds)) (Cat Bol r) ds = None" by (rule search_later) simp
  then show ?thesis
    by (simp add: Cons exec_re_def search_def search_from.simps [of _ _ "d # ds"] split: list.split prod.split)
qed

lemma exec_prefix:
  assumes "exec_re (Cat Bol r) s = Some (m, c)"
  obtains t where "s = m @ t" and "(t, c) \<in> set (ways (length s) r (s, \<lambda>_. None))"
proof -
  from assms obtain t ys where w: "ways (length s) r (s, \<lambda>_. None) = (t, c) # ys" and m: "m = take (length s - length t) s"
    by (auto simp: exec_anchored split: list.splits)
  then have "suffix t s" using ways_suffix [of "(t, c)" "length s" r "(s, \<lambda>_. None)"] by simp
  then have "s = m @ t" using take_suffix_append [of t s] m by simp
  with w show ?thesis by (intro that) auto
qed

text \<open>What groups hold is part of the matched text.\<close>

definition caps_within :: "(jstr \<times> caps) \<Rightarrow> (jstr \<times> caps) \<Rightarrow> bool" where
  "caps_within x y \<longleftrightarrow> suffix (fst y) (fst x) \<and>
     (\<forall>n u. snd y n = Some u \<longrightarrow> snd x n = Some u \<or> length u + length (fst y) \<le> length (fst x))"

lemma caps_within_refl: "caps_within x x"
  by (simp add: caps_within_def)

lemma caps_within_trans:
  assumes "caps_within x y" and "caps_within y z"
  shows "caps_within x z"
proof -
  have l: "length (fst y) \<le> length (fst x)" "length (fst z) \<le> length (fst y)"
    using assms by (auto simp: caps_within_def dest: suffix_length_le)
  show ?thesis
    unfolding caps_within_def
  proof (intro conjI allI impI)
    show "suffix (fst z) (fst x)" using assms suffix_order.trans unfolding caps_within_def by blast
  next
    fix n u assume "snd z n = Some u"
    then have "snd y n = Some u \<or> length u + length (fst z) \<le> length (fst y)"
      using assms(2) unfolding caps_within_def by blast
    moreover have "snd y n = Some u \<longrightarrow> snd x n = Some u \<or> length u + length (fst y) \<le> length (fst x)"
      using assms(1) unfolding caps_within_def by blast
    ultimately show "snd x n = Some u \<or> length u + length (fst z) \<le> length (fst x)" using l by linarith
  qed
qed

lemma caps_within_clear: "caps_within (s, clear_caps ns c) y \<Longrightarrow> caps_within (s, c) y"
  unfolding caps_within_def clear_caps_def by (auto split: if_splits)

lemma star_ways_within:
  assumes "y \<in> set (star_ways f ns k x)" and "\<And>x y. y \<in> set (f x) \<Longrightarrow> caps_within x y"
  shows "caps_within x y"
  using assms
proof (induction f ns k x rule: star_ways.induct)
  case (2 f ns k s c)
  from "2.prems"(1) consider "y = (s, c)"
    | s' c' where "(s', c') \<in> set (f (s, clear_caps ns c))" "length s' < length s" "y \<in> set (star_ways f ns k (s', c'))"
    by (auto split: if_splits)
  then show ?case
  proof cases
    case 1
    then show ?thesis by (simp add: caps_within_refl)
  next
    case 2
    have "caps_within (s, c) (s', c')" by (rule caps_within_clear) (rule "2.prems"(2) [OF 2(1)])
    moreover have "caps_within (s', c') y" by (rule "2.IH" [OF 2(1) refl 2(2,3) "2.prems"(2)])
    ultimately show ?thesis by (rule caps_within_trans)
  qed
qed (simp add: caps_within_refl)

lemma ways_within: "y \<in> set (ways n0 r x) \<Longrightarrow> caps_within x y"
proof (induction r arbitrary: x y)
  case (Cat r q)
  then obtain z where "z \<in> set (ways n0 r x)" "y \<in> set (ways n0 q z)" by auto
  with Cat.IH show ?case using caps_within_trans by blast
next
  case (Alt r q)
  from Alt.prems have "y \<in> set (ways n0 r x) \<or> y \<in> set (ways n0 q x)" by simp
  with Alt.IH show ?case by blast
next
  case (Star r)
  then have "y \<in> set (star_ways (ways n0 r) (groups r) (length (fst x)) x)" by simp
  then show ?case using Star.IH by (rule star_ways_within)
next
  case (Grp n r)
  then obtain s' c' where w: "(s', c') \<in> set (ways n0 r x)" and y: "y = (s', c'(n \<mapsto> take (length (fst x) - length s') (fst x)))"
    by auto
  then have "caps_within x (s', c')" using Grp.IH by blast
  moreover from this have "length s' \<le> length (fst x)" by (auto simp: caps_within_def dest: suffix_length_le)
  ultimately show ?case unfolding y caps_within_def by auto
qed (auto simp: caps_within_def suffix_Cons split: list.splits if_splits)

text \<open>Matches of a class of units.\<close>

primrec units_in :: "(jschar \<Rightarrow> bool) \<Rightarrow> re \<Rightarrow> bool" where
  "units_in p Eps \<longleftrightarrow> True"
| "units_in p (Cls q) \<longleftrightarrow> (\<forall>d. q d \<longrightarrow> p d)"
| "units_in p (Cat r q) \<longleftrightarrow> units_in p r \<and> units_in p q"
| "units_in p (Alt r q) \<longleftrightarrow> units_in p r \<and> units_in p q"
| "units_in p (Star r) \<longleftrightarrow> units_in p r"
| "units_in p (Grp n r) \<longleftrightarrow> units_in p r"
| "units_in p Bol \<longleftrightarrow> True"
| "units_in p Eol \<longleftrightarrow> True"

definition eats_only :: "(jschar \<Rightarrow> bool) \<Rightarrow> jstr \<Rightarrow> jstr \<Rightarrow> bool" where
  "eats_only p s t \<longleftrightarrow> (\<exists>e. s = e @ t \<and> (\<forall>d \<in> set e. p d))"

lemma eats_only_refl: "eats_only p s s"
  by (simp add: eats_only_def)

lemma eats_only_trans: "eats_only p s t \<Longrightarrow> eats_only p t u \<Longrightarrow> eats_only p s u"
  unfolding eats_only_def by (metis UnE append.assoc set_append)

lemma star_ways_units:
  assumes "y \<in> set (star_ways f ns k x)" and "\<And>x y. y \<in> set (f x) \<Longrightarrow> eats_only p (fst x) (fst y)"
  shows "eats_only p (fst x) (fst y)"
  using assms
proof (induction f ns k x rule: star_ways.induct)
  case (2 f ns k s c)
  from "2.prems"(1) consider "y = (s, c)"
    | s' c' where "(s', c') \<in> set (f (s, clear_caps ns c))" "length s' < length s" "y \<in> set (star_ways f ns k (s', c'))"
    by (auto split: if_splits)
  then show ?case
  proof cases
    case 2
    have "eats_only p s s'" using "2.prems"(2) [OF 2(1)] by simp
    moreover have "eats_only p s' (fst y)" using "2.IH" [OF 2(1) refl 2(2,3) "2.prems"(2)] by simp
    ultimately show ?thesis using eats_only_trans by simp
  qed (simp add: eats_only_refl)
qed (simp add: eats_only_refl)

lemma ways_units: "units_in p r \<Longrightarrow> y \<in> set (ways n0 r x) \<Longrightarrow> eats_only p (fst x) (fst y)"
proof (induction r arbitrary: x y)
  case (Cls q)
  then obtain d where "fst x = [d] @ fst y" "q d" by (cases "fst x") (auto split: if_splits)
  with Cls(1) show ?case unfolding eats_only_def by (intro exI [of _ "[d]"]) simp
next
  case (Cat r q)
  then obtain z where "z \<in> set (ways n0 r x)" "y \<in> set (ways n0 q z)" by auto
  with Cat show ?case using eats_only_trans by (meson units_in.simps(3))
next
  case (Star r)
  then have "y \<in> set (star_ways (ways n0 r) (groups r) (length (fst x)) x)" by simp
  then show ?case by (rule star_ways_units) (use Star in auto)
next
  case (Grp n r)
  then obtain s' c' where "(s', c') \<in> set (ways n0 r x)" "fst y = s'" by auto
  with Grp show ?case by fastforce
qed (auto simp: eats_only_refl split: if_splits)

section \<open>Every run ends\<close>

lemma matchExpr_prefix:
  assumes "exec_re (matchExpr ty) s = Some (m, c)"
  obtains t where "s = m @ t"
  using assms exec_prefix unfolding matchExpr_def by metis

text \<open>What is read again of a pseudo-class is shorter than the selector.\<close>

lemma pseudo_argument:
  assumes "exec_re (matchExpr (js ''PSEUDO'')) s = Some (m, c)" and "c 2 = Some u"
  shows "length u < length m"
proof -
  have "matchExpr (js ''PSEUDO'') = Cat Bol pseudos" by (simp add: matchExpr_def js_def)
  with assms(1) obtain t where s: "s = m @ t" and w: "(t, c) \<in> set (ways (length s) pseudos (s, \<lambda>_. None))"
    using exec_prefix by metis
  obtain r where r: "pseudos = Cat (lit '':'') r" by (simp add: pseudos_def)
  from w obtain d ds where ds: "s = d # ds" and w': "(t, c) \<in> set (ways (length s) r (ds, \<lambda>_. None))"
    unfolding r by (cases s) (auto simp: chr_re_def split: if_splits)
  have "length u + length t \<le> length ds" using ways_within [OF w'] assms(2) by (auto simp: caps_within_def)
  moreover have "length m + length t = Suc (length ds)" using arg_cong [OF s, of length] ds by simp
  ultimately show ?thesis by linarith
qed

lemma drop_last_prefix: "\<exists>t. s = drop_last k s @ t"
  unfolding drop_last_def by (metis append_take_drop_id)

lemma pseudo_value:
  "preFilter_PSEUDO f m c = Some (Inr (Some (v, args))) \<Longrightarrow> v = m \<or> (\<exists>k. v = drop_last k m)"
  unfolding preFilter_PSEUDO_def Let_def by (auto split: if_split_asm option.split_asm sum.split_asm)

lemma preFilter_prefix:
  assumes "preFilter f ty m c = Some (Inr (Some (v, args)))"
  obtains t where "m = v @ t"
proof -
  have "v = m \<or> (\<exists>k. v = drop_last k m)"
    using assms pseudo_value unfolding preFilter_def by (auto split: if_split_asm sum.split_asm)
  then show ?thesis using drop_last_prefix that by (metis append_Nil2)
qed

lemma preFilter_cong:
  assumes "exec_re (matchExpr ty) s = Some (m, c)" and "\<And>u. length u < length s \<Longrightarrow> f u = g u"
  shows "preFilter f ty m c = preFilter g ty m c"
proof (cases "ty = js ''PSEUDO''")
  case True
  obtain t where "s = m @ t" using matchExpr_prefix [OF assms(1)] .
  then have "f u = g u" if "c 2 = Some u" for u
    using pseudo_argument [of s m c u] assms that True by simp
  then show ?thesis using True by (simp add: preFilter_def preFilter_PSEUDO_def Let_def js_def split: option.split)
qed (simp add: preFilter_def)

lemma preFilter_ends:
  assumes "exec_re (matchExpr ty) s = Some (m, c)" and "\<And>u. length u < length s \<Longrightarrow> f u \<noteq> None"
  shows "preFilter f ty m c \<noteq> None"
proof (cases "ty = js ''PSEUDO''")
  case True
  obtain t where "s = m @ t" using matchExpr_prefix [OF assms(1)] .
  then have "f u \<noteq> None" if "c 2 = Some u" for u
    using pseudo_argument [of s m c u] assms that True by simp
  then show ?thesis
    using True by (auto simp: preFilter_def preFilter_PSEUDO_def Let_def js_def split: option.split sum.split if_splits)
qed (auto simp: preFilter_def split: sum.split)

lemma filters_cong:
  "(\<And>u. length u < length s \<Longrightarrow> f u = g u) \<Longrightarrow> filters_run f tys s b ts = filters_run g tys s b ts"
proof (induction tys arbitrary: s b ts)
  case (Cons ty tys)
  have "preFilter f ty m c = preFilter g ty m c" if "exec_re (matchExpr ty) s = Some (m, c)" for m c
    using preFilter_cong [OF that] Cons.prems by blast
  moreover have i: "filters_run f tys (drop k s) b' ts' = filters_run g tys (drop k s) b' ts'" for k b' ts'
    by (rule Cons.IH) (use Cons.prems in simp)
  ultimately show ?case using i [of 0] by (auto split: option.split sum.split)
qed simp

lemma filters_end:
  "(\<And>u. length u < length s \<Longrightarrow> f u \<noteq> None) \<Longrightarrow> filters_run f tys s b ts \<noteq> None"
proof (induction tys arbitrary: s b ts)
  case (Cons ty tys)
  have p: "preFilter f ty m c \<noteq> None" if "exec_re (matchExpr ty) s = Some (m, c)" for m c
    using preFilter_ends [OF that] Cons.prems by blast
  have i: "filters_run f tys (drop k s) b' ts' \<noteq> None" for k b' ts'
    by (rule Cons.IH) (use Cons.prems in simp)
  show ?case using p i i [of 0] by (auto split: option.split sum.split prod.split simp del: not_None_eq)
qed simp

lemma filters_shorter:
  "filters_run f tys s b ts = Some (Inr (s', b', ts')) \<Longrightarrow>
    \<exists>new. ts' = ts @ new \<and> s = toSelector new @ s' \<and> (b' \<longrightarrow> b \<or> s \<noteq> s')"
proof (induction tys arbitrary: s b ts)
  case Nil
  then show ?case by (simp add: toSelector_def)
next
  case (Cons ty tys)
  show ?case
  proof (cases "exec_re (matchExpr ty) s")
    case None
    with Cons show ?thesis by simp
  next
    case (Some x)
    obtain m c where x: "exec_re (matchExpr ty) s = Some (m, c)" using Some by (cases x) auto
    from Cons.prems x consider "preFilter f ty m c = Some (Inr None)" "filters_run f tys s b ts = Some (Inr (s', b', ts'))"
      | v args where "preFilter f ty m c = Some (Inr (Some (v, args)))"
          "filters_run f tys (drop (length v) s) (v \<noteq> []) (ts @ [\<lparr>token_value = v, token_type = ty, token_args = args\<rparr>]) =
            Some (Inr (s', b', ts'))"
      by (auto split: option.splits sum.splits)
    then show ?thesis
    proof cases
      case 1
      then show ?thesis using Cons.IH by blast
    next
      case 2
      obtain t1 where "s = m @ t1" using matchExpr_prefix [OF x] .
      moreover obtain t2 where "m = v @ t2" using preFilter_prefix [OF 2(1)] .
      ultimately have s: "s = v @ drop (length v) s" by simp
      from Cons.IH [OF 2(2)] obtain new where
        new: "ts' = (ts @ [\<lparr>token_value = v, token_type = ty, token_args = args\<rparr>]) @ new"
        "drop (length v) s = toSelector new @ s'" "b' \<longrightarrow> v \<noteq> [] \<or> drop (length v) s \<noteq> s'" by blast
      have l: "s = v @ toSelector new @ s'" using s new(2) by simp
      have "b' \<longrightarrow> s \<noteq> s'" using new(2,3) l by auto
      with new l show ?thesis
        by (intro exI [of _ "\<lparr>token_value = v, token_type = ty, token_args = args\<rparr> # new"]) (simp add: toSelector_def)
    qed
  qed
qed

lemma comma_shorter: "comma b s gs = (s1, gs1) \<Longrightarrow> length s1 \<le> length s"
  by (auto simp: comma_def Let_def split: if_splits option.splits)

lemma combinator_shorter:
  assumes "combinator_run s = (s2, b, ts)"
  shows "s = toSelector ts @ s2 \<and> (b \<longrightarrow> s \<noteq> s2)"
proof (cases "exec_re rcombinators s")
  case None
  with assms show ?thesis by (simp add: combinator_run_def toSelector_def)
next
  case (Some x)
  then obtain m c where x: "exec_re rcombinators s = Some (m, c)" by (cases x) auto
  then obtain t where "s = m @ t" unfolding rcombinators_def by (rule exec_prefix) blast
  with x assms show ?thesis by (auto simp: combinator_run_def toSelector_def)
qed

lemma round_shorter:
  assumes "comma b s gs = (s1, gs1)" and "combinator_run s1 = (s2, b2, ts2)"
    and "filters_run f tys s2 b2 ts2 = Some (Inr (s3, True, ts3))"
  shows "length s3 < length s"
proof -
  obtain new where new: "s2 = toSelector new @ s3" "b2 \<or> s2 \<noteq> s3" using filters_shorter [OF assms(3)] by auto
  have c: "s1 = toSelector ts2 @ s2" "b2 \<longrightarrow> s1 \<noteq> s2" using combinator_shorter [OF assms(2)] by auto
  have "s1 \<noteq> s3" using new c by auto
  moreover have s1: "s1 = (toSelector ts2 @ toSelector new) @ s3" using new c by simp
  ultimately have "length s3 < length s1" by (cases "toSelector ts2 @ toSelector new") auto
  with comma_shorter [OF assms(1)] show ?thesis by simp
qed

lemma excess_left_None: "excess_left r = None \<longleftrightarrow> r = None"
  by (simp add: excess_left_def)

lemma run_ends: "length s < n \<Longrightarrow> tokenize_run tab n s b gs \<noteq> None"
proof (induction n arbitrary: s b gs)
  case (Suc n)
  let ?f = "\<lambda>u. if tab (u @ js '' '') \<noteq> None then Some (Inr 0) else excess_left (tokenize_run tab n u False [])"
  obtain s1 gs1 where c: "comma b s gs = (s1, gs1)" by fastforce
  obtain s2 b2 ts2 where m: "combinator_run s1 = (s2, b2, ts2)" by (metis prod_cases3)
  have "length s2 \<le> length s" using comma_shorter [OF c] combinator_shorter [OF m] by (metis le_trans le_add2 length_append)
  then have e: "filters_run ?f filter_types s2 b2 ts2 \<noteq> None"
    using Suc by (intro filters_end) (auto simp: excess_left_None simp del: not_None_eq)
  show ?case
  proof (cases "filters_run ?f filter_types s2 b2 ts2")
    case None
    with e show ?thesis by simp
  next
    case (Some r)
    show ?thesis
    proof (cases r)
      case (Inl e)
      with Some c m show ?thesis by simp
    next
      case (Inr x)
      obtain s3 b3 ts3 where x: "x = (s3, b3, ts3)" by (cases x)
      have "tokenize_run tab n s3 True (push_token ts3 gs1) \<noteq> None" if b3
        using round_shorter [OF c m] Some Inr x that Suc by fastforce
      with Some Inr x c m show ?thesis by simp
    qed
  qed
qed simp

section \<open>The cache\<close>

definition read_fresh :: "jstr \<Rightarrow> (jstr \<times> groups_read) parse" where
  "read_fresh s = tokenize_run (\<lambda>_. None) (Suc (length s)) s False []"

definition sound :: "(jstr \<Rightarrow> groups_read option) \<Rightarrow> bool" where
  "sound tab \<longleftrightarrow> (\<forall>u gs. tab (u @ js '' '') = Some gs \<longrightarrow> read_fresh u = Some (Inr ([], gs)))"

lemma run_agrees:
  assumes "sound tab"
  shows "length s < n \<Longrightarrow> length s < k \<Longrightarrow> tokenize_run tab n s b gs = tokenize_run (\<lambda>_. None) k s b gs"
proof (induction n arbitrary: s k b gs)
  case (Suc n)
  then obtain k' where k: "k = Suc k'" by (cases k) auto
  let ?f = "\<lambda>u. if tab (u @ js '' '') \<noteq> None then Some (Inr 0) else excess_left (tokenize_run tab n u False [])"
  let ?g = "\<lambda>u. excess_left (tokenize_run (\<lambda>_. None) k' u False [])"
  obtain s1 gs1 where c: "comma b s gs = (s1, gs1)" by fastforce
  obtain s2 b2 ts2 where m: "combinator_run s1 = (s2, b2, ts2)" by (metis prod_cases3)
  have l: "length s2 \<le> length s" using comma_shorter [OF c] combinator_shorter [OF m] by (metis le_trans le_add2 length_append)
  have "?f u = ?g u" if "length u < length s2" for u
  proof -
    have u: "length u < n" "length u < k'" using that l Suc.prems k by auto
    have "tokenize_run tab n u False [] = tokenize_run (\<lambda>_. None) k' u False []"
      and "tokenize_run tab n u False [] = read_fresh u"
      unfolding read_fresh_def by (rule Suc.IH [OF u]) (rule Suc.IH [OF u(1)], simp)
    moreover have "read_fresh u = Some (Inr ([], g))" if "tab (u @ js '' '') = Some g" for g
      using assms that unfolding sound_def by blast
    ultimately show ?thesis by (auto simp: excess_left_def)
  qed
  then have f: "filters_run ?f filter_types s2 b2 ts2 = filters_run ?g filter_types s2 b2 ts2" by (rule filters_cong)
  have "tokenize_run tab n s3 True gs' = tokenize_run (\<lambda>_. None) k' s3 True gs'"
    if "filters_run ?f filter_types s2 b2 ts2 = Some (Inr (s3, True, ts3))" for s3 ts3 gs'
    using round_shorter [OF c m that] Suc.prems k by (intro Suc.IH) auto
  then show ?case using f c m unfolding k by (simp split: option.split sum.split)
qed simp

lemma tokenize_sound:
  assumes "sound (cache_table w)"
  shows "fst (tokenize s p w) =
    (case read_fresh s of
       None \<Rightarrow> None
     | Some (Inl e) \<Rightarrow> Some (Inl e)
     | Some (Inr (rest, gs)) \<Rightarrow>
         Some (if p then Inr (Excess (length rest)) else if rest \<noteq> [] then Inl (sizzle_error s) else Inr (Groups gs)))"
proof (cases "cache_table w (s @ js '' '')")
  case None
  have "tokenize_run (cache_table w) (Suc (length s)) s False [] = read_fresh s"
    unfolding read_fresh_def by (rule run_agrees [OF assms]) simp_all
  with None show ?thesis by (simp add: tokenize_def split: option.split sum.split)
next
  case (Some gs)
  then have "read_fresh s = Some (Inr ([], gs))" using assms by (simp add: sound_def)
  with Some show ?thesis by (simp add: tokenize_def)
qed

definition small :: "css_cache \<Rightarrow> bool" where
  "small w \<longleftrightarrow> length (cache_keys w) \<le> cacheLength \<and> distinct (cache_keys w) \<and> dom (cache_table w) = set (cache_keys w)"

lemma small_put:
  assumes "small w" and "cache_table w (s @ js '' '') = None"
  shows "small (cache_put s gs w)"
proof (cases "cache_keys w")
  case Nil
  with assms show ?thesis by (auto simp: small_def cache_put_def Let_def cacheLength_def)
next
  case (Cons k ks)
  have "s @ js '' '' \<notin> set (cache_keys w)" using assms unfolding small_def by blast
  with Cons assms(1) show ?thesis by (auto simp: small_def cache_put_def Let_def cacheLength_def)
qed

lemma sound_put:
  assumes "sound (cache_table w)" and "read_fresh s = Some (Inr ([], gs))"
  shows "sound (cache_table (cache_put s gs w))"
  using assms by (auto simp: sound_def cache_put_def Let_def split: if_splits)

lemma tokenize_keeps:
  assumes "sound (cache_table w)" and "small w"
  shows "sound (cache_table (snd (tokenize s p w))) \<and> small (snd (tokenize s p w))"
proof (cases "cache_table w (s @ js '' '')")
  case None
  have r: "tokenize_run (cache_table w) (Suc (length s)) s False [] = read_fresh s"
    unfolding read_fresh_def by (rule run_agrees [OF assms(1)]) simp_all
  show ?thesis
    using None assms small_put [OF assms(2) None] sound_put [OF assms(1)]
    unfolding tokenize_def r by (auto split: option.split sum.split)
qed (simp add: tokenize_def assms)

text \<open>The cache after any history of reads.\<close>

definition after_reads :: "(jstr \<times> bool) list \<Rightarrow> css_cache" where
  "after_reads qs = fold (\<lambda>(s, p) w. snd (tokenize s p w)) qs no_tokens"

lemma after_reads_ok: "sound (cache_table (after_reads qs)) \<and> small (after_reads qs)"
proof (induction qs rule: rev_induct)
  case Nil
  then show ?case by (simp add: after_reads_def no_tokens_def sound_def small_def cacheLength_def)
next
  case (snoc q qs)
  obtain s p where q: "q = (s, p)" by (cases q)
  have "after_reads (qs @ [q]) = snd (tokenize s p (after_reads qs))" by (simp add: after_reads_def q)
  with snoc tokenize_keeps show ?case by simp
qed

text \<open>
  C16. After any history of reads, \<open>tokenize\<close> ends, and gives what it gives with an empty cache; the cache holds at most fifty
  selectors, each once, and its list of keys is exact.
\<close>

theorem tokens_cached:
  "fst (tokenize s p (after_reads qs)) = fst (tokenize s p no_tokens) \<and> fst (tokenize s p no_tokens) \<noteq> None \<and>
   length (cache_keys (after_reads qs)) \<le> 50 \<and> distinct (cache_keys (after_reads qs)) \<and>
   dom (cache_table (after_reads qs)) = set (cache_keys (after_reads qs))"
proof -
  have "sound (cache_table no_tokens)" by (simp add: sound_def no_tokens_def)
  note fresh = tokenize_sound [OF this] tokenize_sound [OF conjunct1 [OF after_reads_ok]]
  have "read_fresh s \<noteq> None" unfolding read_fresh_def by (rule run_ends) simp
  then have "fst (tokenize s p no_tokens) \<noteq> None"
    unfolding fresh by (auto split: option.split sum.split prod.split)
  with conjunct2 [OF after_reads_ok [of qs]] show ?thesis
    unfolding small_def cacheLength_def by (simp add: fresh)
qed

section \<open>The tokens are the selector\<close>

text \<open>A comma with white space around it.\<close>

definition comma_text :: "jstr \<Rightarrow> bool" where
  "comma_text s \<longleftrightarrow> (\<exists>a b. s = a @ [44] @ b \<and> (\<forall>d \<in> set a. html_white d) \<and> (\<forall>d \<in> set b. html_white d))"

inductive written :: "groups_read \<Rightarrow> jstr \<Rightarrow> bool" where
  first: "written [ts] (toSelector ts)"
| more: "written gs s \<Longrightarrow> comma_text sep \<Longrightarrow> written (gs @ [ts]) (s @ sep @ toSelector ts)"

lemma cu_comma: "cu CHR '','' = 44"
  by code_simp

lemma written_not_empty: "written gs s \<Longrightarrow> gs \<noteq> []"
  by (induction rule: written.induct) auto

lemma written_push: "written gs s \<Longrightarrow> written (push_token ts gs) (s @ toSelector ts)"
proof (induction rule: written.induct)
  case (first us)
  have "written [us @ ts] (toSelector (us @ ts))" by (rule written.first)
  then show ?case by (simp add: push_token_def toSelector_def)
next
  case (more gs s sep us)
  have "written (gs @ [us @ ts]) (s @ sep @ toSelector (us @ ts))" by (rule written.more [OF more(1,2)])
  then show ?case by (simp add: push_token_def toSelector_def)
qed

lemma toSelector_append: "toSelector (xs @ ys) = toSelector xs @ toSelector ys"
  by (simp add: toSelector_def)

lemma rcomma_text:
  assumes "exec_re rcomma s = Some (m, c)"
  obtains t where "s = m @ t" and "comma_text m"
proof -
  have r: "rcomma = Cat Bol (Cat (Star white_re) (Cat (lit '','') (Star white_re)))" by (simp add: rcomma_def)
  obtain t where s: "s = m @ t" and w: "(t, c) \<in> set (ways (length s) (Cat (Star white_re) (Cat (lit '','') (Star white_re))) (s, \<lambda>_. None))"
    using exec_prefix assms unfolding r by metis
  from w obtain y where y: "y \<in> set (ways (length s) (Star white_re) (s, \<lambda>_. None))"
    and z: "(t, c) \<in> set (ways (length s) (Cat (lit '','') (Star white_re)) y)" by auto
  have white: "units_in html_white (Star white_re)" by (simp add: white_re_def)
  from z obtain d ds where d: "fst y = d # ds" "d = 44" and b: "(t, c) \<in> set (ways (length s) (Star white_re) (ds, snd y))"
    by (cases y; cases "fst y") (auto simp: chr_re_def cu_comma split: if_splits)
  obtain a where a: "s = a @ fst y" "\<forall>d \<in> set a. html_white d"
    using ways_units [OF white y] by (auto simp: eats_only_def)
  obtain b where b: "ds = b @ t" "\<forall>d \<in> set b. html_white d"
    using ways_units [OF white b] by (auto simp: eats_only_def)
  have "m = a @ [44] @ b" using s a(1) d b(1) by simp
  with a(2) b(2) have "comma_text m" unfolding comma_text_def by blast
  with s show ?thesis by (rule that)
qed

text \<open>A comma at the end is never passed.\<close>

lemma white_way: "\<forall>d \<in> set b. html_white d \<Longrightarrow> \<exists>ys. ways n (Star white_re) (b, c) = ([], c) # ys"
  by (simp add: white_re_def star_ways_Cls takeWhile_eq_all_conv [THEN iffD2])

lemma takeWhile_all: "\<forall>d \<in> set a. p d \<Longrightarrow> \<not> p e \<Longrightarrow> takeWhile p (a @ e # s) = a \<and> dropWhile p (a @ e # s) = e # s"
  by (induction a) auto

lemma trailing_comma:
  assumes "comma_text s"
  shows "comma True s gs = (s, gs @ [[]])"
proof -
  obtain a b where s: "s = a @ 44 # b" and a: "\<forall>d \<in> set a. html_white d" and b: "\<forall>d \<in> set b. html_white d"
    using assms by (auto simp: comma_text_def)
  have n: "\<not> html_white 44" by (simp add: html_white_def)
  have j: "rejects html_white (Cat (lit '','') (Star white_re))"
    unfolding lit.simps chr_re_def cu_comma using n by (intro rejects_Cat rejects_Cls) auto
  obtain ys where ys: "ways (length s) (Star white_re) (b, \<lambda>_. None) = ([], \<lambda>_. None) # ys" using white_way [OF b] by blast
  have "ways (length s) (Cat (Star white_re) (Cat (lit '','') (Star white_re))) (s, \<lambda>_. None) =
      ways (length s) (Cat (lit '','') (Star white_re)) (dropWhile html_white s, \<lambda>_. None)"
    using run_then [OF j, of "length s" s "\<lambda>_ _. None" 0]
    by (simp add: white_re_def ways_Star_Cls comp_def rev_map [symmetric] del: ways.simps(5) upt_Suc)
  also have "\<dots> = ([], \<lambda>_. None) # ys" using ys takeWhile_all [OF a n, of b] unfolding s by (simp add: chr_re_def cu_comma)
  finally have "exec_re rcomma s = Some (s, \<lambda>_. None)" unfolding rcomma_def exec_anchored by simp
  then show ?thesis by (simp add: comma_def s)
qed

definition no_start :: "jschar \<Rightarrow> bool" where
  "no_start d \<longleftrightarrow> html_white d \<or> d = 44"

lemma rejects_Alt: "rejects p r \<Longrightarrow> rejects p q \<Longrightarrow> rejects p (Alt r q)"
  by (simp add: rejects_def)

lemma no_start_iff: "no_start d \<longleftrightarrow> d \<in> {32, 9, 13, 10, 12, 44}"
  by (auto simp: no_start_def html_white_def)

lemma rejects_ident: "(\<And>d. p d \<Longrightarrow> d \<noteq> 92 \<and> \<not> ident_unit d \<and> \<not> d > 127) \<Longrightarrow> rejects p ident_re"
  unfolding ident_re_def Plus_def backslash_def by (intro rejects_Cat rejects_Alt rejects_Cls) auto

lemma filters_none:
  assumes "no_start d"
  shows "filters_run f filter_types (d # s) b ts = Some (Inr (d # s, b, ts))"
proof -
  have id: "rejects no_start ident_re"
    by (rule rejects_ident) (auto simp: no_start_iff ident_unit_def is_digit_def)
  have ch: "rejects no_start (chr_re c)" if "c \<in> set ''#.:[*''" for c
    using that unfolding chr_re_def by (intro rejects_Cls) (auto simp: no_start_iff)
  have "exec_re (matchExpr ty) (d # s) = None" for ty
  proof -
    have "rejects no_start
     (if ty = js ''ID'' then Cat (lit ''#'') (Grp 1 ident_re)
      else if ty = js ''CLASS'' then Cat (lit ''.'') (Grp 1 ident_re)
      else if ty = js ''TAG'' then Grp 1 (Alt ident_re (lit ''*''))
      else if ty = js ''ATTR'' then attributes 0
      else if ty = js ''PSEUDO'' then pseudos
      else child_re)"
      unfolding attributes_def pseudos_def child_re_def lit.simps
      using id ch by (auto intro!: rejects_Cat rejects_Grp rejects_Alt split: if_split)
    then show ?thesis unfolding matchExpr_def exec_anchored using assms by (simp add: rejects_def)
  qed
  then show ?thesis by (simp add: filter_types_def)
qed

lemma comma_text_not_empty: "comma_text s \<Longrightarrow> s \<noteq> []"
  by (auto simp: comma_text_def)

lemma combinator_stuck:
  assumes "comma_text s" and "combinator_run s = (s2, b2, ts2)"
  shows "comma_text s2"
proof (cases "exec_re rcombinators s")
  case None
  with assms show ?thesis by (simp add: combinator_run_def)
next
  case (Some x)
  then obtain m c where x: "exec_re rcombinators s = Some (m, c)" by (cases x) auto
  obtain a b where s: "s = a @ [44] @ b" and a: "\<forall>d \<in> set a. html_white d" and b: "\<forall>d \<in> set b. html_white d"
    using assms(1) by (auto simp: comma_text_def)
  let ?r = "Cat (Star white_re) (Cat (Grp 1 (Alt (any_of ''>+~'') white_re)) (Star white_re))"
  obtain t where t: "s = m @ t" and w: "(t, c) \<in> set (ways (length s) ?r (s, \<lambda>_. None))"
    using x unfolding rcombinators_def by (rule exec_prefix) blast
  have "units_in (\<lambda>d. d \<noteq> 44) ?r" by (auto simp: white_re_def any_of_def html_white_def)
  then have m: "44 \<notin> set m" using ways_units [OF _ w] t by (auto simp: eats_only_def)
  have "comma_text t"
  proof (cases "length m \<le> length a")
    case True
    with s t have "a = m @ drop (length m) a" by (metis append_eq_append_conv_if append_take_drop_id)
    with s t have "t = drop (length m) a @ [44] @ b" by (metis append.assoc same_append_eq)
    moreover have "\<forall>d \<in> set (drop (length m) a). html_white d" using a by (meson in_set_dropD)
    ultimately show ?thesis using b unfolding comma_text_def by blast
  next
    case False
    then have "m ! length a = 44" using s t by (metis append_Cons nth_append nth_append_length not_le)
    with False m show ?thesis by (metis not_le nth_mem)
  qed
  with x t assms(2) show ?thesis by (auto simp: combinator_run_def)
qed

lemma comma_text_start:
  assumes "comma_text s"
  shows "filters_run f filter_types s b ts = Some (Inr (s, b, ts))"
proof -
  obtain a b where s: "s = a @ 44 # b" and a: "\<forall>d \<in> set a. html_white d" using assms by (auto simp: comma_text_def)
  have "no_start (hd s)" unfolding s using a by (cases a) (auto simp: no_start_def)
  then show ?thesis using filters_none [of "hd s" f "tl s"] s by simp
qed

lemma trailing_stuck:
  "comma_text s \<Longrightarrow> tokenize_run tab n s True gs = Some (Inr (rest, gs')) \<Longrightarrow> rest \<noteq> []"
proof (induction n arbitrary: s gs)
  case (Suc n)
  obtain s2 b2 ts2 where m: "combinator_run s = (s2, b2, ts2)" by (metis prod_cases3)
  have s2: "comma_text s2" by (rule combinator_stuck [OF Suc.prems(1) m])
  show ?case
  proof (cases b2)
    case True
    with Suc.prems m have "tokenize_run tab n s2 True (push_token ts2 (gs @ [[]])) = Some (Inr (rest, gs'))"
      by (simp add: comma_text_not_empty trailing_comma comma_text_start [OF s2])
    with s2 Suc.IH show ?thesis by blast
  next
    case False
    with Suc.prems m have "rest = s2"
      by (simp add: comma_text_not_empty trailing_comma comma_text_start [OF s2])
    with s2 comma_text_not_empty show ?thesis by blast
  qed
qed simp

definition so_far :: "bool \<Rightarrow> groups_read \<Rightarrow> jstr \<Rightarrow> bool" where
  "so_far b gs p \<longleftrightarrow> (if b then written gs p else gs = [] \<and> p = [])"

text \<open>The comma of a round: either it is passed, or it is the last of the selector.\<close>

lemma comma_cases:
  assumes "comma b s gs = (s1, gs1)" and "so_far b gs p"
  obtains (passed) sep where "s = sep @ s1" and "written gs1 (p @ sep)"
  | (trailing) "b" and "comma_text s"
proof (cases "b \<and> exec_re rcomma s \<noteq> None")
  case False
  have e: "written [[]] []" using written.first [of "[]"] by (simp add: toSelector_def)
  from False consider "\<not> b" | "b" "exec_re rcomma s = None" by blast
  then have "s1 = s" and "gs1 = (if b then gs else gs @ [[]])" using assms(1) by (cases; simp add: comma_def)+
  moreover from this have "written gs1 p" using assms(2) e by (auto simp: so_far_def split: if_splits)
  ultimately show ?thesis using passed [of "[]"] by simp
next
  case True
  then obtain m c where x: "exec_re rcomma s = Some (m, c)" by auto
  obtain t where t: "s = m @ t" and m: "comma_text m" using rcomma_text [OF x] .
  show ?thesis
  proof (cases "t = []")
    case True
    with t m \<open>b \<and> _\<close> show ?thesis using trailing by simp
  next
    case False
    with x t True assms(1) have "s1 = t" "gs1 = gs @ [[]]" by (auto simp: comma_def)
    moreover have "written (gs @ [[]]) (p @ m @ toSelector [])"
      using assms(2) True m by (intro written.more) (auto simp: so_far_def)
    ultimately show ?thesis using passed [of m] t by (simp add: toSelector_def)
  qed
qed

lemma run_written:
  "tokenize_run tab n s b gs = Some (Inr ([], gs')) \<Longrightarrow> so_far b gs p \<Longrightarrow> b \<or> s \<noteq> [] \<Longrightarrow> written gs' (p @ s)"
proof (induction n arbitrary: s b gs p)
  case (Suc n)
  show ?case
  proof (cases "s = []")
    case True
    with Suc.prems show ?thesis by (simp add: so_far_def)
  next
    case False
    obtain s1 gs1 where c: "comma b s gs = (s1, gs1)" by fastforce
    obtain s2 b2 ts2 where m: "combinator_run s1 = (s2, b2, ts2)" by (metis prod_cases3)
    show ?thesis
      using c Suc.prems(2)
    proof (cases rule: comma_cases)
      case (passed sep)
      let ?f = "\<lambda>u. if tab (u @ js '' '') \<noteq> None then Some (Inr 0) else excess_left (tokenize_run tab n u False [])"
      from Suc.prems(1) False c m obtain s3 b3 ts3 where
        f: "filters_run ?f filter_types s2 b2 ts2 = Some (Inr (s3, b3, ts3))"
        by (auto split: option.splits sum.splits)
      obtain new where new: "ts3 = ts2 @ new" "s2 = toSelector new @ s3" using filters_shorter [OF f] by blast
      have s: "s = sep @ toSelector ts3 @ s3" using passed(1) combinator_shorter [OF m] new by (simp add: toSelector_append)
      have w: "written (push_token ts3 gs1) (p @ sep @ toSelector ts3)" using written_push [OF passed(2)] by simp
      show ?thesis
      proof (cases b3)
        case True
        with Suc.prems(1) False c m f have "tokenize_run tab n s3 True (push_token ts3 gs1) = Some (Inr ([], gs'))" by simp
        from Suc.IH [OF this, of "p @ sep @ toSelector ts3"] w s show ?thesis by (simp add: so_far_def)
      next
        case b3: False
        with Suc.prems(1) False c m f have "s3 = []" "gs' = push_token ts3 gs1" by simp_all
        with w s show ?thesis by simp
      qed
    next
      case trailing
      then have "b = True" by simp
      from trailing_stuck [OF trailing(2) Suc.prems(1) [unfolded this]] show ?thesis by simp
    qed
  qed
qed simp

text \<open>
  C13. When \<open>tokenize\<close> accepts a selector, in any history, the texts of the tokens, put together group by group with the
  commas and the white space around them, are the selector again.
\<close>

theorem tokens_are_selector:
  assumes "fst (tokenize s False (after_reads qs)) = Some (Inr (Groups gs))" and "s \<noteq> []"
  shows "written gs s"
proof -
  have "read_fresh s = Some (Inr ([], gs))"
    using assms(1) unfolding tokenize_sound [OF conjunct1 [OF after_reads_ok]]
    by (auto split: option.splits sum.splits if_splits)
  then have "tokenize_run (\<lambda>_. None) (Suc (length s)) s False [] = Some (Inr ([], gs))" unfolding read_fresh_def .
  from run_written [OF this, of "[]"] assms(2) show ?thesis by (simp add: so_far_def)
qed

definition sample_groups :: groups_read where
  "sample_groups =
    [[\<lparr>token_value = js ''#a'', token_type = js ''ID'', token_args = [Text (js ''a'')]\<rparr>],
     [\<lparr>token_value = js ''b'', token_type = js ''TAG'', token_args = [Text (js ''b'')]\<rparr>]]"

lemma sample_read: "fst (tokenize (js ''#a,b'') False (after_reads [])) = Some (Inr (Groups sample_groups))"
  by code_simp

theorem tokens_are_selector_witness: "written sample_groups (js ''#a,b'')"
  by (rule tokens_are_selector [OF sample_read]) (simp add: js_def)

text \<open>The keyword of \<open>nth-child\<close> in capitals is accepted and gives a cycle without members.\<close>

lemma capital_even:
  "map_option (\<lambda>(m, c). preFilter_CHILD m c) (exec_re (matchExpr (js ''CHILD'')) (js '':nth-child(EVEN)'')) =
   Some (Inr [Text (js ''nth''), Text (js ''child''), Text (js ''EVEN''), Number 0, Number 0, No_arg, No_arg, No_arg])"
  by code_simp

text \<open>
  An argument in which a nested selector ends early, with no parenthesis after it, is taken for an empty one, and
  the selector is read on inside of it.
\<close>

lemma unclosed_accepted:
  assumes "c 2 = Some u" and "u \<noteq> []" and "falsy (c 3)" and "falsy (c 6)" and "search (matchExpr (js ''CHILD'')) m = None"
    and "search pseudos u \<noteq> None" and "excess_of u = Some (Inr n)" and "0 < n"
    and "indexOf (js '')'') (drop (length u - n) u) = None"
  shows "preFilter_PSEUDO excess_of m c = Some (Inr (Some (drop_last (Suc (length u)) m, [targ_of (c 1), Text []])))"
  using assms by (auto simp: preFilter_PSEUDO_def Let_def close_from_def drop_last_def falsy_def targ_of_def)

end
