(* ===== verification/JqEscapeLaws.thy ===== *)
theory JqEscapeLaws
  imports JqTokenLaws
begin

text \<open>
  Laws of \<open>Sizzle.escape\<close> (theory \<open>JqCssText\<close>): an escaped text is read as one token, and its escapes stand for the text.
\<close>

section \<open>Replacing, unit by unit\<close>

lemma replace_skip_unit:
  "ways n0 r (d # s, \<lambda>_. None) = [] \<Longrightarrow> replace_from n0 r f (d # s) = d # replace_from n0 r f s"
  by (simp add: replace_from.simps [of n0 r f "d # s"] replace_from.simps [of n0 r f s]
      search_from.simps [of n0 r "d # s"] split: option.split prod.split)

lemma replace_match:
  assumes "ways n0 r (m @ t, \<lambda>_. None) = (t, c) # ys" and "m \<noteq> []"
  shows "replace_from n0 r f (m @ t) = f m c @ replace_from n0 r f t"
  using assms(2) search_at_start [OF assms(1)] by (simp add: replace_from.simps [of n0 r f "m @ t"])

section \<open>What is written for a unit\<close>

definition in_hex :: "jschar \<Rightarrow> jstr" where
  "in_hex d = 92 # to_hex (unat d) @ [32]"

definition esc_unit :: "jschar \<Rightarrow> jstr" where
  "esc_unit d =
     (if d = 0 then [0xFFFD] else if control_unit d then in_hex d
      else if ident_unit d \<or> d > 127 then [d] else [92, d])"

definition esc_units :: "jstr \<Rightarrow> jstr" where
  "esc_units s = concat (map esc_unit s)"

fun esc_text :: "jstr \<Rightarrow> jstr" where
  "esc_text [] = []"
| "esc_text (d # s) =
     (if is_digit d then in_hex d @ esc_units s
      else if d = 45 \<and> s = [] then [92, 45]
      else if d = 45 \<and> is_digit (hd s) then 45 # in_hex (hd s) @ esc_units (tl s)
      else esc_units (d # s))"

lemma unit_classes:
  "is_digit d \<Longrightarrow> ident_unit d" "ident_unit d \<Longrightarrow> \<not> control_unit d" "d > 127 \<Longrightarrow> \<not> control_unit d"
  "ident_unit d \<Longrightarrow> \<not> d > 127" "is_digit d \<Longrightarrow> d \<noteq> 45" "ident_unit 45" "\<not> is_digit 45" "is_hex d \<Longrightarrow> ident_unit d"
  "\<not> ident_unit 92"
  by (auto simp: is_digit_def ident_unit_def control_unit_def is_hex_def word_le_nat_alt word_less_nat_alt)

lemma fcssescape_group:
  "fcssescape m (c(1 \<mapsto> x)) = (if m = [0] then [0xFFFD] else butlast m @ in_hex (last m))"
  by (simp add: fcssescape_def in_hex_def js_def)

lemma fcssescape_plain: "fcssescape m (\<lambda>_. None) = 92 # m"
  by (simp add: fcssescape_def)

lemma escape_later: "length s < n0 \<Longrightarrow> replace_from n0 rcssescape fcssescape s = esc_units s"
proof (induction s)
  case Nil
  have "ways n0 rcssescape ([], \<lambda>_. None) = []" using Nil by (simp add: rcssescape_def)
  then show ?case by (simp add: replace_from.simps search_from.simps esc_units_def)
next
  case (Cons d s)
  then have i: "replace_from n0 rcssescape fcssescape s = esc_units s" and n: "Suc (length s) \<noteq> n0" by auto
  consider "control_unit d" | "\<not> control_unit d" "ident_unit d \<or> d > 127" | "\<not> control_unit d" "\<not> (ident_unit d \<or> d > 127)" by blast
  then show ?case
  proof cases
    case 1
    then have "ways n0 rcssescape ([d] @ s, \<lambda>_. None) = [(s, (\<lambda>_. None)(1 \<mapsto> [d]))]"
      using n by (simp add: rcssescape_def)
    from replace_match [OF this, of fcssescape] i 1 show ?thesis
      unfolding fcssescape_group by (auto simp: esc_units_def esc_unit_def)
  next
    case 2
    then have "ways n0 rcssescape (d # s, \<lambda>_. None) = []" using n by (auto simp: rcssescape_def)
    from replace_skip_unit [OF this, of fcssescape] i 2 show ?thesis
      by (auto simp: esc_units_def esc_unit_def control_unit_def)
  next
    case 3
    then have "ways n0 rcssescape ([d] @ s, \<lambda>_. None) = [(s, \<lambda>_. None)]"
      using n by (simp add: rcssescape_def)
    from replace_match [OF this, of fcssescape] i 3 show ?thesis
      unfolding fcssescape_plain by (auto simp: esc_units_def esc_unit_def control_unit_def)
  qed
qed

lemma cu_minus: "cu CHR ''-'' = 45"
  by code_simp

lemma rcssescape_ways:
  "ways n0 rcssescape (s, c) =
    (case s of [] \<Rightarrow> [] | d # t \<Rightarrow>
       (if control_unit d then [(t, c(1 \<mapsto> [d]))] else []) @
       (if length s = n0 then
          (if d = 45 \<and> t \<noteq> [] \<and> is_digit (hd t) then [(tl t, c(1 \<mapsto> [d, hd t]))] else []) @
          (if is_digit d then [(t, c(1 \<mapsto> [d]))] else []) @ (if d = 45 \<and> t = [] then [([], c)] else [])
        else []) @
       (if \<not> control_unit d \<and> \<not> d > 127 \<and> \<not> ident_unit d then [(t, c)] else []))"
  by (cases s; cases "tl s") (auto simp: rcssescape_def chr_re_def cu_minus Opt_def digit_re_def)

lemma escape_is: "escapeSelector s = esc_text s"
proof (cases s)
  case Nil
  have "ways 0 rcssescape ([], \<lambda>_. None) = []" by (simp add: rcssescape_ways)
  then show ?thesis by (simp add: Nil escapeSelector_def replace_g_def replace_from.simps search_from.simps)
next
  case (Cons d t)
  let ?n = "Suc (length t)"
  have s: "escapeSelector s = replace_from ?n rcssescape fcssescape (d # t)" by (simp add: escapeSelector_def replace_g_def Cons)
  have later: "replace_from ?n rcssescape fcssescape u = esc_units u" if "length u \<le> length t" for u
    by (rule escape_later) (use that in simp)
  consider (digit) "is_digit d" | (dash) "d = 45" "t = []" | (dash_digit) e u where "d = 45" "t = e # u" "is_digit e"
    | (control) "control_unit d"
    | (plain) "\<not> control_unit d" "\<not> is_digit d" "d = 45 \<longrightarrow> t \<noteq> [] \<and> \<not> is_digit (hd t)"
    by (cases t) auto
  then show ?thesis
  proof cases
    case digit
    then have "ways ?n rcssescape ([d] @ t, \<lambda>_. None) = [(t, (\<lambda>_. None)(1 \<mapsto> [d]))]"
      using unit_classes by (auto simp: rcssescape_ways)
    from replace_match [OF this, of fcssescape] digit show ?thesis
      unfolding s fcssescape_group by (auto simp: Cons later is_digit_def)
  next
    case dash
    then have "ways ?n rcssescape ([d] @ t, \<lambda>_. None) = [([], \<lambda>_. None)]"
      using unit_classes by (auto simp: rcssescape_ways)
    from replace_match [OF this [unfolded dash(2)], of fcssescape] dash unit_classes escape_later [of "[]" "Suc 0"] show ?thesis
      unfolding s fcssescape_plain by (auto simp: Cons later esc_units_def)
  next
    case dash_digit
    then have "ways ?n rcssescape ([d, e] @ u, \<lambda>_. None) = [(u, (\<lambda>_. None)(1 \<mapsto> [d, e]))]"
      using unit_classes by (auto simp: rcssescape_ways)
    from replace_match [OF this, of fcssescape] dash_digit unit_classes escape_later [of u "Suc (Suc (length u))"] show ?thesis
      unfolding s fcssescape_group by (auto simp: Cons)
  next
    case control
    then have "ways ?n rcssescape ([d] @ t, \<lambda>_. None) = [(t, (\<lambda>_. None)(1 \<mapsto> [d]))]" "\<not> is_digit d" "d \<noteq> 45"
      using unit_classes by (auto simp: rcssescape_ways)
    from replace_match [OF this(1), of fcssescape] this(2,3) control show ?thesis
      unfolding s fcssescape_group by (auto simp: Cons later esc_units_def esc_unit_def)
  next
    case plain
    then have e: "esc_text s = esc_unit d @ esc_units t" by (auto simp: Cons esc_units_def)
    show ?thesis
    proof (cases "ident_unit d \<or> d > 127")
      case True
      with plain have "ways ?n rcssescape (d # t, \<lambda>_. None) = []" by (auto simp: rcssescape_ways)
      from replace_skip_unit [OF this, of fcssescape] True plain(1) show ?thesis
        unfolding s e by (auto simp: later esc_unit_def control_unit_def)
    next
      case False
      with plain have "ways ?n rcssescape ([d] @ t, \<lambda>_. None) = [(t, \<lambda>_. None)]"
        using unit_classes by (auto simp: rcssescape_ways)
      from replace_match [OF this, of fcssescape] False plain(1) show ?thesis
        unfolding s e fcssescape_plain by (auto simp: later esc_unit_def control_unit_def)
    qed
  qed
qed

section \<open>Reading it back\<close>

lemma is_hex_digit: "n < 16 \<Longrightarrow> is_hex (hex_digit n) \<and> hex_value1 (hex_digit n) = int n"
proof -
  assume "n < 16"
  then have "n \<in> set [0..<16]" by simp
  moreover have "\<forall>n \<in> set [0..<16]. is_hex (hex_digit n) \<and> hex_value1 (hex_digit n) = int n" by code_simp
  ultimately show ?thesis by blast
qed

text \<open>What is written in hexadecimal digits is at most two digits long.\<close>

lemma to_hex_two:
  assumes "n < 256"
  shows "to_hex n = (if n < 16 then [hex_digit n] else [hex_digit (n div 16), hex_digit (n mod 16)])"
  using assms by (simp add: to_hex.simps [of n] to_hex.simps [of "n div 16"])

lemma hex_runs:
  assumes "n < 256"
  shows "\<exists>ys. ways n0 hex_digits (to_hex n @ 32 # s, c) = (32 # s, c) # ys"
    and "takeWhile is_hex (to_hex n @ 32 # s) = to_hex n" and "hex_value (to_hex n) = int n"
proof -
  have h: "is_hex (hex_digit (n div 16))" "is_hex (hex_digit (n mod 16))" "n < 16 \<Longrightarrow> is_hex (hex_digit n)" "\<not> is_hex 32"
    using is_hex_digit [of "n div 16"] is_hex_digit [of "n mod 16"] is_hex_digit [of n] assms
    by (simp_all add: is_hex_def is_digit_def)
  have five: "5 = Suc (Suc (Suc (Suc (Suc 0))))" by simp
  show "\<exists>ys. ways n0 hex_digits (to_hex n @ 32 # s, c) = (32 # s, c) # ys"
    using h by (auto simp: to_hex_two [OF assms] hex_digits_def five Opt_def)
  show "takeWhile is_hex (to_hex n @ 32 # s) = to_hex n" using h by (auto simp: to_hex_two [OF assms])
  have "16 * int (n div 16) + int (n mod 16) = int n" by presburger
  then show "hex_value (to_hex n) = int n"
    using is_hex_digit [of "n div 16"] is_hex_digit [of "n mod 16"] is_hex_digit [of n] assms
    by (auto simp: to_hex_two [OF assms] hex_value_def)
qed

lemma escaped_hex:
  assumes "d < 128"
  shows "\<exists>ys. ways n0 (Cat backslash (Cat hex_digits (Opt white_re))) (in_hex d @ s, c) = (s, c) # ys"
proof -
  have "unat d < 256" using assms by (simp add: word_less_nat_alt)
  from hex_runs(1) [OF this, of n0 s c] obtain ys where "ways n0 hex_digits (to_hex (unat d) @ 32 # s, c) = (32 # s, c) # ys" by blast
  then show ?thesis by (simp add: in_hex_def backslash_def Opt_def white_re_def html_white_def)
qed

definition unescape_from :: "nat \<Rightarrow> jstr \<Rightarrow> jstr" where
  "unescape_from n s = replace_from n runescape funescape s"

lemma unescape_Nil: "unescape_from n [] = []"
  by (simp add: unescape_from_def replace_from.simps search_from.simps runescape_def backslash_def)

lemma unescape_plain_unit: "d \<noteq> 92 \<Longrightarrow> unescape_from n (d # s) = d # unescape_from n s"
  unfolding unescape_from_def by (rule replace_skip_unit) (simp add: runescape_def backslash_def)

lemma unescape_hex:
  assumes "d < 128"
  shows "unescape_from n (in_hex d @ s) = d # unescape_from n s"
proof -
  obtain ys where "ways n (Cat backslash (Cat hex_digits (Opt white_re))) (in_hex d @ s, \<lambda>_. None) = (s, \<lambda>_. None) # ys"
    using escaped_hex [OF assms] by blast
  then obtain zs where "ways n runescape (in_hex d @ s, \<lambda>_. None) = (s, \<lambda>_. None) # zs" by (simp add: runescape_def)
  from replace_match [OF this, of funescape] have "unescape_from n (in_hex d @ s) = funescape (in_hex d) (\<lambda>_. None) @ unescape_from n s"
    by (simp add: unescape_from_def in_hex_def)
  moreover have n: "unat d < 256" using assms by (simp add: word_less_nat_alt)
  have "uint d = int (unat d)" by simp
  with n have "uint d < 65536" by linarith
  then have "funescape (in_hex d) (\<lambda>_. None) = [d]"
    using hex_runs(2) [OF n, of "[]"] hex_runs(3) [OF n] by (simp add: funescape_def in_hex_def Let_def)
  ultimately show ?thesis by simp
qed

lemma unescape_backslash:
  assumes "\<not> is_hex d" and "not_newline d"
  shows "unescape_from n (92 # d # s) = d # unescape_from n s"
proof -
  have "ways n runescape ([92, d] @ s, \<lambda>_. None) = [(s, (\<lambda>_. None)(1 \<mapsto> [d]))]"
    using assms by (simp add: runescape_def backslash_def hex_digits_def)
  from replace_match [OF this, of funescape] show ?thesis by (simp add: unescape_from_def funescape_def)
qed

text \<open>A text without its zero units, which are replaced.\<close>

definition without_nul :: "jstr \<Rightarrow> jstr" where
  "without_nul s = map (\<lambda>d. if d = 0 then 0xFFFD else d) s"

lemma unit_back: "unescape_from n (esc_unit d @ s) = without_nul [d] @ unescape_from n s"
proof -
  have c: "control_unit d \<Longrightarrow> d < 128" by (auto simp: control_unit_def word_less_nat_alt word_le_nat_alt)
  have i: "ident_unit d \<or> d > 127 \<Longrightarrow> d \<noteq> 92" using unit_classes(9) by auto
  have x: "\<not> ident_unit d \<Longrightarrow> \<not> is_hex d" using unit_classes(8) by blast
  have w: "\<not> control_unit d \<Longrightarrow> not_newline d" by (auto simp: control_unit_def not_newline_def)
  show ?thesis
    using unescape_plain_unit [of "0xFFFD" n s] unescape_hex [OF c] unescape_plain_unit [OF i, of n s]
      unescape_backslash [OF x w, of n s]
    by (auto simp: esc_unit_def without_nul_def)
qed

lemma units_back: "unescape_from n (esc_units s) = without_nul s"
  using unit_back by (induction s) (simp_all add: esc_units_def unescape_Nil without_nul_def)

lemma digit_small: "is_digit d \<Longrightarrow> d < 128 \<and> d \<noteq> 0"
  by (auto simp: is_digit_def word_less_nat_alt word_le_nat_alt)

lemma text_back: "unescape_from n (esc_text s) = without_nul s"
proof (cases s)
  case (Cons d t)
  consider (digit) "is_digit d" | (dash) "d = 45" "t = []" | (dash_digit) e u where "d = 45" "t = e # u" "is_digit e"
    | (plain) "\<not> is_digit d" "d = 45 \<longrightarrow> t \<noteq> [] \<and> \<not> is_digit (hd t)"
    by (cases t) auto
  then show ?thesis
  proof cases
    case digit
    then show ?thesis
      using digit_small [OF digit] unescape_hex [of d n "esc_units t"] units_back [of n t] by (simp add: Cons without_nul_def)
  next
    case dash
    then show ?thesis
      using unescape_backslash [of 45 n "[]"] unit_classes(7)
      by (simp add: Cons unescape_Nil is_hex_def not_newline_def without_nul_def)
  next
    case dash_digit
    then show ?thesis
      using digit_small [of e] unescape_hex [of e n "esc_units u"] unescape_plain_unit [of 45 n] units_back [of n u] unit_classes(7)
      by (simp add: Cons without_nul_def)
  next
    case plain
    then have "esc_text s = esc_units s" by (auto simp: Cons)
    then show ?thesis by (simp add: units_back)
  qed
qed (simp add: unescape_Nil without_nul_def)

lemma unescape_escape_css: "unescape_css (escapeSelector s) = without_nul s"
  using text_back [of _ s] by (simp add: unescape_css_def replace_g_def escape_is unescape_from_def)

section \<open>An escaped text is an identifier\<close>

definition ident_piece :: re where
  "ident_piece =
     Alt (Cat backslash (Cat hex_digits (Opt white_re)))
    (Alt (Cat backslash (Cls not_newline)) (Alt (Cls ident_unit) (Cls (\<lambda>c. c > 127))))"

lemma ident_re_pieces: "ident_re = Cat ident_piece (Star ident_piece)"
  by (simp add: ident_re_def Plus_def ident_piece_def)

lemma piece_groups: "groups ident_piece = []"
  by (simp add: ident_piece_def backslash_def hex_digits_def Opt_def white_re_def numeral_eq_Suc)

text \<open>A text that is eaten piece by piece, by the first way each time.\<close>

inductive eaten :: "nat \<Rightarrow> jstr \<Rightarrow> bool" for n where
  nothing: "eaten n []"
| piece: "(\<And>c. \<exists>ys. ways n ident_piece (m @ t, c) = (t, c) # ys) \<Longrightarrow> m \<noteq> [] \<Longrightarrow> eaten n t \<Longrightarrow> eaten n (m @ t)"

lemma star_eats: "eaten n s \<Longrightarrow> length s \<le> k \<Longrightarrow> \<exists>ys. star_ways (ways n ident_piece) [] k (s, c) = ([], c) # ys"
proof (induction arbitrary: k rule: eaten.induct)
  case nothing
  show ?case
  proof (cases k)
    case (Suc i)
    have "ways n ident_piece ([], c) = []" by (simp add: ident_piece_def backslash_def)
    with Suc show ?thesis by simp
  qed simp
next
  case (piece m t)
  obtain ys where ys: "ways n ident_piece (m @ t, c) = (t, c) # ys" using piece(1) by blast
  obtain i where k: "k = Suc i" using piece.prems piece(2) by (cases k) auto
  have "length t \<le> i" using piece.prems piece(2) k by (cases m) auto
  with piece.IH obtain zs where "star_ways (ways n ident_piece) [] i (t, c) = ([], c) # zs" by blast
  with ys k piece(2) show ?case by simp
qed

lemma ident_eats:
  assumes "eaten n s" and "s \<noteq> []"
  shows "\<exists>ys. ways n ident_re (s, c) = ([], c) # ys"
  using assms
proof (cases rule: eaten.cases)
  case (piece m t)
  obtain ys where "ways n ident_piece (m @ t, c) = (t, c) # ys" using piece(2) by blast
  moreover obtain zs where "star_ways (ways n ident_piece) [] (length t) (t, c) = ([], c) # zs"
    using star_eats [OF piece(4)] by blast
  ultimately show ?thesis by (simp add: ident_re_pieces piece(1) piece_groups)
qed simp

lemma eats_hex:
  assumes "d < 128" and "eaten n t"
  shows "eaten n (in_hex d @ t)"
proof (rule eaten.piece)
  fix c
  obtain ys where "ways n (Cat backslash (Cat hex_digits (Opt white_re))) (in_hex d @ t, c) = (t, c) # ys"
    using escaped_hex [OF assms(1)] by blast
  then show "\<exists>ys. ways n ident_piece (in_hex d @ t, c) = (t, c) # ys" by (simp add: ident_piece_def)
qed (simp_all add: in_hex_def assms)

lemma eats_backslash:
  assumes "\<not> is_hex d" and "not_newline d" and "eaten n t"
  shows "eaten n (92 # d # t)"
  using eaten.piece [of n "[92, d]" t] assms unit_classes(9)
  by (simp add: ident_piece_def backslash_def hex_digits_def)

lemma eats_unit:
  assumes "ident_unit d \<or> d > 127" and "eaten n t"
  shows "eaten n (d # t)"
proof -
  have "d \<noteq> 92" using assms(1) unit_classes(9) by auto
  then show ?thesis
    using eaten.piece [of n "[d]" t] assms by (auto simp: ident_piece_def backslash_def)
qed

lemma eats_esc: "eaten n t \<Longrightarrow> eaten n (esc_unit d @ t)"
proof -
  assume t: "eaten n t"
  have c: "control_unit d \<Longrightarrow> d < 128" by (auto simp: control_unit_def word_less_nat_alt word_le_nat_alt)
  have x: "\<not> ident_unit d \<Longrightarrow> \<not> is_hex d" using unit_classes(8) by blast
  have w: "\<not> control_unit d \<Longrightarrow> not_newline d" by (auto simp: control_unit_def not_newline_def)
  show ?thesis
    using t eats_hex [OF c] eats_unit [of "0xFFFD" n t] eats_unit [of d n t] eats_backslash [OF x w]
    by (auto simp: esc_unit_def)
qed

lemma eats_units: "eaten n (esc_units s)"
  using eats_esc by (induction s) (auto simp: esc_units_def intro: eaten.nothing)

lemma eats_text: "eaten n (esc_text s)"
proof (cases s)
  case (Cons d t)
  consider (digit) "is_digit d" | (dash) "d = 45" "t = []" | (dash_digit) e u where "d = 45" "t = e # u" "is_digit e"
    | (plain) "\<not> is_digit d" "d = 45 \<longrightarrow> t \<noteq> [] \<and> \<not> is_digit (hd t)"
    by (cases t) auto
  then show ?thesis
  proof cases
    case digit
    then show ?thesis using digit_small [OF digit] eats_hex [OF _ eats_units] by (simp add: Cons)
  next
    case dash
    then show ?thesis
      using eats_backslash [OF _ _ eaten.nothing, of 45] unit_classes(7) by (simp add: Cons is_hex_def not_newline_def)
  next
    case dash_digit
    then show ?thesis
      using digit_small [of e] eats_unit [OF _ eats_hex [OF _ eats_units]] unit_classes(6,7) by (simp add: Cons)
  next
    case plain
    then have "esc_text s = esc_units s" by (auto simp: Cons)
    then show ?thesis by (simp add: eats_units)
  qed
qed (simp add: eaten.nothing)

lemma esc_text_not_empty: "s \<noteq> [] \<Longrightarrow> esc_text s \<noteq> []"
  by (cases s) (auto simp: in_hex_def esc_units_def esc_unit_def)

section \<open>It is read as one token\<close>

definition needs_unit :: "re \<Rightarrow> bool" where
  "needs_unit r \<longleftrightarrow> (\<forall>n c. ways n r ([], c) = [])"

lemma needs_unit_intros:
  "needs_unit (Cls p)" "needs_unit r \<Longrightarrow> needs_unit (Cat r q)" "needs_unit r \<Longrightarrow> needs_unit (Grp n r)"
  "needs_unit r \<Longrightarrow> needs_unit q \<Longrightarrow> needs_unit (Alt r q)"
  by (simp_all add: needs_unit_def)

lemma matchExpr_nothing: "exec_re (matchExpr ty) [] = None"
proof -
  have id: "needs_unit ident_re"
    unfolding ident_re_pieces ident_piece_def backslash_def by (intro needs_unit_intros)
  have ch: "needs_unit (chr_re d)" for d unfolding chr_re_def by (rule needs_unit_intros)
  have "needs_unit
     (if ty = js ''ID'' then Cat (lit ''#'') (Grp 1 ident_re)
      else if ty = js ''CLASS'' then Cat (lit ''.'') (Grp 1 ident_re)
      else if ty = js ''TAG'' then Grp 1 (Alt ident_re (lit ''*''))
      else if ty = js ''ATTR'' then attributes 0
      else if ty = js ''PSEUDO'' then pseudos
      else child_re)"
    unfolding attributes_def pseudos_def child_re_def lit.simps
    using id ch by (auto intro!: needs_unit_intros split: if_split)
  then show ?thesis unfolding matchExpr_def exec_anchored by (simp add: needs_unit_def)
qed

lemma filters_nothing: "filters_run f tys [] b ts = Some (Inr ([], b, ts))"
  by (induction tys) (simp_all add: matchExpr_nothing)

lemma cu_marks: "cu CHR ''#'' = 35" "cu CHR ''.'' = 46" "cu CHR '':'' = 58" "cu CHR ''['' = 91" "cu CHR ''*'' = 42"
  by code_simp+

lemma marks_rejected:
  assumes "d = 35 \<and> ty \<noteq> js ''ID'' \<or> d = 46 \<and> ty \<noteq> js ''CLASS''"
  shows "exec_re (matchExpr ty) (d # s) = None"
proof -
  let ?p = "\<lambda>e. e = d"
  have id: "rejects ?p ident_re"
    using assms by (intro rejects_ident) (auto simp: ident_unit_def is_digit_def)
  have ch: "rejects ?p (chr_re c)" if "c \<in> set '':[*''" for c
    using that assms unfolding chr_re_def by (intro rejects_Cls) (auto simp: cu_marks)
  have "rejects ?p (attributes 0)" "rejects ?p pseudos" "rejects ?p child_re" "rejects ?p (Grp 1 (Alt ident_re (lit ''*'')))"
    unfolding attributes_def pseudos_def child_re_def lit.simps
    by (intro rejects_Cat rejects_Grp rejects_Alt ch id; simp)+
  moreover have "rejects ?p (Cat (lit ''#'') (Grp 1 ident_re))" if "ty = js ''ID''"
    using assms that unfolding lit.simps chr_re_def cu_marks by (intro rejects_Cat rejects_Cls) auto
  moreover have "rejects ?p (Cat (lit ''.'') (Grp 1 ident_re))" if "ty = js ''CLASS''"
    using assms that unfolding lit.simps chr_re_def cu_marks by (intro rejects_Cat rejects_Cls) auto
  ultimately have "rejects ?p
     (if ty = js ''ID'' then Cat (lit ''#'') (Grp 1 ident_re)
      else if ty = js ''CLASS'' then Cat (lit ''.'') (Grp 1 ident_re)
      else if ty = js ''TAG'' then Grp 1 (Alt ident_re (lit ''*''))
      else if ty = js ''ATTR'' then attributes 0
      else if ty = js ''PSEUDO'' then pseudos
      else child_re)"
    by (simp split: if_split)
  then show ?thesis unfolding matchExpr_def exec_anchored by (simp add: rejects_def)
qed

lemma marks_combinator:
  assumes "d = 35 \<or> d = 46"
  shows "combinator_run (d # s) = (d # s, False, [])"
proof -
  have "ways (Suc (length s)) (Star white_re) (d # s, \<lambda>_. None) = [(d # s, \<lambda>_. None)]"
    using assms by (auto simp: white_re_def html_white_def)
  moreover have "d \<notin> cu ` set ''>+~'' \<and> \<not> html_white d" using assms by (auto simp: html_white_def)
  ultimately have "exec_re rcombinators (d # s) = None"
    unfolding rcombinators_def exec_anchored by (simp add: any_of_def white_re_def del: ways.simps(5))
  then show ?thesis by (simp add: combinator_run_def)
qed

lemma mark_matches:
  assumes "eaten (Suc (length s)) s" and "s \<noteq> []" and "d = 35 \<and> ty = js ''ID'' \<or> d = 46 \<and> ty = js ''CLASS''"
  shows "exec_re (matchExpr ty) (d # s) = Some (d # s, (\<lambda>_. None)(1 \<mapsto> s))"
proof -
  obtain ys where ys: "ways (Suc (length s)) ident_re (s, \<lambda>_. None) = ([], \<lambda>_. None) # ys"
    using ident_eats [OF assms(1,2)] by blast
  have "js ''CLASS'' \<noteq> js ''ID''" by (simp add: js_def)
  then have "matchExpr ty = Cat Bol (Cat (Cls (\<lambda>c. c = d)) (Grp 1 ident_re))"
    using assms(3) by (auto simp: matchExpr_def chr_re_def cu_marks)
  with ys show ?thesis by (simp add: exec_anchored)
qed

lemma mark_read:
  assumes "eaten (Suc (length s)) s" and "s \<noteq> []" and "d = 35 \<and> ty = js ''ID'' \<or> d = 46 \<and> ty = js ''CLASS''"
  shows "read_fresh (d # s) =
    Some (Inr ([], [[\<lparr>token_value = d # s, token_type = ty, token_args = [Text s]\<rparr>]]))"
proof -
  have tys: "distinct [js ''TAG'', js ''CLASS'', js ''ATTR'', js ''CHILD'', js ''PSEUDO'', js ''ID'']" by (simp add: js_def)
  have p: "preFilter f ty (d # s) ((\<lambda>_. None)(1 \<mapsto> s)) = Some (Inr (Some (d # s, [Text s])))" for f
    using assms(3) tys by (auto simp: preFilter_def targ_of_def)
  have f: "filters_run f filter_types (d # s) False [] =
      Some (Inr ([], True, [\<lparr>token_value = d # s, token_type = ty, token_args = [Text s]\<rparr>]))" for f
    using assms(3)
  proof
    assume m: "d = 35 \<and> ty = js ''ID''"
    then have "exec_re (matchExpr ty') (d # s) = None" if "ty' \<in> {js ''TAG'', js ''CLASS'', js ''ATTR'', js ''CHILD'', js ''PSEUDO''}" for ty'
      using that tys by (intro marks_rejected) auto
    with m p mark_matches [OF assms] show ?thesis by (simp add: filter_types_def)
  next
    assume m: "d = 46 \<and> ty = js ''CLASS''"
    then have "exec_re (matchExpr (js ''TAG'')) (d # s) = None" using tys by (intro marks_rejected) auto
    with m p mark_matches [OF assms] show ?thesis by (simp add: filter_types_def filters_nothing matchExpr_nothing)
  qed
  have "combinator_run (d # s) = (d # s, False, [])" using assms(3) by (intro marks_combinator) auto
  with f show ?thesis by (simp add: read_fresh_def comma_def push_token_def)
qed

text \<open>
  C15. A text that is not empty, escaped and put after \<open>#\<close> or \<open>.\<close>, is read in any history as one token, whose argument is
  the escaped text; and reading the escapes gives the text back, with zero units replaced.
\<close>

theorem escaped_is_one_token:
  assumes "s \<noteq> []" and "(d, ty) \<in> {(35, js ''ID''), (46, js ''CLASS'')}"
  shows "fst (tokenize (d # escapeSelector s) False (after_reads qs)) = Some (Inr (Groups
      [[\<lparr>token_value = d # escapeSelector s, token_type = ty, token_args = [Text (escapeSelector s)]\<rparr>]])) \<and>
    unescape_css (escapeSelector s) = map (\<lambda>c. if c = 0 then 0xFFFD else c) s"
  using mark_read [OF eats_text esc_text_not_empty [OF assms(1)], of d ty] assms(2) unescape_escape_css [of s]
    tokenize_sound [OF conjunct1 [OF after_reads_ok [of qs]], of "d # escapeSelector s" False]
  by (auto simp: escape_is without_nul_def)

theorem escaped_is_one_token_witness:
  "fst (tokenize (js ''#'' @ escapeSelector (js ''1.a'')) False (after_reads [(js ''a'', True)])) = Some (Inr (Groups
      [[\<lparr>token_value = js ''#'' @ escapeSelector (js ''1.a''), token_type = js ''ID'',
         token_args = [Text (escapeSelector (js ''1.a''))]\<rparr>]])) \<and>
    unescape_css (escapeSelector (js ''1.a'')) = js ''1.a''"
  using escaped_is_one_token [of "js ''1.a''" 35 "js ''ID''" "[(js ''a'', True)]"] by (simp add: js_def)

end
