(* ===== verification/JqSelect.thy ===== *)
theory JqSelect
  imports JqMatcherLaws JqEscapeLaws
begin

text \<open>
  \<open>html/jquery-3.6.1.js\<close>, from the text of a selector to its elements: what \<open>compile\<close> makes of the tokens that \<open>tokenize\<close>
  reads, and \<open>select\<close> with a given set of elements, which is how \<open>filter\<close>, \<open>is\<close> and \<open>not\<close> use it.  Each call compiles its
  selector anew: the compiled functions that the library keeps differ in the numbers of their caches only.  Tokens
  that the matchers of theory \<open>JqMatchers\<close> leave out give \<open>None\<close>; so does the name of a class with escapes, which
  the library puts into a regular expression as it is.
\<close>

definition child_of :: "targ list \<Rightarrow> child option" where
  "child_of args =
     (case args of
        Text t # Text what # _ # Number x # Number y # _ \<Rightarrow>
          if take 3 t = js ''nth'' then Some (Nth (drop (length t - 4) t \<noteq> js ''last'') (what = js ''of-type'') x y) else None
      | Text t # Text what # _ \<Rightarrow>
          map_option (\<lambda>g. Edge g (what = js ''of-type''))
            (map_of [(js ''first'', First_child), (js ''last'', Last_child), (js ''only'', Only_child)] t)
      | _ \<Rightarrow> None)"

definition text_of :: "targ \<Rightarrow> jstr" where
  "text_of a = (case a of Text t \<Rightarrow> t | _ \<Rightarrow> [])"

definition token_of :: "css_token \<Rightarrow> token option" where
  "token_of t =
     (case relative (token_type t) of
        Some r \<Rightarrow> Some (Relative r)
      | None \<Rightarrow>
          if token_type t = js ''CHILD'' then map_option CHILD (child_of (token_args t))
          else (case token_args t of
              [Text a] \<Rightarrow>
                if token_type t = js ''TAG'' then Some (TAG a)
                else if token_type t = js ''ID'' then Some (ID a)
                else if token_type t = js ''CLASS'' \<and> 92 \<notin> set a then Some (CLASS a)
                else None
            | [Text a, b] \<Rightarrow> if token_type t = js ''PSEUDO'' then Some (PSEUDO a (text_of b)) else None
            | [Text a, operator, Text v] \<Rightarrow> if token_type t = js ''ATTR'' then Some (ATTR a (text_of operator) v) else None
            | _ \<Rightarrow> None))"

definition tokens_of :: "groups_read \<Rightarrow> token list list option" where
  "tokens_of gs = those (map (\<lambda>ts. those (map token_of ts)) gs)"

definition select_seeded :: "'n sdom \<Rightarrow> 'n \<Rightarrow> bool \<Rightarrow> jstr \<Rightarrow> 'n list \<Rightarrow> 'n option \<Rightarrow> css_cache \<times> 'n sworld \<Rightarrow>
    'n list parse \<times> css_cache \<times> 'n sworld" where
  "select_seeded env doc is_xml selector seed ctx st =
     (case st of (c, w) \<Rightarrow>
        case tokenize selector False c of
          (Some (Inr (Groups gs)), c1) \<Rightarrow>
            (case tokens_of gs of
               None \<Rightarrow> (None, c1, w)
             | Some tss \<Rightarrow> (case ask env doc is_xml tss seed ctx w of (res, w1) \<Rightarrow> (Some (Inr res), c1, w1)))
        | (Some (Inl e), c1) \<Rightarrow> (Some (Inl e), c1, w)
        | (_, c1) \<Rightarrow> (None, c1, w))"

section \<open>An id is found by its escape\<close>

lemma escaped_tokens:
  assumes "s \<noteq> []"
  shows "fst (tokenize (35 # escapeSelector s) False (after_reads qs)) = Some (Inr (Groups
      [[\<lparr>token_value = 35 # escapeSelector s, token_type = js ''ID'', token_args = [Text (escapeSelector s)]\<rparr>]]))"
  using mark_read [OF eats_text esc_text_not_empty [OF assms], of 35 "js ''ID''"]
    tokenize_sound [OF conjunct1 [OF after_reads_ok [of qs]], of "35 # escapeSelector s" False]
  by (simp add: escape_is)

lemma id_token: "token_of \<lparr>token_value = v, token_type = js ''ID'', token_args = [Text a]\<rparr> = Some (ID a)"
  by (simp add: token_of_def relative_def js_def)

lemma kept_text: "0 \<notin> set s \<Longrightarrow> without_nul s = s"
  by (induction s) (auto simp: without_nul_def)

text \<open>
  C14. In every history of reads and queries, selecting by \<open>#\<close> and the escape of a text without zero units gives, of
  the elements it is asked about, exactly those whose id is the text.
\<close>

theorem escaped_id_selects:
  assumes "s \<noteq> []" and "0 \<notin> set s" and "reachable (\<lambda>w. w = no_queries) asked w" and "tree_like env"
    and "\<forall>e \<in> set seeds. is_element env e"
  shows "fst (select_seeded env doc is_xml (35 # escapeSelector s) seeds None (after_reads qs, w)) =
    Some (Inr (filter (\<lambda>e. attribute env e (js ''id'') = Some s) seeds))"
proof -
  let ?t = "ID (escapeSelector s)"
  have "fst (ask env doc is_xml [[?t]] seeds None w) = filter (\<lambda>e. \<exists>ts \<in> set [[?t]]. selects env (query_of doc is_xml None) (rev ts) e) seeds"
    by (rule ask_selects [OF assms(3,4) _ assms(5)]) (simp add: safe_token_def)
  also have "\<dots> = filter (\<lambda>e. attribute env e (js ''id'') = Some s) seeds"
    by (simp add: query_of_def id_filter_def unescape_escape_css kept_text [OF assms(2)])
  finally have a: "fst (ask env doc is_xml [[?t]] seeds None w) = filter (\<lambda>e. attribute env e (js ''id'') = Some s) seeds" .
  obtain c1 where "tokenize (35 # escapeSelector s) False (after_reads qs) = (Some (Inr (Groups
      [[\<lparr>token_value = 35 # escapeSelector s, token_type = js ''ID'', token_args = [Text (escapeSelector s)]\<rparr>]])), c1)"
    using escaped_tokens [OF assms(1)] by (metis prod.collapse)
  with a show ?thesis
    by (cases "ask env doc is_xml [[?t]] seeds None w") (simp add: select_seeded_def tokens_of_def id_token)
qed

definition named_doc :: "nat sdom" where
  "named_doc = sample_doc\<lparr>attribute := (\<lambda>x n. if x = 3 \<and> n = js ''id'' then Some (js ''1.a'') else None)\<rparr>"

lemma named_tree: "tree_like named_doc"
proof -
  have v: "visits named_doc = visits sample_doc" and k: "kids named_doc = kids sample_doc" by (simp_all add: named_doc_def)
  have p: "parent_of named_doc = parent_of sample_doc" unfolding parent_of_def [abs_def] v ..
  have "tree_like named_doc = tree_like sample_doc" unfolding tree_like_def v k p ..
  with sample_tree show ?thesis by blast
qed

theorem escaped_id_selects_witness:
  "fst (select_seeded named_doc 0 False (35 # escapeSelector (js ''1.a'')) [4, 3, 2] None
     (after_reads [(js ''b'', False)], no_queries)) = Some (Inr [3])"
proof -
  have f: "filter (\<lambda>e. attribute named_doc e (js ''id'') = Some (js ''1.a'')) [4, 3, 2] = [3]" by (simp add: named_doc_def)
  have n: "js ''1.a'' \<noteq> []" "0 \<notin> set (js ''1.a'')" by (simp_all add: js_def)
  have e: "\<forall>e \<in> set [4, 3, 2]. is_element named_doc e" by (simp add: named_doc_def sample_doc_def is_element_def)
  have r: "reachable (\<lambda>w. w = no_queries) asked no_queries" by (rule reachable.start) (rule refl)
  show ?thesis unfolding escaped_id_selects [OF n r named_tree e] f ..
qed

end
