(* ===== verification/JqTraversal.thy ===== *)
theory JqTraversal
  imports JqMatchers
begin

text \<open>
  \<open>html/jquery-3.6.1.js\<close>, walking the document from a set of elements: \<open>filter\<close>, \<open>not\<close>, \<open>is\<close>, \<open>has\<close>, \<open>find\<close>,
  \<open>closest\<close>, \<open>index\<close>, \<open>add\<close>, and the table of steps (\<open>parents\<close>, \<open>next\<close>, \<open>siblings\<close>, \<dots>), with the sort that keeps sets in
  document order (\<open>uniqueSort\<close>).

  The document is the parameter \<open>tdoc\<close>: the tree (theory \<open>JqMatchers\<close>), its order, and what the selector engine finds.
\<close>

section \<open>The document and its order\<close>

record 'n tdoc =
  tree :: "'n sdom"
  before :: "'n \<Rightarrow> 'n \<Rightarrow> bool"
  apart :: "'n \<Rightarrow> 'n \<Rightarrow> bool"
  preferred :: "'n \<Rightarrow> bool"
  noticed :: "'n list \<Rightarrow> bool"
  picks :: "jstr \<Rightarrow> 'n \<Rightarrow> bool"
  needsContext_text :: "jstr \<Rightarrow> bool"
  found_all :: "jstr \<Rightarrow> 'n list"
  found :: "jstr \<Rightarrow> 'n \<Rightarrow> 'n list"
  encloses :: "'n \<Rightarrow> 'n \<Rightarrow> bool"
  contentDocument :: "'n \<Rightarrow> 'n option"
  template_content :: "'n \<Rightarrow> 'n option"

text \<open>
  \<open>sortOrder\<close>, where nodes can be compared; nodes of different trees keep their order unless one is in the preferred
  document.
\<close>

definition sortOrder :: "'n tdoc \<Rightarrow> 'n \<Rightarrow> 'n \<Rightarrow> int" where
  "sortOrder env a b =
     (if a = b then 0
      else if apart env a b then (if preferred env a then -1 else if preferred env b then 1 else 0)
      else if before env a b then -1 else 1)"

text \<open>A stable sort, and the removal of equal neighbours where the comparison noticed equal nodes.\<close>

fun insert_by :: "('n \<Rightarrow> 'n \<Rightarrow> int) \<Rightarrow> 'n \<Rightarrow> 'n list \<Rightarrow> 'n list" where
  "insert_by cmp x [] = [x]"
| "insert_by cmp x (y # ys) = (if cmp x y \<le> 0 then x # y # ys else y # insert_by cmp x ys)"

definition sort_by :: "('n \<Rightarrow> 'n \<Rightarrow> int) \<Rightarrow> 'n list \<Rightarrow> 'n list" where
  "sort_by cmp xs = foldr (insert_by cmp) xs []"

fun duplicates :: "nat \<Rightarrow> 'n list \<Rightarrow> nat list" where
  "duplicates i (x # y # ys) = (if x = y then [Suc i] else []) @ duplicates (Suc i) (y # ys)"
| "duplicates i _ = []"

definition splice_out :: "nat \<Rightarrow> 'n list \<Rightarrow> 'n list" where
  "splice_out j xs = take j xs @ drop (Suc j) xs"

definition uniqueSort :: "'n tdoc \<Rightarrow> 'n list \<Rightarrow> 'n list" where
  "uniqueSort env results =
     (let rs = sort_by (sortOrder env) results in
      if noticed env results then fold splice_out (rev (duplicates 0 rs)) rs else rs)"

section \<open>Filters\<close>

datatype 'n qualifier = No_qualifier | By_text jstr | By_node 'n | By_nodes "'n list" | By_fun "'n \<Rightarrow> nat \<Rightarrow> bool"

definition element_in :: "'n tdoc \<Rightarrow> 'n \<Rightarrow> bool" where
  "element_in env e \<longleftrightarrow> is_element (tree env) e"

definition filter_text :: "'n tdoc \<Rightarrow> jstr \<Rightarrow> 'n list \<Rightarrow> bool \<Rightarrow> 'n list" where
  "filter_text env expr es neg =
     (let expr1 = (if neg then js '':not('' @ expr @ js '')'' else expr) in
      case es of
        [e] \<Rightarrow> if element_in env e then (if picks env expr1 e then [e] else []) else []
      | _ \<Rightarrow> filter (picks env expr1) (grep es (\<lambda>e _. element_in env e) False))"

definition winnow :: "'n tdoc \<Rightarrow> 'n list \<Rightarrow> 'n qualifier \<Rightarrow> bool \<Rightarrow> 'n list" where
  "winnow env es q neg =
     (case q of
        By_fun f \<Rightarrow> grep es (\<lambda>e i. f e i \<noteq> neg) False
      | By_node x \<Rightarrow> grep es (\<lambda>e _. (e = x) \<noteq> neg) False
      | By_nodes xs \<Rightarrow> grep es (\<lambda>e _. (e \<in> set xs) \<noteq> neg) False
      | By_text s \<Rightarrow> filter_text env s es neg
      | No_qualifier \<Rightarrow> grep es (\<lambda>e _. False \<noteq> neg) False)"

definition or_none :: "'n qualifier \<Rightarrow> 'n qualifier" where
  "or_none q = (case q of No_qualifier \<Rightarrow> By_nodes [] | By_text [] \<Rightarrow> By_nodes [] | _ \<Rightarrow> q)"

definition fn_filter :: "'n tdoc \<Rightarrow> 'n qualifier \<Rightarrow> 'n jqset \<Rightarrow> 'n jqset" where
  "fn_filter env q this = pushStack this (winnow env (elems this) (or_none q) False)"

definition fn_not :: "'n tdoc \<Rightarrow> 'n qualifier \<Rightarrow> 'n jqset \<Rightarrow> 'n jqset" where
  "fn_not env q this = pushStack this (winnow env (elems this) (or_none q) True)"

definition fn_is :: "'n tdoc \<Rightarrow> 'n qualifier \<Rightarrow> 'n list \<Rightarrow> bool" where
  "fn_is env q es =
     (let q1 = (case q of By_text s \<Rightarrow> if needsContext_text env s then By_nodes (found_all env s) else or_none q
                | _ \<Rightarrow> or_none q)
      in winnow env es q1 False \<noteq> [])"

text \<open>\<open>has\<close> with the elements that its target stands for.\<close>

definition fn_has :: "'n tdoc \<Rightarrow> 'n list \<Rightarrow> 'n jqset \<Rightarrow> 'n jqset" where
  "fn_has env targets this = fn_filter env (By_fun (\<lambda>e _. list_ex (encloses env e) targets)) this"

definition fn_find :: "'n tdoc \<Rightarrow> jstr + 'n list \<Rightarrow> 'n jqset \<Rightarrow> 'n jqset" where
  "fn_find env what this =
     (case what of
        Inr xs \<Rightarrow>
          pushStack this (elems (fn_filter env (By_fun (\<lambda>e _. list_ex (\<lambda>s. encloses env s e) (elems this))) (JQ xs None)))
      | Inl s \<Rightarrow>
          (let r = concat (map (found env s) (elems this)) in
           pushStack this (if length (elems this) > 1 then uniqueSort env r else r)))"

fun closest_from :: "('n \<Rightarrow> bool) \<Rightarrow> 'n option \<Rightarrow> 'n list \<Rightarrow> 'n option" where
  "closest_from ok ctx [] = None"
| "closest_from ok ctx (y # ys) = (if ctx = Some y then None else if ok y then Some y else closest_from ok ctx ys)"

definition fn_closest :: "'n tdoc \<Rightarrow> jstr + 'n list \<Rightarrow> 'n option \<Rightarrow> 'n jqset \<Rightarrow> 'n jqset" where
  "fn_closest env what ctx this =
     (let ok = (\<lambda>e. kind_of (tree env) e < 11 \<and> (case what of
                 Inr xs \<Rightarrow> e \<in> set xs
               | Inl s \<Rightarrow> element_in env e \<and> picks env s e));
          matched = (if (case what of Inl s \<Rightarrow> needsContext_text env s | Inr _ \<Rightarrow> False) then []
                     else List.map_filter (\<lambda>e. closest_from ok ctx (e # visits (tree env) ParentNode e)) (elems this))
      in pushStack this (if length matched > 1 then uniqueSort env matched else matched))"

definition fn_add :: "'n tdoc \<Rightarrow> 'n list \<Rightarrow> 'n jqset \<Rightarrow> 'n jqset" where
  "fn_add env xs this = pushStack this (uniqueSort env (merge (elems this) xs))"

definition fn_addBack :: "'n tdoc \<Rightarrow> jstr option \<Rightarrow> 'n jqset \<Rightarrow> 'n jqset" where
  "fn_addBack env s this =
     (let prev = (case prevObject this of None \<Rightarrow> [] | Some p \<Rightarrow>
                   (case s of None \<Rightarrow> elems p | Some t \<Rightarrow> elems (fn_filter env (By_text t) p)))
      in fn_add env prev this)"

section \<open>Steps\<close>

fun dir_from :: "'n tdoc \<Rightarrow> ('n \<Rightarrow> bool) option \<Rightarrow> 'n list \<Rightarrow> 'n list" where
  "dir_from env until [] = []"
| "dir_from env until (y # ys) =
     (if kind_of (tree env) y = 9 then []
      else if kind_of (tree env) y = 1 then
        (if (case until of None \<Rightarrow> False | Some u \<Rightarrow> u y) then [] else y # dir_from env until ys)
      else dir_from env until ys)"

definition dir :: "'n tdoc \<Rightarrow> direction \<Rightarrow> 'n qualifier \<Rightarrow> 'n \<Rightarrow> 'n list" where
  "dir env d until e =
     dir_from env (case until of No_qualifier \<Rightarrow> None | _ \<Rightarrow> Some (\<lambda>y. fn_is env until [y])) (visits (tree env) d e)"

definition siblings :: "'n tdoc \<Rightarrow> 'n list \<Rightarrow> 'n option \<Rightarrow> 'n list" where
  "siblings env ns e = filter (\<lambda>n. kind_of (tree env) n = 1 \<and> Some n \<noteq> e) ns"

fun sibling :: "'n tdoc \<Rightarrow> 'n list \<Rightarrow> 'n list" where
  "sibling env [] = []"
| "sibling env (y # ys) = (if kind_of (tree env) y \<noteq> 1 then sibling env ys else [y])"

definition step_parent :: "'n tdoc \<Rightarrow> 'n \<Rightarrow> 'n list" where
  "step_parent env e = (case parent_of (tree env) e of None \<Rightarrow> [] | Some p \<Rightarrow>
     if kind_of (tree env) p \<noteq> 11 then [p] else [])"

definition step_siblings :: "'n tdoc \<Rightarrow> 'n \<Rightarrow> 'n list" where
  "step_siblings env e = (case parent_of (tree env) e of None \<Rightarrow> [] | Some p \<Rightarrow> siblings env (kids (tree env) p) (Some e))"

definition step_contents :: "'n tdoc \<Rightarrow> 'n \<Rightarrow> 'n list" where
  "step_contents env e = (case contentDocument env e of
       Some d \<Rightarrow> [d]
     | None \<Rightarrow>
         (let e1 = (if lower_name (tree env) e = js ''template''
                    then (case template_content env e of None \<Rightarrow> e | Some c \<Rightarrow> c) else e)
          in merge [] (kids (tree env) e1)))"

definition steps :: "'n tdoc \<Rightarrow> 'n qualifier \<Rightarrow> jstr \<Rightarrow> ('n \<Rightarrow> 'n list) option" where
  "steps env until = map_of
     [(js ''parent'', step_parent env),
      (js ''parents'', dir env ParentNode No_qualifier),
      (js ''parentsUntil'', dir env ParentNode until),
      (js ''next'', \<lambda>e. sibling env (visits (tree env) NextSibling e)),
      (js ''prev'', \<lambda>e. sibling env (visits (tree env) PreviousSibling e)),
      (js ''nextAll'', dir env NextSibling No_qualifier),
      (js ''prevAll'', dir env PreviousSibling No_qualifier),
      (js ''nextUntil'', dir env NextSibling until),
      (js ''prevUntil'', dir env PreviousSibling until),
      (js ''siblings'', step_siblings env),
      (js ''children'', \<lambda>e. siblings env (kids (tree env) e) None),
      (js ''contents'', step_contents env)]"

definition rparentsprev :: re where
  "rparentsprev = Cat Bol (Alt (lit ''parents'') (Cat (lit ''prev'') (Alt (lit ''Until'') (lit ''All''))))"

definition guaranteedUnique :: "jstr \<Rightarrow> bool" where
  "guaranteedUnique name \<longleftrightarrow> name \<in> {js ''children'', js ''contents'', js ''next'', js ''prev''}"

definition traverse :: "'n tdoc \<Rightarrow> jstr \<Rightarrow> ('n \<Rightarrow> 'n list) \<Rightarrow> 'n qualifier \<Rightarrow> 'n qualifier \<Rightarrow> 'n jqset \<Rightarrow> 'n jqset" where
  "traverse env name fn until sel this =
     (let matched = concat (map fn (elems this));
          sel1 = (if drop (length name - 5) name \<noteq> js ''Until'' then until else sel);
          matched1 = (case sel1 of By_text s \<Rightarrow> if s \<noteq> [] then filter_text env s matched False else matched | _ \<Rightarrow> matched);
          matched2 = (if length (elems this) > 1 \<and> \<not> guaranteedUnique name then uniqueSort env matched1 else matched1);
          matched3 = (if length (elems this) > 1 \<and> search rparentsprev name \<noteq> None then rev matched2 else matched2)
      in pushStack this matched3)"

definition fn_step :: "'n tdoc \<Rightarrow> jstr \<Rightarrow> 'n qualifier \<Rightarrow> 'n qualifier \<Rightarrow> 'n jqset \<Rightarrow> 'n jqset option" where
  "fn_step env name until sel this =
     (case steps env until name of None \<Rightarrow> None | Some fn \<Rightarrow> Some (traverse env name fn until sel this))"

text \<open>The place of an element among its siblings, or in a set.\<close>

definition first_index :: "'n \<Rightarrow> 'n list \<Rightarrow> int" where
  "first_index e es = (if e \<in> set es then int (length (takeWhile (\<lambda>x. x \<noteq> e) es)) else -1)"

definition fn_index :: "'n tdoc \<Rightarrow> 'n qualifier \<Rightarrow> 'n jqset \<Rightarrow> int" where
  "fn_index env q this =
     (case (case q of By_text [] \<Rightarrow> No_qualifier | _ \<Rightarrow> q) of
        No_qualifier \<Rightarrow>
          (case elems this of
             e # _ \<Rightarrow> if parent_of (tree env) e \<noteq> None then int (length (dir env PreviousSibling No_qualifier e)) else -1
           | [] \<Rightarrow> -1)
      | By_text s \<Rightarrow> (case elems this of e # _ \<Rightarrow> first_index e (found_all env s) | [] \<Rightarrow> -1)
      | By_node x \<Rightarrow> first_index x (elems this)
      | By_nodes (x # _) \<Rightarrow> first_index x (elems this)
      | _ \<Rightarrow> -1)"

section \<open>The sort\<close>

text \<open>What the DOM says of the order of one document.\<close>

definition doc_ordered :: "'n tdoc \<Rightarrow> bool" where
  "doc_ordered env \<longleftrightarrow> (\<forall>a b. \<not> apart env a b) \<and> (\<forall>a. \<not> before env a a) \<and>
     (\<forall>a b c. before env a b \<longrightarrow> before env b c \<longrightarrow> before env a c) \<and> (\<forall>a b. a \<noteq> b \<longrightarrow> before env a b \<or> before env b a) \<and>
     (\<forall>xs. distinct xs \<or> noticed env xs) \<and>
     (\<forall>x. sorted_wrt (before env) (visits (tree env) NextSibling x)) \<and>
     (\<forall>x. sorted_wrt (\<lambda>a b. before env b a) (visits (tree env) PreviousSibling x)) \<and>
     (\<forall>x. sorted_wrt (\<lambda>a b. before env b a) (visits (tree env) ParentNode x)) \<and>
     (\<forall>p. sorted_wrt (before env) (kids (tree env) p))"

definition not_after :: "'n tdoc \<Rightarrow> 'n \<Rightarrow> 'n \<Rightarrow> bool" where
  "not_after env a b \<longleftrightarrow> a = b \<or> before env a b"

lemma sortOrder_le: "doc_ordered env \<Longrightarrow> sortOrder env a b \<le> 0 \<longleftrightarrow> not_after env a b"
  by (auto simp: sortOrder_def doc_ordered_def not_after_def)

lemma set_insert_by [simp]: "set (insert_by cmp x ys) = insert x (set ys)"
  by (induction ys) auto

lemma set_sort_by [simp]: "set (sort_by cmp xs) = set xs"
  unfolding sort_by_def by (induction xs) auto

lemma length_insert_by [simp]: "length (insert_by cmp x ys) = Suc (length ys)"
  by (induction ys) auto

lemma length_sort_by [simp]: "length (sort_by cmp xs) = length xs"
  unfolding sort_by_def by (induction xs) auto

lemma not_after_total: "doc_ordered env \<Longrightarrow> \<not> not_after env a b \<Longrightarrow> before env b a"
  by (auto simp: not_after_def doc_ordered_def)

lemma not_after_trans: "doc_ordered env \<Longrightarrow> not_after env a b \<Longrightarrow> not_after env b c \<Longrightarrow> not_after env a c"
  by (auto simp: not_after_def doc_ordered_def)

lemma insert_by_sorted:
  assumes "doc_ordered env"
  shows "sorted_wrt (not_after env) ys \<Longrightarrow> sorted_wrt (not_after env) (insert_by (sortOrder env) x ys)"
proof (induction ys)
  case (Cons y ys)
  show ?case
  proof (cases "not_after env x y")
    case True
    have "not_after env x z" if "z \<in> set ys" for z
      using Cons.prems that not_after_trans [OF assms True] by simp
    with True Cons.prems show ?thesis by (simp add: sortOrder_le [OF assms])
  next
    case False
    then have "not_after env y x" using not_after_total [OF assms False] by (simp add: not_after_def)
    with False Cons show ?thesis by (simp add: sortOrder_le [OF assms])
  qed
qed simp

lemma sort_by_sorted: "doc_ordered env \<Longrightarrow> sorted_wrt (not_after env) (sort_by (sortOrder env) xs)"
  unfolding sort_by_def by (induction xs) (auto intro: insert_by_sorted)

lemma duplicates_Suc: "duplicates (Suc i) xs = map Suc (duplicates i xs)"
  by (induction i xs rule: duplicates.induct) auto

lemma splice_Cons: "fold splice_out (map Suc ns) (x # xs) = x # fold splice_out ns xs"
  by (induction ns arbitrary: xs) (simp_all add: splice_out_def)

lemma remove_duplicates: "fold splice_out (rev (duplicates 0 xs)) xs = remdups_adj xs"
proof (induction xs rule: remdups_adj.induct)
  case (3 x y xs)
  have d: "fold splice_out (rev (duplicates 0 (x # y # xs))) (x # y # xs) =
      (if x = y then splice_out 1 else id) (x # fold splice_out (rev (duplicates 0 (y # xs))) (y # xs))"
    by (simp add: duplicates_Suc rev_map splice_Cons)
  show ?case
  proof (cases "x = y")
    case True
    have "remdups_adj (y # xs) \<noteq> []" "hd (remdups_adj (y # xs)) = y" by simp_all
    then obtain zs where zs: "remdups_adj (y # xs) = y # zs" by (cases "remdups_adj (y # xs)") auto
    have "fold splice_out (rev (duplicates 0 (x # y # xs))) (x # y # xs) = splice_out 1 (x # y # zs)"
      using d 3(1) [OF True] zs True by simp
    also have "\<dots> = remdups_adj (x # y # xs)" using True zs by (simp add: splice_out_def)
    finally show ?thesis .
  next
    case False
    with 3(2) [OF False] d show ?thesis by simp
  qed
qed simp_all

lemma remdups_sorted:
  assumes "doc_ordered env"
  shows "sorted_wrt (not_after env) xs \<Longrightarrow> sorted_wrt (before env) (remdups_adj xs)"
proof (induction xs rule: remdups_adj.induct)
  case (3 x y xs)
  show ?case
  proof (cases "x = y")
    case True
    with 3 show ?thesis by simp
  next
    case False
    have "before env x z" if z: "z \<in> set (y # xs)" for z
    proof -
      have "before env x y" "z = y \<or> not_after env y z" using 3(3) False z by (auto simp: not_after_def)
      then show ?thesis using assms unfolding not_after_def doc_ordered_def by blast
    qed
    with False 3 show ?thesis by simp
  qed
qed simp_all

lemma sorted_distinct: "doc_ordered env \<Longrightarrow> sorted_wrt (before env) xs \<Longrightarrow> distinct xs"
  by (induction xs) (auto simp: doc_ordered_def)

lemma distinct_strict: "sorted_wrt (not_after env) xs \<Longrightarrow> distinct xs \<Longrightarrow> sorted_wrt (before env) xs"
  by (induction xs) (auto simp: not_after_def)

lemma uniqueSort_ok:
  assumes "doc_ordered env"
  shows "sorted_wrt (before env) (uniqueSort env xs) \<and> distinct (uniqueSort env xs) \<and> set (uniqueSort env xs) = set xs"
proof (cases "noticed env xs")
  case True
  have "sorted_wrt (before env) (remdups_adj (sort_by (sortOrder env) xs))"
    by (rule remdups_sorted [OF assms sort_by_sorted [OF assms]])
  with True sorted_distinct [OF assms this] show ?thesis by (simp add: uniqueSort_def remove_duplicates)
next
  case False
  then have "distinct xs" using assms by (auto simp: doc_ordered_def)
  then have "distinct (sort_by (sortOrder env) xs)"
    by (metis card_distinct distinct_card length_sort_by set_sort_by)
  with distinct_strict [OF sort_by_sorted [OF assms]] False show ?thesis by (simp add: uniqueSort_def)
qed

section \<open>What the steps give\<close>

lemma grep_filter: "grep xs (\<lambda>e _. P e) False = filter P xs"
proof -
  have "grep_from i xs (\<lambda>e _. P e) False = filter P xs" for i
    by (induction xs arbitrary: i) auto
  then show ?thesis by (simp add: grep_def)
qed

lemma filter_text_filter: "filter_text env s es False = filter (\<lambda>e. element_in env e \<and> picks env s e) es"
  by (cases es rule: remdups_adj.cases) (auto simp: filter_text_def grep_filter intro: filter_cong)

definition wanted :: "'n tdoc \<Rightarrow> jstr \<Rightarrow> 'n qualifier \<Rightarrow> 'n qualifier \<Rightarrow> 'n \<Rightarrow> bool" where
  "wanted env name until sel x \<longleftrightarrow>
     (case (if drop (length name - 5) name \<noteq> js ''Until'' then until else sel) of
        By_text s \<Rightarrow> s = [] \<or> element_in env x \<and> picks env s x
      | _ \<Rightarrow> True)"

lemma traverse_elems:
  "elems (traverse env name fn until sel this) =
    (let m = filter (wanted env name until sel) (concat (map fn (elems this)));
         m2 = (if length (elems this) > 1 \<and> \<not> guaranteedUnique name then uniqueSort env m else m)
     in if length (elems this) > 1 \<and> search rparentsprev name \<noteq> None then rev m2 else m2)"
proof -
  have q: "(case q of By_text s \<Rightarrow> if s \<noteq> [] then filter_text env s xs False else xs | _ \<Rightarrow> xs) =
      filter (\<lambda>x. case q of By_text s \<Rightarrow> s = [] \<or> element_in env x \<and> picks env s x | _ \<Rightarrow> True) xs" for q xs
    by (cases q) (simp_all add: filter_text_filter)
  show ?thesis unfolding traverse_def pushStack_def merge_def Let_def wanted_def q by simp
qed

lemma dir_from_sorted:
  "sorted_wrt R ys \<Longrightarrow> sorted_wrt R (dir_from env until ys) \<and> set (dir_from env until ys) \<subseteq> set ys"
  by (induction ys) (auto simp: subset_iff)

text \<open>The methods whose steps are sorted, and the direction of their results.\<close>

definition direction_of :: "'n tdoc \<Rightarrow> jstr \<Rightarrow> 'n \<Rightarrow> 'n \<Rightarrow> bool" where
  "direction_of env name = (if search rparentsprev name = None then before env else (\<lambda>a b. before env b a))"

lemma backwards:
  "search rparentsprev (js ''parent'') = None" "search rparentsprev (js ''parents'') \<noteq> None"
  "search rparentsprev (js ''parentsUntil'') \<noteq> None" "search rparentsprev (js ''nextAll'') = None"
  "search rparentsprev (js ''prevAll'') \<noteq> None" "search rparentsprev (js ''nextUntil'') = None"
  "search rparentsprev (js ''prevUntil'') \<noteq> None" "search rparentsprev (js ''siblings'') = None"
  by code_simp+

lemma step_sorted:
  assumes "doc_ordered env" and "steps env until name = Some fn" and "\<not> guaranteedUnique name"
  shows "sorted_wrt (direction_of env name) (fn e)"
proof -
  have down: "sorted_wrt (before env) (visits (tree env) NextSibling e)" "sorted_wrt (before env) (kids (tree env) p)"
    and up: "sorted_wrt (\<lambda>a b. before env b a) (visits (tree env) PreviousSibling e)"
      "sorted_wrt (\<lambda>a b. before env b a) (visits (tree env) ParentNode e)" for p
    using assms(1) by (simp_all add: doc_ordered_def)
  have "sorted_wrt (before env) (step_siblings env e)"
    using sorted_wrt_filter [OF down(2)] by (simp add: step_siblings_def siblings_def split: option.split)
  moreover have "sorted_wrt R (step_parent env e)" for R
    by (simp add: step_parent_def split: option.split)
  ultimately show ?thesis
    using map_of_SomeD [OF assms(2) [unfolded steps_def]] assms(3)
      conjunct1 [OF dir_from_sorted [OF down(1)]] conjunct1 [OF dir_from_sorted [OF up(1)]]
      conjunct1 [OF dir_from_sorted [OF up(2)]] backwards
    by (auto simp: guaranteedUnique_def direction_of_def dir_def)
qed

text \<open>
  C17. Walking from a set with \<open>parent\<close>, \<open>parents\<close>, \<open>nextAll\<close>, \<open>prevAll\<close>, their variants that stop, or \<open>siblings\<close> gives
  each node that a step from one of the elements reaches and the selector accepts, once, in document order, or in reverse order
  for the methods that walk up or back.
\<close>

theorem traversal_sets:
  assumes "doc_ordered env" and "steps env until name = Some fn" and "\<not> guaranteedUnique name"
  shows "let r = elems (traverse env name fn until sel this) in
    set r = {x. wanted env name until sel x \<and> (\<exists>e \<in> set (elems this). x \<in> set (fn e))} \<and> distinct r \<and>
    sorted_wrt (direction_of env name) r"
proof -
  let ?m = "filter (wanted env name until sel) (concat (map fn (elems this)))"
  have m: "set ?m = {x. wanted env name until sel x \<and> (\<exists>e \<in> set (elems this). x \<in> set (fn e))}" by auto
  have dist: "distinct xs" if "sorted_wrt (direction_of env name) xs" for xs
    using that sorted_distinct [OF assms(1), of xs] sorted_distinct [OF assms(1), of "rev xs"]
    by (simp add: direction_of_def sorted_wrt_rev split: if_splits)
  show ?thesis
  proof (cases "length (elems this) > 1")
    case True
    note u = uniqueSort_ok [OF assms(1), of ?m]
    have r: "elems (traverse env name fn until sel this) =
        (if search rparentsprev name \<noteq> None then rev (uniqueSort env ?m) else uniqueSort env ?m)"
      using True assms(3) by (simp add: traverse_elems Let_def)
    have "sorted_wrt (direction_of env name) (elems (traverse env name fn until sel this))"
    proof (cases "search rparentsprev name = None")
      case True
      with u show ?thesis unfolding r direction_of_def by (simp only: True not_True_eq_False if_True if_False simp_thms)
    next
      case False
      with u show ?thesis unfolding r direction_of_def
        by (simp only: False not_False_eq_True if_True if_False sorted_wrt_rev)
    qed
    moreover have "set (elems (traverse env name fn until sel this)) = set ?m" using u unfolding r by simp
    ultimately show ?thesis using dist m unfolding Let_def by simp
  next
    case False
    then have r: "elems (traverse env name fn until sel this) = ?m" by (simp add: traverse_elems Let_def)
    have "sorted_wrt (direction_of env name) (concat (map fn (elems this)))"
      using False step_sorted [OF assms] by (cases "elems this") auto
    then have "sorted_wrt (direction_of env name) ?m" by (rule sorted_wrt_filter)
    with dist [OF this] m show ?thesis unfolding Let_def r by blast
  qed
qed

definition sample_walk :: "nat tdoc" where
  "sample_walk =
    \<lparr>tree = \<lparr>visits = (\<lambda>d x. if x \<in> {2, 3, 4, 5} then
                  (case d of ParentNode \<Rightarrow> [1] | NextSibling \<Rightarrow> [Suc x..<6] | PreviousSibling \<Rightarrow> rev [2..<x]) else []),
             kind_of = (\<lambda>_. 1), lower_name = (\<lambda>_. js ''p''), kids = (\<lambda>x. if x = 1 then [2..<6] else []),
             attribute = (\<lambda>_ _. None), class_text = (\<lambda>_. []), pseudo = (\<lambda>_ _ _. False)\<rparr>,
     before = (<), apart = (\<lambda>_ _. False), preferred = (\<lambda>_. True), noticed = (\<lambda>xs. \<not> distinct xs),
     picks = (\<lambda>_ x. x \<noteq> 4), needsContext_text = (\<lambda>_. False), found_all = (\<lambda>_. []), found = (\<lambda>_ _. []),
     encloses = (\<lambda>a b. a = 1 \<and> b \<in> {2, 3, 4, 5}), contentDocument = (\<lambda>_. None), template_content = (\<lambda>_. None)\<rparr>"

lemma sorted_wrt_flip: "sorted_wrt (\<lambda>a b. b < a) (rev [2..<x :: nat])"
  by (simp add: sorted_wrt_rev)

lemma sample_ordered: "doc_ordered sample_walk"
  unfolding doc_ordered_def sample_walk_def by (auto simp: sorted_wrt_flip)

theorem traversal_sets_witness:
  "let r = elems (traverse sample_walk (js ''prevAll'') (dir sample_walk PreviousSibling No_qualifier) (By_text (js ''p''))
      No_qualifier (JQ [4, 5] None)) in
    set r = {x. wanted sample_walk (js ''prevAll'') (By_text (js ''p'')) No_qualifier x \<and>
       (\<exists>e \<in> {4, 5}. x \<in> set (dir sample_walk PreviousSibling No_qualifier e))} \<and> distinct r \<and>
    sorted_wrt (direction_of sample_walk (js ''prevAll'')) r"
proof -
  have s: "steps sample_walk (By_text (js ''p'')) (js ''prevAll'') = Some (dir sample_walk PreviousSibling No_qualifier)"
    by (simp add: steps_def js_def)
  have g: "\<not> guaranteedUnique (js ''prevAll'')" by (simp add: guaranteedUnique_def js_def)
  show ?thesis
    using traversal_sets [OF sample_ordered s g, of No_qualifier "JQ [4, 5] None"] by simp
qed

theorem sample_prevAll:
  "fn_step sample_walk (js ''prevAll'') (By_text (js ''p'')) No_qualifier (JQ [4, 5] None) =
    Some (JQ [3, 2] (Some (JQ [4, 5] None)))"
  by code_simp
end
