(* ===== verification/Spec2Isabelle.thy ===== *)
theory Spec2Isabelle
  imports ClientTypes CrashView UnitTests JqTransports JqQueue JqAttributes JqThen JqDispatch JqSelect JqTraversal
begin

text \<open>
  A verification library for the JavaScript of the JSON server adapter's web pages (\<open>src/html\<close>).

  The program.  \<open>index.html\<close> is a test client for the server: \<open>interactive.js\<close> builds a form for a
  function of the server's API (table \<open>Param2Form\<close>), reads it back (table \<open>Form2Param\<close>), posts
  the call as JSON-RPC and shows the response; it also generates the function reference
  (\<open>create_doc\<close>).  \<open>logview.html\<close> and \<open>crashview.html\<close> show log files and crash dumps as tables
  (\<open>logview.js\<close>, \<open>crashview.js\<close>).  \<open>unittests.js\<close> and \<open>test-encode-decode.js\<close> are tests run from
  the page.  The pages use the copy of jQuery that is kept beside them (\<open>jquery-3.6.1.js\<close>).

  The theories, in the order they build on each other:
  \<^item> \<open>JsPrelude\<close>: strings of 16-bit code units, handlers (state passing with thrown errors as a sum
    type, keeping the writes made before a throw), triples and invariants of handlers, numerals,
    and the interfaces as locales: \<open>line_table\<close> (loops that append rows), \<open>machine\<close> (invariants of
    event systems), \<open>table\<close> and \<open>list_table\<close> (dictionaries and arrays), \<open>reader\<close> (handlers that only
    read).
  \<^item> \<open>JsValue\<close>, \<open>JsRegExp\<close>: what the sources use of the language and its library: values,
    conversions, \<open>JSON.stringify\<close>, \<open>parseInt\<close>, \<open>split\<close>, and a backtracking matcher for the regular
    expressions, with lemmas that compute matches of chains of character runs.
  \<^item> \<open>Escapes\<close>: \<open>fromHex\<close>, \<open>de_backslash\<close>, \<open>arrayToBase64\<close>, \<open>sprintf\<close>, \<open>pc\<close>.
  \<^item> \<open>Page\<close>, \<open>FormWriter\<close>, \<open>FormReader\<close>, \<open>TestClient\<close>, \<open>DocGen\<close>: the state of the test client (record
    \<open>app\<close>: the script's globals, the document, what was handed to the browser) and every function of
    \<open>interactive.js\<close>, under its own name.
  \<^item> \<open>FormLaws\<close>: the contract between the two tables (what a form offers is what is read back) and the
    runs of \<open>prepare_call\<close>, \<open>button_click\<close> and the string-list editor.
  \<^item> \<open>CallCycle\<close>, \<open>ClientEvents\<close>: the properties of a call and of all histories of events.
  \<^item> \<open>ClientTypes\<close>: a typing judgement for the values of parameters, and that everything posted obeys it.
  \<^item> \<open>LogView\<close>, \<open>CrashView\<close>: the two viewers, with the properties of their tables and buttons.
  \<^item> \<open>UnitTests\<close>: the page's tests.

  The theories of jQuery:
  \<^item> \<open>JqCore\<close>: the values the library passes around (with functions, regular expressions and nodes), \<open>extend\<close>,
    \<open>each\<close>, \<open>map\<close>, \<open>grep\<close>, \<open>merge\<close>, \<open>makeArray\<close>, and the sets of elements with the stack behind \<open>end\<close>.
  \<^item> \<open>JqCallbacks\<close>: callback lists (record \<open>cblist\<close>: the variables of one \<open>jQuery.Callbacks\<close>) and the machine
    that lets callbacks use the lists while they fire.  Shown: the order of the calls, what a list remembers, and that
    all calls of a list that fires once carry one argument.
  \<^item> \<open>JqDeferred\<close>, \<open>JqSettle\<close>, \<open>JqThen\<close>: deferreds over these lists (record \<open>dworld\<close>: lists, states, timers and
    the counters of \<open>when\<close>), with \<open>then\<close>, \<open>pipe\<close>, \<open>when\<close> and \<open>ready\<close>.  \<open>JqSettle\<close> shows that a deferred settles
    once, \<open>JqThen\<close> that handlers of \<open>then\<close> run from timers only and what they do to the deferred that \<open>then\<close> makes.
  \<^item> \<open>JqAjaxParts\<close>, \<open>JqAjax\<close>, \<open>JqTransports\<close>: query strings, settings, prefilters and transports, headers, the
    conversion of responses; a request (record \<open>request\<close>: the variables of one call of \<open>jQuery.ajax\<close>) from its options
    to its callbacks on a page with several requests (record \<open>ajax_page\<close>); the transports and prefilters that come with
    the library.  Shown: conversions end under named conditions and do not otherwise, a request settles once, the
    first event of a transport decides, JSONP restores the page's globals.
  \<^item> \<open>JqData\<close>, \<open>JqQueue\<close>, \<open>JqAttributes\<close>: the data of elements as a map (class \<open>Data\<close>), queues of functions kept in
    it, and attributes, properties, classes and values.  Shown: refinements of these to maps, lists and lists of words.

  \<^item> \<open>JqEvents\<close>, \<open>JqEventLaws\<close>, \<open>JqNamespaces\<close>, \<open>JqDispatch\<close>: \<open>on\<close>, \<open>one\<close>, \<open>off\<close>, \<open>trigger\<close> and what they are made of
    in \<open>jQuery.event\<close> (record \<open>evworld\<close>: the handler lists of the elements, what they listen to, the unique numbers of
    functions, the event objects), with a machine whose stack holds what is left to run.  \<open>JqEventLaws\<close> shows the
    shape of the handler lists in every history and what \<open>off\<close> takes away, \<open>JqNamespaces\<close> that the regular
    expression of a namespaced event decides the inclusion of its namespaces, \<open>JqDispatch\<close> which handlers a
    dispatch calls, in which order, and where stopping ends it.

  \<^item> \<open>JqCssText\<close>: the regular expressions for the parts of selectors, their escapes, and \<open>Sizzle.escape\<close>.
  \<^item> \<open>JqMatchers\<close>, \<open>JqMatcherLaws\<close>: the matchers of the selector engine (record \<open>sworld\<close>: the arrays that
    combinators share between the elements they pass, the positions kept at parents and elements, the counters of
    runs and names).  Shown: with all its caches a query takes the elements that the selectors accept when they are read
    over the document, whatever ran before, and where positions from the end fail.
  \<^item> \<open>JqTokens\<close>, \<open>JqTokenLaws\<close>, \<open>JqEscapeLaws\<close>: \<open>tokenize\<close>, which reads a selector into groups of tokens, with its
    cache (record \<open>css_cache\<close>), its nested runs and its errors.  Shown: every run ends, the tokens are the selector
    again, the cache changes no result and stays small, an escaped text is read as one token and its escapes give
    the text back.
  \<^item> \<open>JqSelect\<close>: from the text of a selector over its tokens to the elements it takes.
  \<^item> \<open>JqTraversal\<close>: the sort of sets (\<open>uniqueSort\<close>), \<open>filter\<close>, \<open>is\<close>, \<open>closest\<close>, \<open>index\<close> and the table of steps behind
    \<open>parents\<close>, \<open>next\<close> and the like.  Shown: what a step from a set gives, without repetition and in which order.

  Parameters of the model.  The browser's HTML parser is \<open>render\<close>: given the markup assigned to an
  element, the element it creates for an id; where a property needs it, \<open>honest render\<close> says that an
  id attribute in the markup yields an element, which is what the HTML standard documents.  The
  generated file \<open>pEp_functions.js\<close> is the record \<open>server_js\<close>.  \<open>JSON.parse\<close> is the argument \<open>parse\<close>
  of the failure callback; which class selectors the browser accepts is \<open>css_ok\<close>.  Random numbers
  are a sequence.  In the theories of jQuery the functions of the page are parameters too: \<open>call\<close> gives for a function
  and its arguments what it returns or throws, \<open>body\<close> and \<open>user\<close> give what a callback does with lists and
  deferreds before it returns or throws, \<open>hook\<close> what the functions of a page do with a request before it is sent; the
  answers of the browser's request object are lists of events.  \<open>promise_of\<close> says which value is the promise of
  which deferred.  The document that events walk through, its selectors and its native methods are functions in record
  \<open>ev_env\<close>; \<open>special_of\<close> is the table of special event types there, whose entries in the library are
  \<open>library_special\<close>.  The document that sets are walked in, its order and what the selector engine finds in it are
  record \<open>tdoc\<close>; where order matters, \<open>doc_ordered\<close> says that it is a tree whose nodes the browser can compare.

  Bounds.  Loops of the source that end for every input are total functions.  The conversion of a response can run for
  ever, so \<open>convert_loop\<close> gives an option and its end is a property; the inspection of prefilters and the
  reading of selectors take fuel, and that it is enough is shown; firing the list of a queue's hooks takes one more round than it
  has functions, since each round takes one away; \<open>extend\<close> and the flattening of query strings recur over values.  Histories are
  inductive and unbounded.

  Not modelled: the server (C++), the minified copy of jQuery, the pages' markup, numbers other
  than integers and NaN, types of a parameter named like a member of \<open>Object.prototype\<close>, the order
  in which the browser fires events (every order is allowed).  Of jQuery: objects are values, so an object that contains
  itself does not occur and sharing is written out where the code relies on it; changes of case are those of ASCII; keys
  that are members of \<open>Object.prototype\<close> are not used; attributes that the browser mirrors in properties are two
  stores; the contexts \<open>this\<close> of the calls of deferreds and thenables that are not promises are left out.  Of
  events: the native clicks and focus changes that a trigger causes, default actions (that one is called is noted),
  hooks that change handlers and handler objects are left out, and a namespace stands for itself in a regular expression.  Of
  selectors: sets of matchers, nested runs and native queries.  The manipulation of the document, styles, effects, dimensions,
  script evaluation and \<open>delay\<close> are left out: they work on the live document and its layout.
\<close>

end
